(* ===== verification/Prelude.thy ===== *)
theory Prelude
  imports Main "HOL-Library.Word"
begin

text \<open>
  The vocabulary shared by every component of the Mink development: machine integers at
  their C width, the byte-addressed store behind the kernel's pointers, the ways a kernel
  function can fail to return, and the generic lemmas on words, results and memory regions
  that the component proofs use.
\<close>

unbundle bit_operations_syntax

section \<open>Machine integers and the store\<close>

text \<open>
  The kernel is built for i686 with \<^verbatim>\<open>int\<close>, \<^verbatim>\<open>unsigned\<close>, \<^verbatim>\<open>size_t\<close> and pointers of 32
  bits. The kernel's data lives in one byte-addressed store; a pointer is a 32-bit word.
\<close>

type_synonym u8 = "8 word"
type_synonym u16 = "16 word"
type_synonym u32 = "32 word"
type_synonym u64 = "64 word"

type_synonym mem = "u32 \<Rightarrow> u8"

named_theorems res_simps \<open>evaluation of results that may be faults\<close>
named_theorems mem_simps \<open>reading the store after a write\<close>

section \<open>Results\<close>

text \<open>
  A kernel function returns, or it stops the kernel: \<open>Panic\<close> is a call of \<^verbatim>\<open>panic()\<close> (a
  failed \<^verbatim>\<open>assert\<close> is one, the kernel is built with \<^verbatim>\<open>MINK_ASSERTIONS\<close>), \<open>Hang\<close> is a loop
  that never ends, and \<open>Undefined\<close> is behaviour the C standard leaves undefined (an array
  access outside its bounds, an undefined builtin).
\<close>

datatype fault = Panic string | Hang | Undefined string

type_synonym 'a res = "fault + 'a"

definition bind_res :: "'a res \<Rightarrow> ('a \<Rightarrow> 'b res) \<Rightarrow> 'b res" where
  "bind_res r f = (case r of Inl e \<Rightarrow> Inl e | Inr x \<Rightarrow> f x)"

definition assert_res :: "bool \<Rightarrow> string \<Rightarrow> unit res" where
  "assert_res b msg = (if b then Inr () else Inl (Panic msg))"

lemma bind_res_Inl [simp, res_simps]: "bind_res (Inl e) f = Inl e"
  by (simp add: bind_res_def)

lemma bind_res_Inr [simp, res_simps]: "bind_res (Inr x) f = f x"
  by (simp add: bind_res_def)

lemma bind_res_eq_Inr: "bind_res r f = Inr y \<longleftrightarrow> (\<exists>x. r = Inr x \<and> f x = Inr y)"
  by (cases r) auto

lemma bind_res_eq_Inl:
  "bind_res r f = Inl e \<longleftrightarrow> r = Inl e \<or> (\<exists>x. r = Inr x \<and> f x = Inl e)"
  by (cases r) auto

lemma bind_res_assoc: "bind_res (bind_res r f) g = bind_res r (\<lambda>x. bind_res (f x) g)"
  by (cases r) auto

lemma bind_res_cong [fundef_cong]:
  "r = r' \<Longrightarrow> (\<And>x. r' = Inr x \<Longrightarrow> f x = f' x) \<Longrightarrow> bind_res r f = bind_res r' f'"
  by (cases r') auto

lemma assert_res_True [simp, res_simps]: "assert_res True msg = Inr ()"
  by (simp add: assert_res_def)

lemma assert_res_False [simp, res_simps]: "assert_res False msg = Inl (Panic msg)"
  by (simp add: assert_res_def)

section \<open>Lists\<close>

lemma find_exists: "P x \<Longrightarrow> x \<in> set xs \<Longrightarrow> \<exists>y. find P xs = Some y"
  by (induction xs) auto

lemma find_SomeD: "find P xs = Some x \<Longrightarrow> x \<in> set xs \<and> P x"
  by (auto simp: find_Some_iff)

section \<open>Sets\<close>

lemma UN_replace:
  assumes "r \<in> I" "\<And>q. q \<in> I \<Longrightarrow> q \<noteq> r \<Longrightarrow> G q = F q" "\<And>q. q \<in> I \<Longrightarrow> q \<noteq> r \<Longrightarrow> F q \<inter> F r = {}"
  shows "(\<Union>q\<in>I. G q) = (\<Union>q\<in>I. F q) - F r \<union> G r"
proof -
  have "(\<Union>q\<in>I. G q) = (\<Union>q\<in>I - {r}. F q) \<union> G r" using assms(1,2) by auto
  moreover have "(\<Union>q\<in>I - {r}. F q) = (\<Union>q\<in>I. F q) - F r" using assms(1,3) by blast
  ultimately show ?thesis by simp
qed

section \<open>Words\<close>

lemma unat_of_nat_small: "k < 2 ^ LENGTH('a::len) \<Longrightarrow> unat (of_nat k :: 'a word) = k"
  by (simp add: unat_of_nat take_bit_nat_eq_self)

lemma unat_of_nat_u32 [simp]: "k < 4294967296 \<Longrightarrow> unat (of_nat k :: u32) = k"
  using unat_of_nat_small [of k, where 'a = 32] by simp

lemma unat_of_nat_u64 [simp]: "k < 18446744073709551616 \<Longrightarrow> unat (of_nat k :: u64) = k"
  using unat_of_nat_small [of k, where 'a = 64] by simp

lemma unat_u32_less: "unat (x :: u32) < 4294967296"
  using unsigned_less [of x] by simp

lemma unat_u64_less: "unat (x :: u64) < 18446744073709551616"
  using unsigned_less [of x] by simp

lemma of_nat_eq_u32:
  "a < 4294967296 \<Longrightarrow> b < 4294967296 \<Longrightarrow> (of_nat a :: u32) = of_nat b \<longleftrightarrow> a = b"
  using unat_of_nat_u32 by metis

lemma unat_drop_bit: "unat (drop_bit n (x :: 'a::len word)) = unat x div 2 ^ n"
  by (metis drop_bit_eq_div unat_drop_bit_eq)

lemma unat_push_bit:
  "unat x * 2 ^ n < 2 ^ LENGTH('a) \<Longrightarrow> unat (push_bit n (x :: 'a::len word)) = unat x * 2 ^ n"
  using unsigned_push_bit_eq [of n x] push_bit_eq_mult [of n "unat x"]
  by (metis take_bit_nat_eq_self)

lemma unat_ucast_small:
  "unat x < 2 ^ LENGTH('b) \<Longrightarrow> unat (ucast (x :: 'a::len word) :: 'b::len word) = unat x"
  by (simp add: unsigned_ucast_eq take_bit_nat_eq_self)

section \<open>Regions of the store\<close>

text \<open>\<open>region p n\<close> is the set of the \<open>n\<close> byte addresses from \<open>p\<close> on.\<close>

definition region :: "u32 \<Rightarrow> nat \<Rightarrow> u32 set" where
  "region p n = (\<lambda>k. p + of_nat k) ` {..<n}"

definition same_outside :: "u32 set \<Rightarrow> mem \<Rightarrow> mem \<Rightarrow> bool" where
  "same_outside A m m' \<longleftrightarrow> (\<forall>a. a \<notin> A \<longrightarrow> m' a = m a)"

lemma region_0 [simp]: "region p 0 = {}"
  by (simp add: region_def)

lemma region_Suc: "region p (Suc n) = insert p (region (p + 1) n)"
proof -
  have "{..<Suc n} = insert 0 (Suc ` {..<n})"
    by (auto simp: image_iff less_Suc_eq_0_disj)
  then show ?thesis
    by (auto simp: region_def image_image add.assoc)
qed

lemma region_memI: "k < n \<Longrightarrow> p + of_nat k \<in> region p n"
  by (auto simp: region_def)

lemma region_mono: "n \<le> n' \<Longrightarrow> region p n \<subseteq> region p n'"
  by (auto simp: region_def)

lemma region_split: "region p (n + k) = region p n \<union> region (p + of_nat n) k"
proof (induction n arbitrary: p)
  case 0
  then show ?case by simp
next
  case (Suc n)
  then show ?case by (simp add: region_Suc add.assoc)
qed

lemma region_offset_eq:
  "i < 4294967296 \<Longrightarrow> j < 4294967296 \<Longrightarrow> (p :: u32) + of_nat i = p + of_nat j \<longleftrightarrow> i = j"
  by (simp add: of_nat_eq_u32)

lemma region_mem_iff:
  "n \<le> 4294967296 \<Longrightarrow> a \<in> region p n \<longleftrightarrow> unat (a - p) < n"
proof
  assume n: "n \<le> 4294967296"
  {
    assume "a \<in> region p n"
    then obtain k where "k < n" "a = p + of_nat k" by (auto simp: region_def)
    with n show "unat (a - p) < n" by simp
  }
  assume *: "unat (a - p) < n"
  have "a = p + of_nat (unat (a - p))" by simp
  with * show "a \<in> region p n" by (metis region_memI)
qed

lemma region_sub: "i + n \<le> k \<Longrightarrow> region (p + of_nat i) n \<subseteq> region p k"
  using region_split [of p i n] region_mono [of "i + n" k p] by auto

text \<open>Two regions that follow one another in a block of at most \<open>2 ^ 32\<close> bytes are disjoint.\<close>

lemma region_disjoint_offset:
  assumes "i + n \<le> j" "j + k \<le> 4294967296"
  shows "region (p + of_nat i) n \<inter> region (p + of_nat j) k = {}"
proof -
  have "p + of_nat (i + a) \<noteq> p + of_nat (j + b)" if "a < n" "b < k" for a b
    using that assms by (subst region_offset_eq) auto
  then show ?thesis
    by (auto simp: region_def add.assoc)
qed

lemma same_outside_refl [simp]: "same_outside A m m"
  by (simp add: same_outside_def)

lemma same_outside_trans:
  "same_outside A m m' \<Longrightarrow> same_outside A m' m'' \<Longrightarrow> same_outside A m m''"
  by (simp add: same_outside_def)

lemma same_outside_mono: "same_outside A m m' \<Longrightarrow> A \<subseteq> B \<Longrightarrow> same_outside B m m'"
  by (auto simp: same_outside_def)

lemma same_outside_upd: "a \<in> A \<Longrightarrow> same_outside A m (m(a := v))"
  by (simp add: same_outside_def)

lemma same_outsideD: "same_outside A m m' \<Longrightarrow> a \<notin> A \<Longrightarrow> m' a = m a"
  by (simp add: same_outside_def)

section \<open>Words in the store\<close>

text \<open>A 32-bit object at an address, low byte first, as the processor reads and writes it.\<close>

definition load32 :: "mem \<Rightarrow> u32 \<Rightarrow> u32" where
  "load32 m a = ucast (m a) OR push_bit 8 (ucast (m (a + 1))) OR
     push_bit 16 (ucast (m (a + 2))) OR push_bit 24 (ucast (m (a + 3)))"

definition store32 :: "mem \<Rightarrow> u32 \<Rightarrow> u32 \<Rightarrow> mem" where
  "store32 m a v = m(a := ucast v, a + 1 := ucast (drop_bit 8 v),
     a + 2 := ucast (drop_bit 16 v), a + 3 := ucast (drop_bit 24 v))"

lemma region_4: "region a 4 = {a, a + 1, a + 2, a + 3}"
proof -
  have "{..<4 :: nat} = {0, 1, 2, 3}" by auto
  then show ?thesis by (simp add: region_def)
qed

lemma load32_store32 [simp, mem_simps]: "load32 (store32 m a v) a = v"
proof (rule bit_word_eqI)
  fix n assume "n < LENGTH(32)"
  then have "n < 32" by simp
  then have "n < 8 \<or> (8 \<le> n \<and> n < 16) \<or> (16 \<le> n \<and> n < 24) \<or> (24 \<le> n \<and> n < 32)" by arith
  then show "bit (load32 (store32 m a v) a) n = bit v n"
    by (auto simp: load32_def store32_def bit_simps)
qed

lemma store32_same_outside: "same_outside (region a 4) m (store32 m a v)"
  by (auto simp: same_outside_def store32_def region_4)

lemma load32_cong: "(\<And>b. b \<in> region a 4 \<Longrightarrow> m' b = m b) \<Longrightarrow> load32 m' a = load32 m a"
  by (simp add: load32_def region_4)

lemma load32_frame:
  assumes "same_outside A m m'" "region a 4 \<inter> A = {}"
  shows "load32 m' a = load32 m a"
  using assms by (intro load32_cong) (auto simp: same_outside_def)

end
