(* ===== verification/Sys.thy ===== *)
theory Sys
  imports Prelude
begin

text \<open>
  The memory primitives of \<^verbatim>\<open>sys.c\<close>. Each C function walks one or two pointers with a
  \<^verbatim>\<open>while (n--)\<close> loop; the model recurses on the byte count. The C functions return their
  first argument, which no caller reads: the models return the store.
\<close>

section \<open>memcpy, memset, memsetw\<close>

fun memcpy :: "mem \<Rightarrow> u32 \<Rightarrow> u32 \<Rightarrow> nat \<Rightarrow> mem" where
  "memcpy m dp sp 0 = m"
| "memcpy m dp sp (Suc n) = memcpy (m(dp := m sp)) (dp + 1) (sp + 1) n"

fun memset :: "mem \<Rightarrow> u32 \<Rightarrow> u32 \<Rightarrow> nat \<Rightarrow> mem" where
  "memset m p c 0 = m"
| "memset m p c (Suc n) = memset (m(p := ucast c)) (p + 1) c n"

text \<open>\<^verbatim>\<open>memsetw\<close> stores 16-bit units, low byte first, and advances by two bytes.\<close>

fun memsetw :: "mem \<Rightarrow> u32 \<Rightarrow> u32 \<Rightarrow> nat \<Rightarrow> mem" where
  "memsetw m p c 0 = m"
| "memsetw m p c (Suc n) =
     memsetw (m(p := ucast c, p + 1 := ucast (drop_bit 8 c))) (p + 2) c n"

section \<open>What they do to the store\<close>

lemma memset_outside: "a \<notin> region p n \<Longrightarrow> memset m p c n a = m a"
  by (induction m p c n rule: memset.induct) (auto simp: region_Suc)

lemma memset_inside: "k < n \<Longrightarrow> n \<le> 4294967296 \<Longrightarrow> memset m p c n (p + of_nat k) = ucast c"
proof (induction n arbitrary: m p k)
  case 0
  then show ?case by simp
next
  case (Suc n)
  show ?case
  proof (cases k)
    case k: 0
    have "p \<notin> region (p + 1) n"
      using region_disjoint_offset [of 0 1 1 n p] Suc.prems by (simp add: region_Suc)
    with k show ?thesis by (simp add: memset_outside)
  next
    case j: (Suc j)
    then have "p + of_nat k = (p + 1) + of_nat j" by simp
    moreover have "memset (m(p := ucast c)) (p + 1) c n ((p + 1) + of_nat j) = ucast c"
      by (rule Suc.IH) (use Suc.prems j in auto)
    ultimately show ?thesis by (simp only: memset.simps)
  qed
qed

lemma memset_apply:
  "n \<le> 4294967296 \<Longrightarrow> memset m p c n a = (if a \<in> region p n then ucast c else m a)"
  by (auto simp: memset_outside memset_inside region_def)

lemma memset_same_outside: "same_outside (region p n) m (memset m p c n)"
  by (simp add: same_outside_def memset_outside)

lemma memcpy_outside: "a \<notin> region dp n \<Longrightarrow> memcpy m dp sp n a = m a"
  by (induction m dp sp n rule: memcpy.induct) (auto simp: region_Suc)

text \<open>
  \<^verbatim>\<open>memcpy\<close> copies upwards, so it also copies between overlapping blocks correctly as long as
  no byte is overwritten before it is read: \<open>dp + i\<close> is never a source \<open>sp + j\<close> with
  \<open>j > i\<close>.
\<close>

lemma memcpy_inside:
  assumes "k < n" "n \<le> 4294967296"
    and "\<And>i j. i < j \<Longrightarrow> j < n \<Longrightarrow> dp + of_nat i \<noteq> sp + of_nat j"
  shows "memcpy m dp sp n (dp + of_nat k) = m (sp + of_nat k)"
  using assms
proof (induction n arbitrary: m dp sp k)
  case 0
  then show ?case by simp
next
  case (Suc n)
  show ?case
  proof (cases k)
    case k: 0
    have "dp \<notin> region (dp + 1) n"
      using region_disjoint_offset [of 0 1 1 n dp] Suc.prems by (simp add: region_Suc)
    with k show ?thesis by (simp add: memcpy_outside)
  next
    case k: (Suc j)
    have j: "j < n" and n: "n \<le> 4294967296" using k Suc.prems by simp_all
    have fwd: "dp + 1 + of_nat i \<noteq> sp + 1 + of_nat j" if "i < j" "j < n" for i j
      using Suc.prems(3) [of "Suc i" "Suc j"] that by (simp add: algebra_simps)
    have "dp \<noteq> sp + 1 + of_nat j"
      using Suc.prems(3) [of 0 "Suc j"] j by (simp add: algebra_simps)
    with Suc.IH [OF j n fwd] k show ?thesis
      by (simp add: algebra_simps)
  qed
qed

lemma memcpy_disjoint:
  assumes "k < n" "n \<le> 4294967296" "region dp n \<inter> region sp n = {}"
  shows "memcpy m dp sp n (dp + of_nat k) = m (sp + of_nat k)"
proof (rule memcpy_inside [OF assms(1,2)])
  fix i j :: nat assume "i < j" "j < n"
  then show "dp + of_nat i \<noteq> sp + of_nat j"
    using assms(3) region_memI [of i n dp] region_memI [of j n sp] by auto
qed

end
