(* ===== verification/Bitmap.thy ===== *)
theory Bitmap
  imports Sys "HOL-Library.Signed_Division"
begin

text \<open>
  The bitmap of \<^verbatim>\<open>bitmap.c\<close> and \<^verbatim>\<open>include/adt/bitmap.h\<close>, which the buddy allocator keeps its
  free blocks in: a descriptor with a pointer to the bytes, the operations on the store, and
  the set of indices a bitmap stands for.
\<close>

section \<open>Data and operations\<close>

text \<open>\<open>max_extent\<close> is an \<^verbatim>\<open>int64_t\<close>: its signed reading is \<open>sint\<close>.\<close>

record bitmap =
  data :: u32
  max_extent :: u64

text \<open>
  \<^verbatim>\<open>lsb_set\<close> shifts its byte right until the low bit is set. On the byte 0 the loop never
  ends, so the model is a partial function and \<open>None\<close> is the endless loop.
\<close>

partial_function (option) lsb_set_from :: "nat \<Rightarrow> u8 \<Rightarrow> nat option" where
  "lsb_set_from i byte =
     (if byte AND 1 = 0 then lsb_set_from (Suc i) (drop_bit 1 byte) else Some i)"

definition lsb_set :: "u8 \<Rightarrow> nat option" where
  "lsb_set byte = lsb_set_from 0 byte"

definition bitmap_bytes :: "u64 \<Rightarrow> nat" where
  "bitmap_bytes ext = unat (word_of_int (sint ext sdiv 8 + 1) :: u32)"

definition bitmap_init :: "mem \<Rightarrow> u32 \<Rightarrow> u64 \<Rightarrow> bitmap \<times> mem" where
  "bitmap_init m storage ext =
     (\<lparr>data = storage, max_extent = ext\<rparr>, memset m storage 0 (bitmap_bytes ext))"

definition bitmap_isset :: "mem \<Rightarrow> bitmap \<Rightarrow> u32 \<Rightarrow> bool" where
  "bitmap_isset m xb idx \<longleftrightarrow>
     m (data xb + idx div 8) AND push_bit (unat (idx mod 8)) 1 \<noteq> 0"

definition bitmap_isclear :: "mem \<Rightarrow> bitmap \<Rightarrow> u32 \<Rightarrow> bool" where
  "bitmap_isclear m xb idx \<longleftrightarrow> \<not> bitmap_isset m xb idx"

definition bitmap_set :: "mem \<Rightarrow> bitmap \<Rightarrow> u32 \<Rightarrow> mem res" where
  "bitmap_set m xb idx =
     (let a = data xb + idx div 8;
          m' = m(a := m a OR push_bit (unat (idx mod 8)) 1)
      in bind_res (assert_res (bitmap_isset m' xb idx) ''bitmap_isset(xb, idx)'')
           (\<lambda>_. Inr m'))"

definition bitmap_clear :: "mem \<Rightarrow> bitmap \<Rightarrow> u32 \<Rightarrow> mem" where
  "bitmap_clear m xb idx =
     (let a = data xb + idx div 8
      in m(a := m a AND NOT (push_bit (unat (idx mod 8)) 1)))"

text \<open>
  The scan of \<^verbatim>\<open>bitmap_first_set\<close>: \<open>lim\<close> is \<^verbatim>\<open>(max_extent >> 3) + 1ULL\<close>, \<open>i\<close> the byte
  index. The result is an \<^verbatim>\<open>int64_t\<close>, \<open>-1\<close> when no bit is found.
\<close>

function first_set_from :: "mem \<Rightarrow> bitmap \<Rightarrow> nat \<Rightarrow> nat \<Rightarrow> int res" where
  "first_set_from m xb lim i =
     (if i < lim
      then if m (data xb + of_nat i) = 0 then first_set_from m xb lim (Suc i)
           else (case lsb_set (m (data xb + of_nat i)) of
                   None \<Rightarrow> Inl Hang
                 | Some k \<Rightarrow>
                     let idx = int (i * 8 + k)
                     in Inr (if idx > sint (max_extent xb) then -1 else idx))
      else Inr (-1))"
  by pat_completeness auto
termination
  by (relation "measure (\<lambda>(m, xb, lim, i). lim - i)") auto

definition bitmap_first_set :: "mem \<Rightarrow> bitmap \<Rightarrow> int res" where
  "bitmap_first_set m xb =
     first_set_from m xb (unat (signed_drop_bit 3 (max_extent xb) + 1)) 0"

declare first_set_from.simps [simp del]

section \<open>The abstract view\<close>

text \<open>
  A bitmap made for the extent \<open>n\<close> has \<open>n div 8 + 1\<close> bytes of storage, so \<open>bm_cap n\<close>
  addressable bits, and stands for the set \<open>bm_bits\<close> of its set indices.
\<close>

definition bm_wf :: "bitmap \<Rightarrow> nat \<Rightarrow> bool" where
  "bm_wf xb n \<longleftrightarrow> n < 4294967296 \<and> max_extent xb = of_nat n"

definition bm_cap :: "nat \<Rightarrow> nat" where
  "bm_cap n = 8 * (n div 8 + 1)"

definition bm_storage :: "bitmap \<Rightarrow> nat \<Rightarrow> u32 set" where
  "bm_storage xb n = region (data xb) (n div 8 + 1)"

definition bm_bits :: "mem \<Rightarrow> bitmap \<Rightarrow> nat \<Rightarrow> nat set" where
  "bm_bits m xb n = {j. j < bm_cap n \<and> bitmap_isset m xb (of_nat j)}"

section \<open>Widths\<close>

lemma bm_cap_gt: "n < bm_cap n"
  by (simp add: bm_cap_def)

lemma bm_cap_le: "n < 4294967296 \<Longrightarrow> bm_cap n \<le> 4294967296"
  by (simp add: bm_cap_def)

lemma sint_of_nat_u64: "n < 4294967296 \<Longrightarrow> sint (of_nat n :: u64) = int n"
  by (simp add: signed_of_nat signed_take_bit_int_eq_self)

lemma bitmap_bytes_of_nat: "n < 4294967296 \<Longrightarrow> bitmap_bytes (of_nat n) = n div 8 + 1"
proof -
  assume n: "n < 4294967296"
  have "int n sdiv 8 + 1 = int (n div 8 + 1)"
    by (simp add: signed_divide_int_def sgn_if zdiv_int)
  with n show ?thesis
    by (simp add: bitmap_bytes_def sint_of_nat_u64 del: of_nat_Suc of_nat_add)
qed

lemma scan_limit_of_nat:
  assumes "n < 4294967296"
  shows "unat (signed_drop_bit 3 (of_nat n :: u64) + 1) = n div 8 + 1"
proof -
  have "sint (signed_drop_bit 3 (of_nat n :: u64)) = sint (of_nat (n div 8) :: u64)"
    using assms by (simp only: sint_signed_drop_bit_eq sint_of_nat_u64)
      (simp add: drop_bit_eq_div zdiv_int sint_of_nat_u64)
  then have "signed_drop_bit 3 (of_nat n :: u64) = of_nat (n div 8)"
    by (rule signed_word_eqI)
  then have "signed_drop_bit 3 (of_nat n :: u64) + 1 = of_nat (n div 8 + 1)"
    by simp
  then show ?thesis using assms by (simp del: of_nat_Suc of_nat_add)
qed

lemma u32_div8_of_nat: "j < 4294967296 \<Longrightarrow> (of_nat j :: u32) div 8 = of_nat (j div 8)"
  by (rule word_unat_eq_iff [THEN iffD2]) (simp add: unat_div)

lemma u32_mod8_of_nat: "j < 4294967296 \<Longrightarrow> unat ((of_nat j :: u32) mod 8) = j mod 8"
  by (simp add: unat_mod)

lemma and_push_bit_1: "(w :: u8) AND push_bit k 1 \<noteq> 0 \<longleftrightarrow> bit w k"
  by (metis and_exp_eq_0_iff_not_bit push_bit_of_1)

lemma bitmap_isset_bit:
  "bitmap_isset m xb idx \<longleftrightarrow> bit (m (data xb + idx div 8)) (unat (idx mod 8))"
  by (simp only: bitmap_isset_def and_push_bit_1)

lemma bitmap_isset_of_nat:
  "j < 4294967296 \<Longrightarrow>
   bitmap_isset m xb (of_nat j) \<longleftrightarrow> bit (m (data xb + of_nat (j div 8))) (j mod 8)"
  by (simp add: bitmap_isset_bit u32_div8_of_nat u32_mod8_of_nat)

section \<open>Set and clear\<close>

lemma bitmap_set_eq:
  "bitmap_set m xb idx =
     Inr (m(data xb + idx div 8 := m (data xb + idx div 8) OR push_bit (unat (idx mod 8)) 1))"
proof -
  have "unat (idx mod 8) < 8" by (simp add: unat_mod)
  then show ?thesis
    by (simp add: bitmap_set_def Let_def bitmap_isset_bit bit_simps)
qed

lemma div8_mod8_eq: "(i :: nat) div 8 = j div 8 \<Longrightarrow> i mod 8 = j mod 8 \<Longrightarrow> i = j"
  by (metis div_mult_mod_eq)

lemma bit_update_isset:
  assumes "i < 4294967296" "j < 4294967296"
  shows "bit ((m(data xb + of_nat (j div 8) := v)) (data xb + of_nat (i div 8))) (i mod 8) \<longleftrightarrow>
         (if i div 8 = j div 8 then bit v (i mod 8)
          else bit (m (data xb + of_nat (i div 8))) (i mod 8))"
  using assms by (auto simp: of_nat_eq_u32)

lemma bitmap_isset_set:
  assumes "i < 4294967296" "j < 4294967296" "bitmap_set m xb (of_nat j) = Inr m'"
  shows "bitmap_isset m' xb (of_nat i) \<longleftrightarrow> i = j \<or> bitmap_isset m xb (of_nat i)"
proof -
  have m': "m' = m(data xb + of_nat (j div 8) :=
              m (data xb + of_nat (j div 8)) OR push_bit (j mod 8) 1)"
    using assms by (simp add: bitmap_set_eq u32_div8_of_nat u32_mod8_of_nat)
  show ?thesis
    using assms(1,2) unfolding m'
    by (auto simp: bitmap_isset_of_nat bit_update_isset bit_simps dest: div8_mod8_eq
        simp del: fun_upd_apply split: if_splits)
qed

lemma bitmap_isset_clear:
  assumes "i < 4294967296" "j < 4294967296"
  shows "bitmap_isset (bitmap_clear m xb (of_nat j)) xb (of_nat i) \<longleftrightarrow>
         i \<noteq> j \<and> bitmap_isset m xb (of_nat i)"
proof -
  have m': "bitmap_clear m xb (of_nat j) = m(data xb + of_nat (j div 8) :=
              m (data xb + of_nat (j div 8)) AND NOT (push_bit (j mod 8) 1))"
    using assms by (simp add: bitmap_clear_def Let_def u32_div8_of_nat u32_mod8_of_nat)
  show ?thesis
    using assms(1,2) unfolding m'
    by (auto simp: bitmap_isset_of_nat bit_update_isset bit_simps dest: div8_mod8_eq
        simp del: fun_upd_apply split: if_splits)
qed

section \<open>The set a bitmap stands for\<close>

lemma bm_bits_subset: "bm_bits m xb n \<subseteq> {..<bm_cap n}"
  by (auto simp: bm_bits_def)

lemma bm_bits_finite [simp]: "finite (bm_bits m xb n)"
  by (rule finite_subset [OF bm_bits_subset]) simp

lemma bm_bits_iff:
  "j < bm_cap n \<Longrightarrow> j \<in> bm_bits m xb n \<longleftrightarrow> bitmap_isset m xb (of_nat j)"
  by (simp add: bm_bits_def)

lemma bm_bits_set:
  assumes "n < 4294967296" "j < bm_cap n" "bitmap_set m xb (of_nat j) = Inr m'"
  shows "bm_bits m' xb n = insert j (bm_bits m xb n)"
proof -
  have "i < 4294967296" if "i < bm_cap n" for i
    using that bm_cap_le [OF assms(1)] by simp
  then show ?thesis
    using assms bitmap_isset_set [OF _ _ assms(3)] by (auto simp: bm_bits_def)
qed

lemma bm_bits_clear:
  assumes "n < 4294967296" "j < bm_cap n"
  shows "bm_bits (bitmap_clear m xb (of_nat j)) xb n = bm_bits m xb n - {j}"
proof -
  have "i < 4294967296" if "i < bm_cap n" for i
    using that bm_cap_le [OF assms(1)] by simp
  then show ?thesis
    using assms bitmap_isset_clear by (auto simp: bm_bits_def)
qed

lemma bm_bits_storage:
  assumes "n < 4294967296" "\<And>a. a \<in> bm_storage xb n \<Longrightarrow> m' a = m a"
  shows "bm_bits m' xb n = bm_bits m xb n"
proof -
  have "bitmap_isset m' xb (of_nat j) = bitmap_isset m xb (of_nat j)" if j: "j < bm_cap n" for j
  proof -
    have "j div 8 < n div 8 + 1" using j by (simp add: bm_cap_def)
    then have "m' (data xb + of_nat (j div 8)) = m (data xb + of_nat (j div 8))"
      by (intro assms(2)) (simp add: bm_storage_def region_memI)
    moreover have "j < 4294967296" using j bm_cap_le [OF assms(1)] by simp
    ultimately show ?thesis by (simp add: bitmap_isset_of_nat)
  qed
  then show ?thesis by (auto simp: bm_bits_def)
qed

lemma bitmap_set_frame:
  assumes "n < 4294967296" "j < bm_cap n" "bitmap_set m xb (of_nat j) = Inr m'"
  shows "same_outside (bm_storage xb n) m m'"
proof -
  have "j < 4294967296" "j div 8 < n div 8 + 1"
    using assms bm_cap_le [OF assms(1)] by (simp_all add: bm_cap_def)
  then show ?thesis
    using assms(3) by (auto simp: bitmap_set_eq u32_div8_of_nat bm_storage_def
        intro!: same_outside_upd region_memI)
qed

lemma bitmap_clear_frame:
  assumes "n < 4294967296" "j < bm_cap n"
  shows "same_outside (bm_storage xb n) m (bitmap_clear m xb (of_nat j))"
proof -
  have "j < 4294967296" "j div 8 < n div 8 + 1"
    using assms bm_cap_le [OF assms(1)] by (simp_all add: bm_cap_def)
  then show ?thesis
    by (auto simp: bitmap_clear_def Let_def u32_div8_of_nat bm_storage_def
        intro!: same_outside_upd region_memI)
qed

lemma bitmap_set_total: "\<exists>m'. bitmap_set m xb idx = Inr m'"
  by (simp add: bitmap_set_eq)

lemma bm_bits_init:
  assumes "n < 4294967296" "bitmap_init m storage (of_nat n) = (xb, m')"
  shows "bm_wf xb n" "data xb = storage" "bm_bits m' xb n = {}"
    "same_outside (bm_storage xb n) m m'"
proof -
  have m': "m' = memset m storage 0 (n div 8 + 1)"
    and xb: "xb = \<lparr>data = storage, max_extent = of_nat n\<rparr>"
    using assms by (auto simp: bitmap_init_def bitmap_bytes_of_nat)
  show "bm_wf xb n" "data xb = storage" using xb assms(1) by (simp_all add: bm_wf_def)
  have "same_outside (region storage (n div 8 + 1)) m m'"
    unfolding m' by (rule memset_same_outside)
  then show "same_outside (bm_storage xb n) m m'"
    using xb by (simp add: bm_storage_def)
  have "\<not> bitmap_isset m' xb (of_nat j)" if j: "j < bm_cap n" for j
  proof -
    have "j < 4294967296" "j div 8 < n div 8 + 1"
      using j bm_cap_le [OF assms(1)] by (simp_all add: bm_cap_def)
    moreover from this have "m' (storage + of_nat (j div 8)) = 0"
      using memset_inside [of "j div 8" "n div 8 + 1" m storage 0] assms(1)
      unfolding m' by simp
    ultimately show ?thesis by (simp add: bitmap_isset_of_nat xb)
  qed
  then show "bm_bits m' xb n = {}" by (auto simp: bm_bits_def)
qed

section \<open>The first set bit\<close>

lemma lsb_set_from_spec:
  "byte \<noteq> 0 \<Longrightarrow>
   \<exists>k. lsb_set_from i byte = Some (i + k) \<and> bit byte k \<and> (\<forall>j<k. \<not> bit byte j)"
proof (induction "unat byte" arbitrary: i byte rule: less_induct)
  case less
  show ?case
  proof (cases "bit byte 0")
    case True
    then have "byte AND 1 \<noteq> 0" by (metis and_push_bit_1 push_bit_0_id id_apply)
    then have "lsb_set_from i byte = Some i" by (simp add: lsb_set_from.simps)
    with True show ?thesis by (intro exI [of _ 0]) simp
  next
    case False
    then have z: "byte AND 1 = 0" by (metis and_push_bit_1 push_bit_0_id id_apply)
    have "unat (drop_bit 1 byte) < unat byte"
      using less.prems by (simp only: unat_drop_bit) (simp add: unat_gt_0)
    moreover have "drop_bit 1 byte \<noteq> 0"
    proof -
      obtain k where "bit byte k" using less.prems by (auto simp: bit_eq_iff)
      with False obtain k' where "bit byte (Suc k')" by (cases k) auto
      then have "bit (drop_bit 1 byte) k'" by (simp only: bit_drop_bit_eq) simp
      then show ?thesis by auto
    qed
    ultimately obtain k where k: "lsb_set_from (Suc i) (drop_bit 1 byte) = Some (Suc i + k)"
        "bit (drop_bit 1 byte) k" "\<forall>j<k. \<not> bit (drop_bit 1 byte) j"
      using less.hyps by blast
    have "lsb_set_from i byte = Some (i + Suc k)"
      using k(1) z by (subst lsb_set_from.simps) simp
    moreover have "bit byte (Suc k)" using k(2) by (simp add: bit_drop_bit_eq)
    moreover have "\<not> bit byte j" if "j < Suc k" for j
      using that k(3) False by (cases j) (auto simp: bit_drop_bit_eq)
    ultimately show ?thesis by blast
  qed
qed

lemma lsb_set_spec:
  assumes "byte \<noteq> 0"
  obtains k where "lsb_set byte = Some k" "k < 8" "bit byte k" "\<forall>j<k. \<not> bit byte j"
proof -
  obtain k where k: "lsb_set_from 0 byte = Some (0 + k)" "bit byte k" "\<forall>j<k. \<not> bit byte j"
    using lsb_set_from_spec [OF assms] by blast
  then have "k < 8" using bit_imp_le_length [of byte k] by simp
  with k that show ?thesis by (simp add: lsb_set_def)
qed

lemma first_set_from_spec:
  assumes "bm_wf xb n" "lim = n div 8 + 1" "\<forall>j \<in> bm_bits m xb n. 8 * i \<le> j"
  shows "first_set_from m xb lim i =
    Inr (if bm_bits m xb n = {} \<or> n < Min (bm_bits m xb n) then -1
         else int (Min (bm_bits m xb n)))"
  using assms
proof (induction m xb lim i rule: first_set_from.induct)
  case (1 m xb lim i)
  let ?B = "bm_bits m xb n"
  have n: "n < 4294967296" and ext: "sint (max_extent xb) = int n"
    using "1.prems"(1) by (auto simp: bm_wf_def sint_of_nat_u64)
  show ?case
  proof (cases "i < lim")
    case False
    then have "?B = {}"
      using "1.prems" bm_bits_subset [of m xb n] by (fastforce simp: bm_cap_def)
    with False show ?thesis by (simp add: first_set_from.simps [of m xb lim i])
  next
    case True
    have bits: "8 * i + k \<in> ?B \<longleftrightarrow> bit (m (data xb + of_nat i)) k" if "k < 8" for k
    proof -
      have "8 * i + k < bm_cap n" using that True "1.prems"(2) by (simp add: bm_cap_def)
      moreover from this have "8 * i + k < 4294967296" using bm_cap_le [OF n] by simp
      moreover have "(8 * i + k) div 8 = i" "(8 * i + k) mod 8 = k" using that by simp_all
      ultimately show ?thesis by (simp only: bm_bits_iff bitmap_isset_of_nat)
    qed
    show ?thesis
    proof (cases "m (data xb + of_nat i) = 0")
      case zero: True
      have "8 * Suc i \<le> j" if j: "j \<in> ?B" for j
      proof (rule ccontr)
        assume "\<not> 8 * Suc i \<le> j"
        moreover have "8 * i \<le> j" using "1.prems"(3) j by simp
        ultimately obtain k where "j = 8 * i + k" "k < 8"
          by (metis add_less_cancel_left le_iff_add mult_Suc_right not_le add.commute)
        with j bits zero show False by simp
      qed
      moreover have "first_set_from m xb lim i = first_set_from m xb lim (Suc i)"
        using True zero by (simp add: first_set_from.simps [of m xb lim i])
      ultimately show ?thesis using "1.IH" [OF True zero "1.prems"(1,2)] by simp
    next
      case nz: False
      then obtain k where k: "lsb_set (m (data xb + of_nat i)) = Some k" "k < 8"
          "bit (m (data xb + of_nat i)) k" "\<forall>j<k. \<not> bit (m (data xb + of_nat i)) j"
        by (rule lsb_set_spec)
      have mem: "8 * i + k \<in> ?B" using k bits by simp
      have "8 * i + k \<le> j" if "j \<in> ?B" for j
      proof (rule ccontr)
        assume "\<not> 8 * i + k \<le> j"
        moreover have "8 * i \<le> j" using "1.prems"(3) that by simp
        ultimately obtain k' where "j = 8 * i + k'" "k' < k"
          by (metis add_less_cancel_left le_iff_add not_le)
        with that bits k show False by simp
      qed
      with mem have min: "Min ?B = 8 * i + k" by (intro Min_eqI) auto
      have "?B \<noteq> {}" using mem by blast
      with True nz k(1) min ext show ?thesis
        by (simp add: first_set_from.simps [of m xb lim i] Let_def mult.commute)
    qed
  qed
qed

lemma bitmap_first_set_spec:
  assumes "bm_wf xb n"
  shows "bitmap_first_set m xb =
    Inr (if bm_bits m xb n = {} \<or> n < Min (bm_bits m xb n) then -1
         else int (Min (bm_bits m xb n)))"
proof -
  have "unat (signed_drop_bit 3 (max_extent xb) + 1) = n div 8 + 1"
    using assms by (auto simp: bm_wf_def scan_limit_of_nat)
  then show ?thesis
    using first_set_from_spec [OF assms refl, of m 0] by (simp add: bitmap_first_set_def)
qed

section \<open>The interface of a bit vector\<close>

text \<open>
  What a client of a bitmap relies on: setting never fails, and set, clear and test are those
  of a set of indices. \<open>valid\<close> are the indices the vector has room for. The derived laws are
  the two update patterns of the buddy allocator: a block and its buddy leave an order
  (\<open>coalesce_isset\<close>), two halves enter one (\<open>split_isset\<close>).
\<close>

locale bit_vector =
  fixes setb :: "'s \<Rightarrow> 'i \<Rightarrow> 's res"
    and clearb :: "'s \<Rightarrow> 'i \<Rightarrow> 's"
    and isset :: "'s \<Rightarrow> 'i \<Rightarrow> bool"
    and valid :: "'i set"
  assumes setb_total: "i \<in> valid \<Longrightarrow> \<exists>s'. setb s i = Inr s'"
    and setb_isset: "i \<in> valid \<Longrightarrow> j \<in> valid \<Longrightarrow> setb s i = Inr s' \<Longrightarrow>
      isset s' j \<longleftrightarrow> j = i \<or> isset s j"
    and clearb_isset: "i \<in> valid \<Longrightarrow> j \<in> valid \<Longrightarrow>
      isset (clearb s i) j \<longleftrightarrow> j \<noteq> i \<and> isset s j"
begin

lemma coalesce_isset:
  assumes "i \<in> valid" "b \<in> valid" "j \<in> valid" "setb s i = Inr s'"
  shows "isset (clearb (clearb s' i) b) j \<longleftrightarrow> j \<noteq> i \<and> j \<noteq> b \<and> isset s j"
  using assms by (auto simp: clearb_isset setb_isset)

lemma split_isset:
  assumes "i \<in> valid" "b \<in> valid" "j \<in> valid" "setb s i = Inr s'" "setb s' b = Inr s''"
  shows "isset s'' j \<longleftrightarrow> j = i \<or> j = b \<or> isset s j"
  using assms by (auto simp: setb_isset)

lemma set_clear_isset:
  assumes "i \<in> valid" "j \<in> valid" "setb s i = Inr s'"
  shows "isset (clearb s' i) j \<longleftrightarrow> j \<noteq> i \<and> isset s j"
  using assms by (auto simp: clearb_isset setb_isset)

end

lemma bitmap_isset_set_word:
  "bitmap_set m xb i = Inr m' \<Longrightarrow> bitmap_isset m' xb j \<longleftrightarrow> j = i \<or> bitmap_isset m xb j"
  using bitmap_isset_set [of "unat j" "unat i" m xb m'] by (simp add: unat_u32_less word_unat_eq_iff)

lemma bitmap_isset_clear_word:
  "bitmap_isset (bitmap_clear m xb i) xb j \<longleftrightarrow> j \<noteq> i \<and> bitmap_isset m xb j"
  using bitmap_isset_clear [of "unat j" "unat i" m xb] by (simp add: unat_u32_less word_unat_eq_iff)

interpretation bm: bit_vector "\<lambda>m. bitmap_set m xb" "\<lambda>m. bitmap_clear m xb"
  "\<lambda>m. bitmap_isset m xb" UNIV for xb
  by unfold_locales (auto simp: bitmap_set_total bitmap_isset_set_word bitmap_isset_clear_word)

end
