(* ===== verification/Buddy_Spec.thy ===== *)
theory Buddy_Spec
  imports Main
begin

text \<open>
  What the buddy allocator of \<^verbatim>\<open>buddy.c\<close> promises, without bitmaps or machine words: a
  family of sets of free blocks, one set per order, standing for a set of free pages. Block
  \<open>j\<close> of order \<open>i\<close> is the \<open>2 ^ i\<close> pages from \<open>j * 2 ^ i\<close> on. The abstract operations
  follow the loops of the code; their theorems say what they do to the set of free pages.
\<close>

section \<open>Blocks\<close>

type_synonym blocks = "nat \<Rightarrow> nat set"

text \<open>\<^verbatim>\<open>MAX_BUDDY_SZ_LOG2 - MIN_BUDDY_SZ_LOG2\<close>: the highest order.\<close>

definition top_order :: nat where
  "top_order = 16"

definition blk :: "nat \<Rightarrow> nat \<Rightarrow> nat set" where
  "blk i j = {p. p div 2 ^ i = j}"

definition sibling :: "nat \<Rightarrow> nat" where
  "sibling j = (if even j then Suc j else j - 1)"

definition free_pages :: "blocks \<Rightarrow> nat set" where
  "free_pages F = {p. \<exists>i \<le> top_order. p div 2 ^ i \<in> F i}"

text \<open>
  The invariant of the allocator: no page is in two free blocks, no two buddies below the top
  order are both free, and every free block lies inside the \<open>N\<close> managed pages.
\<close>

definition no_overlap :: "blocks \<Rightarrow> bool" where
  "no_overlap F \<longleftrightarrow> (\<forall>p. \<forall>i \<le> top_order. \<forall>i' \<le> top_order.
     p div 2 ^ i \<in> F i \<longrightarrow> p div 2 ^ i' \<in> F i' \<longrightarrow> i = i')"

definition coalesced :: "blocks \<Rightarrow> bool" where
  "coalesced F \<longleftrightarrow> (\<forall>i < top_order. \<forall>j \<in> F i. sibling j \<notin> F i)"

definition in_range :: "nat \<Rightarrow> blocks \<Rightarrow> bool" where
  "in_range N F \<longleftrightarrow> (\<forall>i \<le> top_order. \<forall>j \<in> F i. (j + 1) * 2 ^ i \<le> N)"

definition good_blocks :: "nat \<Rightarrow> blocks \<Rightarrow> bool" where
  "good_blocks N F \<longleftrightarrow> no_overlap F \<and> coalesced F \<and> in_range N F"

section \<open>Freeing and splitting\<close>

function afree :: "blocks \<Rightarrow> nat \<Rightarrow> nat \<Rightarrow> blocks" where
  "afree F i j =
     (if i < top_order \<and> sibling j \<in> F i
      then afree (F(i := F i - {j, sibling j})) (Suc i) (j div 2)
      else F(i := insert j (F i)))"
  by pat_completeness auto
termination
  by (relation "measure (\<lambda>(F, i, j). top_order - i)") auto

declare afree.simps [simp del]

text \<open>
  \<open>split_block F k j\<close> replaces block \<open>j\<close> of order \<open>Suc k\<close> by its two halves; \<open>asplit F i j d\<close>
  splits block \<open>j\<close> of order \<open>i\<close> down \<open>d\<close> orders and takes the leftmost part out.
\<close>

definition split_block :: "blocks \<Rightarrow> nat \<Rightarrow> nat \<Rightarrow> blocks" where
  "split_block F k j =
     F(Suc k := F (Suc k) - {j}, k := insert (2 * j + 1) (insert (2 * j) (F k)))"

fun asplit :: "blocks \<Rightarrow> nat \<Rightarrow> nat \<Rightarrow> nat \<Rightarrow> blocks" where
  "asplit F i j 0 = F(i := F i - {j})"
| "asplit F i j (Suc d) = asplit (split_block F (i - 1) j) (i - 1) (2 * j) d"

section \<open>Block arithmetic\<close>

lemma blk_eq: "blk i j = {j * 2 ^ i ..< (j + 1) * 2 ^ i}"
proof -
  have "p div 2 ^ i = j \<longleftrightarrow> j * 2 ^ i \<le> p \<and> p < (j + 1) * 2 ^ i" for p :: nat
  proof
    assume "p div 2 ^ i = j"
    then show "j * 2 ^ i \<le> p \<and> p < (j + 1) * 2 ^ i"
      using dividend_less_div_times [of "2 ^ i" p] div_times_less_eq_dividend [of p "2 ^ i"]
      by simp
  next
    assume "j * 2 ^ i \<le> p \<and> p < (j + 1) * 2 ^ i"
    then have "2 ^ i * j \<le> p" "p < 2 ^ i * Suc j" by (simp_all add: mult.commute)
    then show "p div 2 ^ i = j" by (rule div_nat_eqI)
  qed
  then show ?thesis
    by (intro set_eqI) (simp only: blk_def mem_Collect_eq atLeastLessThan_iff)
qed

lemma sibling_neq: "sibling j \<noteq> j"
  by (cases j) (auto simp: sibling_def)

lemma sibling_sibling [simp]: "sibling (sibling j) = j"
  by (auto simp: sibling_def)

lemma sibling_div2: "sibling j div 2 = j div 2"
  by (auto simp: sibling_def elim!: oddE)

lemma sibling_double [simp]: "sibling (2 * j) = Suc (2 * j)" "sibling (Suc (2 * j)) = 2 * j"
  by (auto simp: sibling_def)

lemma same_parent: "a div 2 = j div 2 \<longleftrightarrow> a = j \<or> a = sibling j"
  by (auto simp: sibling_def) presburger+

lemma div_pow_Suc: "(p :: nat) div 2 ^ Suc i = p div 2 ^ i div 2"
  by (simp only: power_Suc2 div_mult2_eq)

lemma blk_parent: "blk (Suc i) (j div 2) = blk i j \<union> blk i (sibling j)"
  by (auto simp: blk_def div_pow_Suc same_parent simp del: power_Suc)

lemma blk_nonempty: "j * 2 ^ i \<in> blk i j"
  by (simp add: blk_def)

lemma div_pow_add: "(p :: nat) div 2 ^ (i + d) = p div 2 ^ i div 2 ^ d"
  by (simp add: power_add div_mult2_eq)

lemma blk_leftmost: "blk i (j * 2 ^ d) \<subseteq> blk (i + d) j"
  by (auto simp: blk_def div_pow_add)

lemma blk_free: "i \<le> top_order \<Longrightarrow> j \<in> F i \<Longrightarrow> blk i j \<subseteq> free_pages F"
  by (auto simp: blk_def free_pages_def)

lemma leftmost_in_range:
  fixes j :: nat
  assumes "(j + 1) * 2 ^ (i + d) \<le> N"
  shows "(j * 2 ^ d + 1) * 2 ^ i \<le> N"
proof -
  have "(j * 2 ^ d + 1) * 2 ^ i \<le> (j * 2 ^ d + 2 ^ d) * 2 ^ i" by (intro mult_right_mono) auto
  also have "\<dots> = (j + 1) * 2 ^ (i + d)" by (simp add: power_add algebra_simps)
  finally show ?thesis using assms by simp
qed

lemma sibling_in_range:
  assumes "i < top_order" "in_range N F" "sibling j \<in> F i" "(j + 1) * 2 ^ i \<le> N"
  shows "(j div 2 + 1) * 2 ^ Suc i \<le> N"
proof -
  have "(sibling j + 1) * 2 ^ i \<le> N"
    using assms by (auto simp: in_range_def)
  moreover have "(j div 2 + 1) * 2 = max (j + 1) (sibling j + 1)"
    by (auto simp: sibling_def elim!: evenE oddE)
  then have "(j div 2 + 1) * 2 ^ Suc i = max (j + 1) (sibling j + 1) * 2 ^ i"
    by (metis mult.assoc power_Suc)
  ultimately show ?thesis using assms(4) by (auto simp: max_def)
qed

section \<open>Freeing a block\<close>

lemma no_overlapD:
  "no_overlap F \<Longrightarrow> p div 2 ^ i \<in> F i \<Longrightarrow> p div 2 ^ i' \<in> F i' \<Longrightarrow>
   i \<le> top_order \<Longrightarrow> i' \<le> top_order \<Longrightarrow> i = i'"
  by (auto simp: no_overlap_def)

lemma good_blocks_remove: "good_blocks N F \<Longrightarrow> good_blocks N (F(i := F i - A))"
  by (auto simp: good_blocks_def no_overlap_def coalesced_def in_range_def)

lemma free_pages_remove:
  assumes "no_overlap F" "i \<le> top_order"
  shows "free_pages (F(i := F i - A)) = free_pages F - (\<Union>j \<in> A \<inter> F i. blk i j)"
proof (rule set_eqI)
  fix p
  show "p \<in> free_pages (F(i := F i - A)) \<longleftrightarrow>
      p \<in> free_pages F - (\<Union>j \<in> A \<inter> F i. blk i j)"
  proof (cases "p div 2 ^ i \<in> F i")
    case True
    then have "p div 2 ^ a \<notin> F a" if "a \<le> top_order" "a \<noteq> i" for a
      using no_overlapD [OF assms(1), of p a i] assms(2) that by blast
    with True assms(2) show ?thesis
      by (auto simp: free_pages_def blk_def)
  next
    case False
    then show ?thesis
      using assms(2) by (auto simp: free_pages_def blk_def)
  qed
qed

lemma free_pages_insert:
  "i \<le> top_order \<Longrightarrow> free_pages (F(i := insert j (F i))) = free_pages F \<union> blk i j"
  by (auto simp: free_pages_def blk_def)

lemma good_blocks_insert:
  assumes "good_blocks N F" "i \<le> top_order" "blk i j \<inter> free_pages F = {}"
    "(j + 1) * 2 ^ i \<le> N" "i < top_order \<Longrightarrow> sibling j \<notin> F i"
  shows "good_blocks N (F(i := insert j (F i)))"
proof -
  have "no_overlap (F(i := insert j (F i)))"
    using assms(1-3) by (fastforce simp: good_blocks_def no_overlap_def free_pages_def blk_def)
  moreover have "coalesced (F(i := insert j (F i)))"
    using assms(1,5) sibling_neq sibling_sibling
    by (auto simp: good_blocks_def coalesced_def)
  moreover have "in_range N (F(i := insert j (F i)))"
    using assms(1,4) by (auto simp: good_blocks_def in_range_def)
  ultimately show ?thesis by (simp add: good_blocks_def)
qed

lemma afree_spec:
  assumes "good_blocks N F" "i \<le> top_order" "blk i j \<inter> free_pages F = {}" "(j + 1) * 2 ^ i \<le> N"
  shows "good_blocks N (afree F i j) \<and> free_pages (afree F i j) = free_pages F \<union> blk i j"
  using assms
proof (induction F i j rule: afree.induct)
  case (1 F i j)
  show ?case
  proof (cases "i < top_order \<and> sibling j \<in> F i")
    case True
    let ?F = "F(i := F i - {j, sibling j})"
    have step: "afree F i j = afree ?F (Suc i) (j div 2)"
      using True by (simp add: afree.simps [of F i j])
    have "j * 2 ^ i \<in> free_pages F" if "j \<in> F i"
      using that "1.prems"(2) by (auto simp: free_pages_def intro!: exI [of _ i])
    then have "j \<notin> F i" using "1.prems"(3) blk_nonempty [of j i] by blast
    then have pages: "free_pages ?F = free_pages F - blk i (sibling j)"
      using True "1.prems"(1,2) by (subst free_pages_remove) (auto simp: good_blocks_def)
    have "blk i (sibling j) \<subseteq> free_pages F"
      using True by (auto simp: free_pages_def blk_def intro!: exI [of _ i])
    have apart: "blk (Suc i) (j div 2) \<inter> free_pages ?F = {}"
      using "1.prems"(3) by (auto simp: pages blk_parent)
    have rng: "(j div 2 + 1) * 2 ^ Suc i \<le> N"
      using True "1.prems"(1,4) by (intro sibling_in_range) (auto simp: good_blocks_def)
    have good: "good_blocks N ?F" and le: "Suc i \<le> top_order"
      using True "1.prems"(1) good_blocks_remove by auto
    have "good_blocks N (afree ?F (Suc i) (j div 2)) \<and>
        free_pages (afree ?F (Suc i) (j div 2)) = free_pages ?F \<union> blk (Suc i) (j div 2)"
      by (rule "1.IH" [OF True good le apart rng])
    then show ?thesis
      using \<open>blk i (sibling j) \<subseteq> free_pages F\<close> by (auto simp: step pages blk_parent)
  next
    case False
    then have "afree F i j = F(i := insert j (F i))"
      by (subst afree.simps) auto
    moreover have "good_blocks N (F(i := insert j (F i)))"
      by (rule good_blocks_insert [OF "1.prems"]) (use False in blast)
    moreover have "free_pages (F(i := insert j (F i))) = free_pages F \<union> blk i j"
      by (rule free_pages_insert [OF "1.prems"(2)])
    ultimately show ?thesis by (simp only: simp_thms)
  qed
qed

section \<open>Splitting a block\<close>

definition coalesced_but :: "blocks \<Rightarrow> nat \<Rightarrow> nat \<Rightarrow> bool" where
  "coalesced_but F i j \<longleftrightarrow>
     (\<forall>i' < top_order. \<forall>a \<in> F i'. sibling a \<in> F i' \<longrightarrow> i' = i \<and> (a = j \<or> sibling a = j))"

lemma coalesced_remove:
  assumes "coalesced_but F i j"
  shows "coalesced (F(i := F i - {j}))"
  unfolding coalesced_def
proof (intro allI impI ballI notI)
  fix a b
  assume "a < top_order" "b \<in> (F(i := F i - {j})) a" "sibling b \<in> (F(i := F i - {j})) a"
  moreover from this have "a = i \<and> (b = j \<or> sibling b = j)"
    using assms by (auto simp: coalesced_but_def split: if_splits)
  ultimately show False by auto
qed

lemma take_block:
  assumes "no_overlap F" "in_range N F" "coalesced_but F i j" "j \<in> F i" "i \<le> top_order"
  shows "good_blocks N (F(i := F i - {j})) \<and>
    free_pages (F(i := F i - {j})) = free_pages F - blk i j"
proof -
  have "no_overlap (F(i := F i - {j}))" "in_range N (F(i := F i - {j}))"
    using assms(1,2) by (auto simp: no_overlap_def in_range_def)
  then show ?thesis
    using assms coalesced_remove [OF assms(3)] by (simp add: good_blocks_def free_pages_remove)
qed

lemma split_block_mem:
  "p div 2 ^ a \<in> split_block F k j a \<longleftrightarrow>
     (if a = Suc k then p div 2 ^ a \<in> F a \<and> p div 2 ^ Suc k \<noteq> j
      else p div 2 ^ a \<in> F a \<or> a = k \<and> p div 2 ^ Suc k = j)"
proof -
  have "p div 2 ^ k = 2 * j \<or> p div 2 ^ k = 2 * j + 1 \<longleftrightarrow> p div 2 ^ Suc k = j"
    unfolding div_pow_Suc by auto
  then show ?thesis
    by (cases "a = Suc k"; cases "a = k") (auto simp: split_block_def simp del: power_Suc)
qed

lemma split_block_no_overlap:
  assumes "no_overlap F" "j \<in> F (Suc k)" "Suc k \<le> top_order"
  shows "no_overlap (split_block F k j)"
  unfolding no_overlap_def
proof (intro allI impI)
  fix p a a'
  assume *: "a \<le> top_order" "a' \<le> top_order"
    "p div 2 ^ a \<in> split_block F k j a" "p div 2 ^ a' \<in> split_block F k j a'"
  show "a = a'"
  proof (cases "p div 2 ^ Suc k = j")
    case True
    have "b = k" if b: "p div 2 ^ b \<in> split_block F k j b" "b \<le> top_order" for b
    proof (rule ccontr)
      assume "b \<noteq> k"
      with b(1) True have "p div 2 ^ b \<in> F b" "b \<noteq> Suc k"
        unfolding split_block_mem by (metis (full_types))+
      with no_overlapD [OF assms(1), of p b "Suc k"] True assms(2,3) b(2) show False by simp
    qed
    with * show ?thesis by blast
  next
    case False
    then have "p div 2 ^ b \<in> F b" if "p div 2 ^ b \<in> split_block F k j b" for b
      using that unfolding split_block_mem by (metis (full_types))
    with * show ?thesis using no_overlapD [OF assms(1)] by blast
  qed
qed

lemma split_block_in_range:
  assumes "in_range N F" "j \<in> F (Suc k)" "Suc k \<le> top_order"
  shows "in_range N (split_block F k j)"
proof -
  have "(j + 1) * 2 ^ Suc k \<le> N" using assms by (auto simp: in_range_def)
  then show ?thesis
    using assms(1) by (auto simp: in_range_def split_block_def algebra_simps)
qed

lemma split_block_fresh:
  assumes "no_overlap F" "j \<in> F (Suc k)" "Suc k \<le> top_order" "b div 2 = j"
  shows "b \<notin> F k"
proof
  assume "b \<in> F k"
  then have "(b * 2 ^ k) div 2 ^ k \<in> F k" by simp
  moreover have "(b * 2 ^ k) div 2 ^ Suc k \<in> F (Suc k)"
    using assms(2,4) unfolding div_pow_Suc by simp
  ultimately show False
    using no_overlapD [OF assms(1), of "b * 2 ^ k" k "Suc k"] assms(3) by simp
qed

lemma split_block_coalesced:
  assumes "no_overlap F" "coalesced_but F (Suc k) j" "j \<in> F (Suc k)" "Suc k \<le> top_order"
  shows "coalesced_but (split_block F k j) k (2 * j)"
  unfolding coalesced_but_def
proof (intro allI impI ballI)
  fix a b
  assume *: "a < top_order" "b \<in> split_block F k j a" "sibling b \<in> split_block F k j a"
  show "a = k \<and> (b = 2 * j \<or> sibling b = 2 * j)"
  proof (cases "b \<in> F a \<and> sibling b \<in> F a")
    case True
    with * assms(2) have "a = Suc k \<and> (b = j \<or> sibling b = j)"
      by (auto simp: coalesced_but_def)
    with * show ?thesis by (auto simp: split_block_def)
  next
    case False
    with * have "a = k" and "b div 2 = j \<or> sibling b div 2 = j"
      by (auto simp: split_block_def split: if_splits)
    then have "b = 2 * j \<or> b = sibling (2 * j)"
      using same_parent [of b "2 * j"] by (simp add: sibling_div2)
    with \<open>a = k\<close> show ?thesis by auto
  qed
qed

lemma split_block_free_pages:
  assumes "j \<in> F (Suc k)" "Suc k \<le> top_order"
  shows "free_pages (split_block F k j) = free_pages F"
proof -
  have "(\<exists>a \<le> top_order. p div 2 ^ a \<in> split_block F k j a) \<longleftrightarrow>
      (\<exists>a \<le> top_order. p div 2 ^ a \<in> F a)" for p
  proof (cases "p div 2 ^ Suc k = j")
    case True
    then have "p div 2 ^ k \<in> split_block F k j k" "p div 2 ^ Suc k \<in> F (Suc k)"
      using assms(1) unfolding split_block_mem by simp_all
    then show ?thesis using assms(2) Suc_leD by blast
  next
    case False
    then have "p div 2 ^ a \<in> split_block F k j a \<longleftrightarrow> p div 2 ^ a \<in> F a" for a
      unfolding split_block_mem by (metis (full_types))
    then show ?thesis by simp
  qed
  then show ?thesis by (simp add: free_pages_def)
qed

lemma asplit_spec:
  assumes "no_overlap F" "in_range N F" "coalesced_but F i j" "j \<in> F i" "i \<le> top_order" "d \<le> i"
  shows "good_blocks N (asplit F i j d) \<and>
    free_pages (asplit F i j d) = free_pages F - blk (i - d) (j * 2 ^ d)"
  using assms
proof (induction F i j d rule: asplit.induct)
  case (1 F i j)
  show ?case
    using take_block [OF "1.prems"(1-5)]
    by (simp only: asplit.simps diff_zero power_0 mult_1_right)
next
  case (2 F i j d)
  obtain k where i: "i = Suc k" using "2.prems"(6) by (cases i) auto
  note prems = "2.prems" [unfolded i]
  have "2 * j \<in> split_block F k j k" "k \<le> top_order" "d \<le> k"
    using prems(5,6) by (simp_all add: split_block_def)
  then have "good_blocks N (asplit (split_block F k j) k (2 * j) d) \<and>
      free_pages (asplit (split_block F k j) k (2 * j) d) =
      free_pages (split_block F k j) - blk (k - d) (2 * j * 2 ^ d)"
    using "2.IH" [unfolded i diff_Suc_1, OF split_block_no_overlap split_block_in_range
      split_block_coalesced] prems by blast
  then show ?case
    by (simp add: i split_block_free_pages prems algebra_simps)
qed

section \<open>Completeness\<close>

text \<open>
  In a coalesced family, a free aligned run of \<open>2 ^ i\<close> pages is always part of a free block
  of order \<open>i\<close> or more, so searching the orders from \<open>i\<close> upwards finds a block whenever there
  is one to find.
\<close>

lemma aligned_free_block:
  assumes "coalesced F" "i \<le> top_order" "blk i j \<subseteq> free_pages F"
  shows "\<exists>d. i + d \<le> top_order \<and> j div 2 ^ d \<in> F (i + d)"
  using assms(2,3)
proof (induction i arbitrary: j)
  case 0
  then have "j \<in> free_pages F" by (auto simp: blk_def)
  then show ?case by (auto simp: free_pages_def)
next
  case (Suc i)
  have halves: "blk i (2 * j) \<subseteq> free_pages F" "blk i (2 * j + 1) \<subseteq> free_pages F"
    using Suc.prems(2) blk_parent [of i "2 * j"] by auto
  have up: "?case" if b: "i + d \<le> top_order" "b div 2 ^ d \<in> F (i + d)" "b div 2 = j" "0 < d"
    for b d
  proof -
    obtain e where e: "d = Suc e" using b(4) by (cases d) auto
    then have "b div 2 ^ d = j div 2 ^ e"
      using b(3) by (simp add: div_mult2_eq)
    then show ?thesis using b e by (intro exI [of _ e]) simp
  qed
  from Suc.IH [OF _ halves(1)] Suc.prems(1) obtain d where
      d: "i + d \<le> top_order" "(2 * j) div 2 ^ d \<in> F (i + d)" by auto
  from Suc.IH [OF _ halves(2)] Suc.prems(1) obtain d' where
      d': "i + d' \<le> top_order" "(2 * j + 1) div 2 ^ d' \<in> F (i + d')" by auto
  show ?case
  proof (cases "d = 0 \<and> d' = 0")
    case True
    then have "2 * j \<in> F i" "sibling (2 * j) \<in> F i" using d d' by simp_all
    moreover have "i < top_order" using Suc.prems(1) by simp
    ultimately show ?thesis using assms(1) unfolding coalesced_def by blast
  next
    case False
    then show ?thesis using up [OF d] up [OF d'] by auto
  qed
qed

end
