(* ===== verification/Utils.thy ===== *)
theory Utils
  imports Prelude
begin

text \<open>
  The utility functions of \<^verbatim>\<open>utils.c\<close> that the rest of the kernel calls: the rounded-up
  binary logarithm.
\<close>

section \<open>log2\_roundup\<close>

text \<open>
  \<^verbatim>\<open>__builtin_clz\<close> counts the zero bits above the highest set bit of a 32-bit word; the
  compiler leaves it undefined at 0.
\<close>

definition builtin_clz :: "u32 \<Rightarrow> nat res" where
  "builtin_clz n =
     (if n = 0 then Inl (Undefined ''__builtin_clz(0)'')
      else Inr (length (takeWhile (\<lambda>i. \<not> bit n i) (rev [0..<32]))))"

definition log2_roundup :: "u32 \<Rightarrow> nat res" where
  "log2_roundup n =
     bind_res (builtin_clz n) (\<lambda>c.
       let l2 = 31 - c
       in Inr (if n = push_bit l2 1 then l2 else l2 + 1))"

lemma builtin_clz_highest_bit:
  assumes "n \<noteq> 0"
  obtains c where "builtin_clz n = Inr c" "c < 32" "bit n (31 - c)"
    "\<forall>i. 31 - c < i \<longrightarrow> \<not> bit n i"
proof -
  let ?xs = "rev [0..<32]" and ?P = "\<lambda>i. \<not> bit n i"
  define c where "c = length (takeWhile ?P ?xs)"
  have nth: "?xs ! k = 31 - k" if "k < 32" for k
    using that by (simp add: rev_nth)
  obtain i where i: "bit n i" using assms by (auto simp: bit_eq_iff)
  then have "i < 32" using bit_imp_le_length [of n i] by simp
  then have "takeWhile ?P ?xs \<noteq> ?xs"
    using i by (auto simp: takeWhile_eq_all_conv simp del: upt_rec_numeral)
  then have "c \<noteq> length ?xs" unfolding c_def by (metis takeWhile_eq_take take_all order_refl)
  then have "c < length ?xs"
    unfolding c_def using length_takeWhile_le [of ?P ?xs] by simp
  then have c: "c < 32" by simp
  have "bit n (31 - c)"
    using nth_length_takeWhile [of ?P ?xs] \<open>c < length ?xs\<close> nth [OF c] by (simp add: c_def)
  moreover have "\<not> bit n k" if "31 - c < k" for k
  proof (cases "k < 32")
    case True
    then have "31 - k < c" using that by simp
    then have "?P (takeWhile ?P ?xs ! (31 - k))"
      using set_takeWhileD [OF nth_mem, of "31 - k" ?P ?xs] by (simp add: c_def)
    then show ?thesis
      using \<open>31 - k < c\<close> True nth [of "31 - k"] by (simp add: takeWhile_nth c_def)
  next
    case False
    then show ?thesis using bit_imp_le_length [of n k] by auto
  qed
  moreover have "builtin_clz n = Inr c"
    using assms by (simp add: builtin_clz_def c_def del: upt_rec_numeral)
  ultimately show ?thesis using that [of c] c by blast
qed

lemma highest_bit_bounds:
  fixes n :: u32
  assumes "bit n l" "\<forall>i. l < i \<longrightarrow> \<not> bit n i"
  shows "2 ^ l \<le> unat n \<and> unat n < 2 ^ Suc l"
proof
  have "bit (unat n) l" using assms(1) by (simp add: bit_unsigned_iff)
  then have "odd (unat n div 2 ^ l)" unfolding bit_iff_odd by simp
  then have "unat n div 2 ^ l \<noteq> 0" by (auto elim: oddE)
  then show "2 ^ l \<le> unat n" by (simp add: div_eq_0_iff not_less)
  have "take_bit (Suc l) n = n"
    using assms(2) by (intro bit_eqI) (auto simp: bit_take_bit_iff less_Suc_eq_le not_le [symmetric])
  then have "unat n = take_bit (Suc l) (unat n)" by (metis unsigned_take_bit_eq)
  then show "unat n < 2 ^ Suc l" by (metis take_bit_nat_less_exp)
qed

lemma log2_roundup_zero: "log2_roundup 0 = Inl (Undefined ''__builtin_clz(0)'')"
  by (simp add: log2_roundup_def builtin_clz_def)

lemma log2_roundup_spec:
  assumes "n \<noteq> 0"
  obtains l where "log2_roundup n = Inr l" "l \<le> 32" "unat n \<le> 2 ^ l"
    "0 < l \<longrightarrow> 2 ^ (l - 1) < unat n"
proof -
  obtain c where c: "builtin_clz n = Inr c" "c < 32" "bit n (31 - c)"
      "\<forall>i. 31 - c < i \<longrightarrow> \<not> bit n i"
    using builtin_clz_highest_bit [OF assms] by blast
  have b: "2 ^ (31 - c) \<le> unat n" "unat n < 2 ^ Suc (31 - c)"
    using highest_bit_bounds [OF c(3,4)] by auto
  have p: "unat (push_bit (31 - c) (1 :: u32)) = 2 ^ (31 - c)"
    using power_strict_increasing [of "31 - c" 32 "2 :: nat"] by (subst unat_push_bit) auto
  show ?thesis
  proof (cases "n = push_bit (31 - c) 1")
    case True
    then have "log2_roundup n = Inr (31 - c)" "unat n = 2 ^ (31 - c)"
      using c(1) p by (simp_all add: log2_roundup_def Let_def)
    moreover from this have "0 < 31 - c \<longrightarrow> 2 ^ (31 - c - 1) < unat n" by auto
    ultimately show ?thesis using that [of "31 - c"] by auto
  next
    case False
    then have "unat n \<noteq> 2 ^ (31 - c)" using p by (metis word_unat_eq_iff)
    then have "2 ^ (31 - c) < unat n" using b by simp
    moreover have "log2_roundup n = Inr (31 - c + 1)"
      using False c(1) by (simp add: log2_roundup_def Let_def)
    ultimately show ?thesis using that [of "31 - c + 1"] b by simp
  qed
qed

text \<open>The result is the least exponent whose power of two holds \<open>n\<close>.\<close>

lemma log2_roundup_eq:
  assumes "unat n \<le> 2 ^ l" "0 < l \<longrightarrow> 2 ^ (l - 1) < unat n" "n \<noteq> 0"
  shows "log2_roundup n = Inr l"
proof -
  obtain k where k: "log2_roundup n = Inr k" "k \<le> 32" "unat n \<le> 2 ^ k"
      "0 < k \<longrightarrow> 2 ^ (k - 1) < unat n"
    by (rule log2_roundup_spec [OF assms(3)])
  have "\<not> a < b" if "unat n \<le> 2 ^ a" "0 < b \<longrightarrow> 2 ^ (b - 1) < unat n" for a b
  proof
    assume "a < b"
    then have "(2 :: nat) ^ a \<le> 2 ^ (b - 1)" by (intro power_increasing) auto
    with that \<open>a < b\<close> show False by linarith
  qed
  from this [of k l] this [of l k] have "k = l" using k assms by simp
  with k show ?thesis by simp
qed

end
