(* ===== verification/Hal.thy ===== *)
theory Hal
  imports Prelude
begin

text \<open>
  The constants and small inline functions of the hardware abstraction layer
  (\<^verbatim>\<open>include/hal.h\<close> and \<^verbatim>\<open>include/x86/hal.h\<close>) that the memory managers share: memory ranges,
  the page size, the architecture-independent page flags and the page requests.
\<close>

section \<open>Ranges\<close>

record range =
  start :: u64
  extent :: u64

section \<open>Pages\<close>

definition get_page_size :: u32 where
  "get_page_size = 4096"

definition get_page_shift :: nat where
  "get_page_shift = 12"

definition get_page_mask :: u32 where
  "get_page_mask = 0xFFF"

definition round_to_page_size :: "u32 \<Rightarrow> u32" where
  "round_to_page_size x =
     (if x AND 0xFFF \<noteq> 0 then push_bit 12 (drop_bit 12 x + 1) else x)"

definition PAGE_WRITE :: u32 where "PAGE_WRITE = 1"
definition PAGE_EXECUTE :: u32 where "PAGE_EXECUTE = 2"
definition PAGE_USER :: u32 where "PAGE_USER = 4"
definition PAGE_COW :: u32 where "PAGE_COW = 8"

definition PAGE_REQ_NONE :: nat where "PAGE_REQ_NONE = 0"
definition PAGE_REQ_UNDER1MB :: nat where "PAGE_REQ_UNDER1MB = 1"
definition PAGE_REQ_UNDER4GB :: nat where "PAGE_REQ_UNDER4GB = 2"

section \<open>Rounding\<close>

lemma and_fff_take_bit: "(x :: 'a::len word) AND 0xFFF = take_bit 12 x"
proof -
  have "(0xFFF :: 'a word) = mask 12" by (simp add: mask_eq_exp_minus_1)
  then show ?thesis by (simp only: take_bit_eq_mask)
qed

lemma and_fff_mod: "unat ((x :: u32) AND 0xFFF) = unat x mod 4096"
proof -
  have "unat (x AND 0xFFF) = take_bit 12 (unat x)"
    by (simp only: and_fff_take_bit unsigned_take_bit_eq)
  then show ?thesis by (simp add: take_bit_eq_mod)
qed

lemma round_to_page_size_unat:
  assumes "unat x \<le> 2 ^ 32 - 2 ^ 12"
  shows "unat (round_to_page_size x) = (unat x + 4095) div 4096 * 4096"
proof (cases "unat x mod 4096 = 0")
  case True
  then have "x AND 0xFFF = 0" using and_fff_mod [of x] by (simp add: unat_eq_0)
  then have "unat (round_to_page_size x) = unat x" by (simp add: round_to_page_size_def)
  moreover have "(unat x + 4095) div 4096 * 4096 = unat x"
    using True by (auto simp: mod_eq_0_iff_dvd elim!: dvdE)
  ultimately show ?thesis by simp
next
  case False
  then have "x AND 0xFFF \<noteq> 0" using and_fff_mod [of x] by auto
  then have r: "round_to_page_size x = push_bit 12 (drop_bit 12 x + 1)"
    by (simp add: round_to_page_size_def)
  have "unat (drop_bit 12 x + 1) = unat x div 4096 + 1"
    using assms by (simp add: unat_word_ariths unat_drop_bit)
  moreover have "(unat x div 4096 + 1) * 4096 < 2 ^ 32"
  proof -
    have "unat x \<noteq> 4294963200" using False by auto
    then have "unat x < 1048575 * 4096" using assms by simp
    then have "unat x div 4096 < 1048575" by (simp only: div_less_iff_less_mult)
    then show ?thesis by simp
  qed
  ultimately have "unat (round_to_page_size x) = (unat x div 4096 + 1) * 4096"
    unfolding r by (subst unat_push_bit) simp_all
  also have "unat x div 4096 + 1 = (unat x + 4095) div 4096"
  proof -
    have "unat x mod 4096 < 4096" by simp
    then show ?thesis
      using False div_mult_mod_eq [of "unat x" 4096] by linarith
  qed
  finally show ?thesis .
qed

end
