(* ===== verification/Buddy.thy ===== *)
theory Buddy
  imports Bitmap Buddy_Spec Utils Hal
begin

text \<open>
  The buddy allocator of \<^verbatim>\<open>buddy.c\<close> and \<^verbatim>\<open>include/adt/buddy.h\<close>, bit for bit: the seventeen
  order bitmaps in the store, and the search, split and coalescing loops over them. The
  theorems relate it to the blocks of \<open>Buddy_Spec\<close>.
\<close>

section \<open>Data\<close>

abbreviation (input) MIN_BUDDY_SZ_LOG2 :: nat where "MIN_BUDDY_SZ_LOG2 \<equiv> 12"
abbreviation (input) MAX_BUDDY_SZ_LOG2 :: nat where "MAX_BUDDY_SZ_LOG2 \<equiv> 28"
abbreviation (input) NUM_BUDDY_BUCKETS :: nat where "NUM_BUDDY_BUCKETS \<equiv> 17"

record buddy =
  buddy_start :: u64
  buddy_size :: u64
  orders :: "bitmap list"

text \<open>\<^verbatim>\<open>orders[log_sz - MIN_BUDDY_SZ_LOG2]\<close>: an index outside the array is undefined.\<close>

definition buddy_order :: "buddy \<Rightarrow> nat \<Rightarrow> bitmap res" where
  "buddy_order bd log_sz =
     (if MIN_BUDDY_SZ_LOG2 \<le> log_sz \<and> log_sz - MIN_BUDDY_SZ_LOG2 < NUM_BUDDY_BUCKETS
      then Inr (orders bd ! (log_sz - MIN_BUDDY_SZ_LOG2))
      else Inl (Undefined ''bd->orders[order_idx]''))"

section \<open>Setting up\<close>

definition buddy_calc_overhead :: "range \<Rightarrow> u32" where
  "buddy_calc_overhead r =
     fold (\<lambda>i accum. accum + ucast (drop_bit i (extent r) div 8 + 1))
       [MIN_BUDDY_SZ_LOG2 ..< MAX_BUDDY_SZ_LOG2 + 1] 0"

fun init_orders :: "u64 \<Rightarrow> mem \<Rightarrow> u32 \<Rightarrow> nat list \<Rightarrow> bitmap list \<times> mem" where
  "init_orders sz m storage [] = ([], m)"
| "init_orders sz m storage (i # is) =
     (let idx = ucast (drop_bit (MIN_BUDDY_SZ_LOG2 + i) sz) :: u32;
          (xb, m1) = bitmap_init m storage (ucast idx);
          (xbs, m2) = init_orders sz m1 (storage + (idx div 8 + 1)) is
      in (xb # xbs, m2))"

definition aligned_for :: "u64 \<Rightarrow> nat \<Rightarrow> bool" where
  "aligned_for addr lg2 \<longleftrightarrow>
     addr AND ucast (ucast (NOT (push_bit lg2 (NOT 0 :: u64))) :: u32) = 0"

section \<open>Freeing\<close>

function buddy_free_loop :: "buddy \<Rightarrow> mem \<Rightarrow> nat \<Rightarrow> u32 \<Rightarrow> mem res" where
  "buddy_free_loop bd m log_sz idx =
     (if MIN_BUDDY_SZ_LOG2 \<le> log_sz
      then bind_res (buddy_order bd log_sz) (\<lambda>ob.
           bind_res (bitmap_set m ob idx) (\<lambda>m1.
             if log_sz = MAX_BUDDY_SZ_LOG2 then Inr m1
             else if \<not> bitmap_isset m1 ob (idx XOR 1) then Inr m1
             else let m2 = bitmap_clear m1 ob idx;
                      m3 = bitmap_clear m2 ob (idx XOR 1)
                  in buddy_free_loop bd m3 (log_sz + 1) (drop_bit 1 idx)))
      else Inr m)"
  by pat_completeness auto
termination
  by (relation "measure (\<lambda>(bd, m, log_sz, idx). 29 - log_sz)")
    (auto simp: buddy_order_def split: if_splits)

definition buddy_free :: "buddy \<Rightarrow> mem \<Rightarrow> u64 \<Rightarrow> u32 \<Rightarrow> mem res" where
  "buddy_free bd m addr sz =
     (let offs = addr - buddy_start bd
      in bind_res (log2_roundup sz) (\<lambda>log_sz.
           buddy_free_loop bd m log_sz (ucast (drop_bit log_sz offs))))"

text \<open>
  The inner loop of \<^verbatim>\<open>buddy_free_range\<close> looks for the largest block that fits the range and is
  aligned. When there is none the range is unchanged, and the outer loop repeats the same
  search for ever: \<open>Hang\<close>.
\<close>

definition largest_block :: "u64 \<Rightarrow> u64 \<Rightarrow> nat option" where
  "largest_block ext offs =
     find (\<lambda>i. \<not> (push_bit i 1 > ext \<or> \<not> aligned_for offs i))
       (rev [MIN_BUDDY_SZ_LOG2 ..< MAX_BUDDY_SZ_LOG2 + 1])"

function free_range_loop :: "buddy \<Rightarrow> mem \<Rightarrow> u64 \<Rightarrow> u64 \<Rightarrow> mem res" where
  "free_range_loop bd m s ext =
     (if ext \<ge> push_bit MIN_BUDDY_SZ_LOG2 1 \<and> aligned_for s MIN_BUDDY_SZ_LOG2
      then case largest_block ext (s - buddy_start bd) of
             None \<Rightarrow> Inl Hang
           | Some i \<Rightarrow>
               bind_res (buddy_free bd m (s - buddy_start bd + buddy_start bd) (push_bit i 1))
                 (\<lambda>m1. free_range_loop bd m1 (s + push_bit i 1) (ext - push_bit i 1))
      else Inr m)"
  by pat_completeness auto
termination
proof (relation "measure (\<lambda>(bd, m, s, ext). unat ext)", goal_cases)
  case 1
  then show ?case by simp
next
  case (2 bd m s ext i m1)
  then have "push_bit i (1 :: u64) \<le> ext" "i < 64"
    using find_SomeD [OF 2(2) [unfolded largest_block_def]] by auto
  then have "unat (ext - 2 ^ i) = unat ext - unat (2 ^ i :: u64)" "0 < unat (2 ^ i :: u64)"
      "unat (2 ^ i :: u64) \<le> unat ext"
    by (simp_all add: unat_sub unat_gt_0 word_le_nat_alt)
  then show ?case by simp
qed

definition buddy_free_range :: "buddy \<Rightarrow> mem \<Rightarrow> range \<Rightarrow> mem res" where
  "buddy_free_range bd m r =
     (let min_sz = push_bit MIN_BUDDY_SZ_LOG2 1
      in if \<not> aligned_for (start r) MIN_BUDDY_SZ_LOG2
         then if extent r < min_sz then Inr m
              else free_range_loop bd m
                     ((start r AND push_bit MIN_BUDDY_SZ_LOG2 (NOT 0)) + min_sz) (extent r)
         else free_range_loop bd m (start r) (extent r))"

definition buddy_init :: "mem \<Rightarrow> u32 \<Rightarrow> range \<Rightarrow> bool \<Rightarrow> (int \<times> buddy \<times> mem) res" where
  "buddy_init m overhead_storage r start_freed =
     (let (os, m1) = init_orders (extent r) m overhead_storage [0..<NUM_BUDDY_BUCKETS];
          bd = \<lparr>buddy_start = start r, buddy_size = extent r, orders = os\<rparr>
      in if start_freed
         then bind_res (buddy_free_range bd m1 r) (\<lambda>m2. Inr (0, bd, m2))
         else Inr (0, bd, m1))"

section \<open>Allocating\<close>

text \<open>The search: the first order from \<open>log_sz\<close> up with a free block, and that block's index.\<close>

function alloc_search :: "buddy \<Rightarrow> mem \<Rightarrow> nat \<Rightarrow> (int \<times> nat) res" where
  "alloc_search bd m log_sz =
     (if log_sz \<le> MAX_BUDDY_SZ_LOG2
      then bind_res (buddy_order bd log_sz) (\<lambda>ob.
           bind_res (bitmap_first_set m ob) (\<lambda>idx.
             if idx \<noteq> -1 then Inr (idx, log_sz)
             else alloc_search bd m (log_sz + 1)))
      else Inr (-1, log_sz))"
  by pat_completeness auto
termination
  by (relation "measure (\<lambda>(bd, m, log_sz). 29 - log_sz)") auto

text \<open>
  The split loop: the block leaves its order, its two halves enter the order below. The
  index is an \<^verbatim>\<open>int64_t\<close> below \<open>2 ^ 48\<close>, converted to \<^verbatim>\<open>unsigned\<close> at each bitmap call.
\<close>

function alloc_split :: "buddy \<Rightarrow> mem \<Rightarrow> nat \<Rightarrow> nat \<Rightarrow> int \<Rightarrow> (int \<times> mem) res" where
  "alloc_split bd m orig_log_sz log_sz idx =
     (if log_sz = orig_log_sz then Inr (idx, m)
      else bind_res (buddy_order bd log_sz) (\<lambda>ob.
           let m1 = bitmap_clear m ob (word_of_int idx);
               idx1 = idx * 2
           in bind_res (buddy_order bd (log_sz - 1)) (\<lambda>ob1.
              bind_res (bitmap_set m1 ob1 (word_of_int idx1)) (\<lambda>m2.
              bind_res (bitmap_set m2 ob1 (word_of_int (idx1 + 1))) (\<lambda>m3.
                alloc_split bd m3 orig_log_sz (log_sz - 1) idx1)))))"
  by pat_completeness auto
termination
  by (relation "measure (\<lambda>(bd, m, orig, log_sz, idx). log_sz)")
    (auto simp: buddy_order_def split: if_splits)

definition buddy_alloc :: "buddy \<Rightarrow> mem \<Rightarrow> u32 \<Rightarrow> (u64 \<times> mem) res" where
  "buddy_alloc bd m sz =
     bind_res (log2_roundup sz) (\<lambda>orig_log_sz.
       if orig_log_sz > MAX_BUDDY_SZ_LOG2
       then Inl (Panic ''buddy_alloc had request that was too large to handle!'')
       else bind_res (alloc_search bd m orig_log_sz) (\<lambda>(idx, log_sz).
              if idx = -1 then Inr (NOT 0, m)
              else bind_res (alloc_split bd m orig_log_sz log_sz idx) (\<lambda>(idx, m1).
                   bind_res (buddy_order bd orig_log_sz) (\<lambda>ob.
                     Inr (buddy_start bd + push_bit orig_log_sz (word_of_int idx),
                          bitmap_clear m1 ob (word_of_int idx))))))"

declare buddy_free_loop.simps [simp del] free_range_loop.simps [simp del]
  alloc_search.simps [simp del] alloc_split.simps [simp del]

end
