(* ===== verification/Buddy_Correct.thy ===== *)
theory Buddy_Correct
  imports Buddy
begin

text \<open>
  The buddy allocator of \<open>Buddy\<close> implements the blocks of \<open>Buddy_Spec\<close>: the abstraction from
  the order bitmaps in the store to the family of free blocks, the invariant, and the
  refinement of every operation.
\<close>

section \<open>The abstraction\<close>

definition buddy_pages :: "buddy \<Rightarrow> nat" where
  "buddy_pages bd = unat (buddy_size bd) div 4096"

definition order_len :: "buddy \<Rightarrow> nat \<Rightarrow> nat" where
  "order_len bd i = buddy_pages bd div 2 ^ i"

definition buddy_blocks :: "buddy \<Rightarrow> mem \<Rightarrow> blocks" where
  "buddy_blocks bd m i =
     (if i \<le> top_order then bm_bits m (orders bd ! i) (order_len bd i) else {})"

definition order_storage :: "buddy \<Rightarrow> nat \<Rightarrow> u32 set" where
  "order_storage bd i = bm_storage (orders bd ! i) (order_len bd i)"

definition buddy_storage :: "buddy \<Rightarrow> u32 set" where
  "buddy_storage bd = (\<Union>i \<le> top_order. order_storage bd i)"

text \<open>
  A well-formed descriptor: seventeen bitmaps made for the right extents, in storage that does
  not overlap, over a page-aligned region of less than \<open>2 ^ 32\<close> pages that does not wrap.
\<close>

definition buddy_wf :: "buddy \<Rightarrow> bool" where
  "buddy_wf bd \<longleftrightarrow>
     length (orders bd) = NUM_BUDDY_BUCKETS \<and>
     buddy_pages bd < 4294967296 \<and>
     unat (buddy_start bd) mod 4096 = 0 \<and>
     unat (buddy_start bd) + unat (buddy_size bd) < 18446744073709551616 \<and>
     (\<forall>i \<le> top_order. bm_wf (orders bd ! i) (order_len bd i)) \<and>
     (\<forall>i \<le> top_order. \<forall>k \<le> top_order. i \<noteq> k \<longrightarrow>
        order_storage bd i \<inter> order_storage bd k = {})"

definition buddy_inv :: "buddy \<Rightarrow> mem \<Rightarrow> bool" where
  "buddy_inv bd m \<longleftrightarrow> buddy_wf bd \<and> good_blocks (buddy_pages bd) (buddy_blocks bd m)"

definition buddy_free_pages :: "buddy \<Rightarrow> mem \<Rightarrow> nat set" where
  "buddy_free_pages bd m = free_pages (buddy_blocks bd m)"

text \<open>The address of page \<open>p\<close> of the managed region.\<close>

definition page_addr :: "buddy \<Rightarrow> nat \<Rightarrow> u64" where
  "page_addr bd p = buddy_start bd + of_nat (p * 4096)"

lemma buddy_wfD:
  assumes "buddy_wf bd"
  shows "length (orders bd) = 17" "buddy_pages bd < 4294967296"
    "unat (buddy_start bd) mod 4096 = 0"
    "unat (buddy_start bd) + unat (buddy_size bd) < 18446744073709551616"
    "i \<le> top_order \<Longrightarrow> bm_wf (orders bd ! i) (order_len bd i)"
    "i \<le> top_order \<Longrightarrow> k \<le> top_order \<Longrightarrow> i \<noteq> k \<Longrightarrow> order_storage bd i \<inter> order_storage bd k = {}"
  using assms by (auto simp: buddy_wf_def)

lemma order_len_less: "buddy_wf bd \<Longrightarrow> order_len bd i < 4294967296"
  unfolding order_len_def by (rule le_less_trans [OF div_le_dividend buddy_wfD(2)])

lemma buddy_order_eq:
  "i \<le> top_order \<Longrightarrow> buddy_order bd (12 + i) = Inr (orders bd ! i)"
  by (simp add: buddy_order_def top_order_def)

lemma block_in_order: "(j + 1) * 2 ^ i \<le> buddy_pages bd \<Longrightarrow> j < order_len bd i"
  by (simp add: order_len_def less_eq_div_iff_mult_less_eq Suc_le_eq [symmetric])

section \<open>One bitmap operation on the family of blocks\<close>

lemma order_frame:
  assumes "buddy_wf bd" "i \<le> top_order" "same_outside (order_storage bd i) m m'"
  shows "buddy_blocks bd m' = (buddy_blocks bd m)(i := buddy_blocks bd m' i)"
    and "same_outside (buddy_storage bd) m m'"
proof -
  have "buddy_blocks bd m' k = buddy_blocks bd m k" if "k \<noteq> i" for k
  proof (cases "k \<le> top_order")
    case True
    then have "order_storage bd i \<inter> order_storage bd k = {}"
      using assms that by (metis buddy_wfD(6))
    then have "bm_bits m' (orders bd ! k) (order_len bd k) = bm_bits m (orders bd ! k) (order_len bd k)"
      using assms(3) order_len_less [OF assms(1)]
      by (intro bm_bits_storage) (auto simp: order_storage_def dest: same_outsideD)
    with True show ?thesis by (simp add: buddy_blocks_def)
  next
    case False
    then show ?thesis by (simp add: buddy_blocks_def)
  qed
  then show "buddy_blocks bd m' = (buddy_blocks bd m)(i := buddy_blocks bd m' i)" by (intro ext) simp
  show "same_outside (buddy_storage bd) m m'"
    using assms(2,3) by (auto simp: buddy_storage_def intro: same_outside_mono)
qed

lemma order_set:
  assumes "buddy_wf bd" "i \<le> top_order" "j \<le> order_len bd i"
  obtains m' where "bitmap_set m (orders bd ! i) (of_nat j) = Inr m'"
    "buddy_blocks bd m' = (buddy_blocks bd m)(i := insert j (buddy_blocks bd m i))"
    "same_outside (buddy_storage bd) m m'"
proof -
  have j: "j < bm_cap (order_len bd i)" using assms(3) bm_cap_gt [of "order_len bd i"] by simp
  note len = order_len_less [OF assms(1), of i]
  obtain m' where m': "bitmap_set m (orders bd ! i) (of_nat j) = Inr m'"
    using bitmap_set_total by blast
  have "same_outside (order_storage bd i) m m'"
    unfolding order_storage_def by (rule bitmap_set_frame [OF len j m'])
  note frame = order_frame [OF assms(1,2) this]
  have "buddy_blocks bd m' i = insert j (buddy_blocks bd m i)"
    using bm_bits_set [OF len j m'] assms(2) by (simp add: buddy_blocks_def)
  with frame that m' show ?thesis by simp
qed

lemma order_clear:
  assumes "buddy_wf bd" "i \<le> top_order" "j \<le> order_len bd i"
  shows "buddy_blocks bd (bitmap_clear m (orders bd ! i) (of_nat j)) =
      (buddy_blocks bd m)(i := buddy_blocks bd m i - {j})"
    and "same_outside (buddy_storage bd) m (bitmap_clear m (orders bd ! i) (of_nat j))"
proof -
  let ?m' = "bitmap_clear m (orders bd ! i) (of_nat j)"
  have j: "j < bm_cap (order_len bd i)" using assms(3) bm_cap_gt [of "order_len bd i"] by simp
  note len = order_len_less [OF assms(1), of i]
  have "same_outside (order_storage bd i) m ?m'"
    unfolding order_storage_def by (rule bitmap_clear_frame [OF len j])
  note frame = order_frame [OF assms(1,2) this]
  have "buddy_blocks bd ?m' i = buddy_blocks bd m i - {j}"
    using bm_bits_clear [OF len j] assms(2) by (simp add: buddy_blocks_def)
  with frame show "buddy_blocks bd ?m' = (buddy_blocks bd m)(i := buddy_blocks bd m i - {j})"
    "same_outside (buddy_storage bd) m ?m'" by simp_all
qed

lemma order_isset:
  assumes "i \<le> top_order" "j \<le> order_len bd i"
  shows "bitmap_isset m (orders bd ! i) (of_nat j) \<longleftrightarrow> j \<in> buddy_blocks bd m i"
  using assms bm_cap_gt [of "order_len bd i"] by (simp add: buddy_blocks_def bm_bits_iff)

section \<open>Freeing refines \<open>afree\<close>\<close>

lemma of_nat_xor_1: "(of_nat j :: u32) XOR 1 = of_nat (sibling j)"
proof (cases "even j")
  case True
  then show ?thesis by (simp add: xor_one_eq sibling_def)
next
  case False
  then obtain k where "j = Suc k" by (cases j) auto
  with False show ?thesis by (simp add: xor_one_eq sibling_def)
qed

lemma of_nat_drop_bit_1: "j < 4294967296 \<Longrightarrow> drop_bit 1 (of_nat j :: u32) = of_nat (j div 2)"
  by (rule word_unat_eq_iff [THEN iffD2]) (simp only: unat_drop_bit, simp)

lemma sibling_le_order_len:
  "(j + 1) * 2 ^ i \<le> buddy_pages bd \<Longrightarrow> sibling j \<le> order_len bd i"
  using block_in_order [of j i bd] by (auto simp: sibling_def)

lemma order_coalesce:
  assumes "buddy_wf bd" "i \<le> top_order" "(j + 1) * 2 ^ i \<le> buddy_pages bd"
    "bitmap_set m (orders bd ! i) (of_nat j) = Inr m1"
  defines "m3 \<equiv> bitmap_clear (bitmap_clear m1 (orders bd ! i) (of_nat j))
    (orders bd ! i) (of_nat (sibling j))"
  shows "buddy_blocks bd m3 = (buddy_blocks bd m)(i := buddy_blocks bd m i - {j, sibling j})"
    and "same_outside (buddy_storage bd) m m3"
proof -
  have j: "j \<le> order_len bd i" "sibling j \<le> order_len bd i"
    using block_in_order [OF assms(3)] sibling_le_order_len [OF assms(3)] by simp_all
  obtain m' where "bitmap_set m (orders bd ! i) (of_nat j) = Inr m'" and
    blocks: "buddy_blocks bd m' = (buddy_blocks bd m)(i := insert j (buddy_blocks bd m i))" and
    frame: "same_outside (buddy_storage bd) m m'"
    using order_set [OF assms(1,2) j(1)] by blast
  then have "m' = m1" using assms(4) by simp
  then show "buddy_blocks bd m3 = (buddy_blocks bd m)(i := buddy_blocks bd m i - {j, sibling j})"
    using blocks order_clear(1) [OF assms(1,2) j(1)] order_clear(1) [OF assms(1,2) j(2)]
    by (simp add: m3_def) (metis Diff_insert2)
  show "same_outside (buddy_storage bd) m m3"
    using frame \<open>m' = m1\<close> order_clear(2) [OF assms(1,2) j(1)] order_clear(2) [OF assms(1,2) j(2)]
    unfolding m3_def by (blast intro: same_outside_trans)
qed

lemma buddy_free_loop_refines:
  assumes "buddy_wf bd" "in_range (buddy_pages bd) (buddy_blocks bd m)"
    "i \<le> top_order" "(j + 1) * 2 ^ i \<le> buddy_pages bd"
  shows "\<exists>m'. buddy_free_loop bd m (12 + i) (of_nat j) = Inr m' \<and>
    buddy_blocks bd m' = afree (buddy_blocks bd m) i j \<and>
    same_outside (buddy_storage bd) m m'"
  using assms(2-4)
proof (induction "top_order - i" arbitrary: i j m rule: less_induct)
  case less
  let ?F = "buddy_blocks bd m"
  have j: "j \<le> order_len bd i" and sj: "sibling j \<le> order_len bd i"
    using block_in_order [OF less.prems(3)] sibling_le_order_len [OF less.prems(3)] by simp_all
  obtain m1 where m1: "bitmap_set m (orders bd ! i) (of_nat j) = Inr m1"
      "buddy_blocks bd m1 = ?F(i := insert j (?F i))" "same_outside (buddy_storage bd) m m1"
    by (rule order_set [OF assms(1) less.prems(2) j])
  let ?m3 = "bitmap_clear (bitmap_clear m1 (orders bd ! i) (of_nat j))
    (orders bd ! i) (of_nat (sibling j))"
  have sib: "bitmap_isset m1 (orders bd ! i) (of_nat (sibling j)) \<longleftrightarrow> sibling j \<in> ?F i"
    using order_isset [OF less.prems(2) sj, of m1] sibling_neq [of j] by (simp add: m1(2))
  have loop: "buddy_free_loop bd m (12 + i) (of_nat j) =
      (if i < top_order \<and> sibling j \<in> ?F i
       then buddy_free_loop bd ?m3 (12 + Suc i) (of_nat (j div 2)) else Inr m1)"
    using less.prems(2) j order_len_less [OF assms(1), of i]
    by (subst buddy_free_loop.simps)
      (auto simp: buddy_order_eq m1(1) of_nat_xor_1 sib Let_def top_order_def
        of_nat_drop_bit_1 [unfolded One_nat_def])
  show ?case
  proof (cases "i < top_order \<and> sibling j \<in> ?F i")
    case True
    note co = order_coalesce [OF assms(1) less.prems(2,3) m1(1)]
    have "in_range (buddy_pages bd) (buddy_blocks bd ?m3)"
      using less.prems(1) by (auto simp: co(1) in_range_def)
    moreover have "(j div 2 + 1) * 2 ^ Suc i \<le> buddy_pages bd"
      using True less.prems by (intro sibling_in_range) auto
    moreover have "top_order - Suc i < top_order - i" "Suc i \<le> top_order"
      using True by (auto intro: diff_less_mono2)
    ultimately obtain m' where
      "buddy_free_loop bd ?m3 (12 + Suc i) (of_nat (j div 2)) = Inr m'"
      "buddy_blocks bd m' = afree (buddy_blocks bd ?m3) (Suc i) (j div 2)"
      "same_outside (buddy_storage bd) ?m3 m'"
      using less.hyps [of "Suc i" ?m3 "j div 2"] by blast
    then show ?thesis
      using True loop co by (auto simp: afree.simps [of ?F i j] intro: same_outside_trans)
  next
    case False
    then show ?thesis using loop m1(2,3) by (subst afree.simps) auto
  qed
qed

lemma block_bytes_less:
  assumes "buddy_wf bd" "(j + 1) * 2 ^ i \<le> buddy_pages bd"
  shows "j * 2 ^ i * 4096 < 17592186044416"
proof -
  have "(j + 1) * 2 ^ i < 4294967296" using assms buddy_wfD(2) [OF assms(1)] by linarith
  then show ?thesis by (simp add: algebra_simps)
qed

lemma block_index:
  assumes "buddy_wf bd" "(j + 1) * 2 ^ i \<le> buddy_pages bd"
  shows "ucast (drop_bit (12 + i) (page_addr bd (j * 2 ^ i) - buddy_start bd)) = (of_nat j :: u32)"
proof -
  have "unat (of_nat (j * 2 ^ i * 4096) :: u64) = j * 2 ^ i * 4096"
    using block_bytes_less [OF assms] by (intro unat_of_nat_u64) simp
  then have "unat (drop_bit (12 + i) (of_nat (j * 2 ^ i * 4096) :: u64)) =
      j * 2 ^ i * 4096 div 2 ^ (12 + i)"
    by (simp only: unat_drop_bit)
  also have "\<dots> = j" by (simp add: power_add)
  finally have *: "unat (drop_bit (12 + i) (page_addr bd (j * 2 ^ i) - buddy_start bd)) = j"
    by (simp add: page_addr_def)
  have "j < 4294967296"
    using block_in_order [OF assms(2)] order_len_less [OF assms(1), of i] by simp
  with * show ?thesis
    by (intro word_unat_eq_iff [THEN iffD2]) (simp add: unat_ucast_small)
qed

lemma buddy_free_block:
  assumes "buddy_inv bd m" "log2_roundup sz = Inr (12 + i)" "i \<le> top_order"
    "(j + 1) * 2 ^ i \<le> buddy_pages bd" "blk i j \<inter> buddy_free_pages bd m = {}"
  shows "\<exists>m'. buddy_free bd m (page_addr bd (j * 2 ^ i)) sz = Inr m' \<and> buddy_inv bd m' \<and>
    buddy_free_pages bd m' = buddy_free_pages bd m \<union> blk i j \<and>
    same_outside (buddy_storage bd) m m'"
proof -
  have wf: "buddy_wf bd" and good: "good_blocks (buddy_pages bd) (buddy_blocks bd m)"
    using assms(1) by (simp_all add: buddy_inv_def)
  obtain m' where m': "buddy_free_loop bd m (12 + i) (of_nat j) = Inr m'"
      "buddy_blocks bd m' = afree (buddy_blocks bd m) i j" "same_outside (buddy_storage bd) m m'"
    using buddy_free_loop_refines [OF wf _ assms(3,4)] good by (auto simp: good_blocks_def)
  have "buddy_free bd m (page_addr bd (j * 2 ^ i)) sz = Inr m'"
    using m'(1) assms(2) by (simp add: buddy_free_def block_index [OF wf assms(4)])
  moreover have "good_blocks (buddy_pages bd) (buddy_blocks bd m') \<and>
      free_pages (buddy_blocks bd m') = free_pages (buddy_blocks bd m) \<union> blk i j"
    unfolding m'(2) using assms(5)
    by (intro afree_spec [OF good assms(3) _ assms(4)]) (simp add: buddy_free_pages_def)
  ultimately show ?thesis using wf m'(3) by (auto simp: buddy_inv_def buddy_free_pages_def)
qed

section \<open>Allocation refines the search and \<open>asplit\<close>\<close>

lemma order_first_set:
  assumes "buddy_wf bd" "in_range (buddy_pages bd) (buddy_blocks bd m)" "i \<le> top_order"
  shows "bitmap_first_set m (orders bd ! i) =
    Inr (if buddy_blocks bd m i = {} then -1 else int (Min (buddy_blocks bd m i)))"
proof -
  let ?B = "bm_bits m (orders bd ! i) (order_len bd i)"
  have B: "buddy_blocks bd m i = ?B" using assms(3) by (simp add: buddy_blocks_def)
  have "Min ?B \<le> order_len bd i" if "?B \<noteq> {}"
  proof -
    have "Min ?B \<in> ?B" using that by simp
    then have "(Min ?B + 1) * 2 ^ i \<le> buddy_pages bd"
      using assms(2,3) B by (metis in_range_def)
    then show ?thesis using block_in_order by (simp add: less_imp_le)
  qed
  then show ?thesis
    using bitmap_first_set_spec [OF buddy_wfD(5) [OF assms(1,3)], of m]
    by (cases "?B = {}") (simp_all only: B if_True if_False simp_thms not_less [symmetric])
qed

lemma alloc_search_spec:
  assumes "buddy_wf bd" "in_range (buddy_pages bd) (buddy_blocks bd m)" "i \<le> Suc top_order"
  shows "(\<exists>k. i \<le> k \<and> k \<le> top_order \<and> buddy_blocks bd m k \<noteq> {} \<and>
        alloc_search bd m (12 + i) = Inr (int (Min (buddy_blocks bd m k)), 12 + k)) \<or>
     (\<forall>k. i \<le> k \<longrightarrow> buddy_blocks bd m k = {}) \<and> alloc_search bd m (12 + i) = Inr (-1, 29)"
  using assms(3)
proof (induction "Suc top_order - i" arbitrary: i)
  case 0
  then have "alloc_search bd m (12 + i) = Inr (-1, 29)"
    by (subst alloc_search.simps) (simp add: top_order_def)
  with 0 show ?case by (auto simp: buddy_blocks_def)
next
  case (Suc d)
  then have i: "i \<le> top_order" by simp
  have step: "alloc_search bd m (12 + i) =
      (if buddy_blocks bd m i = {} then alloc_search bd m (12 + Suc i)
       else Inr (int (Min (buddy_blocks bd m i)), 12 + i))"
    using i by (subst alloc_search.simps)
      (auto simp: buddy_order_eq order_first_set [OF assms(1,2)] top_order_def)
  show ?case
  proof (cases "buddy_blocks bd m i = {}")
    case True
    moreover have "d = Suc top_order - Suc i" "Suc i \<le> Suc top_order" using Suc by simp_all
    ultimately show ?thesis using Suc.hyps(1) [of "Suc i"] step
      by (metis Suc_leD le_antisym not_less_eq_eq)
  next
    case False
    then show ?thesis using step i by auto
  qed
qed

lemma alloc_split_refines:
  assumes "buddy_wf bd" "k \<le> top_order" "(j + 1) * 2 ^ k \<le> buddy_pages bd" "d \<le> k"
  shows "\<exists>m'. alloc_split bd m (12 + (k - d)) (12 + k) (int j) = Inr (int (j * 2 ^ d), m') \<and>
    buddy_blocks bd (bitmap_clear m' (orders bd ! (k - d)) (of_nat (j * 2 ^ d))) =
      asplit (buddy_blocks bd m) k j d \<and>
    same_outside (buddy_storage bd) m (bitmap_clear m' (orders bd ! (k - d)) (of_nat (j * 2 ^ d)))"
  using assms(2-4)
proof (induction d arbitrary: k j m)
  case 0
  have "j \<le> order_len bd k" using block_in_order [OF 0(2)] by simp
  with 0 show ?case
    using order_clear [OF assms(1) 0(1)] by (auto simp: alloc_split.simps)
next
  case (Suc d)
  obtain l where k: "k = Suc l" using Suc.prems(3) by (cases k) auto
  have l: "l \<le> top_order" "d \<le> l" using Suc.prems k by simp_all
  have jk: "j \<le> order_len bd k" using block_in_order [OF Suc.prems(2)] by simp
  have half: "(2 * j + 1 + 1) * 2 ^ l \<le> buddy_pages bd"
    using Suc.prems(2) by (simp add: k algebra_simps)
  then have jl: "2 * j \<le> order_len bd l" "2 * j + 1 \<le> order_len bd l"
    using block_in_order [OF half] by simp_all
  have half': "(2 * j + 1) * 2 ^ l \<le> buddy_pages bd" using half by (simp add: algebra_simps)
  let ?m1 = "bitmap_clear m (orders bd ! k) (of_nat j)"
  note c = order_clear [OF assms(1) Suc.prems(1) jk, of m]
  obtain m2 where m2: "bitmap_set ?m1 (orders bd ! l) (of_nat (2 * j)) = Inr m2"
      "buddy_blocks bd m2 = (buddy_blocks bd ?m1)(l := insert (2 * j) (buddy_blocks bd ?m1 l))"
      "same_outside (buddy_storage bd) ?m1 m2"
    by (rule order_set [OF assms(1) l(1) jl(1)])
  obtain m3 where m3: "bitmap_set m2 (orders bd ! l) (of_nat (2 * j + 1)) = Inr m3"
      "buddy_blocks bd m3 = (buddy_blocks bd m2)(l := insert (2 * j + 1) (buddy_blocks bd m2 l))"
      "same_outside (buddy_storage bd) m2 m3"
    by (rule order_set [OF assms(1) l(1) jl(2)])
  have blocks: "buddy_blocks bd m3 = split_block (buddy_blocks bd m) l j"
    by (simp add: m3(2) m2(2) c(1) split_block_def) (simp add: k)
  have frame: "same_outside (buddy_storage bd) m m3"
    using c(2) m2(3) m3(3) by (blast intro: same_outside_trans)
  have idx: "int j * 2 = int (2 * j)" "int (2 * j) + 1 = int (2 * j + 1)" by simp_all
  have lev: "12 + k - 1 = 12 + l" "k - Suc d = l - d" "(12 + k = 12 + (l - d)) = False"
    using k by simp_all
  have step: "alloc_split bd m (12 + (k - Suc d)) (12 + k) (int j) =
      alloc_split bd m3 (12 + (l - d)) (12 + l) (int (2 * j))"
    by (subst alloc_split.simps)
      (simp only: lev idx if_False Let_def bind_res_Inr of_int_of_nat_eq m2(1) m3(1)
        buddy_order_eq [OF Suc.prems(1)] buddy_order_eq [OF l(1)])
  have e: "2 * j * 2 ^ d = j * 2 ^ Suc d" by simp
  obtain m' where m': "alloc_split bd m3 (12 + (l - d)) (12 + l) (int (2 * j)) =
        Inr (int (j * 2 ^ Suc d), m')"
      "buddy_blocks bd (bitmap_clear m' (orders bd ! (l - d)) (of_nat (j * 2 ^ Suc d))) =
        asplit (buddy_blocks bd m3) l (2 * j) d"
      "same_outside (buddy_storage bd) m3
        (bitmap_clear m' (orders bd ! (l - d)) (of_nat (j * 2 ^ Suc d)))"
    using Suc.IH [OF l(1) half' l(2), of m3] unfolding e by blast
  have "asplit (buddy_blocks bd m) k j (Suc d) = asplit (buddy_blocks bd m3) l (2 * j) d"
    by (simp add: blocks k)
  then show ?case
    using m' same_outside_trans [OF frame m'(3)] step unfolding lev(2)
    by (intro exI [of _ m'] conjI) (simp_all only: )
qed

lemma coalesced_imp_but: "coalesced F \<Longrightarrow> coalesced_but F i j"
  by (auto simp: coalesced_def coalesced_but_def)

lemma page_addr_block:
  "buddy_start bd + push_bit (12 + i) (of_nat j) = page_addr bd (j * 2 ^ i)"
  by (simp add: page_addr_def push_bit_eq_mult power_add algebra_simps)

lemma buddy_alloc_spec:
  assumes "buddy_inv bd m" "log2_roundup sz = Inr (12 + i)" "i \<le> top_order"
  shows "(\<exists>j m'. buddy_alloc bd m sz = Inr (page_addr bd (j * 2 ^ i), m') \<and>
        (j + 1) * 2 ^ i \<le> buddy_pages bd \<and> blk i j \<subseteq> buddy_free_pages bd m \<and>
        buddy_inv bd m' \<and> buddy_free_pages bd m' = buddy_free_pages bd m - blk i j \<and>
        same_outside (buddy_storage bd) m m') \<or>
     (\<forall>j. \<not> blk i j \<subseteq> buddy_free_pages bd m) \<and> buddy_alloc bd m sz = Inr (NOT 0, m)"
proof -
  let ?F = "buddy_blocks bd m"
  have wf: "buddy_wf bd" and no: "no_overlap ?F" and co: "coalesced ?F"
    and rng: "in_range (buddy_pages bd) ?F"
    using assms(1) by (simp_all add: buddy_inv_def good_blocks_def)
  from alloc_search_spec [OF wf rng, of i] assms(3) consider
      (found) k where "i \<le> k" "k \<le> top_order" "?F k \<noteq> {}"
        "alloc_search bd m (12 + i) = Inr (int (Min (?F k)), 12 + k)"
    | (none) "\<forall>k. i \<le> k \<longrightarrow> ?F k = {}" "alloc_search bd m (12 + i) = Inr (-1, 29)"
    by fastforce
  then show ?thesis
  proof cases
    case found
    define j where "j = Min (?F k)"
    have j: "j \<in> ?F k"
      using found(2,3) unfolding j_def by (intro Min_in) (simp_all add: buddy_blocks_def)
    then have jr: "(j + 1) * 2 ^ k \<le> buddy_pages bd" using rng found(2) by (auto simp: in_range_def)
    let ?d = "k - i" and ?j = "j * 2 ^ (k - i)"
    have kd: "k - ?d = i" "?d \<le> k" using found(1) by simp_all
    obtain m' where m': "alloc_split bd m (12 + i) (12 + k) (int j) = Inr (int ?j, m')"
        "buddy_blocks bd (bitmap_clear m' (orders bd ! i) (of_nat ?j)) = asplit ?F k j ?d"
        "same_outside (buddy_storage bd) m (bitmap_clear m' (orders bd ! i) (of_nat ?j))"
      using alloc_split_refines [OF wf found(2) jr kd(2), of m] unfolding kd(1) by blast
    let ?m = "bitmap_clear m' (orders bd ! i) (of_nat ?j)"
    have spec: "good_blocks (buddy_pages bd) (asplit ?F k j ?d)"
        "free_pages (asplit ?F k j ?d) = free_pages ?F - blk i ?j"
      using asplit_spec [OF no rng coalesced_imp_but [OF co] j found(2) kd(2)] kd(1) by simp_all
    have "buddy_alloc bd m sz = Inr (page_addr bd (?j * 2 ^ i), ?m)"
      using assms(2,3) found(4) m'(1)
      by (simp add: buddy_alloc_def top_order_def j_def [symmetric] buddy_order_eq page_addr_block
          del: of_nat_mult of_nat_power)
    moreover have "blk i ?j \<subseteq> buddy_free_pages bd m"
      using blk_leftmost [of i j ?d] blk_free [OF found(2), of j ?F] j found(1)
      by (auto simp: buddy_free_pages_def)
    moreover have "(?j + 1) * 2 ^ i \<le> buddy_pages bd"
      using leftmost_in_range [of j i ?d] jr found(1) by simp
    ultimately show ?thesis
      using m' spec wf by (auto simp: buddy_inv_def buddy_free_pages_def)
  next
    case none
    have "\<not> blk i j \<subseteq> buddy_free_pages bd m" for j
      using aligned_free_block [OF co assms(3), of j] none(1) by (auto simp: buddy_free_pages_def)
    moreover have "buddy_alloc bd m sz = Inr (NOT 0, m)"
      using assms(2,3) none(2) by (simp add: buddy_alloc_def top_order_def)
    ultimately show ?thesis by blast
  qed
qed

end
