(* ===== verification/Buddy_Range.thy ===== *)
theory Buddy_Range
  imports Buddy_Correct
begin

text \<open>
  Ranges of the buddy allocator: \<^verbatim>\<open>buddy_free_range\<close> releases exactly the pages of an aligned
  range, and \<^verbatim>\<open>buddy_init\<close> lays the seventeen bitmaps out in its storage and establishes the
  invariant.
\<close>

section \<open>Alignment\<close>

lemma aligned_for_iff: "lg2 \<le> 28 \<Longrightarrow> aligned_for addr lg2 \<longleftrightarrow> unat addr mod 2 ^ lg2 = 0"
proof -
  assume "lg2 \<le> 28"
  then have "addr AND ucast (ucast (NOT (push_bit lg2 (NOT 0 :: u64))) :: u32) = take_bit lg2 addr"
    by (intro bit_eqI) (auto simp: bit_simps)
  moreover have "unat (take_bit lg2 addr) = unat addr mod 2 ^ lg2"
    using unsigned_take_bit_eq [of lg2 addr] take_bit_eq_mod [of lg2 "unat addr"] by metis
  ultimately show ?thesis
    by (simp only: aligned_for_def) (metis unat_eq_0)
qed

lemma unat_exp_u64: "i < 64 \<Longrightarrow> unat (push_bit i 1 :: u64) = 2 ^ i"
  using power_strict_increasing [of i 64 "2 :: nat"] by (subst unat_push_bit) auto

lemma unat_exp_u32: "i < 32 \<Longrightarrow> unat (push_bit i 1 :: u32) = 2 ^ i"
  using power_strict_increasing [of i 32 "2 :: nat"] by (subst unat_push_bit) auto

lemma log2_roundup_exp:
  assumes "i < 32"
  shows "log2_roundup (push_bit i 1) = Inr i"
proof (rule log2_roundup_eq)
  show "0 < i \<longrightarrow> 2 ^ (i - 1) < unat (push_bit i (1 :: u32))"
    using assms by (auto simp: unat_exp_u32 simp del: push_bit_of_1)
qed (use assms unat_exp_u32 [of i] in \<open>auto simp del: push_bit_of_1\<close>)

lemma largest_block_exists:
  assumes "4096 \<le> unat ext" "unat offs mod 4096 = 0"
  obtains a where "largest_block ext offs = Some (12 + a)" "a \<le> top_order"
    "2 ^ a * 4096 \<le> unat ext" "unat offs mod (2 ^ a * 4096) = 0"
proof -
  let ?P = "\<lambda>i. \<not> (push_bit i 1 > ext \<or> \<not> aligned_for offs i)" and ?xs = "rev [12..<29]"
  have "?P 12"
    using assms aligned_for_iff [of 12 offs] unat_exp_u64 [of 12]
    by (simp add: word_less_nat_alt del: push_bit_of_1)
  moreover have "12 \<in> set ?xs" by simp
  ultimately obtain i where i: "find ?P ?xs = Some i" using find_exists [of ?P 12 ?xs] by blast
  from find_SomeD [OF this] have "12 \<le> i" "i \<le> 28" "?P i" by auto
  then obtain a where a: "i = 12 + a" "a \<le> 16" using that [of "i - 12"] by fastforce
  have "2 ^ i \<le> unat ext" "unat offs mod 2 ^ i = 0"
    using \<open>?P i\<close> \<open>i \<le> 28\<close> aligned_for_iff [of i offs] unat_exp_u64 [of i]
    by (simp_all add: word_less_nat_alt not_less del: push_bit_of_1)
  then show ?thesis
    using i a that [of a] by (simp add: largest_block_def top_order_def power_add mult.commute)
qed

lemma blk_range: "blk a j = {j * 2 ^ a ..< j * 2 ^ a + 2 ^ a}"
  by (simp add: blk_eq add.commute)

lemma page_addr_minus: "page_addr bd p - buddy_start bd + buddy_start bd = page_addr bd p"
  by simp

lemma page_addr_offset:
  assumes "p * 4096 < 18446744073709551616"
  shows "unat (page_addr bd p - buddy_start bd) = p * 4096"
  using assms by (simp add: page_addr_def unat_of_nat_u64 del: of_nat_mult)

lemma unat_page_addr:
  assumes "buddy_wf bd" "p \<le> buddy_pages bd"
  shows "unat (page_addr bd p) = unat (buddy_start bd) + p * 4096"
proof -
  have "p * 4096 \<le> unat (buddy_size bd)"
    using assms(2) by (simp add: buddy_pages_def less_eq_div_iff_mult_less_eq)
  then have *: "unat (buddy_start bd) + p * 4096 < 18446744073709551616"
    using buddy_wfD(4) [OF assms(1)] by simp
  then have "unat (of_nat (p * 4096) :: u64) = p * 4096" by (intro unat_of_nat_u64) simp
  with * show ?thesis by (simp only: page_addr_def unat_word_ariths) simp
qed

text \<open>One round of the loop: the block it picks, and what is left of the range.\<close>

lemma free_range_step:
  assumes "buddy_wf bd" "p + unat ext div 4096 \<le> buddy_pages bd" "4096 \<le> unat ext"
  obtains a j ext' where "p = j * 2 ^ a" "a \<le> top_order" "(j + 1) * 2 ^ a \<le> buddy_pages bd"
    "log2_roundup (push_bit (12 + a) 1) = Inr (12 + a)" "unat ext' < unat ext"
    "2 ^ a \<le> unat ext div 4096" "unat ext' div 4096 = unat ext div 4096 - 2 ^ a"
    "\<And>m. free_range_loop bd m (page_addr bd p) ext =
      bind_res (buddy_free bd m (page_addr bd p) (push_bit (12 + a) 1))
        (\<lambda>m1. free_range_loop bd m1 (page_addr bd (p + 2 ^ a)) ext')"
proof -
  have p: "p \<le> buddy_pages bd" using assms(2) by simp
  have off: "unat (page_addr bd p - buddy_start bd) = p * 4096"
    using p buddy_wfD(2) [OF assms(1)] by (intro page_addr_offset) simp
  obtain a where a: "largest_block ext (page_addr bd p - buddy_start bd) = Some (12 + a)"
      "a \<le> top_order" "2 ^ a * 4096 \<le> unat ext" "p * 4096 mod (2 ^ a * 4096) = 0"
    using largest_block_exists [OF assms(3), of "page_addr bd p - buddy_start bd"] off by auto
  then obtain j where j: "p = j * 2 ^ a" by (auto simp: mod_eq_0_iff_dvd mult.commute elim!: dvdE)
  have n: "2 ^ a \<le> unat ext div 4096" using a(3) by (simp add: less_eq_div_iff_mult_less_eq)
  let ?ext = "ext - push_bit (12 + a) 1"
  have sz: "unat (push_bit (12 + a) 1 :: u64) = 2 ^ a * 4096" "log2_roundup (push_bit (12 + a) 1) = Inr (12 + a)"
    using a(2) unat_exp_u64 [of "12 + a"] log2_roundup_exp [of "12 + a"]
    by (simp_all add: top_order_def power_add del: push_bit_of_1)
  have ext: "unat ?ext = unat ext - 2 ^ a * 4096"
    using a(3) sz(1) by (simp add: unat_sub word_le_nat_alt del: push_bit_of_1)
  have divs: "unat ?ext div 4096 = unat ext div 4096 - 2 ^ a"
    unfolding ext using a(3) by (metis div_mult_self3 diff_add_inverse le_Suc_ex add.commute mult.commute zero_neq_numeral)
  have fits: "(j + 1) * 2 ^ a \<le> buddy_pages bd" using assms(2) n by (simp add: j add_mult_distrib)
  have "free_range_loop bd m (page_addr bd p) ext = bind_res (buddy_free bd m (page_addr bd p) (push_bit (12 + a) 1))
        (\<lambda>m1. free_range_loop bd m1 (page_addr bd (p + 2 ^ a)) ?ext)" for m
  proof -
    have "aligned_for (page_addr bd p) 12"
      using unat_page_addr [OF assms(1) p] buddy_wfD(3) [OF assms(1)] by (simp add: aligned_for_iff)
    moreover have "push_bit 12 1 \<le> ext"
      using assms(3) unat_exp_u64 [of 12] by (simp add: word_le_nat_alt del: push_bit_of_1)
    moreover have "page_addr bd p + push_bit (12 + a) 1 = page_addr bd (p + 2 ^ a)"
      by (simp add: page_addr_def power_add algebra_simps)
    ultimately show ?thesis
      using a(1) by (subst free_range_loop.simps) (simp add: page_addr_minus del: push_bit_of_1)
  qed
  moreover have "unat ?ext < unat ext" using a(3) ext assms(3) by simp
  ultimately show ?thesis using that [OF j a(2) fits sz(2) _ n divs] by blast
qed

lemma free_range_done:
  "unat ext < 4096 \<Longrightarrow> free_range_loop bd m a ext = Inr m"
  using unat_exp_u64 [of 12] by (subst free_range_loop.simps) (simp add: word_le_nat_alt)

lemma free_range_loop_spec:
  assumes "buddy_inv bd m" "p + unat ext div 4096 \<le> buddy_pages bd"
    "{p ..< p + unat ext div 4096} \<inter> buddy_free_pages bd m = {}"
  shows "\<exists>m'. free_range_loop bd m (page_addr bd p) ext = Inr m' \<and> buddy_inv bd m' \<and>
    buddy_free_pages bd m' = buddy_free_pages bd m \<union> {p ..< p + unat ext div 4096} \<and>
    same_outside (buddy_storage bd) m m'"
  using assms
proof (induction "unat ext" arbitrary: m p ext rule: less_induct)
  case less
  have wf: "buddy_wf bd" using less.prems(1) by (simp add: buddy_inv_def)
  show ?case
  proof (cases "4096 \<le> unat ext")
    case False
    then show ?thesis using less.prems free_range_done [of ext bd m "page_addr bd p"] by simp
  next
    case True
    obtain a j ext' where a: "p = j * 2 ^ a" "a \<le> top_order" "(j + 1) * 2 ^ a \<le> buddy_pages bd"
      "log2_roundup (push_bit (12 + a) 1) = Inr (12 + a)" "unat ext' < unat ext"
      "2 ^ a \<le> unat ext div 4096" "unat ext' div 4096 = unat ext div 4096 - 2 ^ a"
      and step: "\<And>m. free_range_loop bd m (page_addr bd p) ext =
        bind_res (buddy_free bd m (page_addr bd p) (push_bit (12 + a) 1))
          (\<lambda>m1. free_range_loop bd m1 (page_addr bd (p + 2 ^ a)) ext')"
      by (rule free_range_step [OF wf less.prems(2) True]) metis
    have blk: "blk a j = {p ..< p + 2 ^ a}" by (simp add: blk_range a(1))
    have free: "blk a j \<inter> buddy_free_pages bd m = {}"
      using less.prems(3) a(6) unfolding blk by (auto simp: disjoint_iff)
    obtain m1 where m1: "buddy_free bd m (page_addr bd p) (push_bit (12 + a) 1) = Inr m1" "buddy_inv bd m1"
        "buddy_free_pages bd m1 = buddy_free_pages bd m \<union> {p ..< p + 2 ^ a}"
        "same_outside (buddy_storage bd) m m1"
      using buddy_free_block [OF less.prems(1) a(4,2,3) free] blk a(1) by metis
    have "\<exists>m'. free_range_loop bd m1 (page_addr bd (p + 2 ^ a)) ext' = Inr m' \<and> buddy_inv bd m' \<and>
        buddy_free_pages bd m' = buddy_free_pages bd m1 \<union> {p + 2 ^ a ..< p + 2 ^ a + unat ext' div 4096} \<and>
        same_outside (buddy_storage bd) m1 m'"
      using less.prems(2,3) m1(2,3) a(5-7) by (intro less.hyps) (auto simp: disjoint_iff)
    moreover have "{p ..< p + unat ext div 4096} = {p ..< p + 2 ^ a} \<union> {p + 2 ^ a ..< p + 2 ^ a + unat ext' div 4096}"
      using a(6,7) by (simp add: ivl_disj_un)
    ultimately show ?thesis
      using m1 step [of m] by (auto simp: Un_assoc intro: same_outside_trans)
  qed
qed

section \<open>Laying out the bitmaps\<close>

text \<open>The bytes of the bitmap of order \<open>i\<close> for a region of \<open>sz\<close> bytes.\<close>

definition order_bytes :: "u64 \<Rightarrow> nat \<Rightarrow> nat" where
  "order_bytes sz i = unat sz div 4096 div 2 ^ i div 8 + 1"

lemma ucast_drop_bit_order:
  assumes "unat sz div 4096 < 4294967296"
  shows "(ucast (drop_bit (12 + i) (sz :: u64)) :: u32) = of_nat (unat sz div 4096 div 2 ^ i)"
    "unat (ucast (drop_bit (12 + i) sz) :: u32) = unat sz div 4096 div 2 ^ i"
proof -
  have d: "unat (drop_bit (12 + i) sz) = unat sz div 4096 div 2 ^ i"
    by (simp only: unat_drop_bit power_add div_mult2_eq) simp
  moreover have "unat sz div 4096 div 2 ^ i < 4294967296"
    using assms by (rule le_less_trans [OF div_le_dividend])
  ultimately show "unat (ucast (drop_bit (12 + i) sz) :: u32) = unat sz div 4096 div 2 ^ i"
    by (subst unat_ucast_small) simp_all
  then show "(ucast (drop_bit (12 + i) sz) :: u32) = of_nat (unat sz div 4096 div 2 ^ i)"
    by (metis of_nat_unat ucast_id)
qed

lemma init_orders_Cons:
  assumes "unat sz div 4096 < 4294967296"
  shows "init_orders sz m storage (i # is) =
     (let (xb, m1) = bitmap_init m storage (of_nat (unat sz div 4096 div 2 ^ i));
          (xbs, m2) = init_orders sz m1 (storage + of_nat (order_bytes sz i)) is
      in (xb # xbs, m2))"
proof -
  let ?n = "unat sz div 4096 div 2 ^ i"
  have n: "?n < 4294967296" using assms by (rule le_less_trans [OF div_le_dividend])
  have "(ucast (of_nat ?n :: u32) :: u64) = of_nat ?n"
    using n by (intro word_unat_eq_iff [THEN iffD2]) (simp add: unat_ucast_small)
  moreover have "(of_nat ?n :: u32) div 8 + 1 = of_nat (order_bytes sz i)"
    using u32_div8_of_nat [OF n] by (simp add: order_bytes_def)
  ultimately show ?thesis
    using ucast_drop_bit_order(1) [OF assms, of i] by (simp add: Let_def)
qed

definition orders_ok :: "u64 \<Rightarrow> mem \<Rightarrow> u32 \<Rightarrow> nat list \<Rightarrow> bitmap list \<Rightarrow> bool" where
  "orders_ok sz m storage is xbs \<longleftrightarrow>
     length xbs = length is \<and>
     (\<forall>t < length is. let n = unat sz div 4096 div 2 ^ (is ! t) in
        bm_wf (xbs ! t) n \<and> bm_bits m (xbs ! t) n = {} \<and>
        bm_storage (xbs ! t) n \<subseteq> region storage (sum_list (map (order_bytes sz) is)) \<and>
        (\<forall>u < t. bm_storage (xbs ! u) (unat sz div 4096 div 2 ^ (is ! u)) \<inter>
           bm_storage (xbs ! t) n = {}))"

lemma init_orders_ok:
  assumes "unat sz div 4096 < 4294967296" "sum_list (map (order_bytes sz) is) \<le> 4294967296"
    "init_orders sz m storage is = (xbs, m')"
  shows "orders_ok sz m' storage is xbs"
    "same_outside (region storage (sum_list (map (order_bytes sz) is))) m m'"
proof -
  have "orders_ok sz m' storage is xbs \<and>
    same_outside (region storage (sum_list (map (order_bytes sz) is))) m m'"
    using assms(2,3)
  proof (induction "is" arbitrary: m storage xbs)
    case Nil
    then show ?case by (simp add: orders_ok_def)
  next
    case (Cons i "is")
    let ?n = "unat sz div 4096 div 2 ^ i" and ?S = "sum_list (map (order_bytes sz) is)"
    let ?st = "storage + of_nat (order_bytes sz i)"
    have n: "?n < 4294967296" using assms(1) by (rule le_less_trans [OF div_le_dividend])
    obtain xb m1 where init: "bitmap_init m storage (of_nat ?n) = (xb, m1)" by force
    obtain xbs' where rest: "init_orders sz m1 ?st is = (xbs', m')" and xbs: "xbs = xb # xbs'"
      using Cons.prems(2)
      by (auto simp: init_orders_Cons [OF assms(1)] init simp del: init_orders.simps split: prod.splits)
    note xb = bm_bits_init [OF n init]
    have S: "?S \<le> 4294967296" using Cons.prems(1) by simp
    have ok: "orders_ok sz m' ?st is xbs'" and frame: "same_outside (region ?st ?S) m1 m'"
      using Cons.IH [OF S rest] by simp_all
    have store: "bm_storage xb ?n = region storage (order_bytes sz i)"
      by (simp add: bm_storage_def xb(2) order_bytes_def)
    have disj: "bm_storage xb ?n \<inter> region ?st ?S = {}"
      unfolding store using region_disjoint_offset [of 0 "order_bytes sz i" "order_bytes sz i" ?S storage]
        Cons.prems(1) by simp
    have all: "region storage (sum_list (map (order_bytes sz) (i # is))) =
        bm_storage xb ?n \<union> region ?st ?S"
      unfolding store by (simp add: region_split)
    have "bm_bits m' xb ?n = {}"
      using xb(3) disj frame by (subst bm_bits_storage [OF n, of xb m' m1]) (auto dest: same_outsideD)
    then have "orders_ok sz m' storage (i # is) xbs"
      using ok xb(1) disj unfolding orders_ok_def all xbs
      by (auto simp: nth_Cons Let_def less_Suc_eq_0_disj split: nat.splits)
    moreover have "same_outside (bm_storage xb ?n \<union> region ?st ?S) m m'"
      using xb(4) frame by (meson same_outside_mono same_outside_trans Un_upper1 Un_upper2)
    ultimately show ?case unfolding all by simp
  qed
  then show "orders_ok sz m' storage is xbs"
    "same_outside (region storage (sum_list (map (order_bytes sz) is))) m m'" by simp_all
qed

section \<open>The overhead\<close>

lemma sum_halves: "(\<Sum>i<k. N div 2 ^ i) \<le> 2 * (N :: nat)"
proof (induction k arbitrary: N)
  case 0
  then show ?case by simp
next
  case (Suc k)
  have "(\<Sum>i<Suc k. N div 2 ^ i) = N + (\<Sum>i<k. (N div 2) div 2 ^ i)"
    by (simp add: sum.lessThan_Suc_shift div_mult2_eq del: sum.lessThan_Suc)
  with Suc [of "N div 2"] show ?case by simp
qed

definition overhead_bytes :: "u64 \<Rightarrow> nat" where
  "overhead_bytes sz = sum_list (map (order_bytes sz) [0..<17])"

lemma overhead_bytes_le: "overhead_bytes sz \<le> 2 * (unat sz div 32768) + 17"
proof -
  have "overhead_bytes sz = (\<Sum>i<17. order_bytes sz i)"
    unfolding overhead_bytes_def by (simp only: sum_list_distinct_conv_sum_set distinct_upt)
      (simp add: atLeast0LessThan del: upt_rec_numeral)
  also have "\<dots> = (\<Sum>i<17. (unat sz div 4096 div 8) div 2 ^ i) + 17"
    by (simp add: order_bytes_def sum_Suc div_mult2_eq [symmetric] mult.commute
      del: sum.lessThan_Suc)
  also have "\<dots> \<le> 2 * (unat sz div 4096 div 8) + 17"
    using sum_halves [of "unat sz div 4096 div 8" 17] by simp
  finally show ?thesis by (simp add: div_mult2_eq [symmetric])
qed

lemma overhead_bytes_bound:
  assumes "unat sz div 4096 < 4294967296"
  shows "overhead_bytes sz \<le> 2 ^ 30 + 17"
proof -
  have "unat sz div 32768 = unat sz div 4096 div 8" by (simp add: div_mult2_eq [symmetric])
  then show ?thesis using overhead_bytes_le [of sz] assms by simp
qed

lemma fold_overhead:
  assumes "unat (extent r) div 4096 < 4294967296"
  shows "fold (\<lambda>i accum. accum + ucast (drop_bit i (extent r) div 8 + 1)) (map ((+) 12) is) acc =
    acc + (of_nat (sum_list (map (order_bytes (extent r)) is)) :: u32)"
proof (induction "is" arbitrary: acc)
  case (Cons i "is")
  let ?n = "unat (extent r) div 4096 div 2 ^ i"
  have d: "unat (drop_bit (12 + i) (extent r)) = ?n"
    by (simp only: unat_drop_bit power_add div_mult2_eq) simp
  have n: "?n < 4294967296" using assms by (rule le_less_trans [OF div_le_dividend])
  have k: "order_bytes (extent r) i < 4294967296" using n by (simp add: order_bytes_def)
  have "drop_bit (12 + i) (extent r) div 8 + 1 = of_nat (order_bytes (extent r) i)"
    using n by (intro word_unat_eq_iff [THEN iffD2])
      (simp add: order_bytes_def unat_div unat_word_ariths d del: of_nat_Suc)
  then have "(ucast (drop_bit (12 + i) (extent r) div 8 + 1) :: u32) = of_nat (order_bytes (extent r) i)"
    using k by (simp add: word_unat_eq_iff unat_ucast_small)
  then show ?case by (simp only: list.map fold_simps Cons.IH sum_list.Cons of_nat_add) simp
qed simp

lemma buddy_calc_overhead_eq:
  assumes "unat (extent r) div 4096 < 4294967296"
  shows "unat (buddy_calc_overhead r) = overhead_bytes (extent r)"
proof -
  have "[12..<29] = map ((+) 12) [0..<17]" by (simp add: upt_rec)
  then have "buddy_calc_overhead r = of_nat (overhead_bytes (extent r))"
    using fold_overhead [OF assms, of "[0..<17]" 0]
    by (simp add: buddy_calc_overhead_def overhead_bytes_def del: upt_rec_numeral)
  then show ?thesis using overhead_bytes_bound [OF assms] by simp
qed

section \<open>Freeing an aligned range\<close>

text \<open>
  The pages of a range that lies in the managed region, as page numbers of the region.
\<close>

definition range_pages :: "buddy \<Rightarrow> range \<Rightarrow> nat set" where
  "range_pages bd r = (let p = (unat (start r) - unat (buddy_start bd)) div 4096
     in {p ..< p + unat (extent r) div 4096})"

definition range_inside :: "buddy \<Rightarrow> range \<Rightarrow> bool" where
  "range_inside bd r \<longleftrightarrow> unat (start r) mod 4096 = 0 \<and> buddy_start bd \<le> start r \<and>
     unat (start r) + unat (extent r) \<le> unat (buddy_start bd) + unat (buddy_size bd)"

lemma range_inside_page:
  assumes "buddy_wf bd" "range_inside bd r"
  defines "p \<equiv> (unat (start r) - unat (buddy_start bd)) div 4096"
  shows "start r = page_addr bd p" "p + unat (extent r) div 4096 \<le> buddy_pages bd"
proof -
  have le: "unat (buddy_start bd) \<le> unat (start r)"
    using assms(2) by (simp add: range_inside_def word_le_nat_alt)
  have "unat (start r) mod 4096 = 0" "unat (buddy_start bd) mod 4096 = 0"
    using assms(1,2) by (simp_all add: range_inside_def buddy_wf_def)
  then have p: "p * 4096 = unat (start r) - unat (buddy_start bd)"
    using le unfolding p_def by (simp add: mod_eq_0_iff_dvd dvd_diff_nat)
  have fit: "p * 4096 + unat (extent r) \<le> unat (buddy_size bd)"
    using assms(2) le p unfolding range_inside_def by linarith
  then have "(p * 4096 + unat (extent r)) div 4096 \<le> buddy_pages bd"
    unfolding buddy_pages_def by (rule div_le_mono)
  then show pages: "p + unat (extent r) div 4096 \<le> buddy_pages bd" by simp
  have "unat (page_addr bd p) = unat (start r)"
    using unat_page_addr [OF assms(1), of p] pages le p by simp
  then show "start r = page_addr bd p" by (simp add: word_unat_eq_iff)
qed

lemma buddy_free_range_loop:
  "range_inside bd r \<Longrightarrow> buddy_free_range bd m r = free_range_loop bd m (start r) (extent r)"
  by (simp add: buddy_free_range_def aligned_for_iff range_inside_def Let_def)

lemma buddy_free_range_spec:
  assumes "buddy_inv bd m" "range_inside bd r" "range_pages bd r \<inter> buddy_free_pages bd m = {}"
  shows "\<exists>m'. buddy_free_range bd m r = Inr m' \<and> buddy_inv bd m' \<and>
    buddy_free_pages bd m' = buddy_free_pages bd m \<union> range_pages bd r \<and>
    same_outside (buddy_storage bd) m m'"
proof -
  have wf: "buddy_wf bd" using assms(1) by (simp add: buddy_inv_def)
  note buddy_free_range_loop [OF assms(2), of m]
  then show ?thesis
    using free_range_loop_spec [OF assms(1) range_inside_page(2) [OF wf assms(2)]]
      range_inside_page(1) [OF wf assms(2)] assms(3) by (simp add: range_pages_def Let_def)
qed

section \<open>Releasing with any bitmap contents\<close>

text \<open>
  Whatever the bitmaps hold, a release terminates and writes to nothing but the bitmaps.
\<close>

lemma cap_next:
  assumes "j < bm_cap (order_len bd i)"
  shows "j div 2 < bm_cap (order_len bd (Suc i))" "sibling j < bm_cap (order_len bd i)"
proof -
  define q where "q = order_len bd i div 8"
  have q: "order_len bd (Suc i) div 8 = q div 2"
    by (simp add: q_def order_len_def div_mult2_eq [symmetric] mult.commute)
  have j: "j < 8 * (q + 1)" using assms by (simp add: bm_cap_def q_def)
  define k where "k = q div 2"
  have "q \<le> 2 * k + 1" by (simp add: k_def)
  then have "j < 8 * (k + 1) * 2" using j by simp
  then have "j div 2 < 8 * (q div 2 + 1)" unfolding k_def by (rule less_mult_imp_div_less)
  then show "j div 2 < bm_cap (order_len bd (Suc i))" by (simp only: bm_cap_def q)
  show "sibling j < bm_cap (order_len bd i)"
  proof (cases "even j")
    case True
    then have "Suc j \<noteq> 8 * (q + 1)" by (metis even_Suc even_mult_iff even_numeral)
    with True j show ?thesis by (simp add: sibling_def bm_cap_def q_def)
  qed (use assms in \<open>simp add: sibling_def\<close>)
qed

lemma order_frames:
  assumes "buddy_wf bd" "i \<le> top_order" "j < bm_cap (order_len bd i)"
  shows "\<exists>m'. bitmap_set m (orders bd ! i) (of_nat j) = Inr m' \<and> same_outside (buddy_storage bd) m m'"
    "same_outside (buddy_storage bd) m (bitmap_clear m (orders bd ! i) (of_nat j))"
proof -
  have sub: "bm_storage (orders bd ! i) (order_len bd i) \<subseteq> buddy_storage bd"
    using assms(2) by (auto simp: buddy_storage_def order_storage_def)
  note len = order_len_less [OF assms(1), of i]
  show "\<exists>m'. bitmap_set m (orders bd ! i) (of_nat j) = Inr m' \<and> same_outside (buddy_storage bd) m m'"
    using bitmap_set_total [of m "orders bd ! i" "of_nat j"] bitmap_set_frame [OF len assms(3)]
      same_outside_mono [OF _ sub] by blast
  show "same_outside (buddy_storage bd) m (bitmap_clear m (orders bd ! i) (of_nat j))"
    by (rule same_outside_mono [OF bitmap_clear_frame [OF len assms(3)] sub])
qed

lemma buddy_free_loop_total:
  assumes "buddy_wf bd" "i \<le> top_order" "j < bm_cap (order_len bd i)"
  shows "\<exists>m'. buddy_free_loop bd m (12 + i) (of_nat j) = Inr m' \<and> same_outside (buddy_storage bd) m m'"
  using assms(2,3)
proof (induction "top_order - i" arbitrary: i j m)
  case 0
  then have "i = top_order" by simp
  moreover have "buddy_order bd 28 = Inr (orders bd ! 16)" using buddy_order_eq [of 16 bd] by (simp add: top_order_def)
  ultimately show ?case
    using order_frames(1) [OF assms(1) 0(2,3), of m]
    by (subst buddy_free_loop.simps) (auto simp: top_order_def)
next
  case (Suc d)
  obtain m1 where m1: "bitmap_set m (orders bd ! i) (of_nat j) = Inr m1" "same_outside (buddy_storage bd) m m1"
    using order_frames(1) [OF assms(1) Suc.prems] by blast
  let ?m3 = "bitmap_clear (bitmap_clear m1 (orders bd ! i) (of_nat j)) (orders bd ! i) (of_nat (sibling j))"
  note cap = cap_next [OF Suc.prems(2)]
  have i: "Suc i \<le> top_order" "d = top_order - Suc i" using Suc(2) by simp_all
  have "j < 4294967296" using Suc.prems(2) bm_cap_le [OF order_len_less [OF assms(1), of i]] by simp
  then have "buddy_free_loop bd m (12 + i) (of_nat j) =
      (if bitmap_isset m1 (orders bd ! i) (of_nat (sibling j))
       then buddy_free_loop bd ?m3 (12 + Suc i) (of_nat (j div 2)) else Inr m1)"
    using i(1) by (subst buddy_free_loop.simps)
      (simp add: buddy_order_eq m1(1) of_nat_xor_1 Let_def top_order_def of_nat_drop_bit_1 [unfolded One_nat_def])
  moreover have "same_outside (buddy_storage bd) m ?m3"
    using m1(2) order_frames(2) [OF assms(1) Suc.prems] order_frames(2) [OF assms(1) Suc.prems(1) cap(2)]
    by (blast intro: same_outside_trans)
  moreover obtain m' where "buddy_free_loop bd ?m3 (12 + Suc i) (of_nat (j div 2)) = Inr m'"
      "same_outside (buddy_storage bd) ?m3 m'"
    using Suc.hyps(1) [OF i(2,1) cap(1)] by blast
  ultimately show ?case using m1(2) by (auto intro: same_outside_trans)
qed

lemma free_range_loop_total:
  assumes "buddy_wf bd" "p + unat ext div 4096 \<le> buddy_pages bd"
  shows "\<exists>m'. free_range_loop bd m (page_addr bd p) ext = Inr m' \<and> same_outside (buddy_storage bd) m m'"
  using assms(2)
proof (induction "unat ext" arbitrary: m p ext rule: less_induct)
  case less
  show ?case
  proof (cases "4096 \<le> unat ext")
    case False
    then show ?thesis using free_range_done [of ext bd m "page_addr bd p"] by simp
  next
    case True
    obtain a j ext' where a: "p = j * 2 ^ a" "a \<le> top_order" "(j + 1) * 2 ^ a \<le> buddy_pages bd"
      "log2_roundup (push_bit (12 + a) 1) = Inr (12 + a)" "unat ext' < unat ext"
      "2 ^ a \<le> unat ext div 4096" "unat ext' div 4096 = unat ext div 4096 - 2 ^ a"
      and step: "\<And>m. free_range_loop bd m (page_addr bd p) ext =
        bind_res (buddy_free bd m (page_addr bd p) (push_bit (12 + a) 1))
          (\<lambda>m1. free_range_loop bd m1 (page_addr bd (p + 2 ^ a)) ext')"
      by (rule free_range_step [OF assms(1) less.prems True]) metis
    have "j < bm_cap (order_len bd a)"
      using block_in_order [OF a(3)] bm_cap_gt [of "order_len bd a"] by simp
    then obtain m1 where m1: "buddy_free bd m (page_addr bd p) (push_bit (12 + a) 1) = Inr m1"
        "same_outside (buddy_storage bd) m m1"
      using buddy_free_loop_total [OF assms(1) a(2)] a(1,4) block_index [OF assms(1) a(3)]
      by (auto simp: buddy_free_def simp del: push_bit_of_1)
    have "p + 2 ^ a + unat ext' div 4096 \<le> buddy_pages bd" using less.prems a(6,7) by simp
    then obtain m' where "free_range_loop bd m1 (page_addr bd (p + 2 ^ a)) ext' = Inr m'"
        "same_outside (buddy_storage bd) m1 m'"
      using less.hyps [OF a(5)] by blast
    with m1 step [of m] show ?thesis by (auto intro: same_outside_trans simp del: push_bit_of_1)
  qed
qed

lemma buddy_free_range_total:
  assumes "buddy_wf bd" "range_inside bd r"
  shows "\<exists>m'. buddy_free_range bd m r = Inr m' \<and> same_outside (buddy_storage bd) m m'"
  using free_range_loop_total [OF assms(1) range_inside_page(2) [OF assms]] range_inside_page(1) [OF assms]
  by (simp add: buddy_free_range_loop [OF assms(2)])

section \<open>Initialisation\<close>

lemma buddy_blocks_empty:
  assumes "orders_ok (buddy_size bd) m storage [0..<17] (orders bd)"
  shows "buddy_blocks bd m = (\<lambda>_. {})"
  using assms by (auto simp: buddy_blocks_def orders_ok_def order_len_def buddy_pages_def Let_def
      top_order_def fun_eq_iff simp del: upt_rec_numeral)

lemma orders_ok_wf:
  assumes "orders_ok (buddy_size bd) m storage [0..<17] (orders bd)"
    "unat (buddy_size bd) div 4096 < 4294967296" "unat (buddy_start bd) mod 4096 = 0"
    "unat (buddy_start bd) + unat (buddy_size bd) < 18446744073709551616"
  shows "buddy_wf bd" "buddy_storage bd \<subseteq> region storage (overhead_bytes (buddy_size bd))"
proof -
  have ok: "bm_wf (orders bd ! i) (order_len bd i)"
    "order_storage bd i \<subseteq> region storage (overhead_bytes (buddy_size bd))"
    "k < i \<Longrightarrow> order_storage bd k \<inter> order_storage bd i = {}" if "i \<le> top_order" for i k
    using assms(1) that
    by (auto simp: orders_ok_def order_len_def order_storage_def overhead_bytes_def buddy_pages_def
        Let_def top_order_def simp del: upt_rec_numeral)
  have "order_storage bd i \<inter> order_storage bd k = {}"
    if "i \<le> top_order" "k \<le> top_order" "i \<noteq> k" for i k
    using ok(3) [of i k] ok(3) [of k i] that by (cases i k rule: linorder_cases) auto
  then show "buddy_wf bd"
    using ok(1) assms by (auto simp: buddy_wf_def orders_ok_def buddy_pages_def)
  show "buddy_storage bd \<subseteq> region storage (overhead_bytes (buddy_size bd))"
    using ok(2) by (auto simp: buddy_storage_def)
qed

lemma good_blocks_empty: "good_blocks N (\<lambda>_. {})"
  by (simp add: good_blocks_def no_overlap_def coalesced_def in_range_def)

text \<open>
  A managed region is acceptable when it is page aligned, does not wrap and has less than
  \<open>2 ^ 32\<close> pages: bitmap indices are of type \<^verbatim>\<open>unsigned\<close>.
\<close>

definition range_ok :: "range \<Rightarrow> bool" where
  "range_ok r \<longleftrightarrow> unat (start r) mod 4096 = 0 \<and> unat (extent r) div 4096 < 4294967296 \<and>
     unat (start r) + unat (extent r) < 18446744073709551616"

lemma buddy_init_spec:
  assumes "range_ok r"
  shows "\<exists>bd m'. buddy_init m storage r start_freed = Inr (0, bd, m') \<and>
    buddy_start bd = start r \<and> buddy_size bd = extent r \<and> buddy_inv bd m' \<and>
    buddy_free_pages bd m' = (if start_freed then {..<unat (extent r) div 4096} else {}) \<and>
    buddy_storage bd \<subseteq> region storage (unat (buddy_calc_overhead r)) \<and>
    same_outside (region storage (unat (buddy_calc_overhead r))) m m'"
proof -
  have r: "unat (extent r) div 4096 < 4294967296" "unat (start r) mod 4096 = 0"
      "unat (start r) + unat (extent r) < 18446744073709551616"
    using assms by (simp_all add: range_ok_def)
  note over = overhead_bytes_bound [OF r(1)] buddy_calc_overhead_eq [OF r(1)]
  obtain os m1 where init: "init_orders (extent r) m storage [0..<17] = (os, m1)" by force
  define bd where "bd = \<lparr>buddy_start = start r, buddy_size = extent r, orders = os\<rparr>"
  have sel: "buddy_start bd = start r" "buddy_size bd = extent r" "orders bd = os"
    by (simp_all add: bd_def)
  have ok: "orders_ok (extent r) m1 storage [0..<17] os"
    and frame: "same_outside (region storage (overhead_bytes (extent r))) m m1"
    using init_orders_ok [OF r(1) _ init] over(1) by (simp_all add: overhead_bytes_def)
  have wf: "buddy_wf bd" and st: "buddy_storage bd \<subseteq> region storage (overhead_bytes (extent r))"
    using orders_ok_wf [of bd m1 storage] ok r sel by simp_all
  have blocks: "buddy_blocks bd m1 = (\<lambda>_. {})" using buddy_blocks_empty [of bd] ok sel by simp
  then have inv: "buddy_inv bd m1" "buddy_free_pages bd m1 = {}"
    using wf good_blocks_empty by (simp_all add: buddy_inv_def buddy_free_pages_def free_pages_def)
  show ?thesis
  proof (cases start_freed)
    case False
    then have "buddy_init m storage r start_freed = Inr (0, bd, m1)"
      by (simp add: buddy_init_def init bd_def del: upt_rec_numeral)
    with False sel inv st frame over(2) show ?thesis by auto
  next
    case True
    have in_r: "range_inside bd r" using r sel by (simp add: range_inside_def)
    have pages: "range_pages bd r = {..<unat (extent r) div 4096}"
      by (simp add: range_pages_def sel atLeast0LessThan)
    obtain m2 where m2: "buddy_free_range bd m1 r = Inr m2" "buddy_inv bd m2"
        "buddy_free_pages bd m2 = {..<unat (extent r) div 4096}" "same_outside (buddy_storage bd) m1 m2"
      using buddy_free_range_spec [OF inv(1) in_r] inv(2) pages by auto
    have "buddy_init m storage r start_freed = Inr (0, bd, m2)"
      using True m2(1) by (simp add: buddy_init_def init bd_def del: upt_rec_numeral)
    moreover have "same_outside (region storage (overhead_bytes (extent r))) m m2"
      using frame m2(4) st by (meson same_outside_mono same_outside_trans)
    ultimately show ?thesis using True sel m2(2,3) st over(2) by auto
  qed
qed

end
