(* ===== verification/Page_Allocator.thy ===== *)
theory Page_Allocator
  imports Buddy_Range
begin

text \<open>
  The interface between the buddy allocator and its clients, as a locale: what an allocation
  and a release do to the set of free pages. The clients' lemmas are proved once from it, and
  the buddy allocator of \<open>Buddy\<close> is its instance.
\<close>

section \<open>The contract\<close>

text \<open>
  What the clients of \<^verbatim>\<open>buddy_alloc\<close> and \<^verbatim>\<open>buddy_free\<close> (\<^verbatim>\<open>pmm.c\<close>, \<^verbatim>\<open>vmspace.c\<close>) rely on. A state
  has a set of free pages inside a fixed set \<open>span\<close>; \<open>place j i\<close> is the address of the
  \<open>j\<close>-th block of \<open>2 ^ i\<close> pages.
\<close>

locale page_allocator =
  fixes inv :: "'s \<Rightarrow> bool"
    and avail :: "'s \<Rightarrow> nat set"
    and span :: "nat set"
    and place :: "nat \<Rightarrow> u64"
    and alloc :: "'s \<Rightarrow> u32 \<Rightarrow> (u64 \<times> 's) res"
    and release :: "'s \<Rightarrow> u64 \<Rightarrow> u32 \<Rightarrow> 's res"
  assumes avail_span: "inv s \<Longrightarrow> avail s \<subseteq> span"
    and place_inj: "p \<in> span \<Longrightarrow> q \<in> span \<Longrightarrow> place p = place q \<Longrightarrow> p = q"
    and place_valid: "p \<in> span \<Longrightarrow> place p \<noteq> NOT 0"
    and alloc_law: "inv s \<Longrightarrow> log2_roundup sz = Inr (12 + i) \<Longrightarrow> i \<le> top_order \<Longrightarrow>
      (\<exists>j s'. alloc s sz = Inr (place (j * 2 ^ i), s') \<and> blk i j \<subseteq> avail s \<and>
         inv s' \<and> avail s' = avail s - blk i j) \<or>
      (\<forall>j. \<not> blk i j \<subseteq> avail s) \<and> alloc s sz = Inr (NOT 0, s)"
    and release_law: "inv s \<Longrightarrow> log2_roundup sz = Inr (12 + i) \<Longrightarrow> i \<le> top_order \<Longrightarrow>
      blk i j \<subseteq> span \<Longrightarrow> blk i j \<inter> avail s = {} \<Longrightarrow>
      \<exists>s'. release s (place (j * 2 ^ i)) sz = Inr s' \<and> inv s' \<and> avail s' = avail s \<union> blk i j"
begin

lemma alloc_cases:
  assumes "inv s" "log2_roundup sz = Inr (12 + i)" "i \<le> top_order"
  obtains (ok) j s' where "alloc s sz = Inr (place (j * 2 ^ i), s')" "blk i j \<subseteq> avail s" "inv s'"
      "avail s' = avail s - blk i j" "place (j * 2 ^ i) \<noteq> NOT 0"
    | (full) "alloc s sz = Inr (NOT 0, s)" "\<forall>j. \<not> blk i j \<subseteq> avail s"
  using alloc_law [OF assms] place_valid blk_nonempty avail_span [OF assms(1)] by (metis subsetD)

text \<open>An allocation that succeeds, seen from the address it returns.\<close>

lemma alloc_okD:
  assumes "inv s" "log2_roundup sz = Inr (12 + i)" "i \<le> top_order"
    "alloc s sz = Inr (a, s')" "a \<noteq> NOT 0"
  obtains j where "a = place (j * 2 ^ i)" "blk i j \<subseteq> avail s" "inv s'" "avail s' = avail s - blk i j"
  using alloc_cases [OF assms(1-3)] assms(4,5) by (metis Inr_inject prod.inject)

lemma alloc_release:
  assumes "inv s" "log2_roundup sz = Inr (12 + i)" "i \<le> top_order"
    "alloc s sz = Inr (a, s')" "a \<noteq> NOT 0"
  shows "\<exists>s''. release s' a sz = Inr s'' \<and> inv s'' \<and> avail s'' = avail s"
proof -
  obtain j where j: "a = place (j * 2 ^ i)" "blk i j \<subseteq> avail s" "inv s'"
      "avail s' = avail s - blk i j"
    using alloc_okD [OF assms] .
  have "blk i j \<subseteq> span" "blk i j \<inter> avail s' = {}" using j(2,4) avail_span [OF assms(1)] by auto
  from release_law [OF j(3) assms(2,3) this] j show ?thesis by (auto simp: Un_absorb2)
qed

lemma release_alloc_succeeds:
  assumes "inv s" "log2_roundup sz = Inr (12 + i)" "i \<le> top_order" "blk i j \<subseteq> span"
    "blk i j \<inter> avail s = {}" "release s (place (j * 2 ^ i)) sz = Inr s'"
  shows "\<exists>a s''. alloc s' sz = Inr (a, s'') \<and> a \<noteq> NOT 0"
proof -
  have s': "inv s'" "avail s' = avail s \<union> blk i j"
    using release_law [OF assms(1-5)] assms(6) by auto
  show ?thesis by (rule alloc_cases [OF s'(1) assms(2,3)]) (use s'(2) in auto)
qed

lemma place_blk_eq:
  assumes "blk i j \<subseteq> span" "blk i k \<subseteq> span" "place (j * 2 ^ i) = place (k * 2 ^ i)"
  shows "j = k"
  using place_inj [of "j * 2 ^ i" "k * 2 ^ i"] assms blk_nonempty by auto

lemma alloc_twice:
  assumes "inv s" "log2_roundup sz = Inr (12 + i)" "i \<le> top_order"
    "alloc s sz = Inr (a, s')" "a \<noteq> NOT 0" "alloc s' sz = Inr (b, s'')" "b \<noteq> NOT 0"
  shows "a \<noteq> b"
proof -
  obtain j where j: "a = place (j * 2 ^ i)" "blk i j \<subseteq> avail s" "inv s'"
      "avail s' = avail s - blk i j"
    using alloc_okD [OF assms(1-5)] .
  obtain k where k: "b = place (k * 2 ^ i)" "blk i k \<subseteq> avail s'"
    using alloc_okD [OF j(3) assms(2,3,6,7)] .
  show ?thesis
  proof
    assume "a = b"
    then have "j = k"
      using j k avail_span [OF assms(1)] avail_span [OF j(3)] place_blk_eq [of i j k] by auto
    with j(4) k(2) blk_nonempty [of j i] show False by auto
  qed
qed

end

section \<open>The buddy allocator keeps it\<close>

lemma place_span: "buddy_wf bd \<Longrightarrow> p < buddy_pages bd \<Longrightarrow> page_addr bd p \<noteq> NOT 0"
proof
  assume "buddy_wf bd" "p < buddy_pages bd" "page_addr bd p = NOT 0"
  then have "unat (page_addr bd p) = 18446744073709551615"
    by (simp add: unsigned_minus_1_eq_mask mask_eq_exp_minus_1)
  moreover have "unat (page_addr bd p) mod 4096 = 0"
    using unat_page_addr [OF \<open>buddy_wf bd\<close>, of p] \<open>p < buddy_pages bd\<close> buddy_wfD(3) [OF \<open>buddy_wf bd\<close>]
    by simp
  ultimately show False by simp
qed

lemma free_pages_in_range: "in_range N F \<Longrightarrow> free_pages F \<subseteq> {..<N}"
proof
  fix p assume "in_range N F" "p \<in> free_pages F"
  then obtain i where "(p div 2 ^ i + 1) * 2 ^ i \<le> N" by (auto simp: free_pages_def in_range_def)
  moreover have "p < (p div 2 ^ i + 1) * 2 ^ i"
    using dividend_less_div_times [of "2 ^ i" p] by simp
  ultimately show "p \<in> {..<N}" by simp
qed

lemma blk_in_pages: "blk i j \<subseteq> {..<N} \<longleftrightarrow> (j + 1) * 2 ^ i \<le> N"
proof
  assume "blk i j \<subseteq> {..<N}"
  moreover have "(j + 1) * 2 ^ i - 1 \<in> blk i j" by (simp add: blk_eq Suc_le_eq trans_le_add1 flip: add_diff_assoc2)
  ultimately have "(j + 1) * 2 ^ i - 1 < N" by blast
  then show "(j + 1) * 2 ^ i \<le> N" by linarith
qed (auto simp: blk_eq)

text \<open>
  The contract holds of every allocator descriptor whose invariant can hold; a descriptor
  that is not well formed has no good state.
\<close>

definition managed :: "buddy \<Rightarrow> nat set" where
  "managed bd = (if buddy_wf bd then {..<buddy_pages bd} else {})"

interpretation ba: page_allocator "buddy_inv bd" "buddy_free_pages bd" "managed bd" "page_addr bd"
  "buddy_alloc bd" "buddy_free bd" for bd
proof (unfold_locales, goal_cases)
  case (1 s)
  then show ?case
    by (auto simp: managed_def buddy_inv_def good_blocks_def buddy_free_pages_def
        dest: subsetD [OF free_pages_in_range])
next
  case (2 p q)
  then have "unat (page_addr bd p) = unat (page_addr bd q)" by simp
  with 2(1,2) show ?case by (simp add: managed_def unat_page_addr split: if_splits)
next
  case (3 p)
  then show ?case using place_span [of bd p] by (simp add: managed_def split: if_splits)
next
  case (4 s sz i)
  from buddy_alloc_spec [OF 4] show ?case by blast
next
  case (5 s sz i j)
  then have "buddy_wf bd" by (simp add: buddy_inv_def)
  with 5(4) have "(j + 1) * 2 ^ i \<le> buddy_pages bd"
    by (simp add: managed_def blk_in_pages)
  from buddy_free_block [OF 5(1-3) this 5(5)] show ?case by blast
qed

end
