(* ===== verification/Machine.thy ===== *)
theory Machine
  imports Hal Sys
begin

text \<open>
  The machine the kernel runs on: the kernel's data store, the physical memory that holds page
  directories and page tables, the control registers and \<^verbatim>\<open>EFLAGS\<close>, with the single-instruction
  accessors of \<^verbatim>\<open>include/x86/hal.h\<close> and \<^verbatim>\<open>arch/x86/hal.c\<close>. Every component that keeps state of its
  own extends this record.
\<close>

section \<open>State\<close>

text \<open>
  \<open>mem\<close> is the store behind the kernel's ordinary data addresses. \<open>ptmem\<close> is physical memory
  as the page walker reads it, one 32-bit entry per address; the kernel reaches it through
  the recursive page-directory window (theory \<open>Vmm\<close>).
\<close>

record machine =
  mem :: mem
  ptmem :: "u32 \<Rightarrow> u32"
  cr0 :: u32
  cr2 :: u32
  cr3 :: u32
  eflags :: u32

definition read_cr0 :: "'a machine_scheme \<Rightarrow> u32" where
  "read_cr0 s = cr0 s"

definition read_cr2 :: "'a machine_scheme \<Rightarrow> u32" where
  "read_cr2 s = cr2 s"

definition read_cr3 :: "'a machine_scheme \<Rightarrow> u32" where
  "read_cr3 s = cr3 s"

definition write_cr0 :: "u32 \<Rightarrow> 'a machine_scheme \<Rightarrow> 'a machine_scheme" where
  "write_cr0 v s = s\<lparr>cr0 := v\<rparr>"

definition write_cr3 :: "u32 \<Rightarrow> 'a machine_scheme \<Rightarrow> 'a machine_scheme" where
  "write_cr3 v s = s\<lparr>cr3 := v\<rparr>"

section \<open>Interrupts\<close>

definition enable_interrupts :: "'a machine_scheme \<Rightarrow> 'a machine_scheme" where
  "enable_interrupts s = s\<lparr>eflags := eflags s OR 0x200\<rparr>"

definition disable_interrupts :: "'a machine_scheme \<Rightarrow> 'a machine_scheme" where
  "disable_interrupts s = s\<lparr>eflags := eflags s AND NOT 0x200\<rparr>"

definition get_interrupt_state :: "'a machine_scheme \<Rightarrow> u32" where
  "get_interrupt_state s = eflags s AND 0x200"

definition get_num_cpucores :: nat where
  "get_num_cpucores = 1"

lemma eflags_restore:
  "e AND 0x200 \<noteq> (0 :: u32) \<Longrightarrow> (e AND NOT 0x200) OR 0x200 = e"
  "e AND 0x200 = (0 :: u32) \<Longrightarrow> e AND NOT 0x200 = e"
proof -
  have b: "(e AND 0x200 \<noteq> 0) = bit e 9"
    using and_exp_eq_0_iff_not_bit [of e 9] by simp
  have c: "bit (0x200 :: u32) n \<longleftrightarrow> n = 9" if "n < 32" for n
    using that bit_exp_iff [where 'a = "32 word", of 9 n] by auto
  show "(e AND NOT 0x200) OR 0x200 = e" if "e AND 0x200 \<noteq> 0"
    using that b c by (intro bit_word_eqI) (auto simp: bit_simps)
  show "e AND NOT 0x200 = e" if "e AND 0x200 = 0"
    using that b c by (intro bit_word_eqI) (auto simp: bit_simps)
qed

end
