(* ===== verification/Locking.thy ===== *)
theory Locking
  imports Machine
begin

text \<open>
  Spinlocks: \<^verbatim>\<open>locking.c\<close> and \<^verbatim>\<open>struct spinlock\<close> of \<^verbatim>\<open>include/hal.h\<close>. The kernel's own code runs on
  one core (\<^verbatim>\<open>get_num_cpucores\<close> is 1) with interrupts off while it holds a lock, so the
  sequential model of \<^verbatim>\<open>spinlock_acquire\<close> never returns from a held lock. The second half
  models the instructions of several cores as a step relation.
\<close>

section \<open>Data\<close>

record spinlock =
  lock_val :: u32
  lock_interrupts :: u32

definition SPINLOCK_RELEASED :: spinlock where
  "SPINLOCK_RELEASED = \<lparr>lock_val = 0, lock_interrupts = 0\<rparr>"

definition spinlock_init :: "spinlock \<Rightarrow> spinlock" where
  "spinlock_init lock = lock\<lparr>lock_val := 0, lock_interrupts := 0\<rparr>"

section \<open>One core\<close>

text \<open>
  A compare-and-swap loop on one core with interrupts off either succeeds at once or spins
  for ever: nothing else can change the lock word.
\<close>

definition spinlock_acquire ::
    "'a machine_scheme \<Rightarrow> spinlock \<Rightarrow> ('a machine_scheme \<times> spinlock) res" where
  "spinlock_acquire s lock =
     (let interrupts = get_interrupt_state s;
          s1 = disable_interrupts s
      in if lock_val lock = 0
         then Inr (s1, lock\<lparr>lock_val := 1, lock_interrupts := interrupts\<rparr>)
         else Inl Hang)"

definition spinlock_release ::
    "'a machine_scheme \<Rightarrow> spinlock \<Rightarrow> ('a machine_scheme \<times> spinlock) res" where
  "spinlock_release s lock =
     (if lock_val lock = 1
      then let lock1 = lock\<lparr>lock_val := 0\<rparr>
           in Inr (if lock_interrupts lock1 \<noteq> 0 then enable_interrupts s else s, lock1)
      else Inl Hang)"

abbreviation unlocked :: "spinlock \<Rightarrow> bool" where
  "unlocked lock \<equiv> lock_val lock = 0"

text \<open>The state between acquire and release, and the lock as it is left behind.\<close>

abbreviation held_state :: "'a machine_scheme \<Rightarrow> 'a machine_scheme" where
  "held_state s \<equiv> disable_interrupts s"

abbreviation held_lock :: "'a machine_scheme \<Rightarrow> spinlock \<Rightarrow> spinlock" where
  "held_lock s lock \<equiv> lock\<lparr>lock_val := 1, lock_interrupts := get_interrupt_state s\<rparr>"

abbreviation left_lock :: "'a machine_scheme \<Rightarrow> spinlock \<Rightarrow> spinlock" where
  "left_lock s lock \<equiv> lock\<lparr>lock_val := 0, lock_interrupts := get_interrupt_state s\<rparr>"

lemma spinlock_acquire_unlocked [simp]:
  "unlocked lock \<Longrightarrow> spinlock_acquire s lock = Inr (held_state s, held_lock s lock)"
  by (simp add: spinlock_acquire_def)

lemma spinlock_acquire_held: "\<not> unlocked lock \<Longrightarrow> spinlock_acquire s lock = Inl Hang"
  by (simp add: spinlock_acquire_def)

text \<open>
  Releasing a lock that was acquired in \<open>s\<close>, after work that left \<^verbatim>\<open>EFLAGS\<close> alone, puts back
  the interrupt flag of \<open>s\<close>.
\<close>

lemma spinlock_release_restores [simp]:
  assumes "eflags s1 = eflags (held_state s)"
  shows "spinlock_release s1 (held_lock s lock) =
    Inr (s1\<lparr>eflags := eflags s\<rparr>, left_lock s lock)"
  using assms eflags_restore [of "eflags s"]
  by (auto simp: spinlock_release_def get_interrupt_state_def disable_interrupts_def
      enable_interrupts_def Let_def)

section \<open>Several cores\<close>

text \<open>
  Where a core is in \<^verbatim>\<open>spinlock_acquire\<close> and \<^verbatim>\<open>spinlock_release\<close>. The argument is its local variable
  \<^verbatim>\<open>interrupts\<close>.
\<close>

datatype lock_pc = Idle | Saved u32 | Spinning u32 | Won u32 | Critical | Leaving | Left

record lock_system =
  the_lock :: spinlock
  core_pc :: "nat \<Rightarrow> lock_pc"
  core_eflags :: "nat \<Rightarrow> u32"

definition at_pc :: "lock_system \<Rightarrow> nat \<Rightarrow> lock_pc \<Rightarrow> lock_system" where
  "at_pc s c p = s\<lparr>core_pc := (core_pc s)(c := p)\<rparr>"

inductive lock_step :: "nat \<Rightarrow> lock_system \<Rightarrow> lock_system \<Rightarrow> bool" where
  save: "core_pc s c = Idle \<Longrightarrow> lock_step c s (at_pc s c (Saved (core_eflags s c AND 0x200)))"
| cli: "core_pc s c = Saved i \<Longrightarrow>
    lock_step c s (at_pc (s\<lparr>core_eflags := (core_eflags s)(c := core_eflags s c AND NOT 0x200)\<rparr>) c
      (Spinning i))"
| cas_fails: "core_pc s c = Spinning i \<Longrightarrow> lock_val (the_lock s) \<noteq> 0 \<Longrightarrow> lock_step c s s"
| cas: "core_pc s c = Spinning i \<Longrightarrow> lock_val (the_lock s) = 0 \<Longrightarrow>
    lock_step c s (at_pc (s\<lparr>the_lock := (the_lock s)\<lparr>lock_val := 1\<rparr>\<rparr>) c (Won i))"
| record_flag: "core_pc s c = Won i \<Longrightarrow>
    lock_step c s (at_pc (s\<lparr>the_lock := (the_lock s)\<lparr>lock_interrupts := i\<rparr>\<rparr>) c Critical)"
| leave: "core_pc s c = Critical \<Longrightarrow> lock_step c s (at_pc s c Leaving)"
| uncas_fails: "core_pc s c = Leaving \<Longrightarrow> lock_val (the_lock s) \<noteq> 1 \<Longrightarrow> lock_step c s s"
| uncas: "core_pc s c = Leaving \<Longrightarrow> lock_val (the_lock s) = 1 \<Longrightarrow>
    lock_step c s (at_pc (s\<lparr>the_lock := (the_lock s)\<lparr>lock_val := 0\<rparr>\<rparr>) c Left)"
| sti: "core_pc s c = Left \<Longrightarrow> lock_interrupts (the_lock s) \<noteq> 0 \<Longrightarrow>
    lock_step c s (at_pc (s\<lparr>core_eflags := (core_eflags s)(c := core_eflags s c OR 0x200)\<rparr>) c Idle)"
| no_sti: "core_pc s c = Left \<Longrightarrow> lock_interrupts (the_lock s) = 0 \<Longrightarrow>
    lock_step c s (at_pc s c Idle)"

definition lock_start :: "(nat \<Rightarrow> u32) \<Rightarrow> lock_system" where
  "lock_start e = \<lparr>the_lock = SPINLOCK_RELEASED, core_pc = (\<lambda>_. Idle), core_eflags = e\<rparr>"

inductive lock_reach :: "nat set \<Rightarrow> (nat \<Rightarrow> u32) \<Rightarrow> lock_system \<Rightarrow> bool"
  for cores :: "nat set" and e :: "nat \<Rightarrow> u32" where
  start: "lock_reach cores e (lock_start e)"
| step: "lock_reach cores e s \<Longrightarrow> c \<in> cores \<Longrightarrow> lock_step c s s' \<Longrightarrow> lock_reach cores e s'"

fun holds_lock :: "lock_pc \<Rightarrow> bool" where
  "holds_lock (Won i) = True"
| "holds_lock Critical = True"
| "holds_lock Leaving = True"
| "holds_lock p = False"

section \<open>Mutual exclusion\<close>

definition lock_inv :: "lock_system \<Rightarrow> bool" where
  "lock_inv s \<longleftrightarrow>
     (lock_val (the_lock s) = 0 \<and> (\<forall>c. \<not> holds_lock (core_pc s c))) \<or>
     (lock_val (the_lock s) = 1 \<and> (\<exists>c. \<forall>d. holds_lock (core_pc s d) \<longleftrightarrow> d = c))"

lemma lock_inv_at_pc:
  assumes "lock_inv s" "holds_lock (core_pc s c) \<longleftrightarrow> holds_lock p"
    "lock_val (the_lock s') = lock_val (the_lock s)" "core_pc s' = core_pc s"
  shows "lock_inv (at_pc s' c p)"
  using assms by (auto simp: lock_inv_def at_pc_def)

lemma lock_step_inv: "lock_step c s s' \<Longrightarrow> lock_inv s \<Longrightarrow> lock_inv s'"
proof (induction rule: lock_step.induct)
  case (cas s c i)
  then show ?case by (auto simp: lock_inv_def at_pc_def intro!: exI [of _ c])
next
  case (uncas s c)
  have "holds_lock (core_pc s c)" using uncas(1) by simp
  with uncas(2,3) show ?case by (auto simp: lock_inv_def at_pc_def)
qed (assumption | (erule lock_inv_at_pc; simp))+

lemma lock_reach_inv: "lock_reach cores e s \<Longrightarrow> lock_inv s"
proof (induction rule: lock_reach.induct)
  case start
  then show ?case by (simp add: lock_inv_def lock_start_def SPINLOCK_RELEASED_def)
qed (rule lock_step_inv)

lemma lock_reach_mutex:
  "lock_reach cores e s \<Longrightarrow> holds_lock (core_pc s c) \<Longrightarrow> holds_lock (core_pc s d) \<Longrightarrow> c = d"
  by (drule lock_reach_inv) (auto simp: lock_inv_def)

lemma lock_reach_release:
  "lock_reach cores e s \<Longrightarrow> core_pc s c = Leaving \<Longrightarrow> lock_val (the_lock s) = 1"
  using lock_reach_inv [of cores e s] holds_lock.simps(3) unfolding lock_inv_def by metis

section \<open>The interrupt flag\<close>

text \<open>The next instruction of core \<open>c\<close>, as a function.\<close>

definition lock_next :: "nat \<Rightarrow> lock_system \<Rightarrow> lock_system" where
  "lock_next c s = (case core_pc s c of
     Idle \<Rightarrow> at_pc s c (Saved (core_eflags s c AND 0x200))
   | Saved i \<Rightarrow>
       at_pc (s\<lparr>core_eflags := (core_eflags s)(c := core_eflags s c AND NOT 0x200)\<rparr>) c (Spinning i)
   | Spinning i \<Rightarrow>
       if lock_val (the_lock s) = 0
       then at_pc (s\<lparr>the_lock := (the_lock s)\<lparr>lock_val := 1\<rparr>\<rparr>) c (Won i) else s
   | Won i \<Rightarrow> at_pc (s\<lparr>the_lock := (the_lock s)\<lparr>lock_interrupts := i\<rparr>\<rparr>) c Critical
   | Critical \<Rightarrow> at_pc s c Leaving
   | Leaving \<Rightarrow>
       if lock_val (the_lock s) = 1
       then at_pc (s\<lparr>the_lock := (the_lock s)\<lparr>lock_val := 0\<rparr>\<rparr>) c Left else s
   | Left \<Rightarrow>
       if lock_interrupts (the_lock s) \<noteq> 0
       then at_pc (s\<lparr>core_eflags := (core_eflags s)(c := core_eflags s c OR 0x200)\<rparr>) c Idle
       else at_pc s c Idle)"

lemma lock_step_next: "lock_step c s s' \<longleftrightarrow> s' = lock_next c s"
proof
  show "lock_step c s s' \<Longrightarrow> s' = lock_next c s"
    by (induction rule: lock_step.induct) (simp_all add: lock_next_def)
  show "s' = lock_next c s \<Longrightarrow> lock_step c s s'"
    by (auto simp: lock_next_def lock_step.simps split: lock_pc.split)
qed

lemma lock_reach_fold:
  "lock_reach cores e s \<Longrightarrow> set cs \<subseteq> cores \<Longrightarrow> lock_reach cores e (fold lock_next cs s)"
proof (induction cs arbitrary: s)
  case (Cons c cs)
  have "lock_reach cores e (lock_next c s)"
    using Cons.prems lock_reach.step [of cores e s c] by (simp add: lock_step_next)
  with Cons show ?case by simp
qed simp

text \<open>On one core the flag is back to what it was whenever the core is outside the lock.\<close>

definition flag_inv :: "u32 \<Rightarrow> lock_system \<Rightarrow> bool" where
  "flag_inv e s \<longleftrightarrow> (case core_pc s 0 of
     Idle \<Rightarrow> core_eflags s 0 = e
   | Saved i \<Rightarrow> core_eflags s 0 = e \<and> i = e AND 0x200
   | Spinning i \<Rightarrow> core_eflags s 0 = e AND NOT 0x200 \<and> i = e AND 0x200
   | Won i \<Rightarrow> core_eflags s 0 = e AND NOT 0x200 \<and> i = e AND 0x200
   | _ \<Rightarrow> core_eflags s 0 = e AND NOT 0x200 \<and> lock_interrupts (the_lock s) = e AND 0x200)"

lemma lock_reach_flag: "lock_reach {0} e s \<Longrightarrow> flag_inv (e 0) s"
proof (induction rule: lock_reach.induct)
  case start
  then show ?case by (simp add: flag_inv_def lock_start_def)
next
  case (step s c s')
  then show ?case
    using eflags_restore [of "e 0"]
    by (auto simp: flag_inv_def lock_step_next lock_next_def at_pc_def split: lock_pc.splits if_splits)
qed

end
