(* ===== verification/Ports.thy ===== *)
theory Ports
  imports Machine
begin

text \<open>
  The I/O ports (\<^verbatim>\<open>outportb\<close> and \<^verbatim>\<open>inportb\<close> of \<^verbatim>\<open>include/x86/hal.h\<close>). What the devices see is
  the sequence of the bytes written to the ports, oldest first. What they answer is given from
  outside: \<open>port_in p k\<close> is the byte the \<open>k\<close>-th read of port \<open>p\<close> yields.
\<close>

record io_machine = machine +
  port_out :: "(u16 \<times> u8) list"
  port_in :: "u16 \<Rightarrow> nat \<Rightarrow> u8"
  port_reads :: "u16 \<Rightarrow> nat"

definition outportb :: "u16 \<Rightarrow> u8 \<Rightarrow> 'a io_machine_scheme \<Rightarrow> 'a io_machine_scheme" where
  "outportb port v s = s\<lparr>port_out := port_out s @ [(port, v)]\<rparr>"

definition inportb :: "u16 \<Rightarrow> 'a io_machine_scheme \<Rightarrow> u8 \<times> 'a io_machine_scheme" where
  "inportb port s =
     (port_in s port (port_reads s port),
      s\<lparr>port_reads := (port_reads s)(port := port_reads s port + 1)\<rparr>)"

text \<open>A straight-line sequence of port writes.\<close>

definition outportbs :: "(u16 \<times> u8) list \<Rightarrow> 'a io_machine_scheme \<Rightarrow> 'a io_machine_scheme" where
  "outportbs xs s = fold (\<lambda>(p, v). outportb p v) xs s"

lemma outportbs_eq: "outportbs xs s = s\<lparr>port_out := port_out s @ xs\<rparr>"
  by (induction xs arbitrary: s) (auto simp: outportbs_def outportb_def)

end
