(* ===== verification/Strings.thy ===== *)
theory Strings
  imports Prelude
begin

text \<open>
  The string functions of \<^verbatim>\<open>utils.c\<close>. A C string is the list of the characters from the
  pointer on, with the terminating NUL left implicit: reading past the list yields NUL. A NUL
  inside the list ends the string there, as it does in C.
\<close>

section \<open>Reading a string\<close>

abbreviation NUL :: char where "NUL \<equiv> CHR 0x00"

definition at :: "string \<Rightarrow> char" where
  "at s = (case s of [] \<Rightarrow> NUL | c # _ \<Rightarrow> c)"

text \<open>The characters a C function sees before the terminator.\<close>

definition cstr :: "string \<Rightarrow> string" where
  "cstr s = takeWhile (\<lambda>c. c \<noteq> NUL) s"

lemma at_simps [simp]: "at [] = NUL" "at (c # s) = c"
  by (simp_all add: at_def)

lemma cstr_simps [simp]: "cstr [] = []" "cstr (c # s) = (if c = NUL then [] else c # cstr s)"
  by (simp_all add: cstr_def)

lemma at_not_NUL: "at s \<noteq> NUL \<longleftrightarrow> (\<exists>c t. s = c # t \<and> c \<noteq> NUL)"
  by (cases s) auto

lemma at_length [termination_simp]: "at s \<noteq> NUL \<Longrightarrow> length s - Suc 0 < length s"
  by (cases s) auto

lemma cstr_ident: "NUL \<notin> set s \<Longrightarrow> cstr s = s"
  by (induction s) auto

lemma cstr_append_NUL [simp]: "NUL \<notin> set s \<Longrightarrow> cstr (s @ NUL # t) = s"
  by (induction s) auto

lemma NUL_not_in_cstr [simp]: "NUL \<notin> set (cstr s)"
  unfolding cstr_def using set_takeWhileD by fast

section \<open>strlen and strcmp\<close>

fun strlen :: "string \<Rightarrow> nat" where
  "strlen s = (if at s \<noteq> NUL then Suc (strlen (tl s)) else 0)"
declare strlen.simps [simp del]

text \<open>The difference of the two bytes where the strings part, taken as unsigned.\<close>

fun strcmp :: "string \<Rightarrow> string \<Rightarrow> int" where
  "strcmp s1 s2 =
     (if at s1 \<noteq> NUL \<and> at s1 = at s2 then strcmp (tl s1) (tl s2)
      else of_char (at s1) - of_char (at s2))"
declare strcmp.simps [simp del]

lemma strlen_length: "strlen s = length (cstr s)"
  by (induction s) (simp_all add: strlen.simps)

lemma of_char_eq_int [simp]: "(of_char c :: int) = of_char d \<longleftrightarrow> c = d"
  by (rule of_char_eq_iff)

lemma of_char_eq_0_int [simp]: "(of_char c :: int) = 0 \<longleftrightarrow> c = NUL"
  using of_char_eq_int [of c NUL] by simp

lemma strcmp_zero: "strcmp s t = 0 \<longleftrightarrow> cstr s = cstr t"
proof (induction s t rule: strcmp.induct)
  case (1 s t)
  then show ?case
    by (subst strcmp.simps) (cases s; cases t; auto)
qed

section \<open>tokenize\<close>

text \<open>The inner loop: how far \<^verbatim>\<open>in\<close> moves.\<close>

fun spool :: "char \<Rightarrow> string \<Rightarrow> nat" where
  "spool tok s = (if at s \<noteq> NUL \<and> at s \<noteq> tok then Suc (spool tok (tl s)) else 0)"
declare spool.simps [simp del]

lemma spool_simps [simp]:
  "spool tok [] = 0"
  "spool tok (c # s) = (if c \<noteq> NUL \<and> c \<noteq> tok then Suc (spool tok s) else 0)"
  by (subst spool.simps, simp)+

lemma spool_takeWhile: "spool tok s = length (takeWhile (\<lambda>c. c \<noteq> NUL \<and> c \<noteq> tok) s)"
  by (induction s) (simp_all add: spool.simps)

lemma spool_split:
  "NUL \<notin> set s \<Longrightarrow> takeWhile (\<lambda>c. c \<noteq> tok) s = take (spool tok s) s"
  "NUL \<notin> set s \<Longrightarrow> dropWhile (\<lambda>c. c \<noteq> tok) s = drop (spool tok s) s"
  by (induction s) auto

lemma spool_pos: "at s \<noteq> NUL \<Longrightarrow> at (drop (spool tok s) s) \<noteq> tok \<Longrightarrow> 0 < spool tok s"
  by (cases s) auto

text \<open>
  \<^verbatim>\<open>tokenize\<close> stores a pointer per token and overwrites each separator with NUL. The model
  returns the stored pointers as offsets into the string, and the string as it is left. With
  NUL as the separator the pointer would step over the terminator, out of the string.
\<close>

function tokenize_from ::
    "char \<Rightarrow> nat \<Rightarrow> nat \<Rightarrow> string \<Rightarrow> int \<Rightarrow> (nat list \<times> string) res" where
  "tokenize_from tok off n s maxout =
     (if at s \<noteq> NUL \<and> int n < maxout
      then let w = spool tok s; r = drop w s
           in if at r = tok
              then if r = [] then Inl (Undefined ''tokenize: read past the string'')
                   else bind_res (tokenize_from tok (off + w + 1) (n + 1) (tl r) maxout)
                     (\<lambda>(out, rest). Inr (off # out, take w s @ NUL # rest))
              else bind_res (tokenize_from tok (off + w) (n + 1) r maxout)
                     (\<lambda>(out, rest). Inr (off # out, take w s @ rest))
      else Inr ([], s))"
  by pat_completeness auto
termination
proof (relation "measure (\<lambda>(tok, off, n, s, maxout). length s)", goal_cases)
  case (2 tok off n s maxout w r)
  then have "r \<noteq> []" by simp
  then have "length (tl r) < length r" by simp
  also have "length r \<le> length s" using 2 by simp
  finally show ?case by simp
next
  case (3 tok off n s maxout w r)
  then have "0 < w" "s \<noteq> []" using spool_pos [of s tok] by auto
  then show ?case using 3 by simp
qed simp
declare tokenize_from.simps [simp del]

definition tokenize :: "char \<Rightarrow> string \<Rightarrow> int \<Rightarrow> (nat list \<times> string) res" where
  "tokenize tok s maxout = tokenize_from tok 0 0 s maxout"

text \<open>The pieces of a string between separators; a separator at the end opens no piece.\<close>

function pieces :: "char \<Rightarrow> string \<Rightarrow> string list" where
  "pieces tok [] = []"
| "pieces tok (c # s) =
     takeWhile (\<lambda>d. d \<noteq> tok) (c # s) # pieces tok (tl (dropWhile (\<lambda>d. d \<noteq> tok) (c # s)))"
  by pat_completeness auto
termination
proof (relation "measure (\<lambda>(tok, s). length s)", goal_cases)
  case (2 tok c s)
  have "length (tl (dropWhile (\<lambda>d. d \<noteq> tok) (c # s))) < length (c # s)"
    using length_dropWhile_le [of "\<lambda>d. d \<noteq> tok" s] by (cases "c = tok") auto
  then show ?case by simp
qed simp

lemma tokenize_from_spec:
  assumes "tok \<noteq> NUL" "NUL \<notin> set s"
  shows "\<exists>out buf. tokenize_from tok off n s maxout = Inr (out, buf) \<and> length buf = length s \<and>
    map (\<lambda>p. cstr (drop (p - off) buf)) out = take (nat (maxout - int n)) (pieces tok s) \<and>
    (\<forall>p \<in> set out. off \<le> p)"
  using assms(2)
proof (induction s arbitrary: off n rule: length_induct)
  case (1 s)
  show ?case
  proof (cases "s \<noteq> [] \<and> int n < maxout")
    case False
    then show ?thesis
      using 1 by (cases s) (auto simp: tokenize_from.simps)
  next
    case True
    then have s: "at s \<noteq> NUL" "s \<noteq> []" "int n < maxout" using "1.prems" by (cases s; auto)+
    define w where "w = spool tok s"
    define r where "r = drop w s"
    have eq: "takeWhile (\<lambda>c. c \<noteq> tok) s = take w s" "dropWhile (\<lambda>c. c \<noteq> tok) s = r"
      using spool_split [of s tok] "1.prems" by (auto simp: w_def r_def)
    have nu: "NUL \<notin> set (take w s)" "NUL \<notin> set r" "NUL \<notin> set (tl r)" "w \<le> length s"
      using "1.prems" in_set_takeD [of NUL w s] in_set_dropD [of NUL w s]
        in_set_dropD [of NUL "Suc w" s]
      by (auto simp: r_def w_def spool_takeWhile length_takeWhile_le tl_drop drop_Suc)
    have pc: "pieces tok s = take w s # pieces tok (tl r)"
      using s(2) eq by (cases s) simp_all
    have nt: "nat (maxout - int n) = Suc (nat (maxout - int (n + 1)))" using s by simp
    show ?thesis
    proof (cases "r = []")
      case r: True
      then have "w = length s" using nu(4) by (simp add: r_def)
      then have "tokenize_from tok off n s maxout = Inr ([off], s)"
        using s r assms(1) by (simp add: tokenize_from.simps [of tok off n s] Let_def w_def r_def
            tokenize_from.simps [of _ _ _ "[]"])
      then show ?thesis
        using \<open>w = length s\<close> r "1.prems" by (simp add: pc nt cstr_ident)
    next
      case r: False
      have hd: "hd r = tok" using hd_dropWhile [of "\<lambda>c. c \<noteq> tok" s] eq r by auto
      then have at: "at r = tok" using r by (cases r) auto
      have "length (tl r) < length s" using r s by (simp add: r_def)
      then obtain out buf where IH: "tokenize_from tok (off + w + 1) (n + 1) (tl r) maxout = Inr (out, buf)"
        "length buf = length (tl r)"
        "map (\<lambda>p. cstr (drop (p - (off + w + 1)) buf)) out
          = take (nat (maxout - int (n + 1))) (pieces tok (tl r))"
        "\<forall>p \<in> set out. off + w + 1 \<le> p"
        using "1.IH" nu(3) by blast
      have "tokenize_from tok off n s maxout = Inr (off # out, take w s @ NUL # buf)"
        using s at r IH(1) by (simp add: tokenize_from.simps [of tok off n s] Let_def w_def r_def)
      moreover have mp: "map (\<lambda>p. cstr (drop (p - off) (take w s @ NUL # buf))) out
          = map (\<lambda>p. cstr (drop (p - (off + w + 1)) buf)) out"
      proof (rule map_cong [OF refl])
        fix p assume "p \<in> set out"
        then have "off + w + 1 \<le> p" using IH(4) by blast
        then have "p - (off + w) = Suc (p - (off + w + 1))" "w \<le> p - off" by simp_all
        then show "cstr (drop (p - off) (take w s @ NUL # buf)) = cstr (drop (p - (off + w + 1)) buf)"
          using nu(4) by simp
      qed
      moreover have "length (take w s @ NUL # buf) = length s"
        using IH(2) r by (simp add: r_def min_def)
      ultimately show ?thesis
        using IH nu(1) trans [OF mp IH(3)]
        by (intro exI [of _ "off # out"] exI [of _ "take w s @ NUL # buf"])
          (auto simp: pc nt simp del: drop_append)
    qed
  qed
qed

section \<open>delay\<close>

text \<open>The loop body's \<^verbatim>\<open>i * 7\<close> is a signed product; its value is not used.\<close>

function delay_from :: "int \<Rightarrow> int \<Rightarrow> unit res" where
  "delay_from i loops =
     (if i < loops
      then if i * 7 < 2 ^ 31 then delay_from (i + 1) loops
           else Inl (Undefined ''delay: signed overflow'')
      else Inr ())"
  by pat_completeness auto
termination by (relation "measure (\<lambda>(i, loops). nat (loops - i))") auto
declare delay_from.simps [simp del]

definition delay :: "int \<Rightarrow> unit res" where
  "delay loops = delay_from 0 loops"

lemma delay_from_returns:
  "0 \<le> i \<Longrightarrow> loops \<le> 306783379 \<Longrightarrow> delay_from i loops = Inr ()"
  by (induction i loops rule: delay_from.induct) (subst delay_from.simps, auto)

end
