(* ===== verification/Vgaterm.thy ===== *)
theory Vgaterm
  imports Ports Strings
begin

text \<open>
  The VGA text terminal of \<^verbatim>\<open>arch/x86/vgaterm.c\<close>. The back buffer is an array in the kernel's
  store and the front buffer the video memory mapped at \<^verbatim>\<open>VRAM_START\<close>; both are reached
  through the store with the kernel's own \<^verbatim>\<open>memcpy\<close> and \<^verbatim>\<open>memsetw\<close>. The driver's static
  variables extend the machine; where the linker puts the back buffer is a field.
\<close>

section \<open>State\<close>

record vga = io_machine +
  term_cursor_y :: u32
  term_cursor_x :: u32
  term_color :: u8
  term_frontbuff :: u32
  term_backbuff :: u32

definition VGA_WIDTH :: u32 where "VGA_WIDTH = 80"
definition VGA_HEIGHT :: u32 where "VGA_HEIGHT = 25"
definition VGA_BUFFSIZE :: u32 where "VGA_BUFFSIZE = VGA_WIDTH * VGA_HEIGHT"
definition VRAM_START :: u32 where "VRAM_START = 0xC00B8000"

lemmas vga_consts = VGA_WIDTH_def VGA_HEIGHT_def VGA_BUFFSIZE_def VRAM_START_def

definition COLOR_BLACK :: u8 where "COLOR_BLACK = 0"
definition COLOR_LIGHT_GREY :: u8 where "COLOR_LIGHT_GREY = 7"
definition COLOR_DARK_GREY :: u8 where "COLOR_DARK_GREY = 8"
definition COLOR_LIGHT_GREEN :: u8 where "COLOR_LIGHT_GREEN = 10"
definition COLOR_LIGHT_RED :: u8 where "COLOR_LIGHT_RED = 12"
definition COLOR_WHITE :: u8 where "COLOR_WHITE = 15"

definition make_color :: "u8 \<Rightarrow> u8 \<Rightarrow> u8" where
  "make_color fg bg = fg OR push_bit 4 bg"

text \<open>A 16-bit object in the store.\<close>

definition load16 :: "mem \<Rightarrow> u32 \<Rightarrow> u16" where
  "load16 m a = ucast (m a) OR push_bit 8 (ucast (m (a + 1)))"

definition store16 :: "mem \<Rightarrow> u32 \<Rightarrow> u16 \<Rightarrow> mem" where
  "store16 m a v = m(a := ucast v, a + 1 := ucast (drop_bit 8 v))"

section \<open>Operations\<close>

text \<open>\<^verbatim>\<open>uint16_t c16 = c\<close> widens a \<^verbatim>\<open>char\<close>, which is signed on this architecture.\<close>

definition make_vgaentry :: "char \<Rightarrow> u8 \<Rightarrow> u16" where
  "make_vgaentry c color = scast (of_char c :: u8) OR push_bit 8 (ucast color)"

definition vgaterm_cls :: "'a vga_scheme \<Rightarrow> 'a vga_scheme" where
  "vgaterm_cls s =
     (let m = memsetw (mem s) (term_backbuff s) (ucast (make_vgaentry CHR '' '' (term_color s)))
                (unat (VGA_WIDTH * VGA_HEIGHT));
          m = memcpy m (term_frontbuff s) (term_backbuff s) (unat (VGA_WIDTH * VGA_HEIGHT * 2))
      in s\<lparr>mem := m\<rparr>)"

definition vgaterm_setcolor :: "u8 \<Rightarrow> 'a vga_scheme \<Rightarrow> 'a vga_scheme" where
  "vgaterm_setcolor color s = s\<lparr>term_color := color\<rparr>"

definition vgaterm_getcolor :: "'a vga_scheme \<Rightarrow> u8" where
  "vgaterm_getcolor s = term_color s"

definition terminal_putentryat ::
    "char \<Rightarrow> u8 \<Rightarrow> u32 \<Rightarrow> u32 \<Rightarrow> 'a vga_scheme \<Rightarrow> 'a vga_scheme res" where
  "terminal_putentryat c color x y s =
     (let index = y * VGA_WIDTH + x; e = make_vgaentry c color
      in if VGA_BUFFSIZE \<le> index then Inl (Undefined ''term_backbuff out of bounds'')
         else let m = store16 (mem s) (term_backbuff s + 2 * index) e;
                  m = store16 m (term_frontbuff s + 2 * index) e
              in Inr (s\<lparr>mem := m\<rparr>))"

text \<open>
  \<^verbatim>\<open>temp\<close> is the number of lines to scroll by; beyond the height of the screen the copy would
  leave the buffer.
\<close>

definition terminal_scroll :: "'a vga_scheme \<Rightarrow> 'a vga_scheme res" where
  "terminal_scroll s =
     (let blank = make_vgaentry CHR '' '' (term_color s);
          temp = term_cursor_y s - VGA_HEIGHT + 1
      in if VGA_HEIGHT < temp then Inl (Undefined ''term_backbuff out of bounds'')
         else let m = memcpy (mem s) (term_backbuff s) (term_backbuff s + 2 * (temp * VGA_WIDTH))
                        (unat ((VGA_HEIGHT - temp) * VGA_WIDTH * 2));
                  m = memsetw m (term_backbuff s + 2 * ((VGA_HEIGHT - temp) * VGA_WIDTH)) (ucast blank)
                        (unat VGA_WIDTH);
                  m = memcpy m (term_frontbuff s) (term_backbuff s) (unat (VGA_WIDTH * VGA_HEIGHT * 2))
              in Inr (s\<lparr>mem := m, term_cursor_y := VGA_HEIGHT - 1\<rparr>))"

definition terminal_update_cursor :: "'a vga_scheme \<Rightarrow> 'a vga_scheme" where
  "terminal_update_cursor s =
     (let temp = term_cursor_y s * 80 + term_cursor_x s
      in outportbs [(0x3D4, 14), (0x3D5, ucast (drop_bit 8 temp)), (0x3D4, 15), (0x3D5, ucast temp)] s)"

definition vgaterm_putchar :: "char \<Rightarrow> 'a vga_scheme \<Rightarrow> 'a vga_scheme res" where
  "vgaterm_putchar c s =
     bind_res
       (if c = CHR 0x0A then Inr (s\<lparr>term_cursor_x := 0, term_cursor_y := term_cursor_y s + 1\<rparr>)
        else bind_res (terminal_putentryat c (term_color s) (term_cursor_x s) (term_cursor_y s) s)
          (\<lambda>s. let s = s\<lparr>term_cursor_x := term_cursor_x s + 1\<rparr>
               in Inr (if term_cursor_x s = VGA_WIDTH
                       then s\<lparr>term_cursor_x := 0, term_cursor_y := term_cursor_y s + 1\<rparr> else s)))
       (\<lambda>s. bind_res (if VGA_HEIGHT \<le> term_cursor_y s then terminal_scroll s else Inr s)
         (\<lambda>s. Inr (terminal_update_cursor s)))"

fun putchars :: "string \<Rightarrow> 'a vga_scheme \<Rightarrow> 'a vga_scheme res" where
  "putchars [] s = Inr s"
| "putchars (c # cs) s = bind_res (vgaterm_putchar c s) (putchars cs)"

definition vgaterm_writestring :: "string \<Rightarrow> 'a vga_scheme \<Rightarrow> 'a vga_scheme res" where
  "vgaterm_writestring str s = (let datalen = strlen str in putchars (take datalen str) s)"

definition vgaterm_moveto :: "u8 \<Rightarrow> u8 \<Rightarrow> 'a vga_scheme \<Rightarrow> 'a vga_scheme" where
  "vgaterm_moveto x y s =
     terminal_update_cursor (s\<lparr>term_cursor_y := ucast y, term_cursor_x := ucast x\<rparr>)"

section \<open>The screen\<close>

text \<open>
  What the terminal promises: a grid of cells, a cursor inside it, and a colour. A character
  goes into the cell under the cursor; past the last column or on a newline the cursor goes to
  the next line; past the last line the grid moves up by one line.
\<close>

record screen =
  cells :: "u16 list"
  col :: nat
  row :: nat

definition advance :: "u16 \<Rightarrow> screen \<Rightarrow> screen" where
  "advance blank t =
     (if 25 \<le> row t then t\<lparr>cells := drop 80 (cells t) @ replicate 80 blank, row := 24\<rparr> else t)"

definition screen_place :: "u8 \<Rightarrow> char \<Rightarrow> screen \<Rightarrow> screen" where
  "screen_place color c t =
     (if c = CHR 0x0A then t\<lparr>col := 0, row := row t + 1\<rparr>
      else let t = t\<lparr>cells := (cells t)[row t * 80 + col t := make_vgaentry c color]\<rparr>
           in if col t + 1 = 80 then t\<lparr>col := 0, row := row t + 1\<rparr> else t\<lparr>col := col t + 1\<rparr>)"

definition screen_put :: "u8 \<Rightarrow> char \<Rightarrow> screen \<Rightarrow> screen" where
  "screen_put color c t = advance (make_vgaentry CHR '' '' color) (screen_place color c t)"

definition buffer :: "mem \<Rightarrow> u32 \<Rightarrow> nat \<Rightarrow> u16 list" where
  "buffer m a n = map (\<lambda>i. load16 m (a + of_nat (2 * i))) [0..<n]"

definition screen_of :: "'a vga_scheme \<Rightarrow> screen" where
  "screen_of s = \<lparr>cells = buffer (mem s) (term_frontbuff s) 2000,
     col = unat (term_cursor_x s), row = unat (term_cursor_y s)\<rparr>"

text \<open>The cursor is on the screen, the buffers are apart and show the same.\<close>

definition vga_area :: "'a vga_scheme \<Rightarrow> u32 set" where
  "vga_area s = region (term_backbuff s) 4000 \<union> region (term_frontbuff s) 4000"

definition vga_inv :: "'a vga_scheme \<Rightarrow> bool" where
  "vga_inv s \<longleftrightarrow> term_cursor_x s < 80 \<and> term_cursor_y s < 25 \<and>
     region (term_backbuff s) 4000 \<inter> region (term_frontbuff s) 4000 = {} \<and>
     buffer (mem s) (term_backbuff s) 2000 = buffer (mem s) (term_frontbuff s) 2000"

section \<open>Cells in the store\<close>

lemma load16_store16 [simp, mem_simps]: "load16 (store16 m a v) a = v"
proof (rule bit_word_eqI)
  fix n assume "n < LENGTH(16)"
  then have "n < 8 \<or> (8 \<le> n \<and> n < 16)" by auto
  then show "bit (load16 (store16 m a v) a) n = bit v n"
    by (auto simp: load16_def store16_def bit_simps)
qed

lemma load16_bytes: "m a = ucast c \<Longrightarrow> m (a + 1) = ucast (drop_bit 8 c) \<Longrightarrow> load16 m a = ucast (c :: u32)"
proof (rule bit_word_eqI)
  fix n assume *: "m a = ucast c" "m (a + 1) = ucast (drop_bit 8 c)" "n < LENGTH(16)"
  then have "n < 8 \<or> (8 \<le> n \<and> n < 16)" by auto
  then show "bit (load16 m a) n = bit (ucast c :: u16) n"
    using * by (auto simp: load16_def bit_simps)
qed

lemma region_2: "region a 2 = {a, a + 1}"
proof -
  have "{..<2 :: nat} = {0, 1}" by auto
  then show ?thesis by (simp add: region_def)
qed

lemma load16_cong: "(\<And>b. b \<in> region a 2 \<Longrightarrow> m' b = m b) \<Longrightarrow> load16 m' a = load16 m a"
  by (simp add: load16_def region_2)

lemma store16_same_outside: "same_outside (region a 2) m (store16 m a v)"
  by (auto simp: same_outside_def store16_def region_2)

lemma length_buffer [simp]: "length (buffer m a n) = n"
  by (simp add: buffer_def)

lemma buffer_nth [simp]: "i < n \<Longrightarrow> buffer m a n ! i = load16 m (a + of_nat (2 * i))"
  by (simp add: buffer_def)

lemma cell_region: "i < n \<Longrightarrow> region (a + of_nat (2 * i)) 2 \<subseteq> region a (2 * n)"
  by (rule region_sub) simp

lemma buffer_cong:
  assumes "same_outside A m m'" "region a (2 * n) \<inter> A = {}"
  shows "buffer m' a n = buffer m a n"
proof (rule nth_equalityI)
  fix i assume "i < length (buffer m' a n)"
  then have i: "i < n" by simp
  have "load16 m' (a + of_nat (2 * i)) = load16 m (a + of_nat (2 * i))"
    using cell_region [OF i, of a] assms by (intro load16_cong) (auto simp: same_outside_def)
  then show "buffer m' a n ! i = buffer m a n ! i" using i by simp
qed simp

lemma buffer_store16:
  assumes "i < n" "n \<le> 2000"
  shows "buffer (store16 m (a + of_nat (2 * i)) v) a n = (buffer m a n)[i := v]"
proof (rule nth_equalityI)
  fix j assume "j < length (buffer (store16 m (a + of_nat (2 * i)) v) a n)"
  then have j: "j < n" by simp
  have "region (a + of_nat (2 * i)) 2 \<inter> region (a + of_nat (2 * j)) 2 = {}" if "j \<noteq> i"
  proof (cases "i < j")
    case True
    then show ?thesis using assms j by (intro region_disjoint_offset) auto
  next
    case False
    then have "region (a + of_nat (2 * j)) 2 \<inter> region (a + of_nat (2 * i)) 2 = {}"
      using that assms by (intro region_disjoint_offset) auto
    then show ?thesis by blast
  qed
  then have "load16 (store16 m (a + of_nat (2 * i)) v) (a + of_nat (2 * j)) = load16 m (a + of_nat (2 * j))"
    if "j \<noteq> i"
    using that store16_same_outside [of "a + of_nat (2 * i)" m v]
    by (intro load16_cong) (auto simp: same_outside_def)
  then show "buffer (store16 m (a + of_nat (2 * i)) v) a n ! j = (buffer m a n)[i := v] ! j"
    using j by (cases "j = i") (simp_all add: nth_list_update)
qed simp

lemma buffer_drop: "drop k (buffer m a (k + n)) = buffer m (a + of_nat (2 * k)) n"
  by (rule nth_equalityI) (simp_all add: algebra_simps)

lemma buffer_split: "buffer m a (n + k) = buffer m a n @ buffer m (a + of_nat (2 * n)) k"
  by (rule nth_equalityI) (auto simp: nth_append algebra_simps of_nat_diff)

section \<open>Block operations on cells\<close>

lemma memcpy_same_outside: "same_outside (region d n) m (memcpy m d s n)"
  by (simp add: same_outside_def memcpy_outside)

lemma buffer_memcpy:
  assumes "n \<le> 2000"
    and "\<And>i j. i < j \<Longrightarrow> j < 2 * n \<Longrightarrow> d + of_nat i \<noteq> s + of_nat j"
  shows "buffer (memcpy m d s (2 * n)) d n = buffer m s n"
proof (rule nth_equalityI)
  fix i assume "i < length (buffer (memcpy m d s (2 * n)) d n)"
  then have i: "i < n" by simp
  have b: "memcpy m d s (2 * n) (d + of_nat k) = m (s + of_nat k)" if "k < 2 * n" for k
    using memcpy_inside [OF that, of d s m] assms by simp
  have "load16 (memcpy m d s (2 * n)) (d + of_nat (2 * i)) = load16 m (s + of_nat (2 * i))"
    using b [of "2 * i"] b [of "2 * i + 1"] i by (simp add: load16_def add.assoc add.commute add.left_commute)
  then show "buffer (memcpy m d s (2 * n)) d n ! i = buffer m s n ! i" using i by simp
qed simp

lemma buffer_memcpy_disjoint:
  assumes "n \<le> 2000" "region d (2 * n) \<inter> region s (2 * n) = {}"
  shows "buffer (memcpy m d s (2 * n)) d n = buffer m s n"
proof (rule buffer_memcpy [OF assms(1)])
  fix i j :: nat assume "i < j" "j < 2 * n"
  then show "d + of_nat i \<noteq> s + of_nat j"
    using assms(2) region_memI [of i "2 * n" d] region_memI [of j "2 * n" s] by auto
qed

text \<open>The scroll copies downwards in the buffer, onto itself, and never overwrites what it still reads.\<close>

lemma buffer_memcpy_up:
  assumes "n + k \<le> 2000"
  shows "buffer (memcpy m d (d + of_nat (2 * k)) (2 * n)) d n = buffer m (d + of_nat (2 * k)) n"
proof (rule buffer_memcpy)
  fix i j :: nat assume *: "i < j" "j < 2 * n"
  then have "d + of_nat i \<noteq> d + of_nat (2 * k + j)"
    using assms by (subst region_offset_eq) auto
  then show "d + of_nat i \<noteq> d + of_nat (2 * k) + of_nat j" by (simp add: add.assoc)
qed (use assms in simp)

lemma memsetw_outside: "a \<notin> region p (2 * n) \<Longrightarrow> memsetw m p c n a = m a"
  by (induction m p c n rule: memsetw.induct) (auto simp: region_Suc add.assoc)

lemma memsetw_same_outside: "same_outside (region p (2 * n)) m (memsetw m p c n)"
  by (simp add: same_outside_def memsetw_outside)

lemma buffer_memsetw:
  "n \<le> 2000 \<Longrightarrow> buffer (memsetw m p c n) p n = replicate n (ucast c)"
proof (induction n arbitrary: m p)
  case 0
  then show ?case by (simp add: buffer_def)
next
  case (Suc n)
  let ?m = "m(p := ucast c, p + 1 := ucast (drop_bit 8 c))"
  have "region p 2 \<inter> region (p + of_nat 2) (2 * n) = {}"
    using region_disjoint_offset [of 0 2 2 "2 * n" p] Suc.prems by simp
  then have "memsetw ?m (p + 2) c n p = ucast c" "memsetw ?m (p + 2) c n (p + 1) = ucast (drop_bit 8 c)"
    by (subst memsetw_outside; auto simp: region_2)+
  then have "buffer (memsetw m p c (Suc n)) p 1 = [ucast c]"
    by (simp add: buffer_def load16_bytes)
  moreover have "buffer (memsetw m p c (Suc n)) (p + of_nat (2 * 1)) n = replicate n (ucast c)"
  proof -
    have "buffer (memsetw ?m (p + 2) c n) (p + 2) n = replicate n (ucast c)"
      by (rule Suc.IH) (use Suc.prems in simp)
    then show ?thesis by simp
  qed
  ultimately show ?case
    using buffer_split [of "memsetw m p c (Suc n)" p 1 n] by simp
qed

section \<open>The operations on the screen\<close>

text \<open>What a terminal operation may change, and that the invariant depends on nothing else.\<close>

definition vga_step :: "'a vga_scheme \<Rightarrow> 'a vga_scheme \<Rightarrow> bool" where
  "vga_step s s' \<longleftrightarrow> (\<exists>m x y out. s' = s\<lparr>mem := m, term_cursor_x := x, term_cursor_y := y,
     port_out := port_out s @ out\<rparr> \<and> same_outside (vga_area s) (mem s) m)"

lemma vga_stepI:
  "same_outside (vga_area s) (mem s) m \<Longrightarrow>
    vga_step s (s\<lparr>mem := m, term_cursor_x := x, term_cursor_y := y, port_out := port_out s @ out\<rparr>)"
  unfolding vga_step_def by blast

lemma vga_step_refl [simp]: "vga_step s s"
  unfolding vga_step_def
  by (rule exI [of _ "mem s"], rule exI [of _ "term_cursor_x s"], rule exI [of _ "term_cursor_y s"],
      rule exI [of _ "[]"]) simp

lemma vga_step_area: "vga_step s s' \<Longrightarrow> vga_area s' = vga_area s"
  by (auto simp: vga_step_def vga_area_def)

lemma vga_step_fields:
  "vga_step s s' \<Longrightarrow> term_color s' = term_color s"
  "vga_step s s' \<Longrightarrow> term_frontbuff s' = term_frontbuff s"
  "vga_step s s' \<Longrightarrow> term_backbuff s' = term_backbuff s"
  by (auto simp: vga_step_def)

lemma vga_step_trans:
  assumes "vga_step s s'" "vga_step s' s''"
  shows "vga_step s s''"
proof -
  obtain m x y o1 where 1: "s' = s\<lparr>mem := m, term_cursor_x := x, term_cursor_y := y,
      port_out := port_out s @ o1\<rparr>" "same_outside (vga_area s) (mem s) m"
    using assms(1) unfolding vga_step_def by blast
  obtain m' x' y' o2 where 2: "s'' = s'\<lparr>mem := m', term_cursor_x := x', term_cursor_y := y',
      port_out := port_out s' @ o2\<rparr>" "same_outside (vga_area s') (mem s') m'"
    using assms(2) unfolding vga_step_def by blast
  have "s'' = s\<lparr>mem := m', term_cursor_x := x', term_cursor_y := y', port_out := port_out s @ o1 @ o2\<rparr>"
    unfolding 2(1) 1(1) by simp
  moreover have "same_outside (vga_area s) (mem s) m'"
    using same_outside_trans [OF 1(2), of m'] 2(2) vga_step_area [OF assms(1)] 1(1) by simp
  ultimately show ?thesis by (simp only: vga_stepI)
qed

lemma vga_areas:
  "same_outside (region (term_backbuff s) 4000) m m' \<Longrightarrow> same_outside (vga_area s) m m'"
  "same_outside (region (term_frontbuff s) 4000) m m' \<Longrightarrow> same_outside (vga_area s) m m'"
  by (auto simp: vga_area_def elim: same_outside_mono)

text \<open>Two buffers that are apart: an operation on one leaves the other alone.\<close>

lemma buffer_other:
  "same_outside (region a 4000) m m' \<Longrightarrow> region b 4000 \<inter> region a 4000 = {} \<Longrightarrow>
    buffer m' b 2000 = buffer m b 2000"
  by (rule buffer_cong [where A = "region a 4000"]) simp_all

lemma terminal_putentryat_spec:
  assumes "vga_inv s" "unat x < 80" "unat y < 25"
  defines "i \<equiv> unat y * 80 + unat x"
  obtains m where "terminal_putentryat c color x y s = Inr (s\<lparr>mem := m\<rparr>)"
    "same_outside (vga_area s) (mem s) m"
    "buffer m (term_backbuff s) 2000 = (buffer (mem s) (term_backbuff s) 2000)[i := make_vgaentry c color]"
    "buffer m (term_frontbuff s) 2000 = (buffer (mem s) (term_frontbuff s) 2000)[i := make_vgaentry c color]"
proof -
  let ?b = "term_backbuff s" and ?f = "term_frontbuff s" and ?e = "make_vgaentry c color"
  have i: "i < 2000" using assms(2,3) by (simp add: i_def)
  have ix: "y * VGA_WIDTH + x = of_nat i"
    by (simp add: i_def vga_consts)
  then have lt: "\<not> VGA_BUFFSIZE \<le> y * VGA_WIDTH + x"
    using i by (simp add: vga_consts word_le_nat_alt)
  define m1 where "m1 = store16 (mem s) (?b + of_nat (2 * i)) ?e"
  define m2 where "m2 = store16 m1 (?f + of_nat (2 * i)) ?e"
  have d: "region ?b 4000 \<inter> region ?f 4000 = {}" "region ?f 4000 \<inter> region ?b 4000 = {}"
    using assms(1) by (auto simp: vga_inv_def)
  have 1: "same_outside (region ?b 4000) (mem s) m1" and 2: "same_outside (region ?f 4000) m1 m2"
    using cell_region [OF i] unfolding m1_def m2_def
    by (simp_all add: same_outside_mono [OF store16_same_outside])
  show ?thesis
  proof (rule that [of m2])
    show "terminal_putentryat c color x y s = Inr (s\<lparr>mem := m2\<rparr>)"
      using lt by (simp add: terminal_putentryat_def Let_def ix m1_def m2_def)
    show "same_outside (vga_area s) (mem s) m2"
      using vga_areas(1) [OF 1] vga_areas(2) [OF 2] by (rule same_outside_trans)
    show "buffer m2 ?b 2000 = (buffer (mem s) ?b 2000)[i := ?e]"
      using buffer_other [OF 2 d(1)] buffer_store16 [OF i] by (simp add: m1_def)
    show "buffer m2 ?f 2000 = (buffer (mem s) ?f 2000)[i := ?e]"
      using buffer_other [OF 1 d(2)] buffer_store16 [OF i] by (simp add: m2_def)
  qed
qed

lemma ucast_down_up: "(ucast (ucast (e :: u16) :: u32) :: u16) = e"
  by (rule bit_word_eqI) (simp add: bit_simps)

text \<open>The copy of the back buffer to the screen that ends \<^verbatim>\<open>cls\<close> and \<^verbatim>\<open>scroll\<close>.\<close>

lemma present_spec:
  assumes "same_outside (region b 4000) m m1" "region b 4000 \<inter> region f 4000 = {}"
  defines "m2 \<equiv> memcpy m1 f b 4000"
  shows "same_outside (region b 4000 \<union> region f 4000) m m2"
    "buffer m2 b 2000 = buffer m1 b 2000" "buffer m2 f 2000 = buffer m1 b 2000"
proof -
  have 2: "same_outside (region f 4000) m1 m2" by (simp add: m2_def memcpy_same_outside)
  show "same_outside (region b 4000 \<union> region f 4000) m m2"
    using same_outside_trans [OF same_outside_mono [OF assms(1) Un_upper1]
        same_outside_mono [OF 2 Un_upper2]] by simp
  show "buffer m2 b 2000 = buffer m1 b 2000" by (rule buffer_other [OF 2 assms(2)])
  show "buffer m2 f 2000 = buffer m1 b 2000"
    using buffer_memcpy_disjoint [of 2000 f b m1] assms(2) by (simp add: m2_def Int_commute)
qed

lemma terminal_scroll_spec:
  assumes "region (term_backbuff s) 4000 \<inter> region (term_frontbuff s) 4000 = {}" "term_cursor_y s = 25"
  defines "blank \<equiv> make_vgaentry CHR '' '' (term_color s)"
  obtains m where "terminal_scroll s = Inr (s\<lparr>mem := m, term_cursor_y := 24\<rparr>)"
    "same_outside (vga_area s) (mem s) m"
    "buffer m (term_backbuff s) 2000 = drop 80 (buffer (mem s) (term_backbuff s) 2000) @ replicate 80 blank"
    "buffer m (term_frontbuff s) 2000 = buffer m (term_backbuff s) 2000"
proof -
  let ?b = "term_backbuff s" and ?f = "term_frontbuff s"
  define m1 where "m1 = memcpy (mem s) ?b (?b + 160) 3840"
  define m2 where "m2 = memsetw m1 (?b + 3840) (ucast blank) 80"
  define m3 where "m3 = memcpy m2 ?f ?b 4000"
  have 1: "same_outside (region ?b 3840) (mem s) m1" by (simp add: m1_def memcpy_same_outside)
  have 2: "same_outside (region (?b + 3840) 160) m1 m2"
    using memsetw_same_outside [of "?b + 3840" 80 m1] by (simp add: m2_def)
  have r: "region ?b 3840 \<subseteq> region ?b 4000" "region (?b + 3840) 160 \<subseteq> region ?b 4000"
    "region ?b 3840 \<inter> region (?b + 3840) 160 = {}"
    using region_sub [of 0 3840 4000 ?b] region_sub [of 3840 160 4000 ?b]
      region_disjoint_offset [of 0 3840 3840 160 ?b] by simp_all
  have 12: "same_outside (region ?b 4000) (mem s) m2"
    using same_outside_mono [OF 1 r(1)] same_outside_mono [OF 2 r(2)] by (rule same_outside_trans)
  have "buffer m2 ?b 1920 = buffer m1 ?b 1920"
    using r(3) by (intro buffer_cong [OF 2]) simp
  also have "\<dots> = drop 80 (buffer (mem s) ?b 2000)"
    using buffer_memcpy_up [of 1920 80 "mem s" ?b] buffer_drop [of 80 "mem s" ?b 1920] by (simp add: m1_def)
  finally have lines: "buffer m2 ?b 1920 = drop 80 (buffer (mem s) ?b 2000)" .
  have "buffer m2 (?b + 3840) 80 = replicate 80 blank"
    using buffer_memsetw [of 80 m1 "?b + 3840" "ucast blank"] by (simp add: m2_def ucast_down_up)
  then have bk: "buffer m2 ?b 2000 = drop 80 (buffer (mem s) ?b 2000) @ replicate 80 blank"
    using buffer_split [of m2 ?b 1920 80] lines by simp
  note p = present_spec [OF 12 assms(1), folded m3_def]
  show ?thesis
  proof (rule that [of m3])
    show "terminal_scroll s = Inr (s\<lparr>mem := m3, term_cursor_y := 24\<rparr>)"
      using assms(2) by (simp add: terminal_scroll_def vga_consts Let_def m1_def m2_def m3_def blank_def)
    show "same_outside (vga_area s) (mem s) m3" using p(1) by (simp add: vga_area_def)
  qed (use p(2,3) bk in simp_all)
qed

lemma terminal_update_cursor_eq:
  "\<exists>out. terminal_update_cursor s = s\<lparr>port_out := port_out s @ out\<rparr>"
  by (auto simp: terminal_update_cursor_def outportbs_eq Let_def)

text \<open>Between the character and the scroll the cursor may be one line below the screen.\<close>

definition vga_mid :: "'a vga_scheme \<Rightarrow> bool" where
  "vga_mid s \<longleftrightarrow> unat (term_cursor_x s) < 80 \<and> unat (term_cursor_y s) \<le> 25 \<and>
     region (term_backbuff s) 4000 \<inter> region (term_frontbuff s) 4000 = {} \<and>
     buffer (mem s) (term_backbuff s) 2000 = buffer (mem s) (term_frontbuff s) 2000"

lemma vga_inv_mid: "vga_inv s \<longleftrightarrow> vga_mid s \<and> unat (term_cursor_y s) < 25"
  by (auto simp: vga_inv_def vga_mid_def word_less_nat_alt)

lemma vga_step_upd:
  "same_outside (vga_area s) (mem s) m \<Longrightarrow> vga_step s (s\<lparr>mem := m, term_cursor_x := x, term_cursor_y := y\<rparr>)"
  using vga_stepI [where s = s and m = m and x = x and y = y and out = "[]"] by simp

lemma unat_inc: "unat (w :: u32) < 100 \<Longrightarrow> unat (w + 1) = unat w + 1"
  by (simp add: unat_word_ariths)

text \<open>The first half of \<^verbatim>\<open>vgaterm_putchar\<close>: the cell and the cursor.\<close>

lemma putchar_place:
  assumes "vga_inv s"
  obtains s' where
    "(if c = CHR 0x0A then Inr (s\<lparr>term_cursor_x := 0, term_cursor_y := term_cursor_y s + 1\<rparr>)
      else bind_res (terminal_putentryat c (term_color s) (term_cursor_x s) (term_cursor_y s) s)
        (\<lambda>s. let s = s\<lparr>term_cursor_x := term_cursor_x s + 1\<rparr>
             in Inr (if term_cursor_x s = VGA_WIDTH
                     then s\<lparr>term_cursor_x := 0, term_cursor_y := term_cursor_y s + 1\<rparr> else s))) = Inr s'"
    "vga_mid s'" "vga_step s s'" "port_out s' = port_out s"
    "screen_of s' = screen_place (term_color s) c (screen_of s)"
proof (cases "c = CHR 0x0A")
  case True
  have "vga_step s (s\<lparr>mem := mem s, term_cursor_x := 0, term_cursor_y := term_cursor_y s + 1\<rparr>)"
    by (rule vga_step_upd) simp
  moreover have "s\<lparr>mem := mem s, term_cursor_x := 0, term_cursor_y := term_cursor_y s + 1\<rparr>
      = s\<lparr>term_cursor_x := 0, term_cursor_y := term_cursor_y s + 1\<rparr>" by simp
  ultimately show ?thesis
    using assms(1) True
    by (intro that [of "s\<lparr>term_cursor_x := 0, term_cursor_y := term_cursor_y s + 1\<rparr>"])
      (auto simp: vga_inv_mid vga_mid_def screen_place_def screen_of_def unat_inc)
next
  case False
  let ?x = "term_cursor_x s" and ?y = "term_cursor_y s"
  have xy: "unat ?x < 80" "unat ?y < 25" using assms(1) by (auto simp: vga_inv_mid vga_mid_def)
  obtain m where m: "terminal_putentryat c (term_color s) ?x ?y s = Inr (s\<lparr>mem := m\<rparr>)"
    "same_outside (vga_area s) (mem s) m"
    "buffer m (term_backbuff s) 2000 =
      (buffer (mem s) (term_backbuff s) 2000)[unat ?y * 80 + unat ?x := make_vgaentry c (term_color s)]"
    "buffer m (term_frontbuff s) 2000 =
      (buffer (mem s) (term_frontbuff s) 2000)[unat ?y * 80 + unat ?x := make_vgaentry c (term_color s)]"
    by (rule terminal_putentryat_spec [OF assms(1) xy])
  define x' where "x' = (if unat ?x + 1 = 80 then 0 else ?x + 1)"
  define y' where "y' = (if unat ?x + 1 = 80 then ?y + 1 else ?y)"
  have w: "?x + 1 = 80 \<longleftrightarrow> unat ?x + 1 = 80" "?x = 79 \<longleftrightarrow> unat ?x = 79"
    using unat_inc [of ?x] xy by (auto simp: word_unat_eq_iff)
  show ?thesis
  proof (rule that [of "s\<lparr>mem := m, term_cursor_x := x', term_cursor_y := y'\<rparr>"])
    show "vga_mid (s\<lparr>mem := m, term_cursor_x := x', term_cursor_y := y'\<rparr>)"
      using assms(1) xy m by (auto simp: vga_inv_mid vga_mid_def x'_def y'_def unat_inc)
    show "vga_step s (s\<lparr>mem := m, term_cursor_x := x', term_cursor_y := y'\<rparr>)"
      by (rule vga_step_upd [OF m(2)])
  qed (use False xy m in \<open>simp_all add: Let_def VGA_WIDTH_def w x'_def y'_def screen_place_def screen_of_def unat_inc\<close>)
qed

lemma putchar_scroll:
  assumes "vga_mid s"
  obtains s' where "(if VGA_HEIGHT \<le> term_cursor_y s then terminal_scroll s else Inr s) = Inr s'"
    "vga_inv s'" "vga_step s s'" "port_out s' = port_out s"
    "screen_of s' = advance (make_vgaentry CHR '' '' (term_color s)) (screen_of s)"
proof (cases "unat (term_cursor_y s) < 25")
  case True
  then show ?thesis
    using assms by (intro that [of s])
      (auto simp: VGA_HEIGHT_def word_le_nat_alt vga_inv_mid advance_def screen_of_def)
next
  case False
  with assms have y: "unat (term_cursor_y s) = 25" by (simp add: vga_mid_def)
  then have y25: "term_cursor_y s = 25" by (simp add: word_unat_eq_iff)
  have ap: "region (term_backbuff s) 4000 \<inter> region (term_frontbuff s) 4000 = {}"
    using assms by (simp add: vga_mid_def)
  obtain m where m: "terminal_scroll s = Inr (s\<lparr>mem := m, term_cursor_y := 24\<rparr>)"
    "same_outside (vga_area s) (mem s) m"
    "buffer m (term_backbuff s) 2000 = drop 80 (buffer (mem s) (term_backbuff s) 2000)
      @ replicate 80 (make_vgaentry CHR '' '' (term_color s))"
    "buffer m (term_frontbuff s) 2000 = buffer m (term_backbuff s) 2000"
    by (rule terminal_scroll_spec [OF ap y25])
  have "s\<lparr>mem := m, term_cursor_y := 24\<rparr> = s\<lparr>mem := m, term_cursor_x := term_cursor_x s, term_cursor_y := 24\<rparr>"
    by simp
  then have "vga_step s (s\<lparr>mem := m, term_cursor_y := 24\<rparr>)" using vga_step_upd [OF m(2)] by metis
  then show ?thesis
    using assms y m y25
    by (intro that [of "s\<lparr>mem := m, term_cursor_y := 24\<rparr>"])
      (auto simp: VGA_HEIGHT_def vga_inv_mid vga_mid_def advance_def screen_of_def)
qed

text \<open>The hardware cursor follows: the index of the cell goes to CRTC registers 14 and 15.\<close>

definition cursor_ports :: "screen \<Rightarrow> (u16 \<times> u8) list" where
  "cursor_ports t =
     (let k = row t * 80 + col t
      in [(0x3D4, 14), (0x3D5, of_nat (k div 256)), (0x3D4, 15), (0x3D5, of_nat k)])"

lemma terminal_update_cursor_spec:
  assumes "vga_inv s"
  shows "terminal_update_cursor s = s\<lparr>port_out := port_out s @ cursor_ports (screen_of s)\<rparr>"
proof -
  define k where "k = unat (term_cursor_y s) * 80 + unat (term_cursor_x s)"
  have k: "k < 2000" using assms by (auto simp: vga_inv_mid vga_mid_def k_def)
  have w: "term_cursor_y s * 80 + term_cursor_x s = (of_nat k :: u32)" by (simp add: k_def)
  have lo: "(ucast w :: u8) = of_nat (unat w)" for w :: u32
    by (simp add: word_unat_eq_iff unsigned_ucast_eq unat_of_nat)
  have hi: "unat (drop_bit 8 (of_nat k :: u32)) = k div 256" "unat (of_nat k :: u32) = k"
    using k by (simp_all add: unat_drop_bit)
  show ?thesis
    unfolding terminal_update_cursor_def w lo Let_def hi outportbs_eq
    by (simp add: cursor_ports_def screen_of_def k_def)
qed

lemma vga_inv_ports [simp]: "vga_inv (s\<lparr>port_out := p\<rparr>) = vga_inv s"
  by (simp add: vga_inv_def)

lemma screen_of_ports [simp]: "screen_of (s\<lparr>port_out := p\<rparr>) = screen_of s"
  by (simp add: screen_of_def)

lemma vgaterm_putchar_spec:
  assumes "vga_inv s"
  obtains s' where "vgaterm_putchar c s = Inr s'" "vga_inv s'" "vga_step s s'"
    "screen_of s' = screen_put (term_color s) c (screen_of s)"
    "port_out s' = port_out s @ cursor_ports (screen_of s')"
proof -
  obtain s1 where 1: "(if c = CHR 0x0A then Inr (s\<lparr>term_cursor_x := 0, term_cursor_y := term_cursor_y s + 1\<rparr>)
      else bind_res (terminal_putentryat c (term_color s) (term_cursor_x s) (term_cursor_y s) s)
        (\<lambda>s. let s = s\<lparr>term_cursor_x := term_cursor_x s + 1\<rparr>
             in Inr (if term_cursor_x s = VGA_WIDTH
                     then s\<lparr>term_cursor_x := 0, term_cursor_y := term_cursor_y s + 1\<rparr> else s))) = Inr s1"
    "vga_mid s1" "vga_step s s1" "port_out s1 = port_out s"
    "screen_of s1 = screen_place (term_color s) c (screen_of s)"
    by (rule putchar_place [OF assms, of c])
  obtain s2 where 2: "(if VGA_HEIGHT \<le> term_cursor_y s1 then terminal_scroll s1 else Inr s1) = Inr s2"
    "vga_inv s2" "vga_step s1 s2" "port_out s2 = port_out s1"
    "screen_of s2 = advance (make_vgaentry CHR '' '' (term_color s1)) (screen_of s1)"
    by (rule putchar_scroll [OF 1(2)])
  let ?s3 = "s2\<lparr>port_out := port_out s2 @ cursor_ports (screen_of s2)\<rparr>"
  have "vga_step s2 ?s3"
    using vga_stepI [where s = s2 and m = "mem s2" and x = "term_cursor_x s2" and y = "term_cursor_y s2"
        and out = "cursor_ports (screen_of s2)"] by simp
  then have "vga_step s ?s3" using 1(3) 2(3) by (blast intro: vga_step_trans)
  moreover have "vgaterm_putchar c s = Inr ?s3"
    unfolding vgaterm_putchar_def 1(1)
    by (simp only: bind_res_Inr 2(1) terminal_update_cursor_spec [OF 2(2)])
  ultimately show ?thesis
    using 1(4,5) 2 vga_step_fields(1) [OF 1(3)] by (intro that [of ?s3]) (simp_all add: screen_put_def)
qed

lemma vgaterm_putchar_step:
  "vga_inv s \<Longrightarrow> \<exists>s'. vgaterm_putchar c s = Inr s' \<and> vga_inv s' \<and> vga_step s s' \<and>
     screen_of s' = screen_put (term_color s) c (screen_of s) \<and>
     port_out s' = port_out s @ cursor_ports (screen_of s')"
  by (rule vgaterm_putchar_spec [of s c]) blast+

lemma putchars_spec:
  "vga_inv s \<Longrightarrow> \<exists>s'. putchars cs s = Inr s' \<and> vga_inv s' \<and> vga_step s s' \<and>
     screen_of s' = fold (screen_put (term_color s)) cs (screen_of s)"
proof (induction cs arbitrary: s)
  case (Cons c cs)
  obtain s1 where 1: "vgaterm_putchar c s = Inr s1" "vga_inv s1" "vga_step s s1"
    "screen_of s1 = screen_put (term_color s) c (screen_of s)"
    using vgaterm_putchar_step [OF Cons.prems, of c] by blast
  obtain s2 where 2: "putchars cs s1 = Inr s2" "vga_inv s2" "vga_step s1 s2"
    "screen_of s2 = fold (screen_put (term_color s1)) cs (screen_of s1)"
    using Cons.IH [OF 1(2)] by blast
  show ?case
    using 1 2 vga_step_trans [OF 1(3) 2(3)] vga_step_fields(1) [OF 1(3)] by auto
qed simp

lemma vgaterm_writestring_spec:
  assumes "vga_inv s"
  shows "\<exists>s'. vgaterm_writestring str s = Inr s' \<and> vga_inv s' \<and> vga_step s s' \<and>
     screen_of s' = fold (screen_put (term_color s)) (cstr str) (screen_of s)"
proof -
  have "take (length (cstr str)) str = cstr str" by (induction str) auto
  then show ?thesis
    using putchars_spec [OF assms, of "cstr str"] by (simp add: vgaterm_writestring_def strlen_length)
qed

text \<open>Clearing the screen establishes the invariant from any contents of the buffers.\<close>

lemma vgaterm_cls_spec:
  assumes "region (term_backbuff s) 4000 \<inter> region (term_frontbuff s) 4000 = {}"
    "term_cursor_x s < 80" "term_cursor_y s < 25"
  shows "vga_inv (vgaterm_cls s) \<and> vga_step s (vgaterm_cls s) \<and>
    cells (screen_of (vgaterm_cls s)) = replicate 2000 (make_vgaentry CHR '' '' (term_color s))"
proof -
  let ?b = "term_backbuff s" and ?f = "term_frontbuff s"
  define m1 where "m1 = memsetw (mem s) ?b (ucast (make_vgaentry CHR '' '' (term_color s))) 2000"
  define m2 where "m2 = memcpy m1 ?f ?b 4000"
  have 1: "same_outside (region ?b 4000) (mem s) m1"
    using memsetw_same_outside [of ?b 2000 "mem s"] by (simp add: m1_def)
  have b: "buffer m1 ?b 2000 = replicate 2000 (make_vgaentry CHR '' '' (term_color s))"
    using buffer_memsetw [of 2000 "mem s" ?b] by (simp add: m1_def ucast_down_up)
  note p = present_spec [OF 1 assms(1), folded m2_def]
  have eq: "vgaterm_cls s = s\<lparr>mem := m2, term_cursor_x := term_cursor_x s, term_cursor_y := term_cursor_y s\<rparr>"
    by (simp add: vgaterm_cls_def vga_consts m1_def m2_def)
  show ?thesis
    using assms p b vga_step_upd [where s = s and m = m2 and x = "term_cursor_x s" and y = "term_cursor_y s"]
    by (simp add: vga_inv_def screen_of_def vga_area_def eq)
qed

text \<open>A text without line breaks that fits on the cursor's line.\<close>

lemma screen_line:
  assumes "CHR 0x0A \<notin> set cs" "c + length cs < 80" "r < 25" "length l = 2000"
  shows "fold (screen_put color) cs \<lparr>cells = l, col = c, row = r\<rparr> =
    \<lparr>cells = take (r * 80 + c) l @ map (\<lambda>c. make_vgaentry c color) cs @ drop (r * 80 + c + length cs) l,
     col = c + length cs, row = r\<rparr>"
  using assms
proof (induction cs arbitrary: c l)
  case (Cons d cs)
  have i: "r * 80 + c < length l" using Cons.prems by simp
  have "screen_put color d \<lparr>cells = l, col = c, row = r\<rparr> =
      \<lparr>cells = l[r * 80 + c := make_vgaentry d color], col = Suc c, row = r\<rparr>"
    using Cons.prems by (auto simp: screen_put_def screen_place_def advance_def)
  moreover have "take (r * 80 + Suc c) (l[r * 80 + c := e]) = take (r * 80 + c) l @ [e]" for e
    using i by (simp add: take_Suc_conv_app_nth)
  ultimately show ?case using Cons by simp
qed simp

end
