(* ===== verification/Console.thy ===== *)
theory Console
  imports Vgaterm
begin

text \<open>
  The console layer: \<^verbatim>\<open>console.c\<close>, and the two drivers that register with it, the VGA terminal
  and the serial debugging console of \<^verbatim>\<open>arch/x86/serialterm.c\<close>. A console is a record of
  functions on the state of the devices, as \<^verbatim>\<open>console_t\<close> is of function pointers.
\<close>

section \<open>console.c\<close>

record 's console_t =
  writestring :: "string \<Rightarrow> 's \<Rightarrow> 's res"
  setcolor :: "u8 \<Rightarrow> 's \<Rightarrow> 's"
  getcolor :: "'s \<Rightarrow> u8"

text \<open>The entries of \<^verbatim>\<open>cons[4]\<close> below \<^verbatim>\<open>next_con\<close>, which is the length of the list.\<close>

definition console_register :: "'s console_t \<Rightarrow> 's console_t list \<Rightarrow> bool \<times> 's console_t list" where
  "console_register con cons = (if length cons = 4 then (False, cons) else (True, cons @ [con]))"

fun console_writestring :: "'s console_t list \<Rightarrow> string \<Rightarrow> 's \<Rightarrow> 's res" where
  "console_writestring [] str s = Inr s"
| "console_writestring (c # cs) str s = bind_res (writestring c str s) (console_writestring cs str)"

fun console_setcolor :: "'s console_t list \<Rightarrow> u8 \<Rightarrow> 's \<Rightarrow> 's" where
  "console_setcolor [] color s = s"
| "console_setcolor (c # cs) color s = console_setcolor cs color (setcolor c color s)"

definition console_getcolor :: "'s console_t list \<Rightarrow> 's \<Rightarrow> u8" where
  "console_getcolor cons s = (case cons of [] \<Rightarrow> 0 | c # _ \<Rightarrow> getcolor c s)"

section \<open>What a driver promises\<close>

text \<open>
  A driver writes every string and leaves the devices in a state in which every driver can
  still write. The invariant is that of all the devices together.
\<close>

locale console_driver =
  fixes con :: "'s console_t" and I :: "'s \<Rightarrow> bool"
  assumes writes: "I s \<Longrightarrow> \<exists>s'. writestring con str s = Inr s' \<and> I s'"
    and colours: "I s \<Longrightarrow> I (setcolor con c s)"

definition all_drivers :: "'s console_t list \<Rightarrow> ('s \<Rightarrow> bool) \<Rightarrow> bool" where
  "all_drivers cons I \<longleftrightarrow> (\<forall>con \<in> set cons. console_driver con I)"

lemma all_drivers_simps [simp]:
  "all_drivers [] I" "all_drivers (c # cs) I \<longleftrightarrow> console_driver c I \<and> all_drivers cs I"
  by (simp_all add: all_drivers_def)

lemma console_writestring_returns:
  "all_drivers cons I \<Longrightarrow> I s \<Longrightarrow> \<exists>s'. console_writestring cons str s = Inr s' \<and> I s'"
proof (induction cons arbitrary: s)
  case (Cons c cs)
  then obtain s1 where "writestring c str s = Inr s1" "I s1"
    using console_driver.writes [of c I s str] by auto
  with Cons show ?case by simp
qed simp

lemma console_setcolor_inv: "all_drivers cons I \<Longrightarrow> I s \<Longrightarrow> I (console_setcolor cons c s)"
  by (induction cons arbitrary: s) (auto simp: console_driver.colours)

lemma console_register_drivers:
  "all_drivers cons I \<Longrightarrow> console_driver con I \<Longrightarrow> all_drivers (snd (console_register con cons)) I"
  by (auto simp: console_register_def all_drivers_def)

lemma console_register_length:
  "length cons \<le> 4 \<Longrightarrow> length (snd (console_register con cons)) \<le> 4"
  by (auto simp: console_register_def)

section \<open>The serial console\<close>

definition PORT :: u16 where "PORT = 0x3F8"

definition is_transmit_empty :: "'a io_machine_scheme \<Rightarrow> bool \<times> 'a io_machine_scheme" where
  "is_transmit_empty s = (let (b, s) = inportb (PORT + 5) s in (b AND 0x20 \<noteq> 0, s))"

text \<open>\<^verbatim>\<open>while (!is_transmit_empty());\<close> spins for ever if the transmitter never empties.\<close>

partial_function (option) wait_transmit :: "'a io_machine_scheme \<Rightarrow> 'a io_machine_scheme option" where
  "wait_transmit s =
     (if fst (is_transmit_empty s) then Some (snd (is_transmit_empty s))
      else wait_transmit (snd (is_transmit_empty s)))"

definition write_serial :: "char \<Rightarrow> 'a io_machine_scheme \<Rightarrow> 'a io_machine_scheme res" where
  "write_serial a s =
     (case wait_transmit s of None \<Rightarrow> Inl Hang | Some s \<Rightarrow> Inr (outportb PORT (of_char a) s))"

fun write_serials :: "string \<Rightarrow> 'a io_machine_scheme \<Rightarrow> 'a io_machine_scheme res" where
  "write_serials [] s = Inr s"
| "write_serials (c # cs) s = bind_res (write_serial c s) (write_serials cs)"

definition serial_writestring :: "string \<Rightarrow> 'a io_machine_scheme \<Rightarrow> 'a io_machine_scheme res" where
  "serial_writestring str s = (let datalen = strlen str in write_serials (take datalen str) s)"

definition serial_setcolor :: "u8 \<Rightarrow> 'a io_machine_scheme \<Rightarrow> 'a io_machine_scheme" where
  "serial_setcolor color s = s"

definition serial_getcolor :: "'a io_machine_scheme \<Rightarrow> u8" where
  "serial_getcolor s = 0"

definition serial_console :: "'a vga_scheme console_t" where
  "serial_console = \<lparr>writestring = serial_writestring, setcolor = serial_setcolor,
     getcolor = serial_getcolor\<rparr>"

text \<open>The result is the value returned, the consoles and the devices.\<close>

definition init_serial ::
    "'a vga_scheme console_t list \<Rightarrow> 'a vga_scheme \<Rightarrow> (int \<times> 'a vga_scheme console_t list \<times> 'a vga_scheme) res" where
  "init_serial cons s =
     (let s = outportbs [(PORT + 1, 0x00), (PORT + 3, 0x80), (PORT + 0, 0x03), (PORT + 1, 0x00),
                (PORT + 3, 0x03), (PORT + 2, 0xC7), (PORT + 4, 0x0B)] s;
          cons = snd (console_register serial_console cons)
      in bind_res (serial_writestring ''Serial debugging console is up '' s)
        (\<lambda>s. Inr (1, cons, s)))"

section \<open>The VGA terminal as a console\<close>

definition vga_console :: "'a vga_scheme console_t" where
  "vga_console = \<lparr>writestring = vgaterm_writestring, setcolor = vgaterm_setcolor,
     getcolor = vgaterm_getcolor\<rparr>"

definition vgaterm_init ::
    "'a vga_scheme console_t list \<Rightarrow> 'a vga_scheme \<Rightarrow> 'a vga_scheme console_t list \<times> 'a vga_scheme" where
  "vgaterm_init cons s =
     (let cons = snd (console_register vga_console cons);
          s = s\<lparr>term_cursor_y := 0, term_cursor_x := 0,
                term_color := make_color COLOR_LIGHT_GREY COLOR_BLACK,
                term_frontbuff := VRAM_START\<rparr>
      in (cons, vgaterm_cls s))"

section \<open>The serial line\<close>

text \<open>The transmitter empties again and again, whatever has been read before.\<close>

definition serial_fair :: "'a io_machine_scheme \<Rightarrow> bool" where
  "serial_fair s \<longleftrightarrow> (\<forall>n. \<exists>k \<ge> n. port_in s (PORT + 5) k AND 0x20 \<noteq> 0)"

lemma is_transmit_empty_eq:
  "is_transmit_empty s = (port_in s (PORT + 5) (port_reads s (PORT + 5)) AND 0x20 \<noteq> 0,
     s\<lparr>port_reads := (port_reads s)(PORT + 5 := port_reads s (PORT + 5) + 1)\<rparr>)"
  by (simp add: is_transmit_empty_def inportb_def)

lemma wait_transmit_until:
  "port_in s (PORT + 5) (port_reads s (PORT + 5) + d) AND 0x20 \<noteq> 0 \<Longrightarrow>
    \<exists>r. wait_transmit s = Some (s\<lparr>port_reads := r\<rparr>)"
proof (induction d arbitrary: s)
  case 0
  then show ?case by (subst wait_transmit.simps) (auto simp: is_transmit_empty_eq)
next
  case (Suc d)
  let ?s = "snd (is_transmit_empty s)"
  have "\<exists>r. wait_transmit ?s = Some (?s\<lparr>port_reads := r\<rparr>)"
    by (rule Suc.IH) (use Suc.prems in \<open>simp add: is_transmit_empty_eq\<close>)
  moreover have "?s\<lparr>port_reads := r\<rparr> = s\<lparr>port_reads := r\<rparr>" for r
    by (simp add: is_transmit_empty_eq)
  moreover have "\<exists>r. ?s = s\<lparr>port_reads := r\<rparr>" by (auto simp: is_transmit_empty_eq)
  ultimately show ?case
    by (subst wait_transmit.simps) auto
qed

lemma write_serial_spec:
  assumes "serial_fair s"
  shows "\<exists>r. write_serial c s = Inr (s\<lparr>port_reads := r, port_out := port_out s @ [(PORT, of_char c)]\<rparr>)"
proof -
  obtain k where k: "port_reads s (PORT + 5) \<le> k" "port_in s (PORT + 5) k AND 0x20 \<noteq> 0"
    using assms by (auto simp: serial_fair_def)
  have "port_in s (PORT + 5) (port_reads s (PORT + 5) + (k - port_reads s (PORT + 5))) AND 0x20 \<noteq> 0"
    using k by simp
  from wait_transmit_until [OF this] show ?thesis
    by (auto simp: write_serial_def outportb_def)
qed

lemma write_serials_spec:
  "serial_fair s \<Longrightarrow> \<exists>r. write_serials cs s =
     Inr (s\<lparr>port_reads := r, port_out := port_out s @ map (\<lambda>c. (PORT, of_char c)) cs\<rparr>)"
proof (induction cs arbitrary: s)
  case Nil
  then show ?case by (intro exI [of _ "port_reads s"]) simp
next
  case (Cons c cs)
  obtain r where 1: "write_serial c s
      = Inr (s\<lparr>port_reads := r, port_out := port_out s @ [(PORT, of_char c)]\<rparr>)" (is "_ = Inr ?s1")
    using write_serial_spec [OF Cons.prems, of c] by blast
  have "serial_fair ?s1" using Cons.prems by (simp add: serial_fair_def)
  from Cons.IH [OF this] show ?case using 1 by simp
qed

lemma serial_writestring_spec:
  assumes "serial_fair s"
  shows "\<exists>r. serial_writestring str s =
     Inr (s\<lparr>port_reads := r, port_out := port_out s @ map (\<lambda>c. (PORT, of_char c)) (cstr str)\<rparr>)"
proof -
  have "take (length (cstr str)) str = cstr str" by (induction str) auto
  then show ?thesis
    using write_serials_spec [OF assms, of "cstr str"] by (simp add: serial_writestring_def strlen_length)
qed

section \<open>Both drivers keep the promise\<close>

definition devices_inv :: "'a vga_scheme \<Rightarrow> bool" where
  "devices_inv s \<longleftrightarrow> vga_inv s \<and> serial_fair s"

lemma vga_step_fair: "vga_step s s' \<Longrightarrow> serial_fair s' = serial_fair s"
  by (auto simp: vga_step_def serial_fair_def)

lemma vga_inv_reads: "vga_inv (s\<lparr>port_reads := r, port_out := p\<rparr>) = vga_inv s"
  by (simp add: vga_inv_def)

interpretation vga_driver: console_driver vga_console devices_inv
proof
  fix s :: "'a vga_scheme" and str
  assume "devices_inv s"
  then show "\<exists>s'. writestring vga_console str s = Inr s' \<and> devices_inv s'"
    by (auto simp: vga_console_def devices_inv_def dest: vga_step_fair
        dest!: vgaterm_writestring_spec [of s str])
next
  fix s :: "'a vga_scheme" and c
  assume "devices_inv s"
  then show "devices_inv (setcolor vga_console c s)"
    by (auto simp: vga_console_def devices_inv_def vgaterm_setcolor_def vga_inv_def serial_fair_def)
qed

interpretation serial_driver: console_driver serial_console devices_inv
proof
  fix s :: "'a vga_scheme" and str
  assume "devices_inv s"
  then show "\<exists>s'. writestring serial_console str s = Inr s' \<and> devices_inv s'"
    using serial_writestring_spec [of s str] vga_inv_reads [where s = s]
    by (auto simp: serial_console_def devices_inv_def serial_fair_def)
next
  fix s :: "'a vga_scheme" and c
  assume "devices_inv s"
  then show "devices_inv (setcolor serial_console c s)"
    by (simp add: serial_console_def serial_setcolor_def)
qed

text \<open>So the kernel's consoles, in whatever number they registered, always write.\<close>

lemma kernel_consoles:
  "set cons \<subseteq> {vga_console, serial_console} \<Longrightarrow> all_drivers cons devices_inv"
  using vga_driver.console_driver_axioms serial_driver.console_driver_axioms
  by (auto simp: all_drivers_def)

end
