(* ===== verification/Elf.thy ===== *)
theory Elf
  imports Strings
begin

text \<open>
  Symbol lookup in the kernel's ELF image: \<^verbatim>\<open>elf.c\<close> and \<^verbatim>\<open>include/elf.h\<close>. The tables lie in the
  store as packed structures: a symbol takes 16 bytes, a section header 40.
\<close>

section \<open>Structures\<close>

record elf_symbol_t =
  sym_name :: u32
  sym_value :: u32
  sym_size :: u32
  sym_info :: u8

record elf_section_header_t =
  sh_name :: u32
  sh_addr :: u32
  sh_size :: u32

record elf_t =
  symtab :: u32
  symtabsz :: u32
  strtab :: u32
  strtabsz :: u32

definition ELF32_ST_TYPE :: "u8 \<Rightarrow> u8" where
  "ELF32_ST_TYPE i = i AND 0xF"

text \<open>The fields of a symbol that the kernel reads, at their offsets.\<close>

definition elf_symbol :: "mem \<Rightarrow> u32 \<Rightarrow> elf_symbol_t" where
  "elf_symbol m p = \<lparr>sym_name = load32 m p, sym_value = load32 m (p + 4),
     sym_size = load32 m (p + 8), sym_info = m (p + 12)\<rparr>"

definition elf_section_header :: "mem \<Rightarrow> u32 \<Rightarrow> elf_section_header_t" where
  "elf_section_header m p = \<lparr>sh_name = load32 m p, sh_addr = load32 m (p + 12),
     sh_size = load32 m (p + 20)\<rparr>"

section \<open>Lookup\<close>

lemma unat_suc_below:
  assumes "i < (n :: u32)"
  shows "unat (i + 1) = unat i + 1"
proof -
  have "unat i + 1 < 4294967296" using assms unat_u32_less [of n] by (simp add: word_less_nat_alt)
  then show ?thesis by (simp add: unat_word_ariths)
qed

lemma count_up_less: "i < (n :: u32) \<Longrightarrow> unat n - unat (i + 1) < unat n - unat i"
  using unat_suc_below [of i n] by (simp add: word_less_nat_alt)

lemma unat_div16: "unat ((w :: u32) div 16) = unat w div 16"
  by (simp add: unat_div)

definition in_symbol :: "u32 \<Rightarrow> elf_symbol_t \<Rightarrow> bool" where
  "in_symbol addr y \<longleftrightarrow> sym_value y \<le> addr \<and> addr < sym_value y + sym_size y"

function lookup_from :: "mem \<Rightarrow> u32 \<Rightarrow> elf_t \<Rightarrow> u32 \<Rightarrow> u32" where
  "lookup_from m addr elf i =
     (if i < symtabsz elf div 16
      then let y = elf_symbol m (symtab elf + 16 * i)
           in if ELF32_ST_TYPE (sym_info y) \<noteq> 2 then lookup_from m addr elf (i + 1)
              else if in_symbol addr y then strtab elf + sym_name y
              else lookup_from m addr elf (i + 1)
      else 0)"
  by pat_completeness auto
termination
  by (relation "measure (\<lambda>(m, addr, elf, i). unat (symtabsz elf div 16) - unat i)")
    (auto intro: count_up_less)
declare lookup_from.simps [simp del]

definition elf_lookup_symbol :: "mem \<Rightarrow> u32 \<Rightarrow> elf_t \<Rightarrow> u32" where
  "elf_lookup_symbol m addr elf = lookup_from m addr elf 0"

text \<open>The functions of the table, in its order, and their names.\<close>

definition function_symbols :: "mem \<Rightarrow> elf_t \<Rightarrow> elf_symbol_t list" where
  "function_symbols m elf = filter (\<lambda>y. ELF32_ST_TYPE (sym_info y) = 2)
     (map (\<lambda>i. elf_symbol m (symtab elf + 16 * of_nat i)) [0..<unat (symtabsz elf) div 16])"

lemma lookup_from_spec:
  assumes "i \<le> unat (symtabsz elf) div 16"
  shows "lookup_from m addr elf (of_nat i) =
    (case find (in_symbol addr) (filter (\<lambda>y. ELF32_ST_TYPE (sym_info y) = 2)
        (map (\<lambda>i. elf_symbol m (symtab elf + 16 * of_nat i)) [i..<unat (symtabsz elf) div 16])) of
      None \<Rightarrow> 0 | Some y \<Rightarrow> strtab elf + sym_name y)"
  using assms
proof (induction "unat (symtabsz elf) div 16 - i" arbitrary: i)
  case 0
  then have i: "i = unat (symtabsz elf) div 16" by simp
  then have "\<not> (of_nat i :: u32) < symtabsz elf div 16"
    by (simp add: unat_div16 [symmetric])
  with i show ?case
    by (subst lookup_from.simps) simp
next
  case (Suc d)
  then have i: "i < unat (symtabsz elf) div 16" by simp
  then have "i < 4294967296" using unat_u32_less [of "symtabsz elf"] div_le_dividend [of "unat (symtabsz elf)" 16] by linarith
  then have lt: "(of_nat i :: u32) < symtabsz elf div 16"
    using i by (simp add: word_less_nat_alt unat_div16)
  have "d = unat (symtabsz elf) div 16 - Suc i" using Suc by simp
  from Suc.hyps(1) [OF this] i have IH: "lookup_from m addr elf (of_nat i + 1) =
    (case find (in_symbol addr) (filter (\<lambda>y. ELF32_ST_TYPE (sym_info y) = 2)
        (map (\<lambda>i. elf_symbol m (symtab elf + 16 * of_nat i)) [Suc i..<unat (symtabsz elf) div 16])) of
      None \<Rightarrow> 0 | Some y \<Rightarrow> strtab elf + sym_name y)"
    by (simp add: add.commute)
  show ?case
    by (subst lookup_from.simps) (simp add: lt IH upt_conv_Cons [OF i] Let_def)
qed

lemma elf_lookup_symbol_find:
  "elf_lookup_symbol m addr elf =
    (case find (in_symbol addr) (function_symbols m elf) of
      None \<Rightarrow> 0 | Some y \<Rightarrow> strtab elf + sym_name y)"
  using lookup_from_spec [of 0 elf m addr] by (simp add: elf_lookup_symbol_def function_symbols_def)

section \<open>Strings in the store\<close>

text \<open>The characters from an address up to the first NUL, at most \<open>n\<close> of them.\<close>

fun load_chars :: "nat \<Rightarrow> mem \<Rightarrow> u32 \<Rightarrow> string" where
  "load_chars 0 m p = []"
| "load_chars (Suc n) m p = (if m p = 0 then [] else char_of (unat (m p)) # load_chars n m (p + 1))"

definition load_string :: "mem \<Rightarrow> u32 \<Rightarrow> string" where
  "load_string m p = load_chars (2 ^ 32) m p"

end
