(* ===== verification/Vsprintf.thy ===== *)
theory Vsprintf
  imports Strings
begin

text \<open>
  The formatter of \<^verbatim>\<open>vsprintf.c\<close>. The format is a C string; the output buffer is the list of the
  characters written so far, \<^verbatim>\<open>str - buf\<close> being its length. An argument is a machine word, a
  string, or the address an \<^verbatim>\<open>%n\<close> writes to; taking an argument of another kind, or one too
  many, is undefined as it is for \<^verbatim>\<open>va_arg\<close>. Widths and precisions are unbounded integers:
  the arithmetic on them leaves the range of \<^verbatim>\<open>int\<close> only for fields of \<open>2 ^ 31\<close> characters.
\<close>

section \<open>Data\<close>

datatype va = VInt u32 | VStr string | VPtr u32

definition ZEROPAD :: u32 where "ZEROPAD = 1"
definition SIGN :: u32 where "SIGN = 2"
definition PLUS :: u32 where "PLUS = 4"
definition SPACE :: u32 where "SPACE = 8"
definition LEFT :: u32 where "LEFT = 16"
definition SPECIAL :: u32 where "SPECIAL = 32"
definition SMALL :: u32 where "SMALL = 64"

lemmas flag_defs = ZEROPAD_def SIGN_def PLUS_def SPACE_def LEFT_def SPECIAL_def SMALL_def

definition upper_digits :: string where
  "upper_digits = ''0123456789ABCDEFGHIJKLMNOPQRSTUVWXYZ''"

definition lower_digits :: string where
  "lower_digits = ''0123456789abcdefghijklmnopqrstuvwxyz''"

definition va_int :: "va list \<Rightarrow> (u32 \<times> va list) res" where
  "va_int args = (case args of VInt w # rest \<Rightarrow> Inr (w, rest) | _ \<Rightarrow> Inl (Undefined ''va_arg''))"

definition va_str :: "va list \<Rightarrow> (string \<times> va list) res" where
  "va_str args = (case args of VStr s # rest \<Rightarrow> Inr (s, rest) | _ \<Rightarrow> Inl (Undefined ''va_arg''))"

definition va_intptr :: "va list \<Rightarrow> (u32 \<times> va list) res" where
  "va_intptr args = (case args of VPtr p # rest \<Rightarrow> Inr (p, rest) | _ \<Rightarrow> Inl (Undefined ''va_arg''))"

section \<open>Decimal digits of the format\<close>

definition is_digit :: "char \<Rightarrow> bool" where
  "is_digit c \<longleftrightarrow> (48 :: int) \<le> of_char c \<and> of_char c \<le> (57 :: int)"

lemma is_digit_NUL [simp]: "\<not> is_digit NUL"
  by (simp add: is_digit_def)

lemma is_digit_not_NUL: "is_digit (at s) \<Longrightarrow> at s \<noteq> NUL"
  by auto

lemma is_digit_length [termination_simp]: "is_digit (at s) \<Longrightarrow> length s - Suc 0 < length s"
  by (rule at_length [OF is_digit_not_NUL])

fun skip_atoi_from :: "int \<Rightarrow> string \<Rightarrow> (int \<times> string) res" where
  "skip_atoi_from i s =
     (if is_digit (at s)
      then if i * 10 + of_char (at s) < 2 ^ 31
           then skip_atoi_from (i * 10 + of_char (at s) - 48) (tl s)
           else Inl (Undefined ''skip_atoi: signed overflow'')
      else Inr (i, s))"
declare skip_atoi_from.simps [simp del]

definition skip_atoi :: "string \<Rightarrow> (int \<times> string) res" where
  "skip_atoi s = skip_atoi_from 0 s"

section \<open>number\<close>

text \<open>\<^verbatim>\<open>do_div\<close> is the processor's unsigned division. \<open>tmp\<close> has the lowest digit first.\<close>

function number_digits :: "string \<Rightarrow> nat \<Rightarrow> u32 \<Rightarrow> string" where
  "number_digits digits base num =
     (if num = 0 \<or> base < 2 then []
      else digits ! (unat num mod base) # number_digits digits base (of_nat (unat num div base)))"
  by pat_completeness auto
termination
proof (relation "measure (\<lambda>(digits, base, num). unat num)", goal_cases)
  case (2 digits base num)
  then have "unat num div base < unat num"
    by (intro div_less_dividend) (auto simp: unat_gt_0)
  then show ?case
    using unat_u32_less [of num] by simp
qed simp
declare number_digits.simps [simp del]

text \<open>The loop \<^verbatim>\<open>while(size-->0) *str++ = c\<close>: the characters written and \<^verbatim>\<open>size\<close> after it.\<close>

function pad :: "char \<Rightarrow> int \<Rightarrow> string \<times> int" where
  "pad c sz = (if 0 < sz then let (s, z) = pad c (sz - 1) in (c # s, z) else ([], sz - 1))"
  by pat_completeness auto
termination by (relation "measure (\<lambda>(c, n). nat n)") auto
declare pad.simps [simp del]

text \<open>The loop \<^verbatim>\<open>while(i<precision--) *str++ = '0'\<close>.\<close>

function zeros :: "int \<Rightarrow> int \<Rightarrow> string" where
  "zeros i precision = (if i < precision then CHR ''0'' # zeros i (precision - 1) else [])"
  by pat_completeness auto
termination by (relation "measure (\<lambda>(i, p). nat (p - i))") auto
declare zeros.simps [simp del]

definition number_sign :: "u32 \<Rightarrow> u32 \<Rightarrow> (string \<times> u32) res" where
  "number_sign type num =
     (if type AND SIGN \<noteq> 0 \<and> num <s 0
      then if num = 0x80000000 then Inl (Undefined ''number: signed overflow'')
           else Inr (''-'', - num)
      else Inr (if type AND PLUS \<noteq> 0 then ''+''
                else if type AND SPACE \<noteq> 0 then '' '' else [], num))"

text \<open>The room the base prefix takes, and the prefix itself.\<close>

definition special_size :: "u32 \<Rightarrow> nat \<Rightarrow> int \<Rightarrow> int" where
  "special_size type base sz =
     (if type AND SPECIAL \<noteq> 0
      then if base = 16 then sz - 2 else if base = 8 then sz - 1 else sz
      else sz)"

definition special_chars :: "u32 \<Rightarrow> nat \<Rightarrow> string \<Rightarrow> string" where
  "special_chars type base digits =
     (if type AND SPECIAL \<noteq> 0
      then if base = 8 then ''0'' else if base = 16 then [CHR ''0'', digits ! 33] else []
      else [])"

definition number_tmp :: "string \<Rightarrow> nat \<Rightarrow> u32 \<Rightarrow> string" where
  "number_tmp digits base num = (if num = 0 then ''0'' else number_digits digits base num)"

definition number :: "u32 \<Rightarrow> nat \<Rightarrow> int \<Rightarrow> int \<Rightarrow> u32 \<Rightarrow> string option res" where
  "number num base sz precision type =
     (let digits = (if type AND SMALL \<noteq> 0 then lower_digits else upper_digits);
          type = (if type AND LEFT \<noteq> 0 then type AND NOT ZEROPAD else type)
      in if base < 2 \<or> 36 < base then Inr None
      else let c = (if type AND ZEROPAD \<noteq> 0 then CHR ''0'' else CHR '' '')
      in bind_res (number_sign type num) (\<lambda>(sign, num).
        let sz = (if sign \<noteq> [] then sz - 1 else sz);
            sz = special_size type base sz;
            tmp = number_tmp digits base num;
            i = int (length tmp);
            precision = (if precision < i then i else precision);
            sz = sz - precision;
            (before, sz) = (if type AND (ZEROPAD + LEFT) = 0 then pad CHR '' '' sz else ([], sz));
            special = special_chars type base digits;
            (fill, sz) = (if type AND LEFT = 0 then pad c sz else ([], sz));
            (after, _) = pad CHR '' '' sz
        in Inr (Some (before @ sign @ special @ fill @ zeros i precision @ rev tmp @ after))))"

section \<open>vsprintf\<close>

text \<open>The flag characters, from the label \<^verbatim>\<open>repeat\<close> on.\<close>

fun parse_flags :: "u32 \<Rightarrow> string \<Rightarrow> u32 \<times> string" where
  "parse_flags flags fmt =
     (if at fmt = CHR ''-'' then parse_flags (flags OR LEFT) (tl fmt)
      else if at fmt = CHR ''+'' then parse_flags (flags OR PLUS) (tl fmt)
      else if at fmt = CHR '' '' then parse_flags (flags OR SPACE) (tl fmt)
      else if at fmt = CHR ''#'' then parse_flags (flags OR SPECIAL) (tl fmt)
      else if at fmt = CHR ''0'' then parse_flags (flags OR ZEROPAD) (tl fmt)
      else (flags, fmt))"
declare parse_flags.simps [simp del]

definition parse_width ::
    "u32 \<Rightarrow> string \<Rightarrow> va list \<Rightarrow> (int \<times> u32 \<times> string \<times> va list) res" where
  "parse_width flags fmt args =
     (if is_digit (at fmt)
      then bind_res (skip_atoi fmt) (\<lambda>(w, fmt). Inr (w, flags, fmt, args))
      else if at fmt = CHR ''*''
      then bind_res (va_int args) (\<lambda>(w, args).
        if w <s 0 then Inr (- sint w, flags OR LEFT, fmt, args) else Inr (sint w, flags, fmt, args))
      else Inr (- 1, flags, fmt, args))"

definition parse_precision :: "string \<Rightarrow> va list \<Rightarrow> (int \<times> string \<times> va list) res" where
  "parse_precision fmt args =
     (if at fmt = CHR ''.''
      then let fmt = tl fmt in
        bind_res
          (if is_digit (at fmt)
           then bind_res (skip_atoi fmt) (\<lambda>(p, fmt). Inr (p, fmt, args))
           else if at fmt = CHR ''*''
           then bind_res (va_int args) (\<lambda>(p, args). Inr (sint p, fmt, args))
           else Inr (- 1, fmt, args))
          (\<lambda>(p, fmt, args). Inr (if p < 0 then 0 else p, fmt, args))
      else Inr (- 1, fmt, args))"

definition parse_qualifier :: "string \<Rightarrow> string" where
  "parse_qualifier fmt =
     (if at fmt = CHR ''h'' \<or> at fmt = CHR ''l'' \<or> at fmt = CHR ''L'' then tl fmt else fmt)"

text \<open>The loops \<^verbatim>\<open>while (--field_width > 0)\<close> and \<^verbatim>\<open>while (len < field_width--)\<close>.\<close>

function pad_pre :: "int \<Rightarrow> string \<times> int" where
  "pad_pre w =
     (if 0 < w - 1 then let (s, z) = pad_pre (w - 1) in (CHR '' '' # s, z) else ([], w - 1))"
  by pat_completeness auto
termination by (relation "measure nat") auto
declare pad_pre.simps [simp del]

function pad_to :: "int \<Rightarrow> int \<Rightarrow> string \<times> int" where
  "pad_to len w =
     (if len < w then let (s, z) = pad_to len (w - 1) in (CHR '' '' # s, z) else ([], w - 1))"
  by pat_completeness auto
termination by (relation "measure (\<lambda>(l, w). nat (w - l))") auto
declare pad_to.simps [simp del]

definition convert_char :: "u32 \<Rightarrow> int \<Rightarrow> u32 \<Rightarrow> string" where
  "convert_char flags width w =
     (let (before, width) = (if flags AND LEFT = 0 then pad_pre width else ([], width));
          (after, _) = pad_pre width
      in before @ [char_of (unat w mod 256)] @ after)"

definition convert_string :: "u32 \<Rightarrow> int \<Rightarrow> int \<Rightarrow> string \<Rightarrow> string" where
  "convert_string flags width precision s =
     (let len = int (strlen s);
          len = (if precision < 0 then len else if precision < len then precision else len);
          (before, width) = (if flags AND LEFT = 0 then pad_to len width else ([], width));
          (after, _) = pad_to len width
      in before @ take (nat len) s @ after)"

definition convert_number ::
    "nat \<Rightarrow> u32 \<Rightarrow> int \<Rightarrow> int \<Rightarrow> va list \<Rightarrow> (string \<times> va list) res" where
  "convert_number base flags width precision args =
     bind_res (va_int args) (\<lambda>(w, args).
     bind_res (number w base width precision flags) (\<lambda>r.
       case r of None \<Rightarrow> Inl (Undefined ''vsprintf: write through a null pointer'')
       | Some s \<Rightarrow> Inr (s, args)))"

text \<open>
  The switch on the conversion character: the store after it, the characters written, the
  rest of the format and the arguments left. \<open>n\<close> is \<^verbatim>\<open>str - buf\<close>.
\<close>

definition convert ::
    "mem \<Rightarrow> nat \<Rightarrow> u32 \<Rightarrow> int \<Rightarrow> int \<Rightarrow> string \<Rightarrow> va list \<Rightarrow> (mem \<times> string \<times> string \<times> va list) res" where
  "convert m n flags width precision fmt args =
     (let c = at fmt;
          num = (\<lambda>base flags width. bind_res (convert_number base flags width precision args)
                   (\<lambda>(s, args). Inr (m, s, tl fmt, args)))
      in if c = CHR ''c'' then bind_res (va_int args) (\<lambda>(w, args).
           Inr (m, convert_char flags width w, tl fmt, args))
      else if c = CHR ''s'' then bind_res (va_str args) (\<lambda>(s, args).
           Inr (m, convert_string flags width precision s, tl fmt, args))
      else if c = CHR ''o'' then num 8 flags width
      else if c = CHR ''p'' then
        if width = - 1 then num 16 (flags OR ZEROPAD) 8 else num 16 flags width
      else if c = CHR ''x'' then num 16 (flags OR SMALL) width
      else if c = CHR ''X'' then num 16 flags width
      else if c = CHR ''d'' \<or> c = CHR ''i'' then num 10 (flags OR SIGN) width
      else if c = CHR ''u'' then num 10 flags width
      else if c = CHR ''b'' then num 2 flags width
      else if c = CHR ''n'' then bind_res (va_intptr args) (\<lambda>(ip, args).
           Inr (store32 m ip (of_nat n), [], tl fmt, args))
      else Inr (m, (if c \<noteq> CHR ''%'' then ''%'' else []) @ (if c \<noteq> NUL then [c] else []),
                tl fmt, args))"

definition directive ::
    "mem \<Rightarrow> nat \<Rightarrow> string \<Rightarrow> va list \<Rightarrow> (mem \<times> string \<times> string \<times> va list) res" where
  "directive m n fmt args =
     (let (flags, fmt) = parse_flags 0 fmt in
      bind_res (parse_width flags fmt args) (\<lambda>(width, flags, fmt, args).
      bind_res (parse_precision fmt args) (\<lambda>(precision, fmt, args).
        convert m n flags width precision (parse_qualifier fmt) args)))"

text \<open>Every step of a directive moves forward in the format.\<close>

lemma skip_atoi_from_length:
  "skip_atoi_from i s = Inr (j, t) \<Longrightarrow> length t \<le> length s"
proof (induction i s rule: skip_atoi_from.induct)
  case (1 i s)
  then show ?case
    by (subst (asm) skip_atoi_from.simps) (fastforce split: if_splits)
qed

lemma length_tlD: "n \<le> length (tl s) \<Longrightarrow> n \<le> length s"
  by simp

lemma parse_flags_length: "length (snd (parse_flags f s)) \<le> length s"
proof (induction f s rule: parse_flags.induct)
  case (1 f s)
  show ?case
    using 1(1) [THEN length_tlD] 1(2) [THEN length_tlD]
      1(3) [THEN length_tlD] 1(4) [THEN length_tlD]
      1(5) [THEN length_tlD]
    by (subst parse_flags.simps) (simp split: if_split)
qed

lemma parse_width_length:
  "parse_width f s args = Inr (w, f', t, args') \<Longrightarrow> length t \<le> length s"
  by (auto simp: parse_width_def skip_atoi_def bind_res_eq_Inr
      split: if_splits dest: skip_atoi_from_length)

lemma parse_precision_length:
  "parse_precision s args = Inr (p, t, args') \<Longrightarrow> length t \<le> length s"
  by (auto simp: parse_precision_def skip_atoi_def bind_res_eq_Inr Let_def
      split: if_splits dest!: skip_atoi_from_length)

lemma convert_tl: "convert m n flags w p s args = Inr (m', out, t, args') \<Longrightarrow> t = tl s"
  by (auto simp: convert_def Let_def bind_res_eq_Inr split: if_splits)

lemma directive_length:
  assumes "directive m n s args = Inr (m', out, t, args')"
  shows "length t \<le> length s"
proof -
  obtain f s1 where 1: "parse_flags 0 s = (f, s1)" by force
  with assms obtain w f' s2 args2 p s3 args3 where
    2: "parse_width f s1 args = Inr (w, f', s2, args2)"
      "parse_precision s2 args2 = Inr (p, s3, args3)"
      "convert m n f' w p (parse_qualifier s3) args3 = Inr (m', out, t, args')"
    by (auto simp: directive_def bind_res_eq_Inr)
  have "length t \<le> length s3"
    using convert_tl [OF 2(3)] by (simp add: parse_qualifier_def)
  with parse_flags_length [of 0 s] 1 parse_width_length [OF 2(1)] parse_precision_length [OF 2(2)]
  show ?thesis by simp
qed

function vsprintf_loop :: "mem \<Rightarrow> string \<Rightarrow> string \<Rightarrow> va list \<Rightarrow> (mem \<times> string) res" where
  "vsprintf_loop m out fmt args =
     (if at fmt = NUL then Inr (m, out)
      else if at fmt \<noteq> CHR ''%'' then vsprintf_loop m (out @ [at fmt]) (tl fmt) args
      else bind_res (directive m (length out) (tl fmt) args)
        (\<lambda>(m, s, fmt, args). vsprintf_loop m (out @ s) fmt args))"
  by pat_completeness auto
termination
proof (relation "measure (\<lambda>(m, out, fmt, args). length fmt)", goal_cases)
  case (2 m out fmt args)
  then show ?case by (cases fmt) auto
next
  case (3 m out fmt args r m' y s z fmt' args')
  then have "directive m (length out) (tl fmt) args = Inr (m', s, fmt', args')" by auto
  then have "length fmt' \<le> length (tl fmt)" by (rule directive_length)
  moreover have "fmt \<noteq> []" using 3 by auto
  ultimately show ?case by (cases fmt) auto
qed simp
declare vsprintf_loop.simps [simp del]

definition vsprintf :: "mem \<Rightarrow> string \<Rightarrow> va list \<Rightarrow> (mem \<times> string) res" where
  "vsprintf m fmt args = vsprintf_loop m [] fmt args"

section \<open>Digits\<close>

text \<open>The number a digit string denotes, and the digit characters' values.\<close>

definition digit_value :: "char \<Rightarrow> nat" where
  "digit_value c =
     (let k = of_char c in if k \<le> 57 then k - 48 else if k \<le> 90 then k - 55 else k - 87)"

definition numeral_value :: "nat \<Rightarrow> string \<Rightarrow> nat" where
  "numeral_value base s = foldl (\<lambda>n c. n * base + digit_value c) 0 s"

lemma numeral_value_snoc [simp]:
  "numeral_value base [] = 0"
  "numeral_value base (s @ [c]) = numeral_value base s * base + digit_value c"
  by (simp_all add: numeral_value_def)

lemma digit_values:
  "map digit_value lower_digits = [0..<36]" "map digit_value upper_digits = [0..<36]"
  by (simp_all add: lower_digits_def upper_digits_def digit_value_def upt_rec)

lemma digit_value_nth:
  assumes "digits \<in> {lower_digits, upper_digits}" "d < 36"
  shows "digit_value (digits ! d) = d"
proof -
  have "map digit_value digits = [0..<36]" using assms(1) digit_values by auto
  moreover from this have "length digits = 36" by (metis length_map length_upt diff_zero)
  ultimately show ?thesis using assms(2) by (metis nth_map nth_upt add_0 diff_zero)
qed

lemma number_digits_0 [simp]: "number_digits digits base 0 = []"
  by (simp add: number_digits.simps)

lemma number_digits_step:
  "n \<noteq> 0 \<Longrightarrow> 2 \<le> base \<Longrightarrow> number_digits digits base n =
     digits ! (unat n mod base) # number_digits digits base (of_nat (unat n div base))"
  by (subst number_digits.simps) simp

lemma unat_div_word: "unat (of_nat (unat (n :: u32) div base) :: u32) = unat n div base"
  using unat_u32_less [of n] div_le_dividend [of "unat n" base] by (intro unat_of_nat_u32) linarith

lemma number_digits_induct [consumes 1, case_names zero step]:
  assumes "2 \<le> base" "P (0 :: u32)"
    and "\<And>n. n \<noteq> 0 \<Longrightarrow> P (of_nat (unat n div base)) \<Longrightarrow> P n"
  shows "P n"
proof (induction n rule: measure_induct_rule [where f = unat])
  case (less n)
  show ?case
  proof (cases "n = 0")
    case False
    then have "unat (of_nat (unat n div base) :: u32) < unat n"
      unfolding unat_div_word using assms(1)
      by (intro div_less_dividend) (auto simp: unat_gt_0)
    then show ?thesis using False assms(3) less by blast
  qed (simp add: assms(2))
qed

lemma number_digits_value:
  assumes "digits \<in> {lower_digits, upper_digits}" "2 \<le> base" "base \<le> 36"
  shows "numeral_value base (rev (number_digits digits base n)) = unat n"
  using assms(2)
proof (induction n rule: number_digits_induct)
  case (step n)
  have "unat n mod base < 36"
    using assms(2,3) mod_less_divisor [of base "unat n"] by linarith
  then have "digit_value (digits ! (unat n mod base)) = unat n mod base"
    using assms(1) by (rule digit_value_nth [rotated])
  then show ?case
    using step assms(2) by (simp add: number_digits_step unat_div_word)
qed simp

text \<open>\<^verbatim>\<open>tmp[36]\<close> is large enough: a 32-bit number has at most 32 digits in any base.\<close>

lemma number_digits_length:
  assumes "2 \<le> base" "unat n < 2 ^ k"
  shows "length (number_digits digits base n) \<le> k"
  using assms
proof (induction n arbitrary: k rule: number_digits_induct)
  case (step n)
  then obtain j where k: "k = Suc j" by (cases k) (auto simp: unat_eq_0)
  have "unat n div base \<le> unat n div 2" using assms(1) by (intro div_le_mono2) auto
  also have "unat n div 2 < 2 ^ j" using step(3) k by (simp add: less_mult_imp_div_less)
  finally have "length (number_digits digits base (of_nat (unat n div base))) \<le> j"
    using step.IH unat_div_word by simp
  then show ?case using step assms(1) k by (simp add: number_digits_step)
qed simp

lemma number_digits_length_32: "2 \<le> base \<Longrightarrow> length (number_digits digits base n) \<le> 32"
  using number_digits_length [of base n 32] unat_u32_less [of n] by simp

lemma number_digits_set:
  assumes "2 \<le> base"
  shows "set (number_digits digits base n) \<subseteq> (\<lambda>d. digits ! d) ` {..<base}"
  using assms
proof (induction n rule: number_digits_induct)
  case (step n)
  then show ?case using assms by (auto simp: number_digits_step)
qed simp

text \<open>The most significant digit of a printed number is not zero.\<close>

lemma number_digits_last:
  assumes "2 \<le> base" "n \<noteq> 0"
  shows "\<exists>d. 0 < d \<and> d < base \<and> last (number_digits digits base n) = digits ! d"
  using assms(1,2)
proof (induction n rule: number_digits_induct)
  case (step n)
  show ?case
  proof (cases "unat n div base = 0")
    case True
    then have "unat n < base" using assms(1) by (simp add: div_eq_0_iff)
    then show ?thesis
      using True step assms(1)
      by (intro exI [of _ "unat n"]) (simp add: number_digits_step unat_gt_0)
  next
    case False
    then have "(of_nat (unat n div base) :: u32) \<noteq> 0"
      using unat_div_word [of n base] by (metis unat_0)
    with step assms(1) show ?thesis
      by (auto simp: number_digits_step)
  qed
qed simp

section \<open>Padding\<close>

lemma pad_eq: "pad c n = (replicate (nat n) c, min n 0 - 1)"
proof (induction c n rule: pad.induct)
  case (1 c n)
  show ?case
  proof (cases "0 < n")
    case True
    then have "nat n = Suc (nat (n - 1))" by simp
    with 1 True show ?thesis by (subst pad.simps) (simp add: min_def)
  qed (subst pad.simps, simp)
qed

lemma zeros_eq: "zeros i p = replicate (nat (p - i)) CHR ''0''"
proof (induction i p rule: zeros.induct)
  case (1 i p)
  show ?case
  proof (cases "i < p")
    case True
    then have "nat (p - i) = Suc (nat (p - 1 - i))" by simp
    with 1 True show ?thesis by (subst zeros.simps) simp
  qed (subst zeros.simps, simp)
qed

lemma pad_to_eq: "pad_to l w = (replicate (nat (w - l)) CHR '' '', min w l - 1)"
proof (induction l w rule: pad_to.induct)
  case (1 l w)
  show ?case
  proof (cases "l < w")
    case True
    then have "nat (w - l) = Suc (nat (w - 1 - l))" by simp
    with 1 True show ?thesis by (subst pad_to.simps) (simp add: min_def)
  qed (subst pad_to.simps, simp)
qed

section \<open>number\<close>

text \<open>The characters \<open>number\<close> writes besides padding: the sign, the base prefix and the digits.\<close>

definition digits_of :: "u32 \<Rightarrow> string" where
  "digits_of type = (if type AND SMALL \<noteq> 0 then lower_digits else upper_digits)"

definition number_prefix :: "u32 \<Rightarrow> nat \<Rightarrow> string" where
  "number_prefix type base = special_chars type base (digits_of type)"

definition number_body :: "u32 \<Rightarrow> nat \<Rightarrow> u32 \<Rightarrow> string" where
  "number_body type base num = rev (number_tmp (digits_of type) base num)"

lemma flag_and:
  "((t :: u32) AND NOT ZEROPAD) AND SIGN = t AND SIGN" "(t AND NOT ZEROPAD) AND PLUS = t AND PLUS"
  "(t AND NOT ZEROPAD) AND SPACE = t AND SPACE" "(t AND NOT ZEROPAD) AND LEFT = t AND LEFT"
  "(t AND NOT ZEROPAD) AND SPECIAL = t AND SPECIAL" "(t AND NOT ZEROPAD) AND ZEROPAD = 0"
  by (simp_all add: flag_defs and.assoc)

lemma flag_both: "(t :: u32) AND (ZEROPAD + LEFT) = 0 \<longleftrightarrow> t AND ZEROPAD = 0 \<and> t AND LEFT = 0"
proof -
  have "ZEROPAD + LEFT = ZEROPAD OR LEFT" by (simp add: flag_defs)
  then show ?thesis by (simp add: bit.conj_disj_distrib or_eq_0_iff)
qed

lemma number_sign_zeropad: "number_sign (t AND NOT ZEROPAD) num = number_sign t num"
  by (simp add: number_sign_def flag_and)

lemma special_zeropad:
  "special_size (t AND NOT ZEROPAD) base z = special_size t base z"
  "special_chars (t AND NOT ZEROPAD) base ds = special_chars t base ds"
  by (simp_all add: special_size_def special_chars_def flag_and)

lemma number_layout:
  fixes p sz :: int
  assumes "2 \<le> base" "base \<le> 36" "number_sign type num = Inr (sign, v)"
  defines "pre \<equiv> sign @ number_prefix type base" and "body \<equiv> number_body type base v"
  defines "ds \<equiv> replicate (nat (p - int (length body))) CHR ''0'' @ body"
  defines "gap \<equiv> nat (sz - int (length pre + length ds))"
  shows "number num base sz p type = Inr (Some
    (if type AND LEFT \<noteq> 0 then pre @ ds @ replicate gap CHR '' ''
     else if type AND ZEROPAD \<noteq> 0 then pre @ replicate gap CHR ''0'' @ ds
     else replicate gap CHR '' '' @ pre @ ds))"
proof -
  define i where "i = int (length (number_tmp (digits_of type) base v))"
  have i: "int (length body) = i" by (simp add: i_def body_def number_body_def)
  have sg: "(if sign \<noteq> [] then sz - 1 else sz) = sz - int (length sign)"
    using assms(3) by (auto simp: number_sign_def split: if_splits)
  have sp: "special_size type base z = z - int (length (number_prefix type base))" for z
    by (simp add: special_size_def number_prefix_def special_chars_def)
  have ds: "zeros i (if p < i then i else p) @ rev (number_tmp (digits_of type) base v) = ds"
    "(if p < i then i else p) = int (length ds)"
    by (simp_all add: zeros_eq ds_def i body_def number_body_def)
      (simp_all add: i_def)
  have ds_append: "zeros i (int (length ds)) @ rev (number_tmp (digits_of type) base v) @ xs = ds @ xs" for xs
    using ds by simp
  have gap: "nat (sz - int (length sign) - int (length (number_prefix type base)) - int (length ds)) = gap"
    by (simp add: gap_def pre_def)
  show ?thesis
    using assms(1-3)
    by (cases "type AND LEFT = 0"; cases "type AND ZEROPAD = 0")
      (simp_all add: number_def sg sp ds ds(1) [unfolded ds(2)] ds_append gap pre_def Let_def flag_both flag_and number_sign_zeropad
        special_zeropad pad_eq digits_of_def [symmetric] i_def [symmetric] number_prefix_def [symmetric]
        cong: if_cong split del: if_split)
qed

lemma number_sign_None: "type AND SIGN = 0 \<or> \<not> num <s 0 \<Longrightarrow> type AND PLUS = 0 \<Longrightarrow> type AND SPACE = 0 \<Longrightarrow>
    number_sign type num = Inr ([], num)"
  by (auto simp: number_sign_def)

lemma number_length:
  assumes "2 \<le> base" "base \<le> 36" "number_sign type num = Inr (sign, v)"
  shows "\<exists>s. number num base sz p type = Inr (Some s) \<and> int (length s) =
    max sz (int (length sign + length (number_prefix type base)) + max p (int (length (number_body type base v))))"
  unfolding number_layout [OF assms] by (auto simp: max_def)

section \<open>Directives\<close>

text \<open>A directive with no flags, width, precision or qualifier goes straight to its conversion.\<close>

definition plain_conv :: "char \<Rightarrow> bool" where
  "plain_conv c \<longleftrightarrow> c \<notin> set ''-+ #0*.hlL'' \<and> \<not> is_digit c"

lemma directive_plain:
  "plain_conv c \<Longrightarrow> directive m n (c # fmt) args = convert m n 0 (- 1) (- 1) (c # fmt) args"
  by (simp add: plain_conv_def directive_def parse_flags.simps [of 0 "c # fmt"] parse_width_def
      parse_precision_def parse_qualifier_def)

lemma vsprintf_loop_end [simp]: "vsprintf_loop m out [] args = Inr (m, out)"
  by (simp add: vsprintf_loop.simps)

lemma vsprintf_loop_literal:
  "NUL \<notin> set s \<Longrightarrow> CHR ''%'' \<notin> set s \<Longrightarrow>
    vsprintf_loop m out (s @ fmt) args = vsprintf_loop m (out @ s) fmt args"
proof (induction s arbitrary: out)
  case (Cons c s)
  then have "c \<noteq> NUL" "c \<noteq> CHR ''%''" by auto
  with Cons show ?case by (subst vsprintf_loop.simps) simp
qed simp

lemma vsprintf_loop_percent:
  "vsprintf_loop m out (CHR ''%'' # fmt) args =
     bind_res (directive m (length out) fmt args)
       (\<lambda>(m, s, fmt, args). vsprintf_loop m (out @ s) fmt args)"
  by (subst vsprintf_loop.simps) simp

lemma convert_string_plain: "convert_string 0 (- 1) (- 1) s = cstr s"
proof -
  have "take (length (cstr s)) s = cstr s"
    by (induction s) auto
  then show ?thesis
    by (simp add: convert_string_def pad_to_eq strlen_length)
qed

lemma vsprintf_loop_s:
  "vsprintf_loop m out (CHR ''%'' # CHR ''s'' # fmt) (VStr s # args) =
     vsprintf_loop m (out @ cstr s) fmt args"
  by (simp add: vsprintf_loop_percent directive_plain plain_conv_def is_digit_def convert_def
      va_str_def convert_string_plain)

text \<open>The unsigned conversions without flags print the digits and nothing else.\<close>

definition unsigned_convs :: "(char \<times> nat \<times> u32) list" where
  "unsigned_convs =
     [(CHR ''u'', 10, 0), (CHR ''x'', 16, SMALL), (CHR ''X'', 16, 0), (CHR ''o'', 8, 0), (CHR ''b'', 2, 0)]"

lemma unsigned_convs_cases:
  assumes "(c, base, type) \<in> set unsigned_convs"
  obtains "c = CHR ''u''" "base = 10" "type = 0" | "c = CHR ''x''" "base = 16" "type = SMALL"
  | "c = CHR ''X''" "base = 16" "type = 0" | "c = CHR ''o''" "base = 8" "type = 0"
  | "c = CHR ''b''" "base = 2" "type = 0"
  using assms by (auto simp: unsigned_convs_def)

lemma number_plain:
  assumes "2 \<le> base" "base \<le> 36" "type \<in> {0, SMALL}"
  shows "number n base (- 1) (- 1) type = Inr (Some (number_body type base n))"
proof -
  have "number_sign type n = Inr ([], n)" "number_prefix type base = []"
    using assms(3) by (auto simp: number_sign_def number_prefix_def special_chars_def flag_defs)
  with number_layout [OF assms(1,2), of type n "[]" n "- 1" "- 1"] assms(3) show ?thesis
    by (auto simp: flag_defs)
qed

lemma vsprintf_loop_unsigned:
  assumes "(c, base, type) \<in> set unsigned_convs"
  shows "vsprintf_loop m out (CHR ''%'' # c # fmt) (VInt n # args) =
    vsprintf_loop m (out @ number_body type base n) fmt args"
proof -
  have b: "2 \<le> base" "base \<le> 36" "type \<in> {0, SMALL}"
    using assms by (auto simp: unsigned_convs_def)
  have "plain_conv c" using assms by (auto simp: unsigned_convs_def plain_conv_def is_digit_def)
  have n: "convert_number base type (- 1) (- 1) (VInt n # args)
      = Inr (number_body type base n, args)"
    by (simp add: convert_number_def va_int_def number_plain [OF b])
  have "convert m (length out) 0 (- 1) (- 1) (c # fmt) (VInt n # args)
      = bind_res (convert_number base type (- 1) (- 1) (VInt n # args))
          (\<lambda>(s, args). Inr (m, s, fmt, args))"
    using assms by (elim unsigned_convs_cases) (simp_all add: convert_def Let_def)
  then show ?thesis
    using \<open>plain_conv c\<close> by (simp add: vsprintf_loop_percent directive_plain n)
qed

lemma number_body_value:
  assumes "2 \<le> base" "base \<le> 36"
  shows "numeral_value base (number_body type base n) = unat n"
    and "number_body type base n \<noteq> []" and "length (number_body type base n) \<le> 32"
proof -
  show "length (number_body type base n) \<le> 32"
    using number_digits_length_32 [OF assms(1)] by (auto simp: number_body_def number_tmp_def)
  show "numeral_value base (number_body type base n) = unat n"
    using number_digits_value [OF _ assms, of _ n] by (auto simp: number_body_def number_tmp_def digits_of_def numeral_value_def digit_value_def)
  show "number_body type base n \<noteq> []"
    using assms(1) by (auto simp: number_body_def number_tmp_def number_digits_step)
qed

lemma number_body_no_leading_zero:
  assumes "2 \<le> base" "base \<le> 36" "n \<noteq> 0"
  shows "hd (number_body type base n) \<noteq> CHR ''0''"
proof -
  obtain d where d: "0 < d" "d < base" "hd (number_body type base n) =
      digits_of type ! d"
    using number_digits_last [OF assms(1,3), of "digits_of type"] assms(3)
    by (auto simp: hd_rev number_body_def number_tmp_def)
  have "digit_value (hd (number_body type base n)) = d"
    unfolding d(3) by (rule digit_value_nth) (use d assms in \<open>auto simp: digits_of_def\<close>)
  then show ?thesis using d(1) by (auto simp: digit_value_def)
qed

section \<open>Reading a number back\<close>

lemma digit_value_digit:
  assumes "is_digit c"
  shows "int (digit_value c) = of_char c - 48"
proof -
  have "of_char c = int (of_char c)" by (rule of_nat_of_char [symmetric])
  then show ?thesis using assms by (simp add: digit_value_def is_digit_def Let_def)
qed

lemma skip_atoi_from_digits:
  assumes "\<forall>c \<in> set s. is_digit c" "\<not> is_digit (at rest)" "0 \<le> i"
    "foldl (\<lambda>n c. n * 10 + int (digit_value c)) i s + 48 < 2 ^ 31"
  shows "skip_atoi_from i (s @ rest) = Inr (foldl (\<lambda>n c. n * 10 + int (digit_value c)) i s, rest)"
  using assms
proof (induction s arbitrary: i)
  case Nil
  then show ?case by (simp add: skip_atoi_from.simps)
next
  case (Cons c s)
  let ?f = "foldl (\<lambda>n c. n * 10 + int (digit_value c))"
  have dv: "int (digit_value c) = of_char c - 48"
    using Cons.prems(1) by (simp add: digit_value_digit)
  have mono: "i \<le> ?f i s" if "0 \<le> i" for i
    using that
  proof (induction s arbitrary: i)
    case (Cons d s)
    have "0 \<le> i * 10 + int (digit_value d)" "i \<le> i * 10 + int (digit_value d)" using Cons.prems by simp_all
    with Cons.IH [of "i * 10 + int (digit_value d)"] show ?case by simp
  qed simp
  have nn: "0 \<le> i * 10 + int (digit_value c)" using Cons.prems by simp
  from mono [OF nn] Cons.prems(4) have "i * 10 + of_char c < 2 ^ 31" by (simp add: dv)
  then show ?case
    using Cons.prems Cons.IH [OF _ _ nn] by (subst skip_atoi_from.simps) (simp add: dv add_diff_eq)
qed

lemma numeral_value_int:
  "int (numeral_value 10 s) = foldl (\<lambda>n c. n * 10 + int (digit_value c)) 0 s"
  by (induction s rule: rev_induct) simp_all

lemma digits_length: "length (digits_of type) = 36"
  by (simp add: digits_of_def lower_digits_def upper_digits_def)

lemma number_body_is_digit:
  assumes "c \<in> set (number_body type 10 n)"
  shows "is_digit c"
proof (cases "n = 0")
  case True
  with assms show ?thesis by (simp add: number_body_def number_tmp_def is_digit_def)
next
  case False
  then obtain d where d: "d < 10" "c = digits_of type ! d"
    using assms number_digits_set [of 10 "digits_of type" n]
    by (auto simp: number_body_def number_tmp_def)
  then have "c \<in> set (take 10 (digits_of type))"
    by (auto simp: in_set_conv_nth digits_length intro!: exI [of _ d])
  moreover have "take 10 (digits_of type) = ''0123456789''"
    by (simp add: digits_of_def lower_digits_def upper_digits_def)
  ultimately show ?thesis by (auto simp: is_digit_def)
qed

lemma skip_atoi_number:
  assumes "unat n + 48 < 2147483648" "\<not> is_digit (at rest)"
  shows "skip_atoi (number_body type 10 n @ rest) = Inr (int (unat n), rest)"
proof -
  have "skip_atoi_from 0 (number_body type 10 n @ rest)
      = Inr (foldl (\<lambda>n c. n * 10 + int (digit_value c)) 0 (number_body type 10 n), rest)"
  proof (rule skip_atoi_from_digits)
    show "foldl (\<lambda>n c. n * 10 + int (digit_value c)) 0 (number_body type 10 n) + 48 < 2 ^ 31"
    proof -
      have "int (unat n) + 48 < 2147483648" using assms(1) by linarith
      then show ?thesis
        using number_body_value(1) [of 10 type n]
        by (simp only: numeral_value_int [symmetric]) simp
    qed
  qed (use assms number_body_is_digit in auto)
  then show ?thesis
    using number_body_value(1) [of 10 type n]
    by (simp only: numeral_value_int [symmetric] skip_atoi_def)
qed

end
