(* ===== verification/Printk.thy ===== *)
theory Printk
  imports Console Elf Vsprintf
begin

text \<open>
  The kernel's messages: \<^verbatim>\<open>printk\<close> and \<^verbatim>\<open>debugk\<close> of \<^verbatim>\<open>utils.c\<close>, \<^verbatim>\<open>print_stack_trace\<close> and \<^verbatim>\<open>die\<close> of
  \<^verbatim>\<open>arch/x86/hal.c\<close>, and \<^verbatim>\<open>panic\<close> of \<^verbatim>\<open>sys.c\<close>. Each function formats into a static buffer
  of 1024 bytes; a longer message overruns it.
\<close>

section \<open>Operations\<close>

definition format_1024 :: "mem \<Rightarrow> string \<Rightarrow> va list \<Rightarrow> (mem \<times> string) res" where
  "format_1024 m fmt args =
     bind_res (vsprintf m fmt args) (\<lambda>(m, buf).
       if 1024 \<le> length buf then Inl (Undefined ''write past buf[1024]'') else Inr (m, buf))"

definition printk ::
    "'a machine_scheme console_t list \<Rightarrow> string \<Rightarrow> va list \<Rightarrow> 'a machine_scheme \<Rightarrow> 'a machine_scheme res" where
  "printk cons fmt args s =
     bind_res (format_1024 (mem s) fmt args) (\<lambda>(m, buf).
       console_writestring cons buf (s\<lparr>mem := m\<rparr>))"

definition debugk ::
    "bool \<Rightarrow> 'a machine_scheme console_t list \<Rightarrow> string \<Rightarrow> va list \<Rightarrow> 'a machine_scheme \<Rightarrow>
     'a machine_scheme res" where
  "debugk KDEBUG cons fmt args s = (if KDEBUG then printk cons fmt args s else Inr s)"

text \<open>
  The frame pointer chain of the caller, from \<^verbatim>\<open>%ebp\<close> on. A chain that runs into itself is
  printed for ever. An address that no symbol covers yields a null pointer for \<^verbatim>\<open>%s\<close>.
\<close>

partial_function (option) stack_trace ::
    "'a machine_scheme console_t list \<Rightarrow> elf_t \<Rightarrow> u32 \<Rightarrow> 'a machine_scheme \<Rightarrow>
     'a machine_scheme res option" where
  "stack_trace cons elf ebp s =
     (if ebp = 0 then Some (Inr s)
      else let eip = load32 (mem s) (ebp + 4);
               name = elf_lookup_symbol (mem s) eip elf
           in if name = 0 then Some (Inl (Undefined ''strlen(NULL)''))
              else case printk cons (''   [0x%x] %s'' @ [CHR 0x0A])
                          [VInt eip, VStr (load_string (mem s) name)] s of
                Inl e \<Rightarrow> Some (Inl e)
              | Inr s \<Rightarrow> stack_trace cons elf (load32 (mem s) ebp) s)"

definition print_stack_trace ::
    "'a machine_scheme console_t list \<Rightarrow> elf_t \<Rightarrow> u32 \<Rightarrow> 'a machine_scheme \<Rightarrow> 'a machine_scheme res" where
  "print_stack_trace cons kernel_elf ebp s =
     (case stack_trace cons kernel_elf ebp s of None \<Rightarrow> Inl Hang | Some r \<Rightarrow> r)"

text \<open>\<^verbatim>\<open>die\<close> never returns; the result is the state in which the processor halts.\<close>

definition die :: "'a machine_scheme \<Rightarrow> 'a machine_scheme" where
  "die s = disable_interrupts s"

definition panic ::
    "'a machine_scheme console_t list \<Rightarrow> elf_t \<Rightarrow> u32 \<Rightarrow> string \<Rightarrow> va list \<Rightarrow> 'a machine_scheme \<Rightarrow>
     'a machine_scheme res" where
  "panic cons kernel_elf ebp fmt args s =
     bind_res (format_1024 (mem s) fmt args) (\<lambda>(m, buf).
     let s = s\<lparr>mem := m\<rparr>;
         s = console_setcolor cons (make_color COLOR_LIGHT_RED COLOR_BLACK) s
     in bind_res (printk cons ([CHR 0x0A, CHR 0x0A] @ ''OSHI...: %s'' @ [CHR 0x0A]) [VStr buf] s) (\<lambda>s.
        bind_res (print_stack_trace cons kernel_elf ebp s) (\<lambda>s.
        bind_res (printk cons ([CHR 0x0A] @ ''***'' @ [CHR 0x0A] @
            ''So long, and thanks for all the fish.'') [] s) (\<lambda>s.
        Inr (die s)))))"

text \<open>A call of \<^verbatim>\<open>panic\<close> seen from its caller: it does not come back.\<close>

definition panics :: "mem \<Rightarrow> string \<Rightarrow> va list \<Rightarrow> 'r res" where
  "panics m fmt args = bind_res (format_1024 m fmt args) (\<lambda>(m, buf). Inl (Panic (cstr buf)))"

section \<open>Messages\<close>

lemma vsprintf_literal: "NUL \<notin> set s \<Longrightarrow> CHR ''%'' \<notin> set s \<Longrightarrow> vsprintf m s args = Inr (m, s)"
  using vsprintf_loop_literal [of s m "[]" "[]" args] by (simp add: vsprintf_def)

lemma vsprintf_around:
  assumes "NUL \<notin> set a" "CHR ''%'' \<notin> set a" "NUL \<notin> set b" "CHR ''%'' \<notin> set b"
  shows "vsprintf m (a @ ''%s'' @ b) [VStr s] = Inr (m, a @ cstr s @ b)"
  using vsprintf_loop_literal [OF assms(1,2), of m "[]" "''%s'' @ b"]
    vsprintf_loop_literal [OF assms(3,4), of m "a @ cstr s" "[]"]
  by (simp add: vsprintf_def vsprintf_loop_s)

text \<open>
  \<^verbatim>\<open>printk\<close> of a message that fits its buffer reaches every console, whatever drivers are
  behind them, and returns.
\<close>

lemma printk_returns:
  assumes "all_drivers cons I" "I s" "vsprintf (mem s) fmt args = Inr (mem s, buf)" "length buf < 1024"
  shows "printk cons fmt args s = console_writestring cons buf s"
    and "\<exists>s'. printk cons fmt args s = Inr s' \<and> I s'"
proof -
  show eq: "printk cons fmt args s = console_writestring cons buf s"
    using assms(3,4) by (simp add: printk_def format_1024_def)
  show "\<exists>s'. printk cons fmt args s = Inr s' \<and> I s'"
    unfolding eq by (rule console_writestring_returns [OF assms(1,2)])
qed

lemma panics_message:
  assumes "vsprintf m fmt args = Inr (m', buf)" "length buf < 1024" "NUL \<notin> set buf"
  shows "panics m fmt args = Inl (Panic buf)"
  using assms by (simp add: panics_def format_1024_def cstr_ident)

text \<open>A panic outside any frame halts the machine with interrupts off and the message out.\<close>

lemma stack_trace_0 [simp]: "stack_trace cons elf 0 s = Some (Inr s)"
  by (subst stack_trace.simps) simp

lemma panic_halts:
  assumes "all_drivers cons I" "I s" "vsprintf (mem s) fmt args = Inr (mem s, buf)" "length buf < 1000"
    and "\<And>s. I s \<Longrightarrow> I (s\<lparr>eflags := eflags s AND NOT 0x200\<rparr>)"
  shows "\<exists>s'. panic cons elf 0 fmt args s = Inr s' \<and> I s' \<and> get_interrupt_state s' = 0"
proof -
  define s1 where "s1 = console_setcolor cons (make_color COLOR_LIGHT_RED COLOR_BLACK) s"
  have 1: "I s1" unfolding s1_def by (rule console_setcolor_inv [OF assms(1,2)])
  let ?nl = "CHR 0x0A"
  have "vsprintf (mem s1) ([?nl, ?nl] @ ''OSHI...: %s'' @ [?nl]) [VStr buf]
      = Inr (mem s1, [?nl, ?nl] @ ''OSHI...: '' @ cstr buf @ [?nl])"
    using vsprintf_around [of "[?nl, ?nl] @ ''OSHI...: ''" "[?nl]" "mem s1" buf] by simp
  moreover have "length (cstr buf) \<le> length buf" by (simp add: cstr_def length_takeWhile_le)
  ultimately obtain s2 where 2: "printk cons ([?nl, ?nl] @ ''OSHI...: %s'' @ [?nl]) [VStr buf] s1 = Inr s2" "I s2"
    using printk_returns(2) [OF assms(1) 1] assms(4) by fastforce
  have "vsprintf (mem s2) ([?nl] @ ''***'' @ [?nl] @ ''So long, and thanks for all the fish.'') []
      = Inr (mem s2, [?nl] @ ''***'' @ [?nl] @ ''So long, and thanks for all the fish.'')"
    by (rule vsprintf_literal) simp_all
  then obtain s3 where 3: "printk cons ([?nl] @ ''***'' @ [?nl] @ ''So long, and thanks for all the fish.'') [] s2
      = Inr s3" "I s3"
    using printk_returns(2) [OF assms(1) 2(2)] by fastforce
  have "panic cons elf 0 fmt args s = Inr (die s3)"
    using 2(1) 3(1) assms(3,4)
    by (simp add: panic_def format_1024_def Let_def s1_def [symmetric] print_stack_trace_def)
  moreover have "get_interrupt_state (die s3) = 0"
    by (simp add: die_def disable_interrupts_def get_interrupt_state_def and.assoc)
  moreover have "I (die s3)" using assms(5) [OF 3(2)] by (simp add: die_def disable_interrupts_def)
  ultimately show ?thesis by blast
qed

end
