(* ===== verification/Interrupts.thy ===== *)
theory Interrupts
  imports Printk
begin

text \<open>
  Interrupts: the descriptor table of \<^verbatim>\<open>arch/x86/idt.c\<close>, the exceptions of \<^verbatim>\<open>arch/x86/isrs.c\<close>, the
  hardware interrupts of \<^verbatim>\<open>arch/x86/irqs.c\<close>, the timer of \<^verbatim>\<open>arch/x86/timer.c\<close> and the tick of
  \<^verbatim>\<open>tick.c\<close>. A handler is known by its address; \<open>call\<close>, an argument of the two dispatchers,
  is the code behind the addresses. The assembler stubs are addresses too.
\<close>

section \<open>State\<close>

record idt_entry =
  base_lo :: u16
  sel :: u16
  always0 :: u8
  idt_flags :: u8
  base_hi :: u16

record idt_ptr =
  idt_limit :: u16
  idt_base :: u32

record isr_regs =
  r_gs :: u32
  r_fs :: u32
  r_es :: u32
  r_ds :: u32
  r_edi :: u32
  r_esi :: u32
  r_ebp :: u32
  r_esp :: u32
  r_ebx :: u32
  r_edx :: u32
  r_ecx :: u32
  r_eax :: u32
  int_no :: u32
  err_code :: u32
  r_eip :: u32
  r_cs :: u32
  r_eflags :: u32
  r_useresp :: u32
  r_ss :: u32

text \<open>
  \<open>idt_at\<close> is the address of the array \<^verbatim>\<open>idt\<close>, \<open>idtr\<close> the processor's table register.
\<close>

record intr = vga +
  idt :: "idt_entry list"
  idt_at :: u32
  idtp :: idt_ptr
  idtr :: idt_ptr
  isr_routines :: "u32 list"
  jiffies :: u64

type_synonym 'a handler_code = "u32 \<Rightarrow> isr_regs \<Rightarrow> 'a intr_scheme \<Rightarrow> (u32 \<times> isr_regs \<times> 'a intr_scheme) res"

definition X86_KERNEL_FREQ :: int where "X86_KERNEL_FREQ = 100"

definition IRQ_ISR :: "u32 \<Rightarrow> u32" where
  "IRQ_ISR x = x + 0x20"

definition ISR_IRQ :: "u32 \<Rightarrow> u32" where
  "ISR_IRQ x = (if 31 < x \<and> x < 48 then x - 0x20 else - 1)"

text \<open>\<^verbatim>\<open>isr_routines\<close> as it is initialised: 256 null pointers.\<close>

definition no_routines :: "u32 list" where
  "no_routines = replicate 256 0"

definition exception_messages :: "string list" where
  "exception_messages =
    [''Division By Zero'', ''Debug Exception'', ''Non Maskable Interrupt'', ''Breakpoint Exception'',
     ''Into Detected Overflow Exception'', ''Out Of Bounds Exception'', ''Invalid Opcode Exception'',
     ''No Coprocessor Exception'', ''Double Fault Exception'', ''Coprocessor Segment Overrun Exception'',
     ''Bad TSS Exception'', ''Segment Not Present Exception'', ''Stack Fault'', ''General Protection Fault'',
     ''Page Fault'', ''Unknown Interrupt Exception'', ''Coprocessor Fault'', ''Alignment Check Exception'',
     ''Machine Check Exception'', ''Reserved Exception'', ''Reserved Exception'', ''Reserved Exception'',
     ''Reserved Exception'', ''Reserved Exception'', ''Reserved Exception'', ''Reserved Exception'',
     ''Reserved Exception'', ''Reserved Exception'', ''Reserved Exception'', ''Reserved Exception'',
     ''Reserved Exception'', ''Reserved Exception'']"

section \<open>The descriptor table\<close>

definition idt_set_gate :: "u8 \<Rightarrow> u32 \<Rightarrow> u16 \<Rightarrow> u8 \<Rightarrow> 'a intr_scheme \<Rightarrow> 'a intr_scheme" where
  "idt_set_gate num base sl flags s =
     s\<lparr>idt := (idt s)[unat num :=
        \<lparr>base_lo = ucast (base AND 0xFFFF), sel = sl, always0 = 0, idt_flags = flags,
         base_hi = ucast (drop_bit 16 base AND 0xFFFF)\<rparr>]\<rparr>"

definition null_gate :: idt_entry where
  "null_gate = \<lparr>base_lo = 0, sel = 0, always0 = 0, idt_flags = 0, base_hi = 0\<rparr>"

definition idt_init :: "'a intr_scheme \<Rightarrow> int \<times> 'a intr_scheme" where
  "idt_init s =
     (let s = s\<lparr>idtp := \<lparr>idt_limit = 8 * 256 - 1, idt_base = idt_at s\<rparr>\<rparr>;
          s = s\<lparr>idt := replicate 256 null_gate\<rparr>
      in (1, s\<lparr>idtr := idtp s\<rparr>))"

section \<open>Exceptions\<close>

text \<open>The calls for the stubs \<^verbatim>\<open>isr0\<close> to \<^verbatim>\<open>isr31\<close>, in order.\<close>

definition isrs_init :: "(nat \<Rightarrow> u32) \<Rightarrow> 'a intr_scheme \<Rightarrow> int \<times> 'a intr_scheme" where
  "isrs_init isr s = (1, fold (\<lambda>n. idt_set_gate (of_nat n) (isr n) 0x08 0x8E) [0..<32] s)"

definition install_isr :: "u32 \<Rightarrow> u32 \<Rightarrow> 'a intr_scheme \<Rightarrow> 'a intr_scheme" where
  "install_isr intr handler s =
     (if 0 < intr \<and> intr < 256 then s\<lparr>isr_routines := (isr_routines s)[unat intr := handler]\<rparr> else s)"

definition uninstall_isr :: "u32 \<Rightarrow> 'a intr_scheme \<Rightarrow> 'a intr_scheme" where
  "uninstall_isr intr s =
     (if 0 < intr \<and> intr < 256 then s\<lparr>isr_routines := (isr_routines s)[unat intr := 0]\<rparr> else s)"

definition routine :: "u32 \<Rightarrow> 'a intr_scheme \<Rightarrow> u32 res" where
  "routine n s = (if unat n < 256 then Inr (isr_routines s ! unat n)
                  else Inl (Undefined ''isr_routines out of bounds''))"

definition fault_handler :: "'a handler_code \<Rightarrow> isr_regs \<Rightarrow> 'a intr_scheme \<Rightarrow> (isr_regs \<times> 'a intr_scheme) res" where
  "fault_handler call r s =
     bind_res (routine (int_no r) s) (\<lambda>handler.
       if handler \<noteq> 0
       then bind_res (call handler r s) (\<lambda>(ret, r, s).
         if ret \<noteq> 0 then panics (mem s) ''Handler @ 0x%08x returned 0x%08x (FAILED)'' [VInt handler, VInt ret]
         else Inr (r, s))
       else if int_no r < 32
       then panics (mem s) ''%s: 0x%02x (errno %d)''
              [VStr (exception_messages ! unat (int_no r)), VInt (int_no r), VInt (err_code r)]
       else panics (mem s) ''Unhandled exception (don't know what; try Google): 0x%02x (errno %d)''
              [VInt (int_no r), VInt (err_code r)])"

section \<open>Hardware interrupts\<close>

definition irq_remap :: "'a intr_scheme \<Rightarrow> 'a intr_scheme" where
  "irq_remap s = outportbs [(0x20, 0x11), (0xA0, 0x11), (0x21, 0x20), (0xA1, 0x28), (0x21, 0x04),
     (0xA1, 0x02), (0x21, 0x01), (0xA1, 0x01), (0x21, 0x0), (0xA1, 0x0)] s"

definition irqs_init :: "(nat \<Rightarrow> u32) \<Rightarrow> 'a intr_scheme \<Rightarrow> int \<times> 'a intr_scheme" where
  "irqs_init irq s =
     (1, fold (\<lambda>n. idt_set_gate (of_nat (32 + n)) (irq n) 0x08 0x8E) [0..<16] (irq_remap s))"

definition irq_handler ::
    "'a intr_scheme console_t list \<Rightarrow> 'a handler_code \<Rightarrow> isr_regs \<Rightarrow> 'a intr_scheme \<Rightarrow>
     (isr_regs \<times> 'a intr_scheme) res" where
  "irq_handler cons call r s =
     bind_res (routine (int_no r) s) (\<lambda>handler.
     bind_res
       (if handler \<noteq> 0 then bind_res (call handler r s) (\<lambda>(ret, r, s). Inr (r, s))
        else bind_res (printk cons (''Unhandled IRQ %d'' @ [CHR 0x0A]) [VInt (ISR_IRQ (int_no r))] s)
          (\<lambda>s. Inr (r, s)))
       (\<lambda>(r, s). let s = (if 40 \<le> int_no r then outportb 0xA0 0x20 s else s)
                 in Inr (r, outportb 0x20 0x20 s)))"

section \<open>The timer\<close>

definition uptime_jiffies :: "'a intr_scheme \<Rightarrow> u64" where
  "uptime_jiffies s = jiffies s"

text \<open>\<^verbatim>\<open>((int)jiffies) % 100 == 0\<close> holds of the multiples of 100, whichever way it rounds.\<close>

definition kernel_tick :: "'a intr_scheme console_t list \<Rightarrow> 'a intr_scheme \<Rightarrow> 'a intr_scheme res" where
  "kernel_tick cons s =
     (let s = s\<lparr>jiffies := jiffies s + 1\<rparr>
      in if sint (ucast (jiffies s) :: u32) mod 100 = 0 then printk cons ''.'' [] s else Inr s)"

definition timer_handler ::
    "'a intr_scheme console_t list \<Rightarrow> isr_regs \<Rightarrow> 'a intr_scheme \<Rightarrow> (u32 \<times> isr_regs \<times> 'a intr_scheme) res" where
  "timer_handler cons r s = bind_res (kernel_tick cons s) (\<lambda>s. Inr (0, r, s))"

text \<open>C's division rounds towards zero; a frequency of zero is a division by zero.\<close>

definition set_kernel_frequency :: "int \<Rightarrow> 'a intr_scheme \<Rightarrow> 'a intr_scheme res" where
  "set_kernel_frequency hz s =
     (if hz = 0 then Inl (Undefined ''division by zero'')
      else let divisor = sgn hz * (1193180 div \<bar>hz\<bar>)
           in Inr (outportbs [(0x43, 0x36), (0x40, of_int (divisor mod 256)),
                (0x40, of_int (divisor div 256))] s))"

definition timer_init :: "u32 \<Rightarrow> 'a intr_scheme \<Rightarrow> (int \<times> 'a intr_scheme) res" where
  "timer_init handler s =
     bind_res (set_kernel_frequency X86_KERNEL_FREQ s) (\<lambda>s.
       Inr (1, install_isr (IRQ_ISR 0x00) handler s))"

section \<open>Saved contexts\<close>

record jmp_buf =
  j_esp :: u32
  j_ebp :: u32
  j_eip :: u32
  j_ebx :: u32
  j_esi :: u32
  j_edi :: u32
  j_eflags :: u32

definition jmp_buf_set_stack :: "jmp_buf \<Rightarrow> u32 \<Rightarrow> jmp_buf" where
  "jmp_buf_set_stack buf stack = buf\<lparr>j_esp := stack\<rparr>"

definition jmp_buf_to_regs :: "isr_regs \<Rightarrow> jmp_buf \<Rightarrow> isr_regs" where
  "jmp_buf_to_regs r buf =
     r\<lparr>r_esp := j_esp buf, r_ebp := j_ebp buf, r_eip := j_eip buf, r_ebx := j_ebx buf,
       r_esi := j_edi buf, r_eflags := j_eflags buf\<rparr>"

section \<open>The gates\<close>

text \<open>The address the processor assembles from a gate.\<close>

definition gate_base :: "idt_entry \<Rightarrow> u32" where
  "gate_base e = push_bit 16 (ucast (base_hi e)) OR ucast (base_lo e)"

definition opens :: "idt_entry \<Rightarrow> u32 \<Rightarrow> bool" where
  "opens e base \<longleftrightarrow> gate_base e = base \<and> sel e = 0x08 \<and> always0 e = 0 \<and> idt_flags e = 0x8E"

lemma gate_base_split:
  "push_bit 16 (ucast (ucast (drop_bit 16 base AND 0xFFFF) :: u16)) OR ucast (ucast (base AND 0xFFFF) :: u16)
    = (base :: u32)"
proof (rule bit_word_eqI)
  fix n assume "n < LENGTH(32)"
  then have "n < 32" by simp
  have m: "(0xFFFF :: u32) = mask 16" by (simp add: mask_eq_exp_minus_1)
  show "bit (push_bit 16 (ucast (ucast (drop_bit 16 base AND 0xFFFF) :: u16))
      OR ucast (ucast (base AND 0xFFFF) :: u16) :: u32) n = bit base n"
    using \<open>n < 32\<close> unfolding m by (auto simp: bit_simps)
qed

lemma unat_u8_less [simp]: "unat (x :: u8) < 256"
  using unsigned_less [of x] by simp

lemma length_set_gate [simp]: "length (idt (idt_set_gate num base sl flags s)) = length (idt s)"
  by (simp add: idt_set_gate_def)

lemma set_gate_nth:
  assumes "length (idt s) = 256" "i < 256"
  shows "idt (idt_set_gate num base sl flags s) ! i =
    (if i = unat num then \<lparr>base_lo = ucast (base AND 0xFFFF), sel = sl, always0 = 0, idt_flags = flags,
         base_hi = ucast (drop_bit 16 base AND 0xFFFF)\<rparr> else idt s ! i)"
  using assms by (simp add: idt_set_gate_def nth_list_update)

lemma set_gate_opens:
  "length (idt s) = 256 \<Longrightarrow> opens (idt (idt_set_gate num base 0x08 0x8E s) ! unat num) base"
  by (simp add: set_gate_nth opens_def gate_base_def gate_base_split)

text \<open>A run of gates from \<open>a\<close> on.\<close>

lemma set_gates:
  fixes s :: "'a intr_scheme" and stub :: "nat \<Rightarrow> u32"
  assumes "length (idt s) = 256" "a + n \<le> 256"
  defines "s' \<equiv> fold (\<lambda>k. idt_set_gate (of_nat (a + k)) (stub k) 0x08 0x8E) [0..<n] s"
  shows "length (idt s') = 256 \<and> (\<forall>k < n. opens (idt s' ! (a + k)) (stub k)) \<and>
    (\<forall>i < 256. i < a \<or> a + n \<le> i \<longrightarrow> idt s' ! i = idt s ! i)"
  using assms(2) unfolding s'_def
proof (induction n)
  case 0
  then show ?case using assms(1) by simp
next
  case (Suc n)
  define s1 where "s1 = fold (\<lambda>k. idt_set_gate (of_nat (a + k)) (stub k) 0x08 0x8E) [0..<n] s"
  have IH: "length (idt s1) = 256" "\<forall>k < n. opens (idt s1 ! (a + k)) (stub k)"
    "\<forall>i < 256. i < a \<or> a + n \<le> i \<longrightarrow> idt s1 ! i = idt s ! i"
    using Suc by (simp_all add: s1_def)
  have u: "unat (of_nat (a + n) :: u8) = a + n"
    using Suc.prems by (intro unat_of_nat_small) simp
  have st: "fold (\<lambda>k. idt_set_gate (of_nat (a + k)) (stub k) 0x08 0x8E) [0..<Suc n] s
      = idt_set_gate (of_nat (a + n)) (stub n) 0x08 0x8E s1"
    by (simp add: s1_def)
  have g: "opens (idt (idt_set_gate (of_nat (a + n)) (stub n) 0x08 0x8E s1) ! (a + n)) (stub n)"
    using set_gate_opens [OF IH(1), of "of_nat (a + n)"] u by simp
  show ?case
    unfolding st
    using IH g u Suc.prems by (auto simp: set_gate_nth less_Suc_eq simp del: of_nat_add)
qed

text \<open>The rest of the state is left alone.\<close>

lemma set_gates_fields:
  "isr_routines (fold (\<lambda>k. idt_set_gate (f k) (g k) 0x08 0x8E) ks s) = isr_routines s"
  "port_out (fold (\<lambda>k. idt_set_gate (f k) (g k) 0x08 0x8E) ks s) = port_out s"
  "idtr (fold (\<lambda>k. idt_set_gate (f k) (g k) 0x08 0x8E) ks s) = idtr s"
  by (induction ks arbitrary: s) (simp_all add: idt_set_gate_def)

text \<open>After the three features have started, all 48 interrupts have their stub.\<close>

lemma interrupt_gates:
  fixes s :: "'a intr_scheme" and isr irq :: "nat \<Rightarrow> u32"
  defines "s' \<equiv> snd (irqs_init irq (snd (isrs_init isr (snd (idt_init s)))))"
  shows "length (idt s') = 256 \<and> (\<forall>n < 32. opens (idt s' ! n) (isr n)) \<and>
    (\<forall>n < 16. opens (idt s' ! (32 + n)) (irq n)) \<and> (\<forall>n. 48 \<le> n \<longrightarrow> n < 256 \<longrightarrow> idt s' ! n = null_gate) \<and>
    idtr s' = \<lparr>idt_limit = 2047, idt_base = idt_at s\<rparr>"
proof -
  define s0 where "s0 = snd (idt_init s)"
  have 0: "idt s0 = replicate 256 null_gate" "idtr s0 = \<lparr>idt_limit = 2047, idt_base = idt_at s\<rparr>"
    by (simp_all add: s0_def idt_init_def Let_def)
  define s1 where "s1 = snd (isrs_init isr s0)"
  have 1: "length (idt s1) = 256 \<and> (\<forall>k < 32. opens (idt s1 ! k) (isr k)) \<and>
      (\<forall>i < 256. 32 \<le> i \<longrightarrow> idt s1 ! i = null_gate)"
    using set_gates [of s0 0 32 isr] 0 by (simp add: s1_def isrs_init_def del: upt_rec_numeral)
  have p: "idt (irq_remap s1) = idt s1" "idtr (irq_remap s1) = idtr s1"
    by (simp_all add: irq_remap_def outportbs_eq)
  have 2: "length (idt s') = 256 \<and> (\<forall>k < 16. opens (idt s' ! (32 + k)) (irq k)) \<and>
      (\<forall>i < 256. i < 32 \<or> 48 \<le> i \<longrightarrow> idt s' ! i = idt s1 ! i)"
    using set_gates [of "irq_remap s1" 32 16 irq] 1 p
    by (simp add: s'_def s1_def [symmetric] s0_def [symmetric] irqs_init_def del: upt_rec_numeral of_nat_add)
  have 3: "idtr s' = idtr s0"
    using p set_gates_fields(3) [of "\<lambda>k. of_nat (32 + k)" irq "[0..<16]" "irq_remap s1"]
      set_gates_fields(3) [of of_nat isr "[0..<32]" s0]
    by (simp add: s'_def s1_def isrs_init_def irqs_init_def s0_def [symmetric] del: upt_rec_numeral of_nat_add)
  show ?thesis using 0 1 2 3 by simp
qed

section \<open>Handlers\<close>

lemma install_isr_routine:
  assumes "length (isr_routines s) = 256" "0 < n" "n < 256"
  shows "routine n (install_isr n h s) = Inr h"
    and "m \<noteq> n \<Longrightarrow> routine m (install_isr n h s) = routine m s"
    and "routine n (uninstall_isr n s) = Inr 0"
  using assms
  by (auto simp: routine_def install_isr_def uninstall_isr_def word_less_nat_alt nth_list_update
      word_unat_eq_iff)

text \<open>
  An interrupt whose handler returns is acknowledged: at the master always, last, and before
  that at the slave when it came from there.
\<close>

definition eoi :: "u32 \<Rightarrow> (u16 \<times> u8) list" where
  "eoi n = (if 40 \<le> n then [(0xA0, 0x20)] else []) @ [(0x20, 0x20)]"

lemma irq_handler_called:
  assumes "routine (int_no r) s = Inr h" "h \<noteq> 0" "call h r s = Inr (ret, r', s')"
  shows "irq_handler cons call r s = Inr (r', s'\<lparr>port_out := port_out s' @ eoi (int_no r')\<rparr>)"
  using assms by (simp add: irq_handler_def outportb_def eoi_def)

lemma fault_handler_unhandled:
  assumes "routine (int_no r) s = Inr 0"
  shows "\<exists>e. fault_handler call r s = Inl e"
  using assms
  by (cases "fault_handler call r s")
    (auto simp: fault_handler_def panics_def bind_res_eq_Inr split: if_splits)

section \<open>Time\<close>

text \<open>The divisor the timer chip assembles from the two bytes, low byte first.\<close>

definition pit_divisor :: "(u16 \<times> u8) list \<Rightarrow> nat" where
  "pit_divisor out =
     (case rev out of (p, hi) # (q, lo) # _ \<Rightarrow> unat hi * 256 + unat lo | _ \<Rightarrow> 0)"

lemma set_kernel_frequency_divisor:
  assumes "0 < hz"
  shows "\<exists>s'. set_kernel_frequency hz s = Inr s' \<and>
    pit_divisor (port_out s') = nat (1193180 div hz) mod 65536"
proof -
  define d where "d = 1193180 div hz"
  have d: "0 \<le> d" using assms by (simp add: d_def pos_imp_zdiv_nonneg_iff)
  have lo: "unat (of_int (d mod 256) :: u8) = nat (d mod 256)"
    by (simp add: unsigned_of_int take_bit_eq_mod)
  have hi: "unat (of_int (d div 256) :: u8) = nat (d div 256 mod 256)"
    by (simp add: unsigned_of_int take_bit_eq_mod)
  have "nat d mod 65536 = nat (d mod 65536)" using d by (simp add: nat_mod_distrib)
  also have "d mod 65536 = d div 256 mod 256 * 256 + d mod 256"
    using zmod_zmult2_eq [of 256 d 256] by simp
  also have "nat (d div 256 mod 256 * 256 + d mod 256) = nat (d div 256 mod 256) * 256 + nat (d mod 256)"
    by (simp add: nat_add_distrib nat_mult_distrib)
  finally show ?thesis
    using assms lo hi
    by (simp add: set_kernel_frequency_def d_def [symmetric] outportbs_eq pit_divisor_def)
qed

end
