(* ===== verification/Pmm.thy ===== *)
theory Pmm
  imports Page_Allocator Locking Interrupts
begin

text \<open>
  The physical memory manager of \<^verbatim>\<open>pmm.c\<close>: three buddy allocators (below 1MB, below 4GB, the
  rest) behind one spinlock, and the early allocator that serves pages before they exist.
  \<^verbatim>\<open>init_physical_memory\<close>, which needs the virtual memory manager, is in theory \<open>Pmm_Init\<close>.
\<close>

section \<open>State\<close>

definition PMM_INIT_START :: nat where "PMM_INIT_START = 0"
definition PMM_INIT_EARLY :: nat where "PMM_INIT_EARLY = 1"
definition PMM_INIT_FULL :: nat where "PMM_INIT_FULL = 2"

record pmm = intr +
  pmm_init_stage :: nat
  early_ranges :: "range list"
  early_nranges :: nat
  early_max_extent :: u64
  pmm_lock :: spinlock
  allocators :: "buddy list"

definition allocator :: "'a pmm_scheme \<Rightarrow> nat \<Rightarrow> buddy res" where
  "allocator s req =
     (if req < length (allocators s) then Inr (allocators s ! req)
      else Inl (Undefined ''allocators[req]''))"

section \<open>Operations\<close>

text \<open>
  \<^verbatim>\<open>split_range\<close> returns the part of the range below \<open>loc\<close> and leaves the part above it in the
  argument. In its first branch the returned \<^verbatim>\<open>start\<close> is not initialised; no caller reads it
  when the returned extent is 0, and the model leaves it 0.
\<close>

definition split_range :: "range \<Rightarrow> u64 \<Rightarrow> range \<times> range" where
  "split_range r loc =
     (if start r \<ge> loc then (\<lparr>start = 0, extent = 0\<rparr>, r)
      else if start r + extent r \<le> loc then (r, r\<lparr>extent := 0\<rparr>)
      else let ret = \<lparr>start = start r, extent = loc - start r\<rparr>
           in (ret, r\<lparr>start := loc, extent := extent r - extent ret\<rparr>))"

definition alloc_pages :: "'a pmm_scheme \<Rightarrow> nat \<Rightarrow> u32 \<Rightarrow> (u64 \<times> 'a pmm_scheme) res" where
  "alloc_pages s req num =
     bind_res (spinlock_acquire s (pmm_lock s)) (\<lambda>(s1, l).
     let s2 = s1\<lparr>pmm_lock := l\<rparr> in
     bind_res (allocator s2 req) (\<lambda>bd.
     bind_res (buddy_alloc bd (mem s2) (num * get_page_size)) (\<lambda>(val1, m1).
     bind_res (if val1 = NOT 0 \<and> req = PAGE_REQ_NONE
               then bind_res (allocator s2 PAGE_REQ_UNDER4GB) (\<lambda>bd2.
                    buddy_alloc bd2 m1 (num * get_page_size))
               else Inr (val1, m1)) (\<lambda>(val2, m2).
     bind_res (spinlock_release (s2\<lparr>mem := m2\<rparr>) (pmm_lock s2)) (\<lambda>(s3, l3).
       Inr (val2, s3\<lparr>pmm_lock := l3\<rparr>))))))"

definition alloc_page :: "'a pmm_scheme \<Rightarrow> nat \<Rightarrow> (u64 \<times> 'a pmm_scheme) res" where
  "alloc_page s req = alloc_pages s req 1"

definition free_pages_req :: "u64 \<Rightarrow> nat" where
  "free_pages_req pages =
     (if pages < 0x100000 then PAGE_REQ_UNDER1MB
      else if pages < 0x100000000 then PAGE_REQ_UNDER4GB
      else PAGE_REQ_NONE)"

definition pmm_free_pages :: "'a pmm_scheme \<Rightarrow> u64 \<Rightarrow> u32 \<Rightarrow> (int \<times> 'a pmm_scheme) res" where
  "pmm_free_pages s pages num =
     bind_res (spinlock_acquire s (pmm_lock s)) (\<lambda>(s1, l).
     let s2 = s1\<lparr>pmm_lock := l\<rparr> in
     bind_res (allocator s2 (free_pages_req pages)) (\<lambda>bd.
     bind_res (buddy_free bd (mem s2) pages (num * get_page_size)) (\<lambda>m1.
     bind_res (spinlock_release (s2\<lparr>mem := m1\<rparr>) (pmm_lock s2)) (\<lambda>(s3, l3).
       Inr (0, s3\<lparr>pmm_lock := l3\<rparr>)))))"

definition free_page :: "'a pmm_scheme \<Rightarrow> u64 \<Rightarrow> (int \<times> 'a pmm_scheme) res" where
  "free_page s page = pmm_free_pages s page 1"

definition early_usable :: "range \<Rightarrow> bool" where
  "early_usable r \<longleftrightarrow>
     \<not> (extent r \<le> 0x1000 \<or> start r \<ge> 0x100000000) \<and> \<not> start r < 0x100000"

definition early_alloc_page :: "'a pmm_scheme \<Rightarrow> (u64 \<times> 'a pmm_scheme) res" where
  "early_alloc_page s =
     bind_res (assert_res (pmm_init_stage s = PMM_INIT_EARLY)
       ''pmm_init_stage == PMM_INIT_EARLY'') (\<lambda>_.
     case find (\<lambda>i. early_usable (early_ranges s ! i)) [0..<early_nranges s] of
       Some i \<Rightarrow>
         let r = early_ranges s ! i;
             ret = ucast (start r) :: u32
         in Inr (ucast ret, s\<lparr>early_ranges := (early_ranges s)
              [i := r\<lparr>start := start r + 0x1000, extent := extent r - 0x1000\<rparr>]\<rparr>)
     | None \<Rightarrow> Inl (Panic ''early_alloc_page couldn't find any pages to use!''))"

definition init_physical_memory_early ::
    "'a pmm_scheme \<Rightarrow> range list \<Rightarrow> nat \<Rightarrow> u64 \<Rightarrow> (int \<times> 'a pmm_scheme) res" where
  "init_physical_memory_early s ranges nranges ext =
     bind_res (assert_res (pmm_init_stage s = PMM_INIT_START)
       ''init_physical_memory_early() called twice!'') (\<lambda>_.
     bind_res (assert_res (nranges < 64) ''Too many ranges!'') (\<lambda>_.
     if length ranges < nranges then Inl (Undefined ''memcpy(early_ranges, ranges, ...)'')
     else Inr (0, s\<lparr>early_ranges := take nranges ranges @ drop nranges (early_ranges s),
                    early_nranges := nranges,
                    early_max_extent := ext,
                    pmm_init_stage := PMM_INIT_EARLY\<rparr>)))"

section \<open>Page frames\<close>

text \<open>
  Physical pages are numbered by frame: address divided by 4096. \<open>frames_of a i\<close> are the
  \<open>2 ^ i\<close> frames from address \<open>a\<close> on.
\<close>

definition frames_of :: "u64 \<Rightarrow> nat \<Rightarrow> nat set" where
  "frames_of a i = {unat a div 4096 ..< unat a div 4096 + 2 ^ i}"

definition free_frames :: "buddy \<Rightarrow> mem \<Rightarrow> nat set" where
  "free_frames bd m = (+) (unat (buddy_start bd) div 4096) ` buddy_free_pages bd m"

definition zone_frames :: "buddy \<Rightarrow> nat set" where
  "zone_frames bd = {unat (buddy_start bd) div 4096 ..< unat (buddy_start bd) div 4096 + buddy_pages bd}"

lemma frames_of_block:
  assumes "buddy_wf bd" "(j + 1) * 2 ^ i \<le> buddy_pages bd"
  shows "(+) (unat (buddy_start bd) div 4096) ` blk i j = frames_of (page_addr bd (j * 2 ^ i)) i"
proof -
  have "j * 2 ^ i \<le> buddy_pages bd" using assms(2) by simp
  then have "unat (page_addr bd (j * 2 ^ i)) div 4096 = unat (buddy_start bd) div 4096 + j * 2 ^ i"
    using unat_page_addr [OF assms(1), of "j * 2 ^ i"] by simp
  then show ?thesis by (simp add: frames_of_def blk_eq ac_simps)
qed

lemma free_frames_zone: "buddy_inv bd m \<Longrightarrow> free_frames bd m \<subseteq> zone_frames bd"
  using ba.avail_span [of bd m] by (auto simp: free_frames_def zone_frames_def managed_def buddy_inv_def)

lemma buddy_blocks_cong:
  assumes "buddy_wf bd" "\<And>a. a \<in> buddy_storage bd \<Longrightarrow> m' a = m a"
  shows "buddy_blocks bd m' = buddy_blocks bd m"
proof
  fix i
  show "buddy_blocks bd m' i = buddy_blocks bd m i"
  proof (cases "i \<le> top_order")
    case True
    then have "bm_bits m' (orders bd ! i) (order_len bd i) = bm_bits m (orders bd ! i) (order_len bd i)"
      using assms(2) order_len_less [OF assms(1)]
      by (intro bm_bits_storage) (auto simp: buddy_storage_def order_storage_def)
    then show ?thesis by (simp add: buddy_blocks_def)
  qed (simp add: buddy_blocks_def)
qed

text \<open>A write elsewhere leaves an allocator alone.\<close>

lemma buddy_frame:
  assumes "same_outside A m m'" "A \<inter> buddy_storage bd = {}"
  shows "buddy_inv bd m' \<longleftrightarrow> buddy_inv bd m"
    and "buddy_wf bd \<Longrightarrow> free_frames bd m' = free_frames bd m"
    and "buddy_wf bd \<Longrightarrow> buddy_free_pages bd m' = buddy_free_pages bd m"
proof -
  have eq: "buddy_blocks bd m' = buddy_blocks bd m" if "buddy_wf bd"
    using assms that by (intro buddy_blocks_cong) (auto dest: same_outsideD)
  then show "buddy_inv bd m' \<longleftrightarrow> buddy_inv bd m" by (auto simp: buddy_inv_def)
  show "free_frames bd m' = free_frames bd m" "buddy_free_pages bd m' = buddy_free_pages bd m"
    if "buddy_wf bd"
    using eq [OF that] by (simp_all add: free_frames_def buddy_free_pages_def)
qed

lemma buddy_alloc_frames:
  assumes "buddy_inv bd m" "log2_roundup sz = Inr (12 + i)" "i \<le> top_order"
  obtains (ok) a m' where "buddy_alloc bd m sz = Inr (a, m')" "a \<noteq> NOT 0" "unat a mod 4096 = 0"
      "frames_of a i \<subseteq> free_frames bd m" "buddy_inv bd m'"
      "free_frames bd m' = free_frames bd m - frames_of a i" "same_outside (buddy_storage bd) m m'"
      "\<exists>j. a = page_addr bd (j * 2 ^ i) \<and> (j + 1) * 2 ^ i \<le> buddy_pages bd"
    | (full) "buddy_alloc bd m sz = Inr (NOT 0, m)" "\<forall>j. \<not> blk i j \<subseteq> buddy_free_pages bd m"
  using buddy_alloc_spec [OF assms]
proof
  assume "(\<forall>j. \<not> blk i j \<subseteq> buddy_free_pages bd m) \<and> buddy_alloc bd m sz = Inr (NOT 0, m)"
  then show ?thesis using full by blast
next
  assume "\<exists>j m'. buddy_alloc bd m sz = Inr (page_addr bd (j * 2 ^ i), m') \<and>
        (j + 1) * 2 ^ i \<le> buddy_pages bd \<and> blk i j \<subseteq> buddy_free_pages bd m \<and>
        buddy_inv bd m' \<and> buddy_free_pages bd m' = buddy_free_pages bd m - blk i j \<and>
        same_outside (buddy_storage bd) m m'"
  then obtain j m' where *: "buddy_alloc bd m sz = Inr (page_addr bd (j * 2 ^ i), m')"
      "(j + 1) * 2 ^ i \<le> buddy_pages bd" "blk i j \<subseteq> buddy_free_pages bd m"
      "buddy_inv bd m'" "buddy_free_pages bd m' = buddy_free_pages bd m - blk i j"
      "same_outside (buddy_storage bd) m m'" by blast
  have wf: "buddy_wf bd" using assms(1) by (simp add: buddy_inv_def)
  have lt: "j * 2 ^ i < buddy_pages bd"
    using *(2) less_le_trans [of "j * 2 ^ i" "(j + 1) * 2 ^ i"] by simp
  note frames = frames_of_block [OF wf *(2)]
  show ?thesis
  proof (rule ok [OF *(1)])
    show "page_addr bd (j * 2 ^ i) \<noteq> NOT 0" by (rule place_span [OF wf lt])
    show "unat (page_addr bd (j * 2 ^ i)) mod 4096 = 0"
      using unat_page_addr [OF wf less_imp_le [OF lt]] buddy_wfD(3) [OF wf] by simp
    show "frames_of (page_addr bd (j * 2 ^ i)) i \<subseteq> free_frames bd m"
      using *(3) unfolding frames [symmetric] free_frames_def by blast
    show "free_frames bd m' = free_frames bd m - frames_of (page_addr bd (j * 2 ^ i)) i"
      unfolding frames [symmetric] free_frames_def *(5) by (auto simp: inj_image_mem_iff)
    show "\<exists>k. page_addr bd (j * 2 ^ i) = page_addr bd (k * 2 ^ i) \<and> (k + 1) * 2 ^ i \<le> buddy_pages bd"
      using *(2) by blast
  qed (fact *)+
qed

lemma buddy_free_frames:
  assumes "buddy_inv bd m" "log2_roundup sz = Inr (12 + i)" "i \<le> top_order"
    "(j + 1) * 2 ^ i \<le> buddy_pages bd" "a = page_addr bd (j * 2 ^ i)"
    "frames_of a i \<inter> free_frames bd m = {}"
  obtains m' where "buddy_free bd m a sz = Inr m'" "buddy_inv bd m'"
    "free_frames bd m' = free_frames bd m \<union> frames_of a i" "same_outside (buddy_storage bd) m m'"
proof -
  have wf: "buddy_wf bd" using assms(1) by (simp add: buddy_inv_def)
  note frames = frames_of_block [OF wf assms(4)]
  have "blk i j \<inter> buddy_free_pages bd m = {}"
    using assms(6) unfolding assms(5) frames [symmetric] free_frames_def by auto
  with buddy_free_block [OF assms(1-4)] obtain m' where
    *: "buddy_free bd m a sz = Inr m'" "buddy_inv bd m'"
      "buddy_free_pages bd m' = buddy_free_pages bd m \<union> blk i j" "same_outside (buddy_storage bd) m m'"
    unfolding assms(5) by blast
  have "free_frames bd m' = free_frames bd m \<union> frames_of a i"
    unfolding free_frames_def assms(5) frames [symmetric] *(3) by auto
  with * that show ?thesis by blast
qed

section \<open>The invariant of the physical memory manager\<close>

text \<open>Where each of the three allocators' regions lies.\<close>

definition zone_ok :: "nat \<Rightarrow> buddy \<Rightarrow> bool" where
  "zone_ok req bd \<longleftrightarrow>
     (if req = PAGE_REQ_UNDER1MB
      then buddy_start bd = 0 \<and> unat (buddy_size bd) \<le> 0x100000
      else if req = PAGE_REQ_UNDER4GB
      then buddy_start bd = 0x100000 \<and> 0x100000 + unat (buddy_size bd) \<le> 0x100000000
      else buddy_start bd = 0x100000000)"

definition pmm_storage :: "'a pmm_scheme \<Rightarrow> u32 set" where
  "pmm_storage s = (\<Union>r < 3. buddy_storage (allocators s ! r))"

definition pmm_inv :: "'a pmm_scheme \<Rightarrow> bool" where
  "pmm_inv s \<longleftrightarrow> unlocked (pmm_lock s) \<and> length (allocators s) = 3 \<and>
     (\<forall>r < 3. buddy_inv (allocators s ! r) (mem s) \<and> zone_ok r (allocators s ! r)) \<and>
     (\<forall>r < 3. \<forall>q < 3. r \<noteq> q \<longrightarrow>
        buddy_storage (allocators s ! r) \<inter> buddy_storage (allocators s ! q) = {})"

definition pmm_frames :: "'a pmm_scheme \<Rightarrow> nat set" where
  "pmm_frames s = (\<Union>r < 3. free_frames (allocators s ! r) (mem s))"

text \<open>What an operation of the physical memory manager may change.\<close>

definition pmm_step :: "'a pmm_scheme \<Rightarrow> 'a pmm_scheme \<Rightarrow> bool" where
  "pmm_step s s' \<longleftrightarrow> same_outside (pmm_storage s) (mem s) (mem s') \<and>
     s' = s\<lparr>mem := mem s', pmm_lock := pmm_lock s'\<rparr>"

lemma pmm_invD:
  assumes "pmm_inv s"
  shows "unlocked (pmm_lock s)" "length (allocators s) = 3"
    "r < 3 \<Longrightarrow> buddy_inv (allocators s ! r) (mem s)" "r < 3 \<Longrightarrow> buddy_wf (allocators s ! r)"
    "r < 3 \<Longrightarrow> zone_ok r (allocators s ! r)"
    "r < 3 \<Longrightarrow> q < 3 \<Longrightarrow> r \<noteq> q \<Longrightarrow>
      buddy_storage (allocators s ! r) \<inter> buddy_storage (allocators s ! q) = {}"
  using assms by (auto simp: pmm_inv_def buddy_inv_def)

lemmas page_req_defs = PAGE_REQ_NONE_def PAGE_REQ_UNDER1MB_def PAGE_REQ_UNDER4GB_def

lemma less_3_cases: "(r :: nat) < 3 \<Longrightarrow> r = 0 \<or> r = 1 \<or> r = 2"
  by auto

lemma zone_frames_bounds:
  assumes "zone_ok r bd" "r < 3" "f \<in> zone_frames bd"
  shows "r = 1 \<Longrightarrow> f < 256" "r = 2 \<Longrightarrow> 256 \<le> f \<and> f < 1048576" "r = 0 \<Longrightarrow> 1048576 \<le> f"
proof -
  have "unat (buddy_size bd) \<le> 0x100000 \<Longrightarrow> buddy_pages bd \<le> 256"
    "0x100000 + unat (buddy_size bd) \<le> 0x100000000 \<Longrightarrow> buddy_pages bd \<le> 1048320"
    using div_le_mono [where m = "unat (buddy_size bd)" and n = "0x100000" and k = 4096]
      div_le_mono [where m = "unat (buddy_size bd)" and n = "0xFFF00000" and k = 4096] by (simp_all add: buddy_pages_def)
  with assms show "r = 1 \<Longrightarrow> f < 256" "r = 2 \<Longrightarrow> 256 \<le> f \<and> f < 1048576" "r = 0 \<Longrightarrow> 1048576 \<le> f"
    by (auto simp: zone_ok_def zone_frames_def page_req_defs)
qed

lemma zones_disjoint:
  assumes "zone_ok r bd" "zone_ok q bd'" "r < 3" "q < 3" "r \<noteq> q"
  shows "zone_frames bd \<inter> zone_frames bd' = {}"
proof -
  have "False" if f: "f \<in> zone_frames bd" "f \<in> zone_frames bd'" for f
    using zone_frames_bounds [OF assms(1,3) f(1)] zone_frames_bounds [OF assms(2,4) f(2)]
      less_3_cases [OF assms(3)] less_3_cases [OF assms(4)] assms(5) by auto
  then show ?thesis by blast
qed

lemma pmm_step_refl: "pmm_step s s"
  by (simp add: pmm_step_def)

lemma pmm_step_trans: "pmm_step s s' \<Longrightarrow> pmm_step s' s'' \<Longrightarrow> pmm_step s s''"
  unfolding pmm_step_def pmm_storage_def
  by (cases s; cases s'; cases s'') (auto intro: same_outside_trans)

text \<open>One allocator changes: the invariant and the other allocators' frames stay.\<close>

lemma pmm_update:
  assumes "pmm_inv s" "r < 3" "buddy_inv (allocators s ! r) m" "unlocked l"
    "same_outside (buddy_storage (allocators s ! r)) (mem s) m"
  defines "s' \<equiv> s\<lparr>mem := m, pmm_lock := l\<rparr>"
  shows "pmm_inv s'" "pmm_step s s'"
    "pmm_frames s' = pmm_frames s - free_frames (allocators s ! r) (mem s) \<union>
      free_frames (allocators s ! r) m"
proof -
  note inv = pmm_invD [OF assms(1)]
  have others: "buddy_inv (allocators s ! q) m" "free_frames (allocators s ! q) m =
      free_frames (allocators s ! q) (mem s)" if "q < 3" "q \<noteq> r" for q
    using buddy_frame [OF assms(5) inv(6) [OF assms(2), of q]] inv(3,4) [of q] that by auto
  show "pmm_inv s'"
  proof -
    have "buddy_inv (allocators s ! q) m" if "q < 3" for q
      using others(1) [OF that] assms(3) by (cases "q = r") simp_all
    with assms(4) inv(2,5,6) show ?thesis unfolding pmm_inv_def s'_def by simp
  qed
  show "pmm_step s s'"
    using assms(2,5) by (auto simp: pmm_step_def s'_def pmm_storage_def intro: same_outside_mono)
  have "free_frames (allocators s ! q) (mem s) \<inter> free_frames (allocators s ! r) (mem s) = {}"
    if "q < 3" "q \<noteq> r" for q
    using free_frames_zone [OF inv(3) [of q]] free_frames_zone [OF inv(3) [of r]] that assms(2)
      zones_disjoint [OF inv(5) inv(5), of q r] by blast
  then show "pmm_frames s' = pmm_frames s - free_frames (allocators s ! r) (mem s) \<union>
      free_frames (allocators s ! r) m"
    using assms(2) others(2) unfolding pmm_frames_def s'_def
    by (subst UN_replace [where r = r and F = "\<lambda>r. free_frames (allocators s ! r) (mem s)"]) auto
qed

section \<open>Allocation\<close>

lemma allocator_eq: "pmm_inv s \<Longrightarrow> req < 3 \<Longrightarrow> allocator s req = Inr (allocators s ! req)"
  by (simp add: allocator_def pmm_invD)

lemma allocator_upd [simp]:
  "allocator (s\<lparr>eflags := e\<rparr>) req = allocator s req" "allocator (s\<lparr>pmm_lock := l\<rparr>) req = allocator s req"
  by (simp_all add: allocator_def)

text \<open>The work of \<^verbatim>\<open>alloc_pages\<close> and \<^verbatim>\<open>free_pages\<close> between acquiring and releasing the lock.\<close>

lemma alloc_pages_eq:
  assumes "unlocked (pmm_lock s)"
  shows "alloc_pages s req num =
    bind_res (allocator s req) (\<lambda>bd.
    bind_res (buddy_alloc bd (mem s) (num * get_page_size)) (\<lambda>(val1, m1).
    bind_res (if val1 = NOT 0 \<and> req = PAGE_REQ_NONE
              then bind_res (allocator s PAGE_REQ_UNDER4GB) (\<lambda>bd2.
                   buddy_alloc bd2 m1 (num * get_page_size))
              else Inr (val1, m1)) (\<lambda>(val2, m2).
      Inr (val2, s\<lparr>mem := m2, pmm_lock := left_lock s (pmm_lock s)\<rparr>))))"
  using assms
  by (simp add: alloc_pages_def disable_interrupts_def Let_def cong: if_cong)

lemma pmm_free_pages_eq:
  assumes "unlocked (pmm_lock s)"
  shows "pmm_free_pages s pages num =
    bind_res (allocator s (free_pages_req pages)) (\<lambda>bd.
    bind_res (buddy_free bd (mem s) pages (num * get_page_size)) (\<lambda>m1.
      Inr (0, s\<lparr>mem := m1, pmm_lock := left_lock s (pmm_lock s)\<rparr>)))"
  using assms
  by (simp add: pmm_free_pages_def disable_interrupts_def Let_def cong: if_cong)
definition req_met :: "nat \<Rightarrow> nat set \<Rightarrow> bool" where
  "req_met req F \<longleftrightarrow>
     (req = PAGE_REQ_UNDER1MB \<longrightarrow> F \<subseteq> {..<256}) \<and>
     (req = PAGE_REQ_UNDER4GB \<longrightarrow> F \<subseteq> {256..<1048576}) \<and>
     (req = PAGE_REQ_NONE \<longrightarrow> F \<subseteq> {256..})"

lemma req_met_zone:
  assumes "zone_ok r bd" "r < 3" "F \<subseteq> zone_frames bd"
    "req = r \<or> req = PAGE_REQ_NONE \<and> r = PAGE_REQ_UNDER4GB"
  shows "req_met req F"
proof -
  have "(r = 1 \<longrightarrow> f < 256) \<and> (r = 2 \<longrightarrow> 256 \<le> f \<and> f < 1048576) \<and> (r = 0 \<longrightarrow> 1048576 \<le> f)"
    if "f \<in> F" for f
    using zone_frames_bounds [OF assms(1,2), of f] that assms(3) by blast
  with assms(4) show ?thesis by (fastforce simp: req_met_def page_req_defs)
qed

lemma free_pages_req_zone:
  assumes "zone_ok r bd" "r < 3" "unat a div 4096 \<in> zone_frames bd"
  shows "free_pages_req a = r"
proof -
  have "a < 0x100000 \<longleftrightarrow> unat a div 4096 < 256" "a < 0x100000000 \<longleftrightarrow> unat a div 4096 < 1048576"
    by (simp_all add: word_less_nat_alt div_less_iff_less_mult)
  with zone_frames_bounds [OF assms] less_3_cases [OF assms(2)] show ?thesis
    by (auto simp: free_pages_req_def page_req_defs)
qed

text \<open>\<open>pmm_block s a i\<close>: \<open>a\<close> is a block of order \<open>i\<close> of the allocator that \<^verbatim>\<open>free_pages\<close> picks.\<close>

definition pmm_block :: "'a pmm_scheme \<Rightarrow> u64 \<Rightarrow> nat \<Rightarrow> bool" where
  "pmm_block s a i \<longleftrightarrow> (\<exists>j. let bd = allocators s ! free_pages_req a in
     a = page_addr bd (j * 2 ^ i) \<and> (j + 1) * 2 ^ i \<le> buddy_pages bd)"

text \<open>An allocation from allocator \<open>r\<close>, as seen from the manager.\<close>

lemma pmm_alloc_from:
  assumes "pmm_inv s" "r < 3" "log2_roundup sz = Inr (12 + i)" "i \<le> top_order"
  obtains (ok) a m' where "buddy_alloc (allocators s ! r) (mem s) sz = Inr (a, m')" "a \<noteq> NOT 0"
      "unat a mod 4096 = 0" "frames_of a i \<subseteq> pmm_frames s"
      "frames_of a i \<subseteq> zone_frames (allocators s ! r)" "pmm_block s a i"
      "\<forall>l. unlocked l \<longrightarrow> (let s' = s\<lparr>mem := m', pmm_lock := l\<rparr> in
         pmm_inv s' \<and> pmm_step s s' \<and> pmm_frames s' = pmm_frames s - frames_of a i)"
    | (full) "buddy_alloc (allocators s ! r) (mem s) sz = Inr (NOT 0, mem s)"
      "\<forall>j. \<not> blk i j \<subseteq> buddy_free_pages (allocators s ! r) (mem s)"
proof (cases rule: buddy_alloc_frames [OF pmm_invD(3) [OF assms(1,2)] assms(3,4)])
  case (1 a m')
  let ?bd = "allocators s ! r"
  have sub: "free_frames ?bd (mem s) \<subseteq> pmm_frames s" using assms(2) by (auto simp: pmm_frames_def)
  have "pmm_inv s' \<and> pmm_step s s' \<and> pmm_frames s' = pmm_frames s - frames_of a i"
    if "unlocked l" "s' = s\<lparr>mem := m', pmm_lock := l\<rparr>" for l s'
    using pmm_update [OF assms(1,2) 1(5) that(1) 1(7)] that(2) 1(4,6) sub by auto
  moreover have zone: "frames_of a i \<subseteq> zone_frames ?bd"
    using 1(4) free_frames_zone [OF pmm_invD(3) [OF assms(1,2)]] by blast
  moreover have "pmm_block s a i"
  proof -
    have "unat a div 4096 \<in> frames_of a i" by (simp add: frames_of_def)
    with zone have "free_pages_req a = r"
      using free_pages_req_zone [OF pmm_invD(5) [OF assms(1,2)] assms(2)] by blast
    with 1(8) show ?thesis by (simp add: pmm_block_def Let_def)
  qed
  ultimately show ?thesis using 1(1-4) ok sub by (auto simp: Let_def)
next
  case 2
  then show ?thesis by (rule full)
qed

lemma pmm_relock:
  assumes "pmm_inv s" "unlocked l"
  shows "pmm_inv (s\<lparr>pmm_lock := l\<rparr>)" "pmm_step s (s\<lparr>pmm_lock := l\<rparr>)"
    "pmm_frames (s\<lparr>pmm_lock := l\<rparr>) = pmm_frames s"
  using assms by (simp_all add: pmm_inv_def pmm_step_def pmm_frames_def)

lemma alloc_pages_spec:
  assumes "pmm_inv s" "req < 3" "log2_roundup (num * get_page_size) = Inr (12 + i)" "i \<le> top_order"
  obtains (ok) a s' where "alloc_pages s req num = Inr (a, s')" "a \<noteq> NOT 0" "unat a mod 4096 = 0"
      "pmm_inv s'" "pmm_step s s'" "frames_of a i \<subseteq> pmm_frames s"
      "pmm_frames s' = pmm_frames s - frames_of a i" "req_met req (frames_of a i)" "pmm_block s a i"
    | (full) s' where "alloc_pages s req num = Inr (NOT 0, s')" "pmm_inv s'" "pmm_step s s'"
      "pmm_frames s' = pmm_frames s" "mem s' = mem s"
      "\<forall>j. \<not> blk i j \<subseteq> buddy_free_pages (allocators s ! req) (mem s)"
      "req = PAGE_REQ_NONE \<Longrightarrow> \<forall>j. \<not> blk i j \<subseteq> buddy_free_pages (allocators s ! PAGE_REQ_UNDER4GB) (mem s)"
proof -
  note inv = pmm_invD [OF assms(1)]
  let ?l = "left_lock s (pmm_lock s)"
  note eq = alloc_pages_eq [OF inv(1)] allocator_eq [OF assms(1)]
  show ?thesis
  proof (cases rule: pmm_alloc_from [OF assms(1-4)])
    case (1 a m')
    then have "alloc_pages s req num = Inr (a, s\<lparr>mem := m', pmm_lock := ?l\<rparr>)"
      using assms(2) by (simp add: eq)
    with 1 ok req_met_zone [OF inv(5) [OF assms(2)] assms(2) 1(5), of req]
    show ?thesis by (simp add: Let_def)
  next
    case 2
    show ?thesis
    proof (cases "req = PAGE_REQ_NONE")
      case False
      then have "alloc_pages s req num = Inr (NOT 0, s\<lparr>pmm_lock := ?l\<rparr>)"
        using assms(2) 2 by (simp add: eq)
      with full 2(2) pmm_relock [OF assms(1)] False show ?thesis by simp
    next
      case True
      have u4: "PAGE_REQ_UNDER4GB < 3" by (simp add: page_req_defs)
      show ?thesis
      proof (cases rule: pmm_alloc_from [OF assms(1) u4 assms(3,4)])
        case (1 a m')
        then have "alloc_pages s req num = Inr (a, s\<lparr>mem := m', pmm_lock := ?l\<rparr>)"
          using assms(2) 2 True u4 by (simp add: eq cong: if_cong)
        with 1 ok True req_met_zone [OF inv(5) [OF u4] u4 1(5), of req]
        show ?thesis by (simp add: Let_def)
      next
        case b: 2
        then have "alloc_pages s req num = Inr (NOT 0, s\<lparr>pmm_lock := ?l\<rparr>)"
          using assms(2) 2 True u4 by (simp add: eq cong: if_cong)
        with full 2(2) b(2) pmm_relock [OF assms(1)] show ?thesis by simp
      qed
    qed
  qed
qed

section \<open>Release\<close>

lemma free_pages_req_less: "free_pages_req a < 3"
  by (simp add: free_pages_req_def page_req_defs)

lemma frames_of_nonempty: "frames_of a i \<noteq> {}"
  by (simp add: frames_of_def)

lemma pmm_free_pages_spec:
  assumes "pmm_inv s" "log2_roundup (num * get_page_size) = Inr (12 + i)" "i \<le> top_order"
    "pmm_block s a i" "frames_of a i \<inter> pmm_frames s = {}"
  obtains s' where "pmm_free_pages s a num = Inr (0, s')" "pmm_inv s'" "pmm_step s s'"
    "pmm_frames s' = pmm_frames s \<union> frames_of a i"
proof -
  let ?r = "free_pages_req a"
  let ?bd = "allocators s ! ?r"
  note r = free_pages_req_less [of a]
  obtain j where j: "a = page_addr ?bd (j * 2 ^ i)" "(j + 1) * 2 ^ i \<le> buddy_pages ?bd"
    using assms(4) by (auto simp: pmm_block_def Let_def)
  have sub: "free_frames ?bd (mem s) \<subseteq> pmm_frames s" using r by (auto simp: pmm_frames_def)
  then have disj: "frames_of a i \<inter> free_frames ?bd (mem s) = {}" using assms(5) by blast
  obtain m' where m': "buddy_free ?bd (mem s) a (num * get_page_size) = Inr m'" "buddy_inv ?bd m'"
      "free_frames ?bd m' = free_frames ?bd (mem s) \<union> frames_of a i"
      "same_outside (buddy_storage ?bd) (mem s) m'"
    by (rule buddy_free_frames [OF pmm_invD(3) [OF assms(1) r] assms(2,3) j(2,1) disj])
  let ?s' = "s\<lparr>mem := m', pmm_lock := left_lock s (pmm_lock s)\<rparr>"
  have u: "unlocked (left_lock s (pmm_lock s))" by simp
  note upd = pmm_update [OF assms(1) r m'(2) u m'(4)]
  have "pmm_free_pages s a num = Inr (0, ?s')"
    using m'(1) pmm_free_pages_eq [OF pmm_invD(1) [OF assms(1)]] allocator_eq [OF assms(1) r] by simp
  moreover have "pmm_frames ?s' = pmm_frames s \<union> frames_of a i"
    using upd(3) m'(3) sub by auto
  ultimately show ?thesis using that upd(1,2) by blast
qed

lemma pmm_block_step: "pmm_step s s' \<Longrightarrow> pmm_block s' a i = pmm_block s a i"
  unfolding pmm_step_def pmm_block_def by (metis pmm.select_convs(6) pmm.surjective pmm.update_convs(5) machine.update_convs(1))

lemma alloc_free_pages:
  assumes "pmm_inv s" "req < 3" "log2_roundup (num * get_page_size) = Inr (12 + i)" "i \<le> top_order"
    "alloc_pages s req num = Inr (a, s')" "a \<noteq> NOT 0"
  shows "\<exists>s''. pmm_free_pages s' a num = Inr (0, s'') \<and> pmm_inv s'' \<and> pmm_frames s'' = pmm_frames s"
proof (cases rule: alloc_pages_spec [OF assms(1-4)])
  case (1 b t)
  then have eq: "b = a" "t = s'" using assms(5) by simp_all
  note ok = 1 [unfolded eq]
  have "pmm_block s' a i" "frames_of a i \<inter> pmm_frames s' = {}"
    using ok(7,9) pmm_block_step [OF ok(5)] by auto
  from pmm_free_pages_spec [OF ok(4) assms(3,4) this] ok(6,7) show ?thesis
    by (metis Diff_partition Un_commute)
next
  case (2 t)
  then show ?thesis using assms(5,6) by simp
qed

section \<open>Single pages\<close>

lemma log2_roundup_page: "log2_roundup (1 * get_page_size) = Inr (12 + 0)"
  using log2_roundup_exp [of 12] by (simp add: get_page_size_def)

definition pmm_managed :: "'a pmm_scheme \<Rightarrow> nat set" where
  "pmm_managed s = (\<Union>r < 3. zone_frames (allocators s ! r))"

lemma frames_of_0 [simp]: "frames_of a 0 = {unat a div 4096}"
  by (auto simp: frames_of_def)

lemma blk_0: "blk 0 j = {j}"
  by (auto simp: blk_def)

lemma alloc_page_spec:
  assumes "pmm_inv s" "req < 3"
  obtains (ok) a s' where "alloc_page s req = Inr (a, s')" "a \<noteq> NOT 0" "unat a mod 4096 = 0"
      "pmm_inv s'" "pmm_step s s'" "unat a div 4096 \<in> pmm_frames s"
      "pmm_frames s' = pmm_frames s - {unat a div 4096}" "req_met req {unat a div 4096}"
    | (full) s' where "alloc_page s req = Inr (NOT 0, s')" "pmm_inv s'" "pmm_step s s'"
      "pmm_frames s' = pmm_frames s" "free_frames (allocators s ! req) (mem s) = {}"
proof (cases rule: alloc_pages_spec [OF assms log2_roundup_page le0])
  case (1 a s')
  then show ?thesis using ok by (simp add: alloc_page_def)
next
  case (2 s')
  then show ?thesis using full by (auto simp: alloc_page_def blk_0 free_frames_def)
qed

lemma pmm_block_page:
  assumes "pmm_inv s" "unat a mod 4096 = 0" "unat a div 4096 \<in> pmm_managed s"
  shows "pmm_block s a 0"
proof -
  obtain r where r: "r < 3" "unat a div 4096 \<in> zone_frames (allocators s ! r)"
    using assms(3) by (auto simp: pmm_managed_def)
  let ?bd = "allocators s ! r"
  have req: "free_pages_req a = r" by (rule free_pages_req_zone [OF pmm_invD(5) [OF assms(1) r(1)] r])
  have wf: "buddy_wf ?bd" by (rule pmm_invD(4) [OF assms(1) r(1)])
  obtain j where j: "unat a div 4096 = unat (buddy_start ?bd) div 4096 + j" "j < buddy_pages ?bd"
    using r(2) by (auto simp: zone_frames_def le_iff_add)
  have "unat a = unat (page_addr ?bd j)"
    using unat_page_addr [OF wf, of j] j buddy_wfD(3) [OF wf] assms(2)
      div_mult_mod_eq [of "unat a" 4096] div_mult_mod_eq [of "unat (buddy_start ?bd)" 4096] by simp
  then have "a = page_addr ?bd j" by (simp add: word_unat_eq_iff)
  with j(2) show ?thesis
    unfolding pmm_block_def req Let_def by (intro exI [of _ j]) simp
qed

lemma free_page_spec:
  assumes "pmm_inv s" "unat a mod 4096 = 0" "unat a div 4096 \<in> pmm_managed s"
    "unat a div 4096 \<notin> pmm_frames s"
  obtains s' where "free_page s a = Inr (0, s')" "pmm_inv s'" "pmm_step s s'"
    "pmm_frames s' = insert (unat a div 4096) (pmm_frames s)"
  using pmm_free_pages_spec [OF assms(1) log2_roundup_page le0 pmm_block_page [OF assms(1-3)]] assms(4)
  by (auto simp: free_page_def)

section \<open>Ranges and the early allocator\<close>

definition range_bytes :: "range \<Rightarrow> nat set" where
  "range_bytes r = {unat (start r) ..< unat (start r) + unat (extent r)}"

definition range_fits :: "range \<Rightarrow> bool" where
  "range_fits r \<longleftrightarrow> unat (start r) + unat (extent r) < 18446744073709551616"

lemma unat_add_u64:
  "unat (x :: u64) + unat y < 18446744073709551616 \<Longrightarrow> unat (x + y) = unat x + unat y"
  by (simp add: unat_word_ariths)

lemma unat_sub_u64: "y \<le> x \<Longrightarrow> unat (x - y :: u64) = unat x - unat y"
  by (simp add: unat_sub)

lemma split_range_spec:
  assumes "range_fits r" "split_range r loc = (lo, hi)"
  shows "range_bytes lo = range_bytes r \<inter> {..<unat loc}" "range_bytes hi = range_bytes r \<inter> {unat loc..}"
    "range_fits lo" "range_fits hi"
proof -
  have sum: "unat (start r + extent r) = unat (start r) + unat (extent r)"
    using assms(1) by (simp add: range_fits_def unat_add_u64)
  have diff: "unat (loc - start r) = unat loc - unat (start r)" if "start r < loc"
    using that by (simp add: unat_sub_u64)
  have rest: "unat (extent r - (loc - start r)) = unat (extent r) - (unat loc - unat (start r))"
    if "start r < loc" "\<not> start r + extent r \<le> loc"
    using that sum diff by (subst unat_sub_u64) (simp_all add: word_le_nat_alt)
  show "range_bytes lo = range_bytes r \<inter> {..<unat loc}" "range_bytes hi = range_bytes r \<inter> {unat loc..}"
      "range_fits lo" "range_fits hi"
    using assms sum diff rest unfolding split_range_def range_bytes_def range_fits_def
    by (auto simp: word_le_nat_alt word_less_nat_alt not_le Let_def split: if_splits)
qed

definition early_bytes :: "'a pmm_scheme \<Rightarrow> nat set" where
  "early_bytes s = (\<Union>i < early_nranges s. range_bytes (early_ranges s ! i))"

definition early_inv :: "'a pmm_scheme \<Rightarrow> bool" where
  "early_inv s \<longleftrightarrow> pmm_init_stage s = PMM_INIT_EARLY \<and> early_nranges s \<le> length (early_ranges s) \<and>
     (\<forall>i < early_nranges s. range_fits (early_ranges s ! i)) \<and>
     (\<forall>i < early_nranges s. \<forall>j < early_nranges s. i \<noteq> j \<longrightarrow>
        range_bytes (early_ranges s ! i) \<inter> range_bytes (early_ranges s ! j) = {})"

abbreviation page_bytes :: "u64 \<Rightarrow> nat set" where
  "page_bytes a \<equiv> {unat a ..< unat a + 4096}"

lemma early_take:
  assumes "range_fits r" "early_usable r"
  defines "r' \<equiv> r\<lparr>start := start r + 0x1000, extent := extent r - 0x1000\<rparr>"
  shows "range_fits r'" "range_bytes r' = range_bytes r - page_bytes (start r)"
    "page_bytes (start r) \<subseteq> range_bytes r"
    "ucast (ucast (start r) :: u32) = start r" "0x100000 \<le> unat (start r)" "unat (start r) < 0x100000000"
proof -
  have u: "0x1000 < unat (extent r)" "unat (start r) < 0x100000000" "0x100000 \<le> unat (start r)"
    using assms(2) by (auto simp: early_usable_def word_le_nat_alt word_less_nat_alt)
  have st: "unat (start r + 0x1000) = unat (start r) + 0x1000"
    using u(2) by (subst unat_add_u64) simp_all
  have ex: "unat (extent r - 0x1000) = unat (extent r) - 0x1000"
    using u(1) by (subst unat_sub_u64) (simp_all add: word_le_nat_alt)
  show "range_fits r'" "range_bytes r' = range_bytes r - page_bytes (start r)"
      "page_bytes (start r) \<subseteq> range_bytes r"
    using assms(1) u st ex by (auto simp: range_fits_def range_bytes_def r'_def)
  show "ucast (ucast (start r) :: u32) = start r"
    using u(2) by (simp add: word_unat_eq_iff unat_ucast_small)
  show "0x100000 \<le> unat (start r)" "unat (start r) < 0x100000000" using u by simp_all
qed

lemma early_alloc_page_spec:
  assumes "early_inv s"
  obtains (ok) a s' where "early_alloc_page s = Inr (a, s')" "early_inv s'"
      "page_bytes a \<subseteq> early_bytes s" "early_bytes s' = early_bytes s - page_bytes a"
      "0x100000 \<le> unat a" "unat a < 0x100000000"
      "s' = s\<lparr>early_ranges := early_ranges s'\<rparr>"
    | (none) "early_alloc_page s = Inl (Panic ''early_alloc_page couldn't find any pages to use!'')"
      "\<forall>i < early_nranges s. \<not> early_usable (early_ranges s ! i)"
proof (cases "find (\<lambda>i. early_usable (early_ranges s ! i)) [0..<early_nranges s]")
  case None
  then have "\<forall>i < early_nranges s. \<not> early_usable (early_ranges s ! i)"
    by (auto simp: find_None_iff)
  then show ?thesis using none assms None by (simp add: early_alloc_page_def early_inv_def)
next
  case (Some i)
  let ?r = "early_ranges s ! i"
  let ?r' = "?r\<lparr>start := start ?r + 0x1000, extent := extent ?r - 0x1000\<rparr>"
  let ?s' = "s\<lparr>early_ranges := (early_ranges s)[i := ?r']\<rparr>"
  have i: "i < early_nranges s" "early_usable ?r" using find_SomeD [OF Some] by auto
  have inv: "pmm_init_stage s = PMM_INIT_EARLY" "i < length (early_ranges s)"
      "\<And>k. k < early_nranges s \<Longrightarrow> range_fits (early_ranges s ! k)"
      "\<And>j k. j < early_nranges s \<Longrightarrow> k < early_nranges s \<Longrightarrow> j \<noteq> k \<Longrightarrow>
        range_bytes (early_ranges s ! j) \<inter> range_bytes (early_ranges s ! k) = {}"
    using assms i(1) by (auto simp: early_inv_def)
  note t = early_take [OF inv(3) [OF i(1)] i(2)]
  have nth: "(early_ranges s)[i := ?r'] ! k = (if k = i then ?r' else early_ranges s ! k)" for k
    using inv(2) by simp
  have "early_alloc_page s = Inr (start ?r, ?s')"
    using Some inv(1) t(4) by (simp add: early_alloc_page_def Let_def)
  moreover have "early_inv ?s'"
  proof -
    have "range_fits ((early_ranges s)[i := ?r'] ! k)" if "k < early_nranges s" for k
      using inv(3) [OF that] t(1) by (simp only: nth split: if_split) simp
    moreover have "range_bytes ((early_ranges s)[i := ?r'] ! j) \<inter>
        range_bytes ((early_ranges s)[i := ?r'] ! k) = {}"
      if "j < early_nranges s" "k < early_nranges s" "j \<noteq> k" for j k
      using inv(4) [OF that] that(3) unfolding nth by (auto simp only: t(2) split: if_splits)
    ultimately show ?thesis using assms unfolding early_inv_def by simp
  qed
  moreover have "early_bytes ?s' = early_bytes s - page_bytes (start ?r)"
  proof -
    have "early_bytes ?s' = early_bytes s - range_bytes ?r \<union> range_bytes ?r'"
      unfolding early_bytes_def using i(1) inv(4) [OF _ i(1)]
      by (subst UN_replace [where r = i and F = "\<lambda>i. range_bytes (early_ranges s ! i)"])
        (auto simp: nth inv(2))
    moreover have "range_bytes ?r \<subseteq> early_bytes s" using i(1) by (auto simp: early_bytes_def)
    ultimately show ?thesis using t(2,3) by blast
  qed
  moreover have "page_bytes (start ?r) \<subseteq> early_bytes s"
    using t(3) i(1) by (auto simp: early_bytes_def)
  ultimately show ?thesis using ok t(5,6) by simp
qed

section \<open>The frames below 4GB\<close>

text \<open>What \<^verbatim>\<open>alloc_page(PAGE_REQ_UNDER4GB)\<close> can return.\<close>

definition low_frames :: "'a pmm_scheme \<Rightarrow> nat set" where
  "low_frames s = pmm_frames s \<inter> {256..<1048576}"

lemma low_frames_zone:
  assumes "pmm_inv s"
  shows "free_frames (allocators s ! PAGE_REQ_UNDER4GB) (mem s) = low_frames s"
proof -
  have u4: "PAGE_REQ_UNDER4GB = 2" by (simp add: page_req_defs)
  have z: "f \<in> zone_frames (allocators s ! r)" if "f \<in> free_frames (allocators s ! r) (mem s)" "r < 3" for f r
    using free_frames_zone [OF pmm_invD(3) [OF assms that(2)]] that(1) by blast
  have b: "r = 2 \<longleftrightarrow> 256 \<le> f \<and> f < 1048576" if "f \<in> free_frames (allocators s ! r) (mem s)" "r < 3" for f r
    using zone_frames_bounds [OF pmm_invD(5) [OF assms that(2)] that(2) z [OF that]] less_3_cases [OF that(2)]
    by (auto simp: page_req_defs)
  show ?thesis unfolding low_frames_def pmm_frames_def u4 using b by fastforce
qed

lemma low_frames_free:
  "pmm_inv s \<Longrightarrow> f \<in> low_frames s \<Longrightarrow> f \<in> free_frames (allocators s ! PAGE_REQ_UNDER4GB) (mem s)"
  by (simp add: low_frames_zone)

lemma finite_low_frames: "finite (low_frames s)"
  by (simp add: low_frames_def)

end
