(* ===== verification/Vmm.thy ===== *)
theory Vmm
  imports Pmm
begin

text \<open>
  The virtual memory manager of \<^verbatim>\<open>arch/x86/vmm.c\<close>: page directories and tables in physical
  memory, reached through the recursive page-directory window, and the operations that map,
  unmap and look up pages.
\<close>

section \<open>The page walk\<close>

text \<open>
  Bits of page directory and page table entries (\<^verbatim>\<open>include/x86/hal.h\<close>).
\<close>

definition X86_PRESENT :: u32 where "X86_PRESENT = 0x1"
definition X86_WRITE :: u32 where "X86_WRITE = 0x2"
definition X86_USER :: u32 where "X86_USER = 0x4"
definition X86_EXECUTE :: u32 where "X86_EXECUTE = 0x200"
definition X86_COW :: u32 where "X86_COW = 0x400"
definition CR0_WP :: u32 where "CR0_WP = 0x10000"

text \<open>
  The processor's two-level translation of 4KB pages: \<^verbatim>\<open>CR3\<close> points to the page directory, a
  directory entry to a page table, a table entry to the page. In kernel mode a read-only
  entry stops a write only when \<^verbatim>\<open>CR0.WP\<close> is set.
\<close>

definition entry_addr :: "u32 \<Rightarrow> nat \<Rightarrow> u32" where
  "entry_addr base i = (base AND 0xFFFFF000) + of_nat (4 * i)"

definition pd_index :: "u32 \<Rightarrow> nat" where
  "pd_index v = unat v div 4194304"

definition pt_index :: "u32 \<Rightarrow> nat" where
  "pt_index v = unat v div 4096 mod 1024"

definition mmu_translate :: "'a machine_scheme \<Rightarrow> bool \<Rightarrow> u32 \<Rightarrow> u32 option" where
  "mmu_translate s wr v =
     (let pde = ptmem s (entry_addr (cr3 s) (pd_index v)) in
      if pde AND X86_PRESENT = 0 then None
      else let pte = ptmem s (entry_addr pde (pt_index v)) in
      if pte AND X86_PRESENT = 0 then None
      else if wr \<and> cr0 s AND CR0_WP \<noteq> 0 \<and> (pde AND X86_WRITE = 0 \<or> pte AND X86_WRITE = 0) then None
      else Some ((pte AND 0xFFFFF000) + (v AND 0xFFF)))"

text \<open>
  A 32-bit access to physical memory through a virtual address. A translation that fails is a
  page fault, and the handler \<^verbatim>\<open>page_fault\<close> panics.
\<close>

definition page_fault :: "u32 \<Rightarrow> fault" where
  "page_fault addr = Panic ''*** Page fault''"

definition vread :: "'a machine_scheme \<Rightarrow> u32 \<Rightarrow> u32 res" where
  "vread s v = (case mmu_translate s False v of
     None \<Rightarrow> Inl (page_fault v) | Some a \<Rightarrow> Inr (ptmem s a))"

definition vwrite :: "'a machine_scheme \<Rightarrow> u32 \<Rightarrow> u32 \<Rightarrow> 'a machine_scheme res" where
  "vwrite s v x = (case mmu_translate s True v of
     None \<Rightarrow> Inl (page_fault v) | Some a \<Rightarrow> Inr (s\<lparr>ptmem := (ptmem s)(a := x)\<rparr>))"

text \<open>\<^verbatim>\<open>memset(p, 0, 4 * n)\<close> on a dword-aligned pointer into page tables.\<close>

fun vclear :: "'a machine_scheme \<Rightarrow> u32 \<Rightarrow> nat \<Rightarrow> 'a machine_scheme res" where
  "vclear s v 0 = Inr s"
| "vclear s v (Suc n) = bind_res (vwrite s v 0) (\<lambda>s1. vclear s1 (v + 4) n)"

section \<open>State\<close>

record address_space =
  directory :: u32
  as_lock :: spinlock

record vmm = pmm +
  current :: "address_space option"
  global_vmm_lock :: spinlock

definition get_current_address_space :: "'a vmm_scheme \<Rightarrow> address_space option" where
  "get_current_address_space s = current s"

definition switch_address_space :: "'a vmm_scheme \<Rightarrow> address_space \<Rightarrow> int \<times> 'a vmm_scheme" where
  "switch_address_space s dest = (0, write_cr3 (directory dest OR X86_PRESENT OR X86_WRITE) s)"

text \<open>\<^verbatim>\<open>spinlock_acquire(&current->lock)\<close> and its release.\<close>

definition acquire_current :: "'a vmm_scheme \<Rightarrow> 'a vmm_scheme res" where
  "acquire_current s = (case current s of
     None \<Rightarrow> Inl (Undefined ''current->lock'')
   | Some a \<Rightarrow> bind_res (spinlock_acquire s (as_lock a)) (\<lambda>(s1, l).
       Inr (s1\<lparr>current := Some (a\<lparr>as_lock := l\<rparr>)\<rparr>)))"

definition release_current :: "'a vmm_scheme \<Rightarrow> 'a vmm_scheme res" where
  "release_current s = (case current s of
     None \<Rightarrow> Inl (Undefined ''current->lock'')
   | Some a \<Rightarrow> bind_res (spinlock_release s (as_lock a)) (\<lambda>(s1, l).
       Inr (s1\<lparr>current := Some (a\<lparr>as_lock := l\<rparr>)\<rparr>)))"

section \<open>Flags\<close>

definition from_x86_flags :: "u32 \<Rightarrow> u32" where
  "from_x86_flags flags =
     (if flags AND X86_WRITE \<noteq> 0 then PAGE_WRITE else 0) OR
     (if flags AND X86_EXECUTE \<noteq> 0 then PAGE_EXECUTE else 0) OR
     (if flags AND X86_USER \<noteq> 0 then PAGE_USER else 0) OR
     (if flags AND X86_COW \<noteq> 0 then PAGE_COW else 0)"

definition to_x86_flags :: "u32 \<Rightarrow> u32" where
  "to_x86_flags flags =
     (if flags AND PAGE_WRITE \<noteq> 0 then X86_WRITE else 0) OR
     (if flags AND PAGE_USER \<noteq> 0 then X86_USER else 0) OR
     (if flags AND PAGE_EXECUTE \<noteq> 0 then X86_EXECUTE else 0) OR
     (if flags AND PAGE_COW \<noteq> 0 then X86_COW else 0)"

section \<open>The recursive page directory\<close>

definition RPDT_BASE :: u32 where "RPDT_BASE = 1023"
definition RPDT_BASE2 :: u32 where "RPDT_BASE2 = 1022"
definition PAGE_SIZE :: u32 where "PAGE_SIZE = 4096"
definition PAGE_TABLE_SIZE :: u32 where "PAGE_TABLE_SIZE = PAGE_SIZE * 1024"

definition PAGE_TABLE_ENTRY :: "u32 \<Rightarrow> u32 \<Rightarrow> u32" where
  "PAGE_TABLE_ENTRY base v = base * PAGE_TABLE_SIZE + drop_bit 12 v * 4"

definition PAGE_DIR_ENTRY :: "u32 \<Rightarrow> u32 \<Rightarrow> u32" where
  "PAGE_DIR_ENTRY base v = base * PAGE_TABLE_SIZE + RPDT_BASE * PAGE_SIZE + drop_bit 22 v * 4"

section \<open>Mapping\<close>

definition ensure_page_table_mapped :: "'a vmm_scheme \<Rightarrow> u32 \<Rightarrow> 'a vmm_scheme res" where
  "ensure_page_table_mapped s v =
     bind_res (vread s (PAGE_DIR_ENTRY RPDT_BASE v)) (\<lambda>pde.
     if pde AND X86_PRESENT = 0
     then bind_res (alloc_page s PAGE_REQ_UNDER4GB) (\<lambda>(p, s1).
          if p = NOT 0 then Inl (Panic ''alloc_page failed in map()!'')
          else bind_res (vwrite s1 (PAGE_DIR_ENTRY RPDT_BASE v)
                 (ucast p OR X86_PRESENT OR X86_WRITE OR X86_USER)) (\<lambda>s2.
               vclear s2 (PAGE_TABLE_ENTRY RPDT_BASE (push_bit 22 (drop_bit 22 v))) 1024))
     else Inr s)"

definition map_one_page :: "'a vmm_scheme \<Rightarrow> u32 \<Rightarrow> u64 \<Rightarrow> u32 \<Rightarrow> (int \<times> 'a vmm_scheme) res" where
  "map_one_page s v p flags =
     bind_res (acquire_current s) (\<lambda>s1.
     let flags = (if flags AND PAGE_COW \<noteq> 0 then flags AND NOT PAGE_WRITE else flags) in
     bind_res (ensure_page_table_mapped s1 v) (\<lambda>s2.
     bind_res (vread s2 (PAGE_TABLE_ENTRY RPDT_BASE v)) (\<lambda>pte.
     if pte AND X86_PRESENT \<noteq> 0 then Inl (Panic ''Tried to map a page that was already mapped!'')
     else bind_res (vwrite s2 (PAGE_TABLE_ENTRY RPDT_BASE v)
            (ucast (p AND 0xFFFFF000) OR to_x86_flags flags OR X86_PRESENT)) (\<lambda>s3.
          bind_res (release_current s3) (\<lambda>s4. Inr (0, s4))))))"

text \<open>
  The loop of \<^verbatim>\<open>map\<close>, from \<open>i\<close> with \<open>n\<close> pages to go. \<^verbatim>\<open>i*0x1000\<close> is a product of \<^verbatim>\<open>int\<close>s.
\<close>

fun map_loop :: "'a vmm_scheme \<Rightarrow> u32 \<Rightarrow> u64 \<Rightarrow> u32 \<Rightarrow> nat \<Rightarrow> nat \<Rightarrow> (int \<times> 'a vmm_scheme) res" where
  "map_loop s v p flags i 0 = Inr (0, s)"
| "map_loop s v p flags i (Suc n) =
     (if i * 0x1000 \<ge> 2147483648 then Inl (Undefined ''i*0x1000'')
      else bind_res (map_one_page s (v + of_nat (i * 0x1000)) (p + of_nat (i * 0x1000)) flags)
        (\<lambda>(r, s1). if r = -1 then Inr (-1, s1) else map_loop s1 v p flags (Suc i) n))"

definition map_pages :: "'a vmm_scheme \<Rightarrow> u32 \<Rightarrow> u64 \<Rightarrow> int \<Rightarrow> u32 \<Rightarrow> (int \<times> 'a vmm_scheme) res" where
  "map_pages s v p num_pages flags = map_loop s v p flags 0 (nat num_pages)"

definition unmap_one_page :: "'a vmm_scheme \<Rightarrow> u32 \<Rightarrow> (int \<times> 'a vmm_scheme) res" where
  "unmap_one_page s v =
     bind_res (acquire_current s) (\<lambda>s1.
     bind_res (vread s1 (PAGE_DIR_ENTRY RPDT_BASE v)) (\<lambda>pde.
     if pde AND X86_PRESENT = 0
     then Inl (Panic ''Tried to unmap a page that doesn't have its table mapped!'')
     else let pte = PAGE_TABLE_ENTRY RPDT_BASE v in
     bind_res (vread s1 pte) (\<lambda>x.
     if x AND X86_PRESENT = 0 then Inl (Panic ''Tried to unmap a page that isn't mapped!'')
     else bind_res (vwrite s1 pte 0) (\<lambda>s2.
          bind_res (release_current s2) (\<lambda>s3. Inr (0, s3))))))"

fun unmap_loop :: "'a vmm_scheme \<Rightarrow> u32 \<Rightarrow> nat \<Rightarrow> nat \<Rightarrow> (int \<times> 'a vmm_scheme) res" where
  "unmap_loop s v i 0 = Inr (0, s)"
| "unmap_loop s v i (Suc n) =
     (if i * 0x1000 \<ge> 2147483648 then Inl (Undefined ''i*0x1000'')
      else bind_res (unmap_one_page s (v + of_nat (i * 0x1000)))
        (\<lambda>(r, s1). if r = -1 then Inr (-1, s1) else unmap_loop s1 v (Suc i) n))"

definition unmap_pages :: "'a vmm_scheme \<Rightarrow> u32 \<Rightarrow> int \<Rightarrow> (int \<times> 'a vmm_scheme) res" where
  "unmap_pages s v num_pages = unmap_loop s v 0 (nat num_pages)"

section \<open>Looking mappings up\<close>

text \<open>
  \<^verbatim>\<open>get_mapping\<close> returns the page and, through its \<^verbatim>\<open>flags\<close> argument, the flags: the second
  component, \<open>None\<close> when the caller's variable is not written.
\<close>

definition get_mapping :: "'a machine_scheme \<Rightarrow> u32 \<Rightarrow> (u64 \<times> u32 option) res" where
  "get_mapping s v =
     bind_res (vread s (PAGE_DIR_ENTRY RPDT_BASE v)) (\<lambda>pde.
     if pde AND X86_PRESENT = 0 then Inr (NOT 0, None)
     else bind_res (vread s (PAGE_TABLE_ENTRY RPDT_BASE v)) (\<lambda>pte.
     if pte AND X86_PRESENT = 0 then Inr (NOT 0, None)
     else Inr (ucast (pte AND 0xFFFFF000), Some (from_x86_flags (pte AND 0xFFF)))))"

definition is_mapped :: "'a machine_scheme \<Rightarrow> u32 \<Rightarrow> bool res" where
  "is_mapped s v = bind_res (get_mapping s v) (\<lambda>(p, flags). Inr (p \<noteq> NOT 0))"

function iterate_mappings :: "'a machine_scheme \<Rightarrow> u32 \<Rightarrow> u32 res" where
  "iterate_mappings s v =
     (if v < 0xFFFFF000
      then bind_res (is_mapped s (v + 0x1000)) (\<lambda>b.
           if b then Inr (v + 0x1000) else iterate_mappings s (v + 0x1000))
      else Inr (NOT 0))"
  by pat_completeness auto
termination
proof (relation "measure (\<lambda>(s, v). 4294967296 - unat v)", goal_cases)
  case (2 s v b)
  then have "unat v < 0xFFFFF000" by (simp add: word_less_nat_alt)
  then show ?case by (simp add: unat_word_ariths)
qed simp

declare iterate_mappings.simps [simp del]

end
