(* ===== verification/Vmm_Correct.thy ===== *)
theory Vmm_Correct
  imports Vmm
begin

text \<open>
  Correctness of the virtual memory manager: the address space as a map from page numbers to
  page table entries, the invariant of the page tables, and what mapping, unmapping and
  looking up do to that map.
\<close>

section \<open>Addresses of entries\<close>

abbreviation present :: "u32 \<Rightarrow> bool" where
  "present x \<equiv> x AND X86_PRESENT \<noteq> 0"

abbreviation writable :: "u32 \<Rightarrow> bool" where
  "writable x \<equiv> x AND X86_WRITE \<noteq> 0"

definition frame :: "u32 \<Rightarrow> nat" where
  "frame x = unat x div 4096"

definition vpn :: "u32 \<Rightarrow> nat" where
  "vpn v = unat v div 4096"

lemma frame_mask_eq: "(x :: u32) AND 0xFFFFF000 = push_bit 12 (drop_bit 12 x)"
proof -
  have "(0xFFFFF000 :: u32) = NOT (mask 12)" by (simp add: mask_eq_exp_minus_1)
  moreover have "x AND NOT (mask 12) = push_bit 12 (drop_bit 12 x)"
    by (intro bit_eqI) (auto simp: bit_simps)
  ultimately show ?thesis by simp
qed

lemma unat_frame_mask: "unat ((x :: u32) AND 0xFFFFF000) = frame x * 4096"
proof -
  have "unat (drop_bit 12 x) = frame x" by (simp only: unat_drop_bit frame_def) simp
  moreover have "frame x * 2 ^ 12 < 2 ^ 32"
    using unat_u32_less [of x] by (simp add: frame_def)
  ultimately show ?thesis by (simp only: frame_mask_eq) (subst unat_push_bit; simp)
qed

lemma frame_less: "frame x < 1048576"
  using unat_u32_less [of x] by (simp add: frame_def less_mult_imp_div_less)

lemma frame_mask [simp]: "frame (x AND 0xFFFFF000) = frame x"
  using unat_frame_mask [of x] by (simp add: frame_def)

lemma unat_entry_addr: "i < 1024 \<Longrightarrow> unat (entry_addr b i) = frame b * 4096 + 4 * i"
  using frame_less [of b] by (simp add: entry_addr_def unat_word_ariths unat_frame_mask del: of_nat_mult)

lemma entry_addr_eq:
  assumes "i < 1024" "i' < 1024"
  shows "entry_addr b i = entry_addr b' i' \<longleftrightarrow> frame b = frame b' \<and> i = i'"
proof -
  have "frame b * 4096 + 4 * i = frame b' * 4096 + 4 * i' \<longleftrightarrow> frame b = frame b' \<and> i = i'"
  proof
    assume eq: "frame b * 4096 + 4 * i = frame b' * 4096 + 4 * i'"
    then have "(frame b * 4096 + 4 * i) div 4096 = (frame b' * 4096 + 4 * i') div 4096" by simp
    then have "frame b = frame b'" using assms by simp
    with eq show "frame b = frame b' \<and> i = i'" by simp
  qed simp
  then show ?thesis using unat_entry_addr assms by (metis word_unat_eq_iff)
qed

lemma entry_addr_cong: "frame b = frame b' \<Longrightarrow> entry_addr b i = entry_addr b' i"
  unfolding entry_addr_def using unat_frame_mask by (metis word_unat_eq_iff)

lemma pd_index_less: "pd_index v < 1024"
  using unat_u32_less [of v] by (simp add: pd_index_def less_mult_imp_div_less)

lemma pt_index_less: "pt_index v < 1024"
  by (simp add: pt_index_def)

lemma vpn_div: "vpn v div 1024 = pd_index v" "vpn v mod 1024 = pt_index v"
  by (simp_all add: vpn_def pd_index_def pt_index_def flip: div_mult2_eq)

lemma vpn_less: "vpn v < 1048576"
  using unat_u32_less [of v] by (simp add: vpn_def less_mult_imp_div_less)

text \<open>The two windows as numbers.\<close>

lemma unat_PAGE_TABLE_ENTRY:
  "unat (PAGE_TABLE_ENTRY RPDT_BASE v) = 4290772992 + 4096 * pd_index v + 4 * pt_index v"
proof -
  have "unat (drop_bit 12 v) = 1024 * pd_index v + pt_index v"
    using div_mult_mod_eq [of "vpn v" 1024] unfolding vpn_div
    by (simp only: unat_drop_bit vpn_def) simp
  then have "drop_bit 12 v = of_nat (1024 * pd_index v + pt_index v)" by (metis of_nat_unat ucast_id)
  then have "PAGE_TABLE_ENTRY RPDT_BASE v = of_nat (4290772992 + 4096 * pd_index v + 4 * pt_index v)"
    by (simp add: PAGE_TABLE_ENTRY_def RPDT_BASE_def PAGE_TABLE_SIZE_def PAGE_SIZE_def)
  then show ?thesis
    using pd_index_less [of v] pt_index_less [of v] by (simp only:) (subst unat_of_nat_u32; simp)
qed

lemma unat_PAGE_DIR_ENTRY:
  "unat (PAGE_DIR_ENTRY RPDT_BASE v) = 4290772992 + 4096 * 1023 + 4 * pd_index v"
proof -
  have "unat (drop_bit 22 v) = pd_index v" by (simp only: unat_drop_bit pd_index_def) simp
  then have "drop_bit 22 v = of_nat (pd_index v)" by (metis of_nat_unat ucast_id)
  then have "PAGE_DIR_ENTRY RPDT_BASE v = of_nat (4290772992 + 4096 * 1023 + 4 * pd_index v)"
    by (simp add: PAGE_DIR_ENTRY_def RPDT_BASE_def PAGE_TABLE_SIZE_def PAGE_SIZE_def)
  then show ?thesis
    using pd_index_less [of v] by (simp only:) (subst unat_of_nat_u32; simp)
qed

text \<open>An address in the recursive window, taken apart by the processor.\<close>

lemma window_indices:
  assumes "unat a = 4290772992 + 4096 * k + 4 * e" "k < 1024" "e < 1024"
  shows "pd_index a = 1023" "pt_index a = k" "unat (a AND 0xFFF) = 4 * e"
proof -
  show "pd_index a = 1023" using assms by (simp add: pd_index_def)
  have "unat a div 4096 = 1047552 + k" using assms by simp
  then show "pt_index a = k" using assms(2) by (simp add: pt_index_def mod_add_eq [symmetric])
  have "unat a = 4 * e + 4096 * (1047552 + k)" using assms(1) by simp
  then have "unat a mod 4096 = 4 * e" using assms(3) by (simp only: mod_mult_self2) simp
  then show "unat (a AND 0xFFF) = 4 * e" by (simp add: and_fff_mod)
qed
section \<open>Page tables as the processor sees them\<close>

definition pde :: "'a machine_scheme \<Rightarrow> nat \<Rightarrow> u32" where
  "pde s k = ptmem s (entry_addr (cr3 s) k)"

definition pte :: "'a machine_scheme \<Rightarrow> nat \<Rightarrow> u32" where
  "pte s n = ptmem s (entry_addr (pde s (n div 1024)) (n mod 1024))"

text \<open>The address space as a map from virtual page numbers to page table entries.\<close>

definition lookup :: "'a machine_scheme \<Rightarrow> nat \<Rightarrow> u32 option" where
  "lookup s n =
     (if n < 1048576 \<and> present (pde s (n div 1024)) \<and> present (pte s n) then Some (pte s n) else None)"

definition rec_ok :: "'a machine_scheme \<Rightarrow> bool" where
  "rec_ok s \<longleftrightarrow> frame (pde s 1023) = frame (cr3 s) \<and> present (pde s 1023) \<and> writable (pde s 1023)"

lemma add_window_offset:
  assumes "unat (a AND 0xFFF) = 4 * e"
  shows "(x AND 0xFFFFF000) + (a AND 0xFFF) = entry_addr x e"
proof -
  have "a AND 0xFFF = of_nat (4 * e)" using assms by (metis of_nat_unat ucast_id)
  then show ?thesis by (simp add: entry_addr_def)
qed

text \<open>A window address reaches an entry of the table at directory index \<open>k\<close>.\<close>

lemma window_translate:
  assumes "rec_ok s" "unat a = 4290772992 + 4096 * k + 4 * e" "k < 1024" "e < 1024"
  shows "mmu_translate s wr a =
    (if present (pde s k) \<and> (wr \<and> cr0 s AND CR0_WP \<noteq> 0 \<longrightarrow> writable (pde s k))
     then Some (entry_addr (pde s k) e) else None)"
proof -
  note w = window_indices [OF assms(2-4)]
  have r: "present (pde s 1023)" "writable (pde s 1023)" "frame (pde s 1023) = frame (cr3 s)"
    using assms(1) by (simp_all add: rec_ok_def)
  have "entry_addr (pde s 1023) k = entry_addr (cr3 s) k" by (rule entry_addr_cong [OF r(3)])
  then show ?thesis
    unfolding mmu_translate_def w(1,2) add_window_offset [OF w(3)] pde_def [symmetric] Let_def
    using r(1,2) by (simp add: pde_def)
qed

lemma rec_okD: "rec_ok s \<Longrightarrow> present (pde s 1023)" "rec_ok s \<Longrightarrow> writable (pde s 1023)"
  "rec_ok s \<Longrightarrow> entry_addr (pde s 1023) k = entry_addr (cr3 s) k"
  by (auto simp: rec_ok_def intro: entry_addr_cong)

lemma vread_pde:
  assumes "rec_ok s"
  shows "vread s (PAGE_DIR_ENTRY RPDT_BASE v) = Inr (pde s (pd_index v))"
  using window_translate [OF assms unat_PAGE_DIR_ENTRY _ pd_index_less] rec_okD [OF assms]
  by (simp add: vread_def pde_def)

lemma vwrite_pde:
  assumes "rec_ok s"
  shows "vwrite s (PAGE_DIR_ENTRY RPDT_BASE v) x =
    Inr (s\<lparr>ptmem := (ptmem s)(entry_addr (cr3 s) (pd_index v) := x)\<rparr>)"
  using window_translate [OF assms unat_PAGE_DIR_ENTRY _ pd_index_less] rec_okD [OF assms]
  by (simp add: vwrite_def)

lemma vread_pte:
  assumes "rec_ok s" "present (pde s (pd_index v))"
  shows "vread s (PAGE_TABLE_ENTRY RPDT_BASE v) = Inr (pte s (vpn v))"
  using window_translate [OF assms(1) unat_PAGE_TABLE_ENTRY pd_index_less pt_index_less] assms(2)
  by (simp add: vread_def pte_def vpn_div)

lemma vwrite_window:
  assumes "rec_ok s" "unat a = 4290772992 + 4096 * k + 4 * e" "k < 1024" "e < 1024"
    "present (pde s k)" "writable (pde s k)"
  shows "vwrite s a x = Inr (s\<lparr>ptmem := (ptmem s)(entry_addr (pde s k) e := x)\<rparr>)"
  using window_translate [OF assms(1-4)] assms(5,6) by (simp add: vwrite_def)

lemma vwrite_pte:
  assumes "rec_ok s" "present (pde s (pd_index v))" "writable (pde s (pd_index v))"
  shows "vwrite s (PAGE_TABLE_ENTRY RPDT_BASE v) x =
    Inr (s\<lparr>ptmem := (ptmem s)(entry_addr (pde s (pd_index v)) (pt_index v) := x)\<rparr>)"
  by (rule vwrite_window [OF assms(1) unat_PAGE_TABLE_ENTRY pd_index_less pt_index_less assms(2,3)])

text \<open>Clearing the entries from \<open>e\<close> on of a table that is not the directory.\<close>

lemma pde_table_write:
  assumes "k < 1024" "e < 1024" "frame b \<noteq> frame (cr3 s)"
  shows "pde (s\<lparr>ptmem := (ptmem s)(entry_addr b e := x)\<rparr>) k = pde s k"
  using assms by (simp add: pde_def entry_addr_eq)

lemma rec_ok_table_write:
  assumes "rec_ok s" "e < 1024" "frame b \<noteq> frame (cr3 s)"
  shows "rec_ok (s\<lparr>ptmem := (ptmem s)(entry_addr b e := x)\<rparr>)"
  using assms pde_table_write [of 1023 e b s x] by (simp add: rec_ok_def)

lemma vclear_window:
  assumes "rec_ok s" "unat a = 4290772992 + 4096 * k + 4 * e" "k < 1023" "e + n \<le> 1024"
    "present (pde s k)" "writable (pde s k)" "frame (pde s k) \<noteq> frame (cr3 s)"
  shows "vclear s a n =
    Inr (s\<lparr>ptmem := (\<lambda>x. if x \<in> entry_addr (pde s k) ` {e..<e + n} then 0 else ptmem s x)\<rparr>)"
  using assms
proof (induction n arbitrary: s a e)
  case 0
  then show ?case by simp
next
  case (Suc n)
  let ?s = "s\<lparr>ptmem := (ptmem s)(entry_addr (pde s k) e := 0)\<rparr>"
  have e: "e < 1024" "k < 1024" using Suc.prems(3,4) by simp_all
  have w: "vwrite s a 0 = Inr ?s"
    by (rule vwrite_window [OF Suc.prems(1,2) e(2,1) Suc.prems(5,6)])
  have same: "pde ?s k = pde s k" by (rule pde_table_write [OF e(2,1) Suc.prems(7)])
  have "rec_ok ?s" by (rule rec_ok_table_write [OF Suc.prems(1) e(1) Suc.prems(7)])
  moreover have "unat (a + 4) = 4290772992 + 4096 * k + 4 * Suc e"
    using Suc.prems(2,3) e(1) by (simp add: unat_word_ariths)
  ultimately have "vclear ?s (a + 4) n = Inr (?s\<lparr>ptmem :=
      (\<lambda>x. if x \<in> entry_addr (pde s k) ` {Suc e..<Suc e + n} then 0 else ptmem ?s x)\<rparr>)"
    using Suc.IH [of ?s "a + 4" "Suc e"] Suc.prems(3-7) same by simp
  moreover have "(\<lambda>x. if x \<in> entry_addr (pde s k) ` {Suc e..<Suc e + n} then 0 else ptmem ?s x) =
      (\<lambda>x. if x \<in> entry_addr (pde s k) ` {e..<e + Suc n} then 0 else ptmem s x)"
    by (auto simp: fun_eq_iff image_iff Suc_le_eq le_less)
  ultimately show ?case by (simp add: w)
qed

section \<open>The invariant of the page tables\<close>

text \<open>
  The first-stage loader enters one table at two places of the directory, for the first 4MB and
  for the 4MB from 3GB on. Every other table below the window is entered once.
\<close>

definition own_table :: "nat \<Rightarrow> bool" where
  "own_table k \<longleftrightarrow> k < 1023 \<and> k \<noteq> 0 \<and> k \<noteq> 768"

definition tables_ok :: "'a machine_scheme \<Rightarrow> bool" where
  "tables_ok s \<longleftrightarrow> rec_ok s \<and>
     (\<forall>k < 1023. present (pde s k) \<longrightarrow> writable (pde s k) \<and> frame (pde s k) \<noteq> frame (cr3 s)) \<and>
     (\<forall>k < 1023. \<forall>j < 1023. own_table j \<longrightarrow> k \<noteq> j \<longrightarrow> present (pde s k) \<longrightarrow> present (pde s j) \<longrightarrow>
        frame (pde s k) \<noteq> frame (pde s j))"

definition own_pages :: "nat \<Rightarrow> nat \<Rightarrow> bool" where
  "own_pages a n \<longleftrightarrow> (\<forall>j < n. own_table ((a + j) div 1024))"

lemma own_pages_kernel: "787456 \<le> a \<Longrightarrow> a + n \<le> 1047552 \<Longrightarrow> own_pages a n"
  by (auto simp: own_pages_def own_table_def)

lemma own_table_less: "own_table k \<Longrightarrow> k < 1023"
  by (simp add: own_table_def)

definition table_frames :: "'a machine_scheme \<Rightarrow> nat set" where
  "table_frames s = insert (frame (cr3 s)) ((\<lambda>k. frame (pde s k)) ` {k. k < 1023 \<and> present (pde s k)})"

lemma tables_okD:
  assumes "tables_ok s"
  shows "rec_ok s"
    "k < 1023 \<Longrightarrow> present (pde s k) \<Longrightarrow> writable (pde s k)"
    "k < 1023 \<Longrightarrow> present (pde s k) \<Longrightarrow> frame (pde s k) \<noteq> frame (cr3 s)"
    "k < 1023 \<Longrightarrow> own_table j \<Longrightarrow> k \<noteq> j \<Longrightarrow> present (pde s k) \<Longrightarrow> present (pde s j) \<Longrightarrow>
      frame (pde s k) \<noteq> frame (pde s j)"
  using assms unfolding tables_ok_def by (blast dest: own_table_less)+

text \<open>The page tables depend on \<^verbatim>\<open>CR3\<close> and physical memory only.\<close>

lemma pde_cong: "ptmem s = ptmem t \<Longrightarrow> cr3 s = cr3 t \<Longrightarrow> pde s = pde t"
  by (simp add: pde_def fun_eq_iff)

lemma vm_cong:
  assumes "ptmem s = ptmem t" "cr3 s = cr3 t"
  shows "tables_ok s = tables_ok t" "table_frames s = table_frames t" "lookup s = lookup t"
    "rec_ok s = rec_ok t" "pte s = pte t"
  using assms pde_cong [OF assms]
  by (simp_all add: tables_ok_def table_frames_def lookup_def rec_ok_def pte_def fun_eq_iff)

text \<open>Writing one entry of a present table changes one page of the address space.\<close>

lemma write_pte_lookup:
  fixes x :: u32
  assumes "tables_ok s" "own_table (n div 1024)" "present (pde s (n div 1024))"
  defines "s' \<equiv> s\<lparr>ptmem := (ptmem s)(entry_addr (pde s (n div 1024)) (n mod 1024) := x)\<rparr>"
  shows "tables_ok s'" "table_frames s' = table_frames s"
    "lookup s' = (lookup s)(n := if present x then Some x else None)"
proof -
  let ?b = "pde s (n div 1024)"
  note ok = tables_okD [OF assms(1)] and n1 = own_table_less [OF assms(2)]
  have b: "frame ?b \<noteq> frame (cr3 s)" using ok(3) [OF n1 assms(3)] .
  have pde: "pde s' k = pde s k" if "k < 1024" for k
    unfolding s'_def using b that by (intro pde_table_write) simp_all
  have cr3: "cr3 s' = cr3 s" by (simp add: s'_def)
  show "tables_ok s'" using assms(1) by (simp add: tables_ok_def rec_ok_def pde cr3)
  have "{k. k < 1023 \<and> present (pde s' k)} = {k. k < 1023 \<and> present (pde s k)}"
    by (auto simp: pde)
  then show "table_frames s' = table_frames s"
    by (auto simp: table_frames_def pde cr3)
  have pte: "pte s' m = (if m = n then x else pte s m)"
    if "m < 1048576" "present (pde s (m div 1024))" for m
  proof -
    have m: "m div 1024 < 1024" using that(1) by simp
    have "entry_addr (pde s (m div 1024)) (m mod 1024) = entry_addr ?b (n mod 1024) \<longleftrightarrow> m = n"
    proof -
      have "frame (pde s (m div 1024)) = frame ?b \<longleftrightarrow> m div 1024 = n div 1024"
      proof (cases "m div 1024 = 1023")
        case True
        then show ?thesis using ok(1) b n1 by (simp add: rec_ok_def)
      next
        case False
        then show ?thesis using ok(4) [OF _ assms(2) _ that(2) assms(3)] m by auto
      qed
      moreover have "m = n \<longleftrightarrow> m div 1024 = n div 1024 \<and> m mod 1024 = n mod 1024"
        by (metis div_mult_mod_eq)
      ultimately show ?thesis by (simp add: entry_addr_eq)
    qed
    then show ?thesis unfolding pte_def pde [OF m] by (simp add: s'_def pte_def)
  qed
  have n: "n < 1048576" using n1 by simp
  show "lookup s' = (lookup s)(n := if present x then Some x else None)"
  proof
    fix m
    show "lookup s' m = ((lookup s)(n := if present x then Some x else None)) m"
    proof (cases "m < 1048576 \<and> present (pde s (m div 1024))")
      case True
      then have "pde s' (m div 1024) = pde s (m div 1024)" by (intro pde) auto
      with True pte [of m] show ?thesis by (cases "m = n") (simp_all add: lookup_def)
    next
      case False
      then have "m \<noteq> n" using n assms(3) by auto
      have "m < 1048576 \<Longrightarrow> pde s' (m div 1024) = pde s (m div 1024)" by (intro pde) simp
      with False \<open>m \<noteq> n\<close> show ?thesis by (auto simp: lookup_def)
    qed
  qed
qed

text \<open>A new, cleared table changes nothing in the address space.\<close>

lemma new_table_lookup:
  assumes "tables_ok s" "k < 1023" "\<not> present (pde s k)" "frame x \<notin> table_frames s"
    "present x" "writable x"
    "\<And>a. ptmem s' a = (if a \<in> entry_addr x ` {0..<1024} then 0
       else if a = entry_addr (cr3 s) k then x else ptmem s a)"
    "cr3 s' = cr3 s"
  shows "tables_ok s'" "table_frames s' = insert (frame x) (table_frames s)" 
    "lookup s' = (lookup s)(1047552 + k \<mapsto> x)" "pde s' k = x"
proof -
  note ok = tables_okD [OF assms(1)]
  have fr: "frame x \<noteq> frame (cr3 s)"
    "\<And>j. j < 1023 \<Longrightarrow> present (pde s j) \<Longrightarrow> frame x \<noteq> frame (pde s j)"
    using assms(4) by (auto simp: table_frames_def)
  have pde: "pde s' j = (if j = k then x else pde s j)" if "j < 1024" for j
    unfolding pde_def assms(7,8) using that assms(2) fr(1) by (auto simp: entry_addr_eq)
  then show "pde s' k = x" using assms(2) by simp
  show "tables_ok s'"
    using assms(1,2,5,6) fr(1) fr(2) [THEN not_sym] fr(2)
    unfolding tables_ok_def rec_ok_def by (simp add: pde assms(8))
  have "{j. j < 1023 \<and> present (pde s' j)} = insert k {j. j < 1023 \<and> present (pde s j)}"
    using assms(2,5) by (auto simp: pde split: if_splits)
  moreover have "frame (pde s' j) = (if j = k then frame x else frame (pde s j))" if "j < 1023" for j
    using that by (simp add: pde)
  ultimately show "table_frames s' = insert (frame x) (table_frames s)"
    using assms(2,3) unfolding table_frames_def assms(8) by (auto simp: image_iff)
  show "lookup s' = (lookup s)(1047552 + k \<mapsto> x)"
  proof
    fix m
    have top: "m div 1024 = 1023 \<and> m mod 1024 = k \<longleftrightarrow> m = 1047552 + k"
    proof
      assume "m div 1024 = 1023 \<and> m mod 1024 = k"
      then show "m = 1047552 + k" using div_mult_mod_eq [of m 1024] by simp
    next
      assume "m = 1047552 + k"
      then have "m = k + 1024 * 1023" by simp
      then show "m div 1024 = 1023 \<and> m mod 1024 = k"
        using assms(2) by (simp only: mod_mult_self2 div_mult_self2) simp
    qed
    consider "1048576 \<le> m" | "m < 1048576" "m div 1024 = k" | "m < 1048576" "m div 1024 \<noteq> k" by linarith
    then show "lookup s' m = ((lookup s)(1047552 + k \<mapsto> x)) m"
    proof cases
      case 2
      then have "pte s' m = 0" using assms(2) by (simp add: pte_def pde assms(7))
      moreover have "m \<noteq> 1047552 + k" using 2 top assms(2) by auto
      ultimately show ?thesis using 2 assms(3) by (simp add: lookup_def)
    next
      case 3
      then have p: "pde s' (m div 1024) = pde s (m div 1024)" by (simp add: pde)
      have "pte s' m = (if m = 1047552 + k then x else pte s m)" if "present (pde s (m div 1024))"
      proof -
        have "frame (pde s (m div 1024)) \<noteq> frame x"
        proof (cases "m div 1024 = 1023")
          case True
          then show ?thesis using fr(1) ok(1) by (simp add: rec_ok_def)
        next
          case False
          then have "m div 1024 < 1023" using 3(1) by simp
          then show ?thesis using fr(2) that by metis
        qed
        moreover have "entry_addr (pde s (m div 1024)) (m mod 1024) = entry_addr (cr3 s) k \<longleftrightarrow>
            m = 1047552 + k"
        proof (cases "m div 1024 = 1023")
          case True
          then show ?thesis using ok(1) assms(2) top by (simp add: entry_addr_eq rec_ok_def)
        next
          case False
          then have "frame (pde s (m div 1024)) \<noteq> frame (cr3 s)" using ok(3) [OF _ that] 3 by simp
          with False top assms(2) show ?thesis by (auto simp: entry_addr_eq)
        qed
        ultimately show ?thesis unfolding pte_def p assms(7) by (auto simp: entry_addr_eq)
      qed
      moreover have "present (pde s 1023)" using ok(1) by (simp add: rec_ok_def)
      ultimately show ?thesis using 3 assms(5) top by (auto simp: lookup_def p)
    qed (use assms(2) in \<open>simp add: lookup_def\<close>)
  qed
qed
section \<open>Entry words\<close>

lemma frame_drop_bit: "frame x = unat (drop_bit 12 x)"
  by (simp only: frame_def unat_drop_bit) simp

lemma frame_or: "drop_bit 12 y = 0 \<Longrightarrow> frame (x OR y) = frame x"
  by (simp add: frame_drop_bit drop_bit_or del: drop_bit_numeral_bit0)

lemma present_bit: "present x \<longleftrightarrow> bit x 0"
  using and_exp_eq_0_iff_not_bit [of x 0] by (simp add: X86_PRESENT_def)

lemma writable_bit: "writable x \<longleftrightarrow> bit x 1"
  using and_exp_eq_0_iff_not_bit [of x 1] by (simp add: X86_WRITE_def)

lemma table_entry:
  assumes "unat p < 4294967296"
  defines "x \<equiv> (ucast (p :: u64) OR X86_PRESENT OR X86_WRITE OR X86_USER :: u32)"
  shows "frame x = unat p div 4096" "present x" "writable x"
proof -
  have "drop_bit 12 (X86_PRESENT OR X86_WRITE OR X86_USER) = 0"
    by (simp add: X86_PRESENT_def X86_WRITE_def X86_USER_def)
  then have "frame x = frame (ucast p)" unfolding x_def by (rule frame_or)
  then show "frame x = unat p div 4096" using assms(1) by (simp add: frame_def unat_ucast_small)
  show "present x" "writable x"
    unfolding present_bit writable_bit
    by (simp_all add: x_def X86_PRESENT_def X86_WRITE_def X86_USER_def bit_simps)
qed

section \<open>The invariant of the kernel's memory managers\<close>

definition vm_core :: "'a vmm_scheme \<Rightarrow> bool" where
  "vm_core s \<longleftrightarrow> pmm_inv s \<and> tables_ok s \<and> table_frames s \<inter> pmm_frames s = {}"

definition vm_inv :: "'a vmm_scheme \<Rightarrow> bool" where
  "vm_inv s \<longleftrightarrow> vm_core s \<and> (\<exists>a. current s = Some a \<and> unlocked (as_lock a))"

text \<open>The pages below the recursive window.\<close>

definition space :: "'a machine_scheme \<Rightarrow> nat \<Rightarrow> u32 option" where
  "space s n = (if n < 1047552 then lookup s n else None)"

text \<open>What an operation of the virtual memory manager may change.\<close>

definition vm_step :: "'a vmm_scheme \<Rightarrow> 'a vmm_scheme \<Rightarrow> bool" where
  "vm_step s s' \<longleftrightarrow> same_outside (pmm_storage s) (mem s) (mem s') \<and>
     s' = s\<lparr>mem := mem s', ptmem := ptmem s', pmm_lock := pmm_lock s', current := current s'\<rparr>"

text \<open>Page tables are only added, and their frames come from the free frames.\<close>

definition tables_from :: "'a vmm_scheme \<Rightarrow> 'a vmm_scheme \<Rightarrow> bool" where
  "tables_from s s' \<longleftrightarrow> table_frames s \<subseteq> table_frames s' \<and>
     table_frames s' \<subseteq> table_frames s \<union> pmm_frames s \<and> pmm_frames s' = pmm_frames s - table_frames s'"

lemma tables_from_trans: "tables_from s s' \<Longrightarrow> tables_from s' s'' \<Longrightarrow> tables_from s s''"
  by (auto simp: tables_from_def)

lemma pmm_cong:
  assumes "mem s = mem t" "allocators s = allocators t" "pmm_lock s = pmm_lock t"
  shows "pmm_inv s = pmm_inv t" "pmm_frames s = pmm_frames t" "pmm_storage s = pmm_storage t"
  using assms by (simp_all add: pmm_inv_def pmm_frames_def pmm_storage_def)

lemma pmm_stepD:
  assumes "pmm_step s s'"
  shows "same_outside (pmm_storage s) (mem s) (mem s')" "ptmem s' = ptmem s" "cr3 s' = cr3 s"
    "allocators s' = allocators s" "s' = s\<lparr>mem := mem s', pmm_lock := pmm_lock s'\<rparr>"
proof -
  show eq: "s' = s\<lparr>mem := mem s', pmm_lock := pmm_lock s'\<rparr>"
    and "same_outside (pmm_storage s) (mem s) (mem s')"
    using assms by (simp_all add: pmm_step_def)
  show "ptmem s' = ptmem s" "cr3 s' = cr3 s" "allocators s' = allocators s"
    by (subst eq, simp)+
qed

lemma unat_clear_start:
  "unat (PAGE_TABLE_ENTRY RPDT_BASE (push_bit 22 (drop_bit 22 v))) =
     4290772992 + 4096 * pd_index v + 4 * 0"
proof -
  have "unat (drop_bit 22 v) = pd_index v" by (simp only: unat_drop_bit pd_index_def) simp
  moreover have "pd_index v * 2 ^ 22 < 2 ^ 32" using pd_index_less [of v] by simp
  ultimately have "unat (push_bit 22 (drop_bit 22 v)) = pd_index v * 4194304"
    by (subst unat_push_bit) simp_all
  then have "pd_index (push_bit 22 (drop_bit 22 v)) = pd_index v"
      "pt_index (push_bit 22 (drop_bit 22 v)) = 0"
    by (simp_all only: pd_index_def pt_index_def) simp_all
  then show ?thesis by (simp only: unat_PAGE_TABLE_ENTRY)
qed

text \<open>Installing a fresh page as the table at directory index \<open>pd_index v\<close>.\<close>

lemma install_table:
  assumes "tables_ok s" "pd_index v < 1023" "\<not> present (pde s (pd_index v))"
    "frame x \<notin> table_frames s" "present x" "writable x"
  obtains s' where "bind_res (vwrite s (PAGE_DIR_ENTRY RPDT_BASE v) x) (\<lambda>s2.
      vclear s2 (PAGE_TABLE_ENTRY RPDT_BASE (push_bit 22 (drop_bit 22 v))) 1024) = Inr s'"
    "tables_ok s'" "table_frames s' = insert (frame x) (table_frames s)"
    "lookup s' = (lookup s)(1047552 + pd_index v \<mapsto> x)" "pde s' (pd_index v) = x"
    "s' = s\<lparr>ptmem := ptmem s'\<rparr>"
proof -
  let ?k = "pd_index v"
  note rec = tables_okD(1) [OF assms(1)]
  define s2 where "s2 = s\<lparr>ptmem := (ptmem s)(entry_addr (cr3 s) ?k := x)\<rparr>"
  define s' where "s' = s2\<lparr>ptmem := (\<lambda>a. if a \<in> entry_addr x ` {0..<1024} then 0 else ptmem s2 a)\<rparr>"
  have k: "?k < 1024" using assms(2) by simp
  have pde2: "pde s2 j = (if j = ?k then x else pde s j)" if "j < 1024" for j
    using that k by (simp add: s2_def pde_def entry_addr_eq)
  have cr3: "cr3 s2 = cr3 s" by (simp add: s2_def)
  have rec2: "rec_ok s2" using rec assms(2) pde2 [of 1023] by (simp add: rec_ok_def cr3)
  have dir: "frame x \<noteq> frame (cr3 s)" using assms(4) by (auto simp: table_frames_def)
  have "vwrite s (PAGE_DIR_ENTRY RPDT_BASE v) x = Inr s2"
    unfolding s2_def by (rule vwrite_pde [OF rec])
  moreover have "vclear s2 (PAGE_TABLE_ENTRY RPDT_BASE (push_bit 22 (drop_bit 22 v))) 1024 = Inr s'"
    using vclear_window [OF rec2 unat_clear_start assms(2), of 1024] assms(5,6) dir pde2 [OF k]
    by (simp add: s'_def cr3)
  moreover have "ptmem s' a = (if a \<in> entry_addr x ` {0..<1024} then 0
      else if a = entry_addr (cr3 s) ?k then x else ptmem s a)" for a
    by (simp add: s'_def s2_def)
  moreover have "cr3 s' = cr3 s" by (simp add: s'_def s2_def)
  moreover have "s' = s\<lparr>ptmem := ptmem s'\<rparr>" by (simp add: s'_def s2_def)
  ultimately show ?thesis
    using that [of s'] new_table_lookup [OF assms, of s'] by simp
qed

lemma ensure_page_table_mapped_spec:
  assumes "vm_core s" "pd_index v < 1023"
  obtains (ok) s' where "ensure_page_table_mapped s v = Inr s'" "vm_core s'"
      "present (pde s' (pd_index v))" "space s' = space s"
      "same_outside (pmm_storage s) (mem s) (mem s')" "tables_from s s'"
      "s' = s\<lparr>mem := mem s', ptmem := ptmem s', pmm_lock := pmm_lock s'\<rparr>"
      "card (table_frames s' - table_frames s) \<le> 1"
    | (full) "ensure_page_table_mapped s v = Inl (Panic ''alloc_page failed in map()!'')"
      "\<not> present (pde s (pd_index v))"
      "free_frames (allocators s ! PAGE_REQ_UNDER4GB) (mem s) = {}"
proof -
  let ?k = "pd_index v" and ?e = "PAGE_DIR_ENTRY RPDT_BASE v"
  have core: "pmm_inv s" "tables_ok s" "table_frames s \<inter> pmm_frames s = {}"
    using assms(1) by (simp_all add: vm_core_def)
  note rec = tables_okD(1) [OF core(2)]
  have u4: "PAGE_REQ_UNDER4GB < 3" by (simp add: page_req_defs)
  show ?thesis
  proof (cases "present (pde s ?k)")
    case True
    then have "ensure_page_table_mapped s v = Inr s"
      by (simp add: ensure_page_table_mapped_def vread_pde [OF rec])
    moreover have "tables_from s s" using core(3) by (auto simp: tables_from_def)
    ultimately show ?thesis using ok [of s] assms(1) True by simp
  next
    case False
    show ?thesis
    proof (cases rule: alloc_page_spec [OF core(1) u4])
      case (2 s')
      then have "ensure_page_table_mapped s v = Inl (Panic ''alloc_page failed in map()!'')"
        using False by (simp add: ensure_page_table_mapped_def vread_pde [OF rec])
      then show ?thesis using full False 2(5) by simp
    next
      case (1 p s1)
      let ?x = "ucast p OR X86_PRESENT OR X86_WRITE OR X86_USER :: u32"
      note st = pmm_stepD [OF 1(5)]
      have p: "unat p < 4294967296"
        using 1(8) div_mult_mod_eq [of "unat p" 4096] 1(3) by (simp add: req_met_def page_req_defs)
      note x = table_entry [OF p]
      have eq1: "tables_ok s1" "table_frames s1 = table_frames s" "rec_ok s1"
          "pde s1 = pde s" "lookup s1 = lookup s"
        using core(2) rec vm_cong [OF st(2,3)] pde_cong [OF st(2,3)] by simp_all
      have fresh: "frame ?x \<notin> table_frames s1" using x(1) 1(6) core(3) eq1(2) by auto
      have np: "\<not> present (pde s1 ?k)" using False eq1(4) by simp
      obtain s' where s': "bind_res (vwrite s1 ?e ?x) (\<lambda>s2.
            vclear s2 (PAGE_TABLE_ENTRY RPDT_BASE (push_bit 22 (drop_bit 22 v))) 1024) = Inr s'"
          "tables_ok s'" "table_frames s' = insert (frame ?x) (table_frames s1)"
          "lookup s' = (lookup s1)(1047552 + ?k \<mapsto> ?x)" "pde s' ?k = ?x" "s' = s1\<lparr>ptmem := ptmem s'\<rparr>"
        by (rule install_table [OF eq1(1) assms(2) np fresh x(2,3)])
      have same: "mem s' = mem s1" "allocators s' = allocators s1" "pmm_lock s' = pmm_lock s1"
        by (subst s'(6), simp)+
      note pmm = pmm_cong [OF same]
      have "ensure_page_table_mapped s v = Inr s'"
        using False 1(1,2) s'(1) by (simp add: ensure_page_table_mapped_def vread_pde [OF rec])
      moreover have "vm_core s'"
        using s'(2,3) 1(4,7) core(3) x(1) eq1(2) pmm by (auto simp: vm_core_def)
      moreover have "space s' = space s" using s'(4) eq1(5) by (auto simp: space_def fun_eq_iff)
      moreover have "s' = s\<lparr>mem := mem s', ptmem := ptmem s', pmm_lock := pmm_lock s'\<rparr>"
        by (subst s'(6), subst st(5)) (simp add: same)
      moreover have "tables_from s s'"
        using s'(3) eq1(2) x(1) 1(6,7) core(3) pmm(2) by (auto simp: tables_from_def)
      moreover have "table_frames s' - table_frames s \<subseteq> {frame ?x}" using s'(3) eq1(2) by auto
      then have "card (table_frames s' - table_frames s) \<le> 1" using card_mono [of "{frame ?x}"] by fastforce
      ultimately show ?thesis using ok [of s'] s'(5) x(2) st(1) same(1) by simp
    qed
  qed
qed
section \<open>Mapping and unmapping one page\<close>

text \<open>The page table entry that \<^verbatim>\<open>map_one_page\<close> writes.\<close>

definition map_entry :: "u64 \<Rightarrow> u32 \<Rightarrow> u32" where
  "map_entry p flags = ucast (p AND 0xFFFFF000) OR
     to_x86_flags (if flags AND PAGE_COW \<noteq> 0 then flags AND NOT PAGE_WRITE else flags) OR X86_PRESENT"

lemma present_map_entry: "present (map_entry p flags)"
  by (simp only: present_bit map_entry_def bit_or_iff) (simp add: X86_PRESENT_def)

lemma vm_core_cong:
  assumes "mem s = mem t" "allocators s = allocators t" "pmm_lock s = pmm_lock t"
    "ptmem s = ptmem t" "cr3 s = cr3 t"
  shows "vm_core s = vm_core t" "space s = space t"
  using pmm_cong [OF assms(1-3)] vm_cong [OF assms(4,5)]
  by (simp_all add: vm_core_def space_def fun_eq_iff)

lemma acquire_current_eq:
  assumes "current s = Some a" "unlocked (as_lock a)"
  shows "acquire_current s =
    Inr (s\<lparr>eflags := eflags (held_state s), current := Some (a\<lparr>as_lock := held_lock s (as_lock a)\<rparr>)\<rparr>)"
  using assms by (simp add: acquire_current_def disable_interrupts_def)

lemma release_current_eq:
  assumes "current t = Some (a\<lparr>as_lock := held_lock s (as_lock a)\<rparr>)" "eflags t = eflags (held_state s)"
  shows "release_current t =
    Inr (t\<lparr>eflags := eflags s, current := Some (a\<lparr>as_lock := left_lock s (as_lock a)\<rparr>)\<rparr>)"
  using assms by (simp add: release_current_def)

lemma write_pte_core:
  assumes "vm_core s" "own_table (pd_index v)" "present (pde s (pd_index v))"
  obtains s' where "vwrite s (PAGE_TABLE_ENTRY RPDT_BASE v) x = Inr s'" "vm_core s'"
    "space s' = (space s)(vpn v := if present x then Some x else None)" "s' = s\<lparr>ptmem := ptmem s'\<rparr>"
    "table_frames s' = table_frames s"
proof -
  have t: "tables_ok s" using assms(1) by (simp add: vm_core_def)
  let ?s' = "s\<lparr>ptmem := (ptmem s)(entry_addr (pde s (pd_index v)) (pt_index v) := x)\<rparr>"
  have w: "vwrite s (PAGE_TABLE_ENTRY RPDT_BASE v) x = Inr ?s'"
    by (rule vwrite_pte [OF tables_okD(1) [OF t] assms(3) tables_okD(2) [OF t own_table_less [OF assms(2)] assms(3)]])
  note l = write_pte_lookup [OF t, of "vpn v" x, unfolded vpn_div, OF assms(2,3)]
  have n: "vpn v < 1047552" using own_table_less [OF assms(2)] vpn_div(1) [of v] by simp
  have "vm_core ?s'" using assms(1) l(1,2) pmm_cong [of ?s' s] by (simp add: vm_core_def)
  moreover have "space ?s' = (space s)(vpn v := if present x then Some x else None)"
    using l(3) n by (auto simp: space_def fun_eq_iff)
  ultimately show ?thesis using that [OF w] l(2) by simp
qed

lemma space_vpn:
  assumes "pd_index v < 1023"
  shows "space s (vpn v) =
    (if present (pde s (pd_index v)) \<and> present (pte s (vpn v)) then Some (pte s (vpn v)) else None)"
proof -
  have "vpn v < 1047552" using assms vpn_div(1) [of v] by simp
  then show ?thesis by (simp add: space_def lookup_def vpn_div)
qed

lemma map_one_page_spec:
  assumes "vm_inv s" "own_table (pd_index v)"
  obtains (ok) s' where "map_one_page s v p flags = Inr (0, s')" "vm_inv s'" "vm_step s s'"
      "space s (vpn v) = None" "space s' = (space s)(vpn v \<mapsto> map_entry p flags)"
      "tables_from s s'" "card (table_frames s' - table_frames s) \<le> 1"
    | (mapped) "map_one_page s v p flags = Inl (Panic ''Tried to map a page that was already mapped!'')"
      "space s (vpn v) \<noteq> None"
    | (full) "map_one_page s v p flags = Inl (Panic ''alloc_page failed in map()!'')"
      "\<not> present (pde s (pd_index v))"
      "free_frames (allocators s ! PAGE_REQ_UNDER4GB) (mem s) = {}"
proof -
  obtain a where a: "current s = Some a" "unlocked (as_lock a)" and core: "vm_core s"
    using assms(1) by (auto simp: vm_inv_def)
  let ?a1 = "a\<lparr>as_lock := held_lock s (as_lock a)\<rparr>"
  define s1 where "s1 = s\<lparr>eflags := eflags (held_state s), current := Some ?a1\<rparr>"
  have acq: "acquire_current s = Inr s1" using acquire_current_eq [OF a] by (simp add: s1_def)
  have s1: "vm_core s1" "space s1 = space s" "pmm_storage s1 = pmm_storage s" "mem s1 = mem s"
      "allocators s1 = allocators s" "pde s1 = pde s" "pmm_frames s1 = pmm_frames s"
      "table_frames s1 = table_frames s"
    using core vm_core_cong [of s1 s] pmm_cong [of s1 s] pde_cong [of s1 s] vm_cong(2) [of s1 s]
    by (simp_all add: s1_def)
  show ?thesis
  proof (cases rule: ensure_page_table_mapped_spec [OF s1(1) own_table_less [OF assms(2)]])
    case 2
    then show ?thesis using full acq s1(4-6) by (simp add: map_one_page_def)
  next
    case (1 s2)
    have rec: "rec_ok s2" using 1(2) by (simp add: vm_core_def tables_ok_def)
    note rd = vread_pte [OF rec 1(3)]
    show ?thesis
    proof (cases "present (pte s2 (vpn v))")
      case True
      then have "space s2 (vpn v) \<noteq> None" using 1(3) by (simp add: space_vpn [OF own_table_less [OF assms(2)]])
      with True show ?thesis using mapped acq 1(1,4) rd s1(2) by (simp add: map_one_page_def Let_def)
    next
      case False
      obtain s3 where s3: "vwrite s2 (PAGE_TABLE_ENTRY RPDT_BASE v) (map_entry p flags) = Inr s3"
          "vm_core s3" "space s3 = (space s2)(vpn v \<mapsto> map_entry p flags)" "s3 = s2\<lparr>ptmem := ptmem s3\<rparr>"
          "table_frames s3 = table_frames s2"
        using write_pte_core [OF 1(2) assms(2) 1(3), of "map_entry p flags"] present_map_entry by auto
      have m3: "mem s3 = mem s2" "pmm_lock s3 = pmm_lock s2" by (subst s3(4), simp)+
      have eq3: "s3 = s1\<lparr>mem := mem s3, ptmem := ptmem s3, pmm_lock := pmm_lock s3\<rparr>"
        by (subst s3(4), subst 1(7)) (simp add: m3)
      have cur: "current s3 = Some ?a1" "eflags s3 = eflags (held_state s)"
          "allocators s3 = allocators s" "cr3 s3 = cr3 s"
        by (subst eq3, simp add: s1_def)+
      define s4 where "s4 = s3\<lparr>eflags := eflags s, current := Some (a\<lparr>as_lock := left_lock s (as_lock a)\<rparr>)\<rparr>"
      have rel: "release_current s3 = Inr s4" unfolding s4_def by (rule release_current_eq [OF cur(1,2)])
      have "map_one_page s v p flags = Inr (0, s4)"
        using acq 1(1) rd False s3(1) rel by (simp add: map_one_page_def Let_def map_entry_def)
      moreover have "vm_core s4" "space s4 = space s3" "pmm_frames s4 = pmm_frames s3"
          "table_frames s4 = table_frames s3"
        using s3(2) vm_core_cong [of s4 s3] pmm_cong [of s4 s3] vm_cong(2) [of s4 s3]
        by (simp_all add: s4_def)
      moreover have "pmm_frames s3 = pmm_frames s2" by (rule pmm_cong) (subst s3(4), simp)+
      moreover have "vm_step s s4"
      proof -
        have "s4 = s\<lparr>mem := mem s4, ptmem := ptmem s4, pmm_lock := pmm_lock s4, current := current s4\<rparr>"
          unfolding s4_def by (subst eq3) (simp add: s1_def)
        moreover have "mem s4 = mem s2" by (simp add: s4_def m3)
        ultimately show ?thesis using 1(5) s1(3,4) by (simp add: vm_step_def)
      qed
      moreover have "space s (vpn v) = None"
        using False s1(2) 1(4) by (metis space_vpn [OF own_table_less [OF assms(2)]])
      ultimately show ?thesis
        using ok [of s4] 1(4,6,8) s3(3,5) s1(2,7,8) by (simp add: vm_inv_def s4_def tables_from_def)
    qed
  qed
qed
lemma unmap_one_page_spec:
  assumes "vm_inv s" "own_table (pd_index v)"
  obtains (ok) s' where "unmap_one_page s v = Inr (0, s')" "vm_inv s'" "vm_step s s'"
      "space s (vpn v) \<noteq> None" "space s' = (space s)(vpn v := None)" "pmm_frames s' = pmm_frames s"
      "mem s' = mem s" "table_frames s' = table_frames s"
    | (unmapped) msg where "unmap_one_page s v = Inl (Panic msg)" "space s (vpn v) = None"
proof -
  obtain a where a: "current s = Some a" "unlocked (as_lock a)" and core: "vm_core s"
    using assms(1) by (auto simp: vm_inv_def)
  let ?a1 = "a\<lparr>as_lock := held_lock s (as_lock a)\<rparr>"
  define s1 where "s1 = s\<lparr>eflags := eflags (held_state s), current := Some ?a1\<rparr>"
  have acq: "acquire_current s = Inr s1" using acquire_current_eq [OF a] by (simp add: s1_def)
  have s1: "vm_core s1" "space s1 = space s"
    using core vm_core_cong [of s1 s] by (simp_all add: s1_def)
  have rec: "rec_ok s1" using s1(1) by (simp add: vm_core_def tables_ok_def)
  note rd = vread_pde [OF rec] vread_pte [OF rec]
  show ?thesis
  proof (cases "present (pde s1 (pd_index v)) \<and> present (pte s1 (vpn v))")
    case False
    then have "space s (vpn v) = None" unfolding s1(2) [symmetric] by (simp add: space_vpn [OF own_table_less [OF assms(2)]])
    moreover have "\<exists>msg. unmap_one_page s v = Inl (Panic msg)"
      using False acq rd by (auto simp: unmap_one_page_def Let_def)
    ultimately show ?thesis using unmapped by blast
  next
    case True
    obtain s2 where s2: "vwrite s1 (PAGE_TABLE_ENTRY RPDT_BASE v) 0 = Inr s2" "vm_core s2"
        "space s2 = (space s1)(vpn v := None)" "s2 = s1\<lparr>ptmem := ptmem s2\<rparr>"
        "table_frames s2 = table_frames s1"
      using write_pte_core [OF s1(1) assms(2), of 0] True by auto
    have cur: "current s2 = Some ?a1" "eflags s2 = eflags (held_state s)" "mem s2 = mem s"
        "allocators s2 = allocators s" "pmm_lock s2 = pmm_lock s"
      by (subst s2(4), simp add: s1_def)+
    define s3 where "s3 = s2\<lparr>eflags := eflags s, current := Some (a\<lparr>as_lock := left_lock s (as_lock a)\<rparr>)\<rparr>"
    have rel: "release_current s2 = Inr s3" unfolding s3_def by (rule release_current_eq [OF cur(1,2)])
    have "unmap_one_page s v = Inr (0, s3)"
      using acq True rd s2(1) rel by (simp add: unmap_one_page_def Let_def)
    moreover have "vm_core s3" "space s3 = space s2"
      using s2(2) vm_core_cong [of s3 s2] by (simp_all add: s3_def)
    moreover have "table_frames s3 = table_frames s"
      using s2(5) vm_cong(2) [of s3 s2] vm_cong(2) [of s1 s] by (simp add: s3_def s1_def)
    moreover have "pmm_frames s3 = pmm_frames s" by (rule pmm_cong) (simp_all add: s3_def cur)
    moreover have "mem s3 = mem s" by (simp add: s3_def cur)
    moreover have "vm_step s s3"
    proof -
      have "s3 = s\<lparr>mem := mem s3, ptmem := ptmem s3, pmm_lock := pmm_lock s3, current := current s3\<rparr>"
        unfolding s3_def by (subst s2(4)) (simp add: s1_def cur)
      then show ?thesis using \<open>mem s3 = mem s\<close> by (simp add: vm_step_def)
    qed
    moreover have "space s (vpn v) \<noteq> None"
      using True unfolding s1(2) [symmetric] by (simp add: space_vpn [OF own_table_less [OF assms(2)]])
    ultimately show ?thesis using ok [of s3] s2(3) s1(2) by (simp add: vm_inv_def s3_def)
  qed
qed

section \<open>Looking pages up\<close>

lemma mmu_translate_lookup:
  "mmu_translate s False v = map_option (\<lambda>e. (e AND 0xFFFFF000) + (v AND 0xFFF)) (lookup s (vpn v))"
  by (simp add: mmu_translate_def lookup_def pte_def pde_def vpn_div vpn_less Let_def)

lemma get_mapping_eq:
  assumes "rec_ok s"
  shows "get_mapping s v = Inr (case lookup s (vpn v) of None \<Rightarrow> (NOT 0, None)
    | Some e \<Rightarrow> (ucast (e AND 0xFFFFF000), Some (from_x86_flags (e AND 0xFFF))))"
  using vread_pde [OF assms, of v] vread_pte [OF assms, of v]
  by (simp add: get_mapping_def lookup_def vpn_div vpn_less)

lemma ucast_not_minus_1: "(ucast (x :: u32) :: u64) \<noteq> NOT 0"
proof
  assume "(ucast x :: u64) = NOT 0"
  then have "unat (ucast x :: u64) = unat (NOT 0 :: u64)" by simp
  then show False
    using unat_u32_less [of x] by (simp add: unat_ucast_small unsigned_minus_1_eq_mask mask_eq_exp_minus_1)
qed

lemma is_mapped_eq:
  assumes "rec_ok s"
  shows "is_mapped s v = Inr (lookup s (vpn v) \<noteq> None)"
  using ucast_not_minus_1 by (simp add: is_mapped_def get_mapping_eq [OF assms] split: option.split)

lemma vpn_plus:
  assumes "unat v + n * 4096 < 4294967296"
  shows "vpn (v + of_nat (n * 4096)) = vpn v + n"
proof -
  have "unat (v + of_nat (n * 4096)) = unat v + n * 4096"
    using assms by (simp add: unat_word_ariths del: of_nat_mult)
  then show ?thesis by (simp add: vpn_def)
qed

text \<open>\<^verbatim>\<open>iterate_mappings\<close> finds the next mapped page after \<open>v\<close>.\<close>

lemma iterate_mappings_spec:
  assumes "rec_ok s"
  shows "(\<exists>n > 0. unat v + n * 4096 < 4294967296 \<and> iterate_mappings s v = Inr (v + of_nat (n * 4096)) \<and>
      lookup s (vpn v + n) \<noteq> None \<and> (\<forall>i. 0 < i \<and> i < n \<longrightarrow> lookup s (vpn v + i) = None)) \<or>
    iterate_mappings s v = Inr (NOT 0) \<and>
      (\<forall>i > 0. unat v + i * 4096 < 4294967296 \<longrightarrow> lookup s (vpn v + i) = None)"
proof (induction "4294967296 - unat v" arbitrary: v rule: less_induct)
  case less
  note eq = iterate_mappings.simps [of s v]
  show ?case
  proof (cases "v < 0xFFFFF000")
    case False
    then have "iterate_mappings s v = Inr (NOT 0)" "4294963200 \<le> unat v"
      by (simp_all add: eq word_less_nat_alt)
    then show ?thesis by auto
  next
    case True
    let ?v = "v + 0x1000 :: u32"
    have lt: "unat v < 4294963200" using True by (simp add: word_less_nat_alt)
    then have u: "unat ?v = unat v + 4096" by (simp add: unat_word_ariths)
    have n: "vpn ?v = vpn v + 1" using vpn_plus [of v 1] lt by simp
    show ?thesis
    proof (cases "lookup s (vpn v + 1)")
      case (Some e)
      then have "iterate_mappings s v = Inr ?v" using True by (simp add: eq is_mapped_eq [OF assms] n)
      then show ?thesis using Some lt by (intro disjI1 exI [of _ 1]) simp
    next
      case None
      then have it: "iterate_mappings s v = iterate_mappings s ?v"
        using True by (simp add: eq is_mapped_eq [OF assms] n)
      have "4294967296 - unat ?v < 4294967296 - unat v" using lt u by simp
      note IH = less [OF this, unfolded n u it [symmetric]]
      have first: "lookup s (vpn v + i) = None \<longleftrightarrow> (i = 1 \<or> lookup s (vpn v + 1 + (i - 1)) = None)"
        if "0 < i" for i using None that by (cases "i = 1") simp_all
      from IH show ?thesis
      proof
        assume "\<exists>n > 0. unat v + 4096 + n * 4096 < 4294967296 \<and>
          iterate_mappings s v = Inr (?v + of_nat (n * 4096)) \<and> lookup s (vpn v + 1 + n) \<noteq> None \<and>
          (\<forall>i. 0 < i \<and> i < n \<longrightarrow> lookup s (vpn v + 1 + i) = None)"
        then obtain m where m: "0 < m" "unat v + 4096 + m * 4096 < 4294967296"
          "iterate_mappings s v = Inr (?v + of_nat (m * 4096))" "lookup s (vpn v + 1 + m) \<noteq> None"
          "\<forall>i. 0 < i \<and> i < m \<longrightarrow> lookup s (vpn v + 1 + i) = None" by blast
        have "lookup s (vpn v + i) = None" if "0 < i" "i < Suc m" for i
          using first [of i] m(5) [rule_format, of "i - 1"] None that by (cases "i = 1") auto
        with m show ?thesis by (intro disjI1 exI [of _ "Suc m"]) (simp add: ac_simps)
      next
        assume a: "iterate_mappings s v = Inr (NOT 0) \<and>
          (\<forall>i > 0. unat v + 4096 + i * 4096 < 4294967296 \<longrightarrow> lookup s (vpn v + 1 + i) = None)"
        have "lookup s (vpn v + i) = None" if "0 < i" "unat v + i * 4096 < 4294967296" for i
        proof (cases "i = 1")
          case False
          then have "0 < i - 1" "unat v + 4096 + (i - 1) * 4096 < 4294967296"
            using that by (simp_all add: diff_mult_distrib)
          then have "lookup s (vpn v + 1 + (i - 1)) = None" using a by blast
          with first [OF that(1)] show ?thesis by blast
        qed (use None in simp)
        with a show ?thesis by blast
      qed
    qed
  qed
qed

section \<open>Flags\<close>

lemma flag_bits:
  "x AND PAGE_WRITE \<noteq> 0 \<longleftrightarrow> bit x 0" "x AND PAGE_EXECUTE \<noteq> 0 \<longleftrightarrow> bit x 1"
  "x AND PAGE_USER \<noteq> 0 \<longleftrightarrow> bit x 2" "x AND PAGE_COW \<noteq> 0 \<longleftrightarrow> bit x 3"
  "x AND X86_USER \<noteq> 0 \<longleftrightarrow> bit x 2" "x AND X86_EXECUTE \<noteq> 0 \<longleftrightarrow> bit x 9" "x AND X86_COW \<noteq> 0 \<longleftrightarrow> bit x 10"
  using and_exp_eq_0_iff_not_bit [of x 0] and_exp_eq_0_iff_not_bit [of x 1]
    and_exp_eq_0_iff_not_bit [of x 2] and_exp_eq_0_iff_not_bit [of x 3]
    and_exp_eq_0_iff_not_bit [of x 9] and_exp_eq_0_iff_not_bit [of x 10]
  by (simp_all add: PAGE_WRITE_def PAGE_EXECUTE_def PAGE_USER_def PAGE_COW_def X86_USER_def
      X86_EXECUTE_def X86_COW_def)

lemma bit_to_x86_flags:
  "bit (to_x86_flags f) 1 \<longleftrightarrow> bit f 0" "bit (to_x86_flags f) 9 \<longleftrightarrow> bit f 1"
  "bit (to_x86_flags f) 2 \<longleftrightarrow> bit f 2" "bit (to_x86_flags f) 10 \<longleftrightarrow> bit f 3"
  unfolding to_x86_flags_def flag_bits
  by (auto simp: bit_or_iff X86_WRITE_def X86_USER_def X86_EXECUTE_def X86_COW_def bit_numeral_rec bit_1_iff)

lemma bit_from_x86_flags:
  "bit (from_x86_flags x) n \<longleftrightarrow>
     n = 0 \<and> bit x 1 \<or> n = 1 \<and> bit x 9 \<or> n = 2 \<and> bit x 2 \<or> n = 3 \<and> bit x 10"
proof -
  have "bit (1 :: u32) n \<longleftrightarrow> n = 0" "bit (2 :: u32) n \<longleftrightarrow> n = 1" "bit (4 :: u32) n \<longleftrightarrow> n = 2"
      "bit (8 :: u32) n \<longleftrightarrow> n = 3"
    using bit_exp_iff [where 'a = "32 word", of 1 n] bit_exp_iff [where 'a = "32 word", of 2 n]
      bit_exp_iff [where 'a = "32 word", of 3 n] by (auto simp: bit_1_iff)
  then show ?thesis
    unfolding from_x86_flags_def flag_bits writable_bit
    by (auto simp: bit_or_iff PAGE_WRITE_def PAGE_EXECUTE_def PAGE_USER_def PAGE_COW_def)
qed

text \<open>The flags a caller reads back with \<^verbatim>\<open>get_mapping\<close> are those it gave to \<^verbatim>\<open>map\<close>, without the write
  permission on a copy-on-write page.\<close>

definition map_flags :: "u32 \<Rightarrow> u32" where
  "map_flags flags = (if flags AND PAGE_COW \<noteq> 0 then flags AND NOT PAGE_WRITE else flags) AND 0xF"

lemma bit_page_mask:
  "bit (0xFFFFF000 :: u64) n \<longleftrightarrow> 12 \<le> n \<and> n < 32" "bit (0xFFFFF000 :: u32) n \<longleftrightarrow> 12 \<le> n \<and> n < 32"
proof -
  have "(0xFFFFF000 :: u64) = push_bit 12 (mask 20)" "(0xFFFFF000 :: u32) = push_bit 12 (mask 20)"
    by (simp_all add: mask_eq_exp_minus_1)
  then show "bit (0xFFFFF000 :: u64) n \<longleftrightarrow> 12 \<le> n \<and> n < 32"
      "bit (0xFFFFF000 :: u32) n \<longleftrightarrow> 12 \<le> n \<and> n < 32"
    by (simp_all only: bit_push_bit_iff bit_mask_iff) auto
qed

lemma bit_to_x86_flags_high: "12 \<le> n \<Longrightarrow> \<not> bit (to_x86_flags f) n"
proof -
  have "drop_bit 12 (to_x86_flags f) = 0"
    by (simp add: to_x86_flags_def X86_WRITE_def X86_USER_def X86_EXECUTE_def X86_COW_def)
  then have "\<not> bit (drop_bit 12 (to_x86_flags f)) (n - 12)" by (simp only: bit_0_eq) simp
  then show "12 \<le> n \<Longrightarrow> \<not> bit (to_x86_flags f) n" by (simp add: bit_drop_bit_eq)
qed

lemma bit_map_entry:
  assumes "0 < n"
  shows "bit (map_entry p flags) n \<longleftrightarrow> (12 \<le> n \<and> n < 32 \<and> bit p n) \<or>
    bit (to_x86_flags (if flags AND PAGE_COW \<noteq> 0 then flags AND NOT PAGE_WRITE else flags)) n"
proof -
  have "\<not> bit X86_PRESENT n" using assms(1) by (simp add: X86_PRESENT_def bit_1_iff)
  then show ?thesis by (simp only: map_entry_def bit_or_iff bit_and_iff bit_ucast_iff bit_page_mask) auto
qed

lemma frame_map_entry: "map_entry p flags AND 0xFFFFF000 = ucast (p AND 0xFFFFF000)"
  by (intro bit_word_eqI)
    (auto simp only: bit_and_iff bit_page_mask bit_map_entry bit_ucast_iff bit_to_x86_flags_high)

lemma from_x86_flags_map_entry: "from_x86_flags (map_entry p flags AND 0xFFF) = map_flags flags"
proof (rule bit_word_eqI)
  fix n assume "n < LENGTH(32)"
  let ?f = "if flags AND PAGE_COW \<noteq> 0 then flags AND NOT PAGE_WRITE else flags"
  have "bit (map_entry p flags AND 0xFFF) m \<longleftrightarrow> bit (to_x86_flags ?f) m" if "0 < m" "m < 12" for m
  proof -
    have "(0xFFF :: u32) = mask 12" by (simp add: mask_eq_exp_minus_1)
    with that show ?thesis by (simp only: bit_and_iff bit_mask_iff bit_map_entry) auto
  qed
  note b = this
  have "bit (map_entry p flags AND 0xFFF) 1 \<longleftrightarrow> bit ?f 0" "bit (map_entry p flags AND 0xFFF) 9 \<longleftrightarrow> bit ?f 1"
      "bit (map_entry p flags AND 0xFFF) 2 \<longleftrightarrow> bit ?f 2" "bit (map_entry p flags AND 0xFFF) 10 \<longleftrightarrow> bit ?f 3"
    by (subst b; simp only: bit_to_x86_flags; simp)+
  then have "bit (from_x86_flags (map_entry p flags AND 0xFFF)) n \<longleftrightarrow>
      n = 0 \<and> bit ?f 0 \<or> n = 1 \<and> bit ?f 1 \<or> n = 2 \<and> bit ?f 2 \<or> n = 3 \<and> bit ?f 3"
    by (simp only: bit_from_x86_flags)
  moreover have "bit (0xF :: u32) n \<longleftrightarrow> n = 0 \<or> n = 1 \<or> n = 2 \<or> n = 3"
  proof -
    have "(0xF :: u32) = mask 4" by (simp add: mask_eq_exp_minus_1)
    then show ?thesis by (simp only: bit_mask_iff) auto
  qed
  ultimately show "bit (from_x86_flags (map_entry p flags AND 0xFFF)) n \<longleftrightarrow> bit (map_flags flags) n"
    unfolding map_flags_def bit_and_iff by blast
qed
section \<open>Ranges of pages\<close>

lemma vm_step_refl: "vm_step s s"
  by (simp add: vm_step_def)

lemma vm_stepD:
  assumes "vm_step s s'"
  shows "same_outside (pmm_storage s) (mem s) (mem s')" "allocators s' = allocators s" "cr3 s' = cr3 s"
    "pmm_storage s' = pmm_storage s" "eflags s' = eflags s" "cr0 s' = cr0 s" "global_vmm_lock s' = global_vmm_lock s"
    "s' = s\<lparr>mem := mem s', ptmem := ptmem s', pmm_lock := pmm_lock s', current := current s'\<rparr>"
proof -
  show eq: "s' = s\<lparr>mem := mem s', ptmem := ptmem s', pmm_lock := pmm_lock s', current := current s'\<rparr>"
    and "same_outside (pmm_storage s) (mem s) (mem s')"
    using assms by (simp_all add: vm_step_def)
  show "allocators s' = allocators s" "cr3 s' = cr3 s" "pmm_storage s' = pmm_storage s"
      "eflags s' = eflags s" "cr0 s' = cr0 s" "global_vmm_lock s' = global_vmm_lock s"
    by (subst eq, simp add: pmm_storage_def)+
qed

lemma vm_step_trans:
  assumes "vm_step s s'" "vm_step s' s''"
  shows "vm_step s s''"
proof -
  note a = vm_stepD [OF assms(1)] and b = vm_stepD [OF assms(2)]
  have "same_outside (pmm_storage s) (mem s) (mem s'')"
    using a(1,4) b(1) by (auto intro: same_outside_trans)
  moreover have "s'' = s\<lparr>mem := mem s'', ptmem := ptmem s'', pmm_lock := pmm_lock s'', current := current s''\<rparr>"
    by (subst b(8), subst a(8)) simp
  ultimately show ?thesis by (simp add: vm_step_def)
qed

text \<open>The page \<open>i\<close> pages after \<open>v\<close>.\<close>

lemma nth_page:
  assumes "own_table ((vpn v + i) div 1024)"
  shows "vpn (v + of_nat (i * 4096)) = vpn v + i" "own_table (pd_index (v + of_nat (i * 4096)))"
    "vpn v + i < 1047552"
proof -
  show less: "vpn v + i < 1047552" using own_table_less [OF assms] by simp
  have "vpn v * 4096 + unat v mod 4096 = unat v" by (simp add: vpn_def)
  moreover have "unat v mod 4096 < 4096" by simp
  ultimately have "unat v + i * 4096 < 4294967296" using less by linarith
  then show "vpn (v + of_nat (i * 4096)) = vpn v + i" by (rule vpn_plus)
  then show "own_table (pd_index (v + of_nat (i * 4096)))"
    using assms vpn_div(1) [of "v + of_nat (i * 4096)"] by simp
qed

text \<open>Counting the page tables that are added: their frames are finitely many.\<close>

lemma finite_table_frames: "finite (table_frames s)"
  by (simp add: table_frames_def)

lemma tables_added_trans:
  assumes "card (table_frames s' - table_frames s) \<le> m" "card (table_frames s'' - table_frames s') \<le> n"
  shows "card (table_frames s'' - table_frames s) \<le> m + n"
proof -
  have "table_frames s'' - table_frames s \<subseteq> (table_frames s' - table_frames s) \<union> (table_frames s'' - table_frames s')" by blast
  then have "card (table_frames s'' - table_frames s) \<le>
      card ((table_frames s' - table_frames s) \<union> (table_frames s'' - table_frames s'))"
    by (intro card_mono) (simp_all add: finite_table_frames)
  also have "\<dots> \<le> m + n" using card_Un_le add_mono [OF assms] le_trans by blast
  finally show ?thesis .
qed

lemma map_loop_spec:
  assumes "vm_inv s" "i + n \<le> 524288" "\<forall>j. i \<le> j \<and> j < i + n \<longrightarrow> own_table ((vpn v + j) div 1024)"
    "\<forall>j. i \<le> j \<and> j < i + n \<longrightarrow> space s (vpn v + j) = None"
  shows "(\<exists>s'. map_loop s v p flags i n = Inr (0, s') \<and> vm_inv s' \<and> vm_step s s' \<and>
      tables_from s s' \<and> card (table_frames s' - table_frames s) \<le> n \<and>
      space s' = (\<lambda>m. if vpn v + i \<le> m \<and> m < vpn v + i + n
        then Some (map_entry (p + of_nat ((m - vpn v) * 4096)) flags) else space s m)) \<or>
    map_loop s v p flags i n = Inl (Panic ''alloc_page failed in map()!'') \<and>
    (\<exists>t. vm_inv t \<and> vm_step s t \<and> tables_from s t \<and> card (table_frames t - table_frames s) \<le> n \<and>
       free_frames (allocators t ! PAGE_REQ_UNDER4GB) (mem t) = {})"
  using assms
proof (induction n arbitrary: s i)
  case 0
  then have "tables_from s s" by (auto simp: tables_from_def vm_inv_def vm_core_def)
  with 0 show ?case by (intro disjI1 exI [of _ s]) (auto simp: vm_step_refl fun_eq_iff)
next
  case (Suc n)
  let ?v = "v + of_nat (i * 4096)" and ?p = "p + of_nat (i * 4096)"
  have i: "own_table ((vpn v + i) div 1024)" "i * 4096 < 2147483648" using Suc.prems(2,3) by simp_all
  note pg = nth_page [OF i(1)]
  show ?case
  proof (cases rule: map_one_page_spec [OF Suc.prems(1) pg(2), of ?p flags])
    case 2
    then show ?thesis using Suc.prems(4) pg(1) by simp
  next
    case 3
    have "tables_from s s" using Suc.prems(1) by (auto simp: tables_from_def vm_inv_def vm_core_def)
    with 3 show ?thesis
      using i(2) Suc.prems(1) by (intro disjI2 conjI exI [of _ s]) (simp_all add: vm_step_refl)
  next
    case (1 s1)
    have hole: "space s1 (vpn v + j) = None" if "Suc i \<le> j" "j < Suc i + n" for j
      using 1(5) pg(1) Suc.prems(4) that by simp
    have rec: "map_loop s v p flags i (Suc n) = map_loop s1 v p flags (Suc i) n"
      using 1(1) i(2) by simp
    have "Suc i + n \<le> 524288" "\<forall>j. Suc i \<le> j \<and> j < Suc i + n \<longrightarrow> own_table ((vpn v + j) div 1024)"
      using Suc.prems(2,3) by simp_all
    note IH = Suc.IH [OF 1(2) this]
    have "\<forall>j. Suc i \<le> j \<and> j < Suc i + n \<longrightarrow> space s1 (vpn v + j) = None" using hole by blast
    from IH [OF this] show ?thesis
    proof (elim disjE disjE exE conjE)
      fix t assume t: "map_loop s1 v p flags (Suc i) n = Inl (Panic ''alloc_page failed in map()!'')"
        "vm_inv t" "vm_step s1 t" "tables_from s1 t" "card (table_frames t - table_frames s1) \<le> n"
        "free_frames (allocators t ! PAGE_REQ_UNDER4GB) (mem t) = {}"
      then show ?thesis
        using tables_from_trans [OF 1(6) t(4)] vm_step_trans [OF 1(3) t(3)] tables_added_trans [OF 1(7) t(5)]
        unfolding rec by (intro disjI2 conjI exI [of _ t]) simp_all
    next
      fix s' assume s': "map_loop s1 v p flags (Suc i) n = Inr (0, s')" "vm_inv s'" "vm_step s1 s'"
        "tables_from s1 s'" "card (table_frames s' - table_frames s1) \<le> n" and sp: "space s' = (\<lambda>m. if vpn v + Suc i \<le> m \<and> m < vpn v + Suc i + n
        then Some (map_entry (p + of_nat ((m - vpn v) * 4096)) flags) else space s1 m)"
      have "space s' = (\<lambda>m. if vpn v + i \<le> m \<and> m < vpn v + i + Suc n
        then Some (map_entry (p + of_nat ((m - vpn v) * 4096)) flags) else space s m)"
        unfolding sp 1(5) pg(1) by (auto simp: fun_eq_iff)
      with s' tables_from_trans [OF 1(6) s'(4)] vm_step_trans [OF 1(3) s'(3)] tables_added_trans [OF 1(7) s'(5)]
      show ?thesis unfolding rec by (intro disjI1 exI [of _ s'] conjI) (assumption | simp)+
    qed
  qed
qed

lemma unmap_loop_spec:
  assumes "vm_inv s" "i + n \<le> 524288" "\<forall>j. i \<le> j \<and> j < i + n \<longrightarrow> own_table ((vpn v + j) div 1024)"
    "\<forall>j. i \<le> j \<and> j < i + n \<longrightarrow> space s (vpn v + j) \<noteq> None"
  shows "\<exists>s'. unmap_loop s v i n = Inr (0, s') \<and> vm_inv s' \<and> vm_step s s' \<and>
      pmm_frames s' = pmm_frames s \<and> mem s' = mem s \<and> table_frames s' = table_frames s \<and>
      space s' = (\<lambda>m. if vpn v + i \<le> m \<and> m < vpn v + i + n then None else space s m)"
  using assms
proof (induction n arbitrary: s i)
  case 0
  then show ?case by (intro exI [of _ s]) (auto simp: vm_step_refl fun_eq_iff)
next
  case (Suc n)
  let ?v = "v + of_nat (i * 4096)"
  have i: "own_table ((vpn v + i) div 1024)" "i * 4096 < 2147483648" using Suc.prems(2,3) by simp_all
  note pg = nth_page [OF i(1)]
  show ?case
  proof (cases rule: unmap_one_page_spec [OF Suc.prems(1) pg(2)])
    case 2
    then show ?thesis using Suc.prems(4) [rule_format, of i] pg(1) by simp
  next
    case (1 s1)
    have hole: "space s1 (vpn v + j) \<noteq> None" if "Suc i \<le> j" "j < Suc i + n" for j
      using 1(5) pg(1) Suc.prems(4) that by simp
    have "Suc i + n \<le> 524288" "\<forall>j. Suc i \<le> j \<and> j < Suc i + n \<longrightarrow> own_table ((vpn v + j) div 1024)"
      using Suc.prems(2,3) by simp_all
    with Suc.IH [OF 1(2)] hole obtain s' where s': "unmap_loop s1 v (Suc i) n = Inr (0, s')"
        "vm_inv s'" "vm_step s1 s'" "pmm_frames s' = pmm_frames s1" "mem s' = mem s1"
        "table_frames s' = table_frames s1"
        "space s' = (\<lambda>m. if vpn v + Suc i \<le> m \<and> m < vpn v + Suc i + n then None else space s1 m)"
      by blast
    have "space s' = (\<lambda>m. if vpn v + i \<le> m \<and> m < vpn v + i + Suc n then None else space s m)"
      unfolding s'(7) 1(5) pg(1) by (auto simp: fun_eq_iff)
    with s'(1-6) 1(1,6,7,8) i(2) vm_step_trans [OF 1(3) s'(3)] show ?thesis
      by (intro exI [of _ s']) simp
  qed
qed
end
