(* ===== verification/Vmspace.thy ===== *)
theory Vmspace
  imports Vmm_Correct
begin

text \<open>
  Virtual address ranges with pages behind them: \<^verbatim>\<open>vmspace.c\<close> and \<^verbatim>\<open>include/vmspace.h\<close>. A buddy
  allocator hands out page-aligned addresses of the range, its bitmaps live at the top of the
  range itself, and \<^verbatim>\<open>map\<close> puts physical pages behind what is handed out.
\<close>

section \<open>Data\<close>

record vmspace =
  vs_start :: u32
  vs_size :: u32
  vs_allocator :: buddy
  vs_lock :: spinlock

section \<open>Operations\<close>

definition vmspace_init :: "'a vmm_scheme \<Rightarrow> u32 \<Rightarrow> u32 \<Rightarrow> (int \<times> vmspace \<times> 'a vmm_scheme) res" where
  "vmspace_init s addr sz =
     (let r = \<lparr>start = ucast addr, extent = ucast sz\<rparr>;
          overhead = round_to_page_size (buddy_calc_overhead r);
          npages = drop_bit get_page_shift overhead;
          st = ucast (start r + extent r - ucast overhead) :: u32
      in bind_res (alloc_pages s PAGE_REQ_NONE npages) (\<lambda>(p, s1).
         bind_res (map_pages s1 st p (sint npages) PAGE_WRITE) (\<lambda>(ok, s2).
         bind_res (assert_res (ok = 0) ''map() failed in vmspace_init!'') (\<lambda>_.
         let r2 = r\<lparr>extent := extent r - ucast overhead\<rparr> in
         bind_res (buddy_init (mem s2) st r2 False) (\<lambda>(_, bd, m3).
         bind_res (buddy_free_range bd m3 r2) (\<lambda>m4.
           Inr (0, \<lparr>vs_start = addr, vs_size = sz, vs_allocator = bd,
                    vs_lock = \<lparr>lock_val = 0, lock_interrupts = 0\<rparr>\<rparr>, s2\<lparr>mem := m4\<rparr>)))))))"

definition vmspace_alloc ::
    "'a vmm_scheme \<Rightarrow> vmspace \<Rightarrow> u32 \<Rightarrow> u32 \<Rightarrow> (u32 \<times> vmspace \<times> 'a vmm_scheme) res" where
  "vmspace_alloc s vms sz alloc_phys =
     bind_res (spinlock_acquire s (vs_lock vms)) (\<lambda>(s1, l).
     let vms1 = vms\<lparr>vs_lock := l\<rparr> in
     bind_res (buddy_alloc (vs_allocator vms1) (mem s1) sz) (\<lambda>(addr, m2).
     let s2 = s1\<lparr>mem := m2\<rparr> in
     bind_res
       (if alloc_phys \<noteq> 0 \<and> addr \<noteq> NOT 0
        then let npages = drop_bit get_page_shift sz in
             bind_res (alloc_pages s2 PAGE_REQ_NONE npages) (\<lambda>(p, s3).
             let phys_pages = ucast p :: u32 in
             bind_res (assert_res (phys_pages \<noteq> NOT 0) ''Out of memory!'') (\<lambda>_.
             bind_res (map_pages s3 (ucast addr) (ucast phys_pages) (sint npages) alloc_phys) (\<lambda>(ok, s4).
             bind_res (assert_res (ok = 0) ''vmspace_alloc: map failed!'') (\<lambda>_. Inr s4))))
        else Inr s2) (\<lambda>s5.
     bind_res (spinlock_release s5 (vs_lock vms1)) (\<lambda>(s6, l6).
       Inr (ucast addr, vms1\<lparr>vs_lock := l6\<rparr>, s6)))))"

text \<open>
  The loop of \<^verbatim>\<open>vmspace_free\<close> over the pages of the block, from offset \<open>i\<close>. It counts in an
  \<^verbatim>\<open>unsigned\<close>, so a size above \<open>0xFFFFF000\<close> makes it start over.
\<close>

partial_function (option) vmspace_free_loop ::
    "'a vmm_scheme \<Rightarrow> u32 \<Rightarrow> u32 \<Rightarrow> u32 \<Rightarrow> 'a vmm_scheme res option" where
  "vmspace_free_loop s addr sz i =
     (if i < sz
      then case get_mapping s (addr + i) of
             Inl e \<Rightarrow> Some (Inl e)
           | Inr (p, _) \<Rightarrow>
               if p = NOT 0
               then Some (Inl (Panic ''vmspace_free asked to free_phys but mapping did not exist!''))
               else case free_page s p of
                      Inl e \<Rightarrow> Some (Inl e)
                    | Inr (_, s1) \<Rightarrow>
                        (case unmap_pages s1 (addr + i) 1 of
                           Inl e \<Rightarrow> Some (Inl e)
                         | Inr (_, s2) \<Rightarrow> vmspace_free_loop s2 addr sz (i + get_page_size))
      else Some (Inr s))"

definition or_hang :: "'a res option \<Rightarrow> 'a res" where
  "or_hang r = (case r of None \<Rightarrow> Inl Hang | Some x \<Rightarrow> x)"

definition vmspace_free ::
    "'a vmm_scheme \<Rightarrow> vmspace \<Rightarrow> u32 \<Rightarrow> u32 \<Rightarrow> u32 \<Rightarrow> (vmspace \<times> 'a vmm_scheme) res" where
  "vmspace_free s vms sz addr free_phys =
     bind_res (spinlock_acquire s (vs_lock vms)) (\<lambda>(s1, l).
     let vms1 = vms\<lparr>vs_lock := l\<rparr> in
     bind_res (if free_phys \<noteq> 0 then or_hang (vmspace_free_loop s1 addr sz 0) else Inr s1) (\<lambda>s2.
     bind_res (buddy_free (vs_allocator vms1) (mem s2) (ucast addr) sz) (\<lambda>m3.
     bind_res (spinlock_release (s2\<lparr>mem := m3\<rparr>) (vs_lock vms1)) (\<lambda>(s4, l4).
       Inr (vms1\<lparr>vs_lock := l4\<rparr>, s4)))))"

end
