(* ===== verification/Slab.thy ===== *)
theory Slab
  imports Vmspace
begin

text \<open>
  The slab allocator of \<^verbatim>\<open>slab.c\<close> and \<^verbatim>\<open>include/slab.h\<close>: objects of one size in slabs of 8KB, each
  with a link to the next slab in its last word and a bitmap of the objects in use below that
  link. \<^verbatim>\<open>c->vms\<close> is always the vmspace of the caller: the operations take it as an argument and
  return it.
\<close>

section \<open>Data\<close>

record slab_cache =
  sc_size :: u32
  sc_init :: u32
  sc_first :: u32
  sc_empty :: u32
  sc_lock :: spinlock

definition SLAB_SIZE :: u32 where
  "SLAB_SIZE = 0x2000"

definition SLAB_ADDR_MASK :: u32 where
  "SLAB_ADDR_MASK = NOT (SLAB_SIZE - 1)"

definition FOOTER_FOR_PTR :: "u32 \<Rightarrow> u32" where
  "FOOTER_FOR_PTR x = (x AND SLAB_ADDR_MASK) + SLAB_SIZE - 4"

definition START_FOR_FOOTER :: "u32 \<Rightarrow> u32" where
  "START_FOR_FOOTER f = f AND SLAB_ADDR_MASK"

text \<open>\<^verbatim>\<open>f->next\<close>, the only field of a \<^verbatim>\<open>slab_footer_t\<close>.\<close>

definition slab_next :: "mem \<Rightarrow> u32 \<Rightarrow> u32" where
  "slab_next m f = load32 m f"

section \<open>The bitmap of a slab\<close>

text \<open>A cache for objects of size 0 divides by zero wherever an object is counted.\<close>

definition nonzero_size :: "slab_cache \<Rightarrow> unit res" where
  "nonzero_size c = (if sc_size c = 0 then Inl (Undefined ''division by zero'') else Inr ())"

definition bitmap_num :: "u32 \<Rightarrow> u32" where
  "bitmap_num obj_sz = (SLAB_SIZE - 4) div obj_sz"

definition bitmap_sz :: "u32 \<Rightarrow> u32" where
  "bitmap_sz obj_sz = bitmap_num obj_sz div 8 + 1"

definition bitmap_idx :: "u32 \<Rightarrow> u32 \<Rightarrow> u32 \<Rightarrow> u32" where
  "bitmap_idx f obj obj_sz = (obj - START_FOR_FOOTER f) div obj_sz"

definition mark_used :: "mem \<Rightarrow> slab_cache \<Rightarrow> u32 \<Rightarrow> u32 \<Rightarrow> mem" where
  "mark_used m c f obj =
     (let idx = bitmap_idx f obj (sc_size c);
          sz = bitmap_sz (sc_size c);
          byte = drop_bit 3 idx;
          b = idx AND 7;
          ptr = f - sz + byte
      in m(ptr := m ptr OR push_bit (unat b) 1))"

definition mark_unused :: "mem \<Rightarrow> slab_cache \<Rightarrow> u32 \<Rightarrow> u32 \<Rightarrow> mem" where
  "mark_unused m c f obj =
     (let idx = bitmap_idx f obj (sc_size c);
          sz = bitmap_sz (sc_size c);
          byte = drop_bit 3 idx;
          b = idx AND 7;
          ptr = f - sz + byte
      in m(ptr := m ptr AND NOT (push_bit (unat b) 1)))"

fun all_zero :: "mem \<Rightarrow> u32 \<Rightarrow> nat \<Rightarrow> bool" where
  "all_zero m p 0 = True"
| "all_zero m p (Suc n) = (if m p \<noteq> 0 then False else all_zero m (p + 1) n)"

definition all_unused :: "mem \<Rightarrow> slab_cache \<Rightarrow> u32 \<Rightarrow> bool" where
  "all_unused m c f =
     (let sz = bitmap_sz (sc_size c) in all_zero m (f - sz) (unat sz))"

text \<open>\<^verbatim>\<open>lsb_clear\<close> shifts zeros in from the left, so it ends after at most eight rounds.\<close>

function lsb_clear_from :: "nat \<Rightarrow> u8 \<Rightarrow> nat" where
  "lsb_clear_from i byte = (if byte AND 1 = 1 then lsb_clear_from (Suc i) (drop_bit 1 byte) else i)"
  by pat_completeness auto
termination
proof (relation "measure (\<lambda>(i, byte). unat byte)")
  fix i and byte :: u8 assume "byte AND 1 = 1"
  then have "byte \<noteq> 0" by auto
  then show "((Suc i, drop_bit 1 byte), i, byte) \<in> measure (\<lambda>(i, byte). unat byte)"
    by (simp only: in_measure prod.case unat_drop_bit) (simp add: unat_gt_0)
qed simp

declare lsb_clear_from.simps [simp del]

definition lsb_clear :: "u8 \<Rightarrow> nat" where
  "lsb_clear byte = lsb_clear_from 0 byte"

text \<open>The scan of \<^verbatim>\<open>find_empty_obj\<close> from byte \<open>i\<close> on, \<open>n\<close> bytes being left.\<close>

fun find_empty_from :: "mem \<Rightarrow> slab_cache \<Rightarrow> u32 \<Rightarrow> u32 \<Rightarrow> u32 \<Rightarrow> nat \<Rightarrow> u32" where
  "find_empty_from m c f p i 0 = 0"
| "find_empty_from m c f p i (Suc n) =
     (if m p \<noteq> 0xFF
      then let idx = i * 8 + of_nat (lsb_clear (m p))
           in if idx \<ge> bitmap_num (sc_size c) then 0 else START_FOR_FOOTER f + sc_size c * idx
      else find_empty_from m c f (p + 1) (i + 1) n)"

definition find_empty_obj :: "mem \<Rightarrow> slab_cache \<Rightarrow> u32 \<Rightarrow> u32" where
  "find_empty_obj m c f =
     (let sz = bitmap_sz (sc_size c) in find_empty_from m c f (f - sz) 0 (unat sz))"

section \<open>Slabs\<close>

text \<open>
  \<^verbatim>\<open>create\<close> does not test the address it gets. When the range is exhausted it is \<open>~0\<close>, and the
  footer it writes lies in the page directory's window, not in any object.
\<close>

definition create :: "'a vmm_scheme \<Rightarrow> vmspace \<Rightarrow> slab_cache \<Rightarrow> (u32 \<times> vmspace \<times> 'a vmm_scheme) res" where
  "create s vms c =
     bind_res (vmspace_alloc s vms SLAB_SIZE PAGE_WRITE) (\<lambda>(addr, vms1, s1).
     if addr = NOT 0 then Inl (Undefined ''create: slab at ~0'') else
     bind_res (nonzero_size c) (\<lambda>_.
     let f = FOOTER_FOR_PTR addr;
         m1 = store32 (mem s1) f 0;
         bm = f - bitmap_sz (sc_size c)
     in Inr (f, vms1, s1\<lparr>mem := memset m1 bm 0 (unat (bitmap_sz (sc_size c)))\<rparr>)))"

definition destroy :: "'a vmm_scheme \<Rightarrow> vmspace \<Rightarrow> u32 \<Rightarrow> (vmspace \<times> 'a vmm_scheme) res" where
  "destroy s vms f = vmspace_free s vms SLAB_SIZE (START_FOR_FOOTER f) 1"

section \<open>Caches\<close>

definition slab_cache_create :: "u32 \<Rightarrow> u32 \<Rightarrow> int \<times> slab_cache" where
  "slab_cache_create sz init =
     (0, \<lparr>sc_size = sz, sc_init = init, sc_first = 0, sc_empty = 0, sc_lock = SPINLOCK_RELEASED\<rparr>)"

partial_function (option) destroy_slabs ::
    "'a vmm_scheme \<Rightarrow> vmspace \<Rightarrow> u32 \<Rightarrow> (vmspace \<times> 'a vmm_scheme) res option" where
  "destroy_slabs s vms f =
     (if f \<noteq> 0
      then let f' = slab_next (mem s) f
           in case destroy s vms f of
                Inl e \<Rightarrow> Some (Inl e)
              | Inr (vms1, s1) \<Rightarrow> destroy_slabs s1 vms1 f'
      else Some (Inr (vms, s)))"

definition slab_cache_destroy ::
    "'a vmm_scheme \<Rightarrow> vmspace \<Rightarrow> slab_cache \<Rightarrow> (int \<times> slab_cache \<times> vmspace \<times> 'a vmm_scheme) res" where
  "slab_cache_destroy s vms c =
     bind_res (or_hang (destroy_slabs s vms (sc_first c))) (\<lambda>(vms1, s1).
       Inr (0, c\<lparr>sc_first := 0\<rparr>, vms1, s1))"

text \<open>The search for the next empty object, from the slab at \<open>f\<close> to the end of the list.\<close>

partial_function (option) next_empty :: "mem \<Rightarrow> slab_cache \<Rightarrow> u32 \<Rightarrow> u32 option" where
  "next_empty m c f =
     (if f \<noteq> 0
      then let e = find_empty_obj m c f
           in if e \<noteq> 0 then Some e else next_empty m c (slab_next m f)
      else Some 0)"

definition slab_take :: "'a vmm_scheme \<Rightarrow> vmspace \<Rightarrow> slab_cache \<Rightarrow>
    (u32 \<times> slab_cache \<times> vmspace \<times> 'a vmm_scheme) res" where
  "slab_take s vms c =
     (if sc_empty c \<noteq> 0
      then bind_res (nonzero_size c) (\<lambda>_.
           let obj = sc_empty c;
               f = FOOTER_FOR_PTR obj;
               m = mark_used (mem s) c f obj
           in case next_empty m c f of
                None \<Rightarrow> Inl Hang
              | Some e \<Rightarrow> Inr (obj, c\<lparr>sc_empty := e\<rparr>, vms, s\<lparr>mem := m\<rparr>))
      else let f = sc_first c in
           bind_res (create s vms c) (\<lambda>(g, vms1, s1).
           let m1 = store32 (mem s1) g f;
               obj = START_FOR_FOOTER g;
               m2 = mark_used m1 c g obj
           in Inr (obj, c\<lparr>sc_first := g, sc_empty := find_empty_obj m2 c g\<rparr>, vms1, s1\<lparr>mem := m2\<rparr>)))"

definition slab_cache_alloc :: "'a vmm_scheme \<Rightarrow> vmspace \<Rightarrow> slab_cache \<Rightarrow>
    (u32 \<times> slab_cache \<times> vmspace \<times> 'a vmm_scheme) res" where
  "slab_cache_alloc s vms c =
     bind_res (spinlock_acquire s (sc_lock c)) (\<lambda>(s1, l).
     bind_res (slab_take s1 vms (c\<lparr>sc_lock := l\<rparr>)) (\<lambda>(obj, c2, vms2, s2).
     let s3 = (if sc_init c2 \<noteq> 0
               then s2\<lparr>mem := memcpy (mem s2) obj (sc_init c2) (unat (sc_size c2))\<rparr> else s2) in
     bind_res (spinlock_release s3 (sc_lock c2)) (\<lambda>(s4, l4).
       Inr (obj, c2\<lparr>sc_lock := l4\<rparr>, vms2, s4))))"

text \<open>
  The walk to the slab before \<open>f\<close>. Running past the end of the list would read through a null
  pointer.
\<close>

partial_function (option) slab_before :: "mem \<Rightarrow> u32 \<Rightarrow> u32 \<Rightarrow> u32 res option" where
  "slab_before m f2 f =
     (if f2 = 0 then Some (Inl (Undefined ''null slab''))
      else if slab_next m f2 \<noteq> f then slab_before m (slab_next m f2) f
      else Some (Inr f2))"

definition slab_drop :: "'a vmm_scheme \<Rightarrow> vmspace \<Rightarrow> slab_cache \<Rightarrow> u32 \<Rightarrow>
    (slab_cache \<times> vmspace \<times> 'a vmm_scheme) res" where
  "slab_drop s vms c f =
     bind_res
       (let f2 = sc_first c in
        if f2 = f then Inr (c\<lparr>sc_first := 0\<rparr>, s)
        else bind_res (or_hang (slab_before (mem s) f2 f)) (\<lambda>p.
               Inr (c, s\<lparr>mem := store32 (mem s) p 0\<rparr>))) (\<lambda>(c1, s1).
     let c2 = (if FOOTER_FOR_PTR (sc_empty c1) = f then c1\<lparr>sc_empty := 0\<rparr> else c1) in
     bind_res (destroy s1 vms f) (\<lambda>(vms2, s2). Inr (c2, vms2, s2)))"

definition slab_cache_free :: "'a vmm_scheme \<Rightarrow> vmspace \<Rightarrow> slab_cache \<Rightarrow> u32 \<Rightarrow>
    (slab_cache \<times> vmspace \<times> 'a vmm_scheme) res" where
  "slab_cache_free s vms c obj =
     bind_res (spinlock_acquire s (sc_lock c)) (\<lambda>(s1, l).
     let c1 = c\<lparr>sc_lock := l\<rparr> in
     bind_res (assert_res (sc_first c1 \<noteq> 0) ''Trying to free from an empty cache!'') (\<lambda>_.
     bind_res (nonzero_size c1) (\<lambda>_.
     let f = FOOTER_FOR_PTR obj;
         s2 = s1\<lparr>mem := mark_unused (mem s1) c1 f obj\<rparr>;
         c2 = (if sc_empty c1 = 0 \<or> sc_empty c1 > obj then c1\<lparr>sc_empty := obj\<rparr> else c1) in
     bind_res (if slab_next (mem s2) f = 0 \<and> all_unused (mem s2) c2 f
               then slab_drop s2 vms c2 f else Inr (c2, vms, s2)) (\<lambda>(c3, vms3, s3).
     bind_res (spinlock_release s3 (sc_lock c3)) (\<lambda>(s4, l4).
       Inr (c3\<lparr>sc_lock := l4\<rparr>, vms3, s4))))))"

end
