(* ===== verification/Kmalloc.thy ===== *)
theory Kmalloc
  imports Slab
begin

text \<open>
  The kernel heap of \<^verbatim>\<open>kmalloc.c\<close>: seven slab caches for the sizes 8 to 512, whole pages of the
  kernel's vmspace above that, and a header word in front of every block that says which.
\<close>

section \<open>Data\<close>

definition MAX_CACHESZ_LOG2 :: nat where "MAX_CACHESZ_LOG2 = 9"
definition MIN_CACHESZ_LOG2 :: nat where "MIN_CACHESZ_LOG2 = 3"
definition KMALLOC_CANARY :: u32 where "KMALLOC_CANARY = 0xDEAD12"

definition MMAP_KERNEL_VMSPACE_START :: u32 where "MMAP_KERNEL_VMSPACE_START = 0xD0000000"
definition MMAP_KERNEL_VMSPACE_END :: u32 where "MMAP_KERNEL_VMSPACE_END = 0xFE800000"

lemmas kmalloc_consts = MAX_CACHESZ_LOG2_def MIN_CACHESZ_LOG2_def KMALLOC_CANARY_def

record kheap = vmm +
  kernel_vmspace :: vmspace
  caches :: "slab_cache list"

section \<open>Operations\<close>

text \<open>\<^verbatim>\<open>slab_cache_alloc(&caches[i])\<close>, with the cache and its vmspace written back.\<close>

definition cache_alloc :: "'a kheap_scheme \<Rightarrow> nat \<Rightarrow> (u32 \<times> 'a kheap_scheme) res" where
  "cache_alloc s i =
     bind_res (slab_cache_alloc s (kernel_vmspace s) (caches s ! i)) (\<lambda>(p, c, vms, s1).
       Inr (p, s1\<lparr>kernel_vmspace := vms, caches := (caches s1)[i := c]\<rparr>))"

definition cache_free :: "'a kheap_scheme \<Rightarrow> nat \<Rightarrow> u32 \<Rightarrow> 'a kheap_scheme res" where
  "cache_free s i p =
     bind_res (slab_cache_free s (kernel_vmspace s) (caches s ! i) p) (\<lambda>(c, vms, s1).
       Inr (s1\<lparr>kernel_vmspace := vms, caches := (caches s1)[i := c]\<rparr>))"

text \<open>
  A block of pages of \<open>2 ^ l2\<close> bytes. \<^verbatim>\<open>1U << 32\<close> is undefined. The address is not tested: when the
  range is exhausted it is \<open>~0\<close>, and the header would be written through it.
\<close>

definition page_block :: "'a kheap_scheme \<Rightarrow> nat \<Rightarrow> (u32 \<times> nat \<times> 'a kheap_scheme) res" where
  "page_block s l2 =
     (if l2 \<ge> 32 then Inl (Undefined ''shift by 32'')
      else let sz_p2 = push_bit l2 1 :: u32 in
           bind_res (if sz_p2 < get_page_size
                     then bind_res (log2_roundup get_page_size) (\<lambda>l. Inr (get_page_size, l))
                     else Inr (sz_p2, l2)) (\<lambda>(sz, l).
           bind_res (vmspace_alloc s (kernel_vmspace s) sz 1) (\<lambda>(p, vms, s1).
           if p = NOT 0 then Inl (Undefined ''kmalloc: block at ~0'')
           else Inr (p, l, s1\<lparr>kernel_vmspace := vms\<rparr>))))"

definition kmalloc :: "'a kheap_scheme \<Rightarrow> u32 \<Rightarrow> (u32 \<times> 'a kheap_scheme) res" where
  "kmalloc s sz0 =
     (let sz = sz0 + 4 in
      bind_res (log2_roundup sz) (\<lambda>l0.
      let l2 = (if l0 < MIN_CACHESZ_LOG2 then MIN_CACHESZ_LOG2 else l0) in
      bind_res (if l2 \<ge> MIN_CACHESZ_LOG2 \<and> l2 \<le> MAX_CACHESZ_LOG2
                then bind_res (cache_alloc s (l2 - MIN_CACHESZ_LOG2)) (\<lambda>(p, s1). Inr (p, l2, s1))
                else page_block s l2) (\<lambda>(ptr, l, s2).
        Inr (ptr + 4, s2\<lparr>mem := store32 (mem s2) ptr (push_bit 8 KMALLOC_CANARY OR of_nat l)\<rparr>))))"

definition kfree :: "'a kheap_scheme \<Rightarrow> u32 \<Rightarrow> 'a kheap_scheme res" where
  "kfree s p0 =
     (let p = p0 - 4;
          h = load32 (mem s) p;
          l2 = unat (h AND 0xFF);
          canary = drop_bit 8 h
      in bind_res (assert_res (canary = KMALLOC_CANARY) ''Heap corruption!'') (\<lambda>_.
         if l2 \<le> MAX_CACHESZ_LOG2
         then if l2 < MIN_CACHESZ_LOG2 then Inl (Undefined ''caches[] out of bounds'')
              else cache_free s (l2 - MIN_CACHESZ_LOG2) p
         else if l2 \<ge> 32 then Inl (Undefined ''shift by 32 or more'')
         else bind_res (vmspace_free s (kernel_vmspace s) (push_bit l2 1) p 1) (\<lambda>(vms, s1).
                Inr (s1\<lparr>kernel_vmspace := vms\<rparr>))))"

definition kmalloc_init :: "'a kheap_scheme \<Rightarrow> (int \<times> 'a kheap_scheme) res" where
  "kmalloc_init s =
     bind_res (vmspace_init s MMAP_KERNEL_VMSPACE_START
       (MMAP_KERNEL_VMSPACE_END - MMAP_KERNEL_VMSPACE_START)) (\<lambda>(r, vms, s1).
     bind_res (assert_res (r \<noteq> -1) ''kernel_vmspace init failed!'') (\<lambda>_.
     let cs = map (\<lambda>i. slab_cache_create (push_bit (i + MIN_CACHESZ_LOG2) 1) 0)
                [0 ..< MAX_CACHESZ_LOG2 - MIN_CACHESZ_LOG2 + 1]
     in bind_res (assert_res (\<forall>x \<in> set cs. fst x = 0) ''slab cache creation failed!'') (\<lambda>_.
          Inr (1, s1\<lparr>kernel_vmspace := vms, caches := map snd cs\<rparr>))))"

end
