(* ===== verification/Slab_Layout.thy ===== *)
theory Slab_Layout
  imports Slab
begin

text \<open>
  Inside one slab and along the list of slabs: where the objects, the bitmap and the link lie,
  what the bitmap says, how it is scanned, and the invariant of the list of slabs of a cache.
\<close>

section \<open>Addresses\<close>

lemma bit_slab_mask: "bit (0x1FFF :: u32) n \<longleftrightarrow> n < 13"
proof -
  have "(0x1FFF :: u32) = mask 13" by (simp add: mask_eq_exp_minus_1)
  then show ?thesis by (simp only: bit_mask_iff) auto
qed

lemma unat_slab_mask: "unat (x AND SLAB_ADDR_MASK) = unat x div 8192 * 8192"
proof -
  have "x AND SLAB_ADDR_MASK = push_bit 13 (drop_bit 13 x)"
  proof (rule bit_word_eqI)
    fix n assume n: "n < LENGTH(32)"
    have "bit SLAB_ADDR_MASK n \<longleftrightarrow> 13 \<le> n"
      using n bit_slab_mask [of n] by (simp only: SLAB_ADDR_MASK_def SLAB_SIZE_def bit_not_iff_eq) auto
    then show "bit (x AND SLAB_ADDR_MASK) n \<longleftrightarrow> bit (push_bit 13 (drop_bit 13 x)) n"
      using n by (auto simp: bit_simps)
  qed
  moreover have "unat x div 8192 * 8192 < 2 ^ 32" using unat_u32_less [of x] by simp
  ultimately show ?thesis
    using unat_push_bit [of "drop_bit 13 x" 13] by (simp only: unat_drop_bit) simp
qed

definition obj_num :: "slab_cache \<Rightarrow> nat" where
  "obj_num c = unat (bitmap_num (sc_size c))"

text \<open>The \<open>k\<close>-th object of the slab with footer \<open>f\<close>.\<close>

definition slab_obj :: "slab_cache \<Rightarrow> u32 \<Rightarrow> nat \<Rightarrow> u32" where
  "slab_obj c f k = START_FOR_FOOTER f + sc_size c * of_nat k"

text \<open>An address that can be a footer: the last word of an 8KB block that is not at 0.\<close>

definition slab_at :: "u32 \<Rightarrow> bool" where
  "slab_at f \<longleftrightarrow> 8192 \<le> unat f \<and> unat f mod 8192 = 0x1FFC"

text \<open>There is at least one object, and the objects end before the bitmap begins.\<close>

definition slab_fits :: "slab_cache \<Rightarrow> bool" where
  "slab_fits c \<longleftrightarrow> sc_size c \<noteq> 0 \<and> 0 < obj_num c \<and>
     obj_num c * unat (sc_size c) + unat (bitmap_sz (sc_size c)) \<le> 0x1FFC"

lemma slab_at_start:
  assumes "slab_at f"
  shows "unat f = unat (START_FOR_FOOTER f) + 0x1FFC" "unat (START_FOR_FOOTER f) mod 8192 = 0"
    "f = START_FOR_FOOTER f + 0x1FFC" "START_FOR_FOOTER f \<noteq> 0" "f \<noteq> 0"
    "unat (START_FOR_FOOTER f) + 8192 \<le> 4294967296"
proof -
  have m: "unat (START_FOR_FOOTER f) = unat f div 8192 * 8192"
    by (simp add: START_FOR_FOOTER_def unat_slab_mask)
  then show u: "unat f = unat (START_FOR_FOOTER f) + 0x1FFC" "unat (START_FOR_FOOTER f) mod 8192 = 0"
    using assms div_mult_mod_eq [of "unat f" 8192] by (simp_all only: slab_at_def) simp_all
  from u(1) have "unat f = unat (START_FOR_FOOTER f + 0x1FFC)"
    using unat_u32_less [of f] by (simp add: unat_word_ariths)
  then show "f = START_FOR_FOOTER f + 0x1FFC" by (simp add: word_unat_eq_iff)
  show "START_FOR_FOOTER f \<noteq> 0" "f \<noteq> 0" using m assms by (auto simp: slab_at_def word_unat_eq_iff)
  have "unat f div 8192 < 524288" using unat_u32_less [of f] by (simp add: div_less_iff_less_mult)
  then show "unat (START_FOR_FOOTER f) + 8192 \<le> 4294967296" using m by simp
qed

lemma obj_num_eq: "sc_size c \<noteq> 0 \<Longrightarrow> obj_num c = 0x1FFC div unat (sc_size c)"
  by (simp add: obj_num_def bitmap_num_def SLAB_SIZE_def unat_div)

lemma bitmap_sz_eq: "unat (bitmap_sz (sc_size c)) = obj_num c div 8 + 1"
proof -
  have "obj_num c \<le> 0x1FFC"
    by (simp add: obj_num_def bitmap_num_def SLAB_SIZE_def unat_div div_le_dividend)
  then have "obj_num c div 8 \<le> 0x1FFC" using div_le_dividend le_trans by blast
  then show ?thesis by (simp add: bitmap_sz_def unat_word_ariths unat_div obj_num_def)
qed

text \<open>\<^verbatim>\<open>FOOTER_FOR_PTR\<close> and \<^verbatim>\<open>bitmap_idx\<close> invert the layout.\<close>

lemma slab_obj_props:
  assumes "slab_at f" "sc_size c \<noteq> 0" "k < obj_num c"
  shows "unat (slab_obj c f k) = unat (START_FOR_FOOTER f) + unat (sc_size c) * k"
    "unat (sc_size c) * k + unat (sc_size c) \<le> 0x1FFC"
    "FOOTER_FOR_PTR (slab_obj c f k) = f" "bitmap_idx f (slab_obj c f k) (sc_size c) = of_nat k"
    "slab_obj c f k \<noteq> 0"
proof -
  note st = slab_at_start [OF assms(1)]
  have "Suc k \<le> 0x1FFC div unat (sc_size c)" using assms(3) obj_num_eq [OF assms(2)] by simp
  then have "Suc k * unat (sc_size c) \<le> 0x1FFC div unat (sc_size c) * unat (sc_size c)" by (rule mult_le_mono1)
  also have "\<dots> \<le> 0x1FFC" by (rule div_times_less_eq_dividend)
  finally show le: "unat (sc_size c) * k + unat (sc_size c) \<le> 0x1FFC" by (simp add: algebra_simps)
  have k: "k < 4294967296"
    using assms(3) unat_u32_less [of "bitmap_num (sc_size c)"] by (simp add: obj_num_def)
  have off: "unat (sc_size c * of_nat k) = unat (sc_size c) * k"
    using le k by (simp add: unat_word_ariths)
  show u: "unat (slab_obj c f k) = unat (START_FOR_FOOTER f) + unat (sc_size c) * k"
    using st(6) le off unfolding slab_obj_def by (subst unat_word_ariths) simp
  then show "slab_obj c f k \<noteq> 0" using st(4) by (auto simp: word_unat_eq_iff)
  have "unat (slab_obj c f k AND SLAB_ADDR_MASK) = unat (START_FOR_FOOTER f)"
  proof -
    have "unat (START_FOR_FOOTER f) = unat (START_FOR_FOOTER f) div 8192 * 8192"
      using st(2) by (metis add_0_right div_mult_mod_eq)
    moreover have "(unat (START_FOR_FOOTER f) + unat (sc_size c) * k) div 8192 = unat (START_FOR_FOOTER f) div 8192"
      using st(2) le by (subst div_add1_eq) simp
    ultimately show ?thesis by (simp only: unat_slab_mask u)
  qed
  then have "slab_obj c f k AND SLAB_ADDR_MASK = START_FOR_FOOTER f" by (simp only: word_unat_eq_iff)
  then show "FOOTER_FOR_PTR (slab_obj c f k) = f"
    using st(3) by (simp add: FOOTER_FOR_PTR_def SLAB_SIZE_def algebra_simps)
  have "0 < unat (sc_size c)" using assms(2) by (simp add: unat_gt_0)
  then have "unat (bitmap_idx f (slab_obj c f k) (sc_size c)) = k"
    by (simp add: bitmap_idx_def slab_obj_def unat_div off)
  then show "bitmap_idx f (slab_obj c f k) (sc_size c) = of_nat k"
    using k by (simp add: word_unat_eq_iff)
qed

section \<open>The objects in use\<close>

text \<open>The bitmap below the footer has the layout of \<^verbatim>\<open>bitmap.c\<close>, for the extent \<open>obj_num c\<close>.\<close>

definition slab_bm :: "slab_cache \<Rightarrow> u32 \<Rightarrow> bitmap" where
  "slab_bm c f = \<lparr>data = f - bitmap_sz (sc_size c), max_extent = of_nat (obj_num c)\<rparr>"

abbreviation bm_region :: "slab_cache \<Rightarrow> u32 \<Rightarrow> u32 set" where
  "bm_region c f \<equiv> bm_storage (slab_bm c f) (obj_num c)"

definition used :: "mem \<Rightarrow> slab_cache \<Rightarrow> u32 \<Rightarrow> nat set" where
  "used m c f = bm_bits m (slab_bm c f) (obj_num c)"

lemma obj_num_less: "obj_num c < 4294967296"
  by (simp add: obj_num_def unat_u32_less)

lemma used_frame:
  assumes "same_outside A m m'" "A \<inter> bm_region c f = {}"
  shows "used m' c f = used m c f"
  unfolding used_def using assms
  by (intro bm_bits_storage [OF obj_num_less]) (auto simp: same_outside_def)

lemma mark_as_bitmap:
  assumes "slab_at f" "sc_size c \<noteq> 0" "k < obj_num c"
  shows "bitmap_set m (slab_bm c f) (of_nat k) = Inr (mark_used m c f (slab_obj c f k))"
    "bitmap_clear m (slab_bm c f) (of_nat k) = mark_unused m c f (slab_obj c f k)"
proof -
  have idx: "bitmap_idx f (slab_obj c f k) (sc_size c) = of_nat k" by (rule slab_obj_props(4) [OF assms])
  have d: "drop_bit 3 (x :: u32) = x div 8" for x by (simp add: drop_bit_eq_div)
  have m: "(x :: u32) AND 7 = x mod 8" for x
    using take_bit_eq_mask [of 3 x] take_bit_eq_mod [of 3 x] by (simp add: mask_eq_exp_minus_1)
  show "bitmap_set m (slab_bm c f) (of_nat k) = Inr (mark_used m c f (slab_obj c f k))"
    by (simp only: bitmap_set_eq mark_used_def Let_def idx d m slab_bm_def bitmap.simps)
  show "bitmap_clear m (slab_bm c f) (of_nat k) = mark_unused m c f (slab_obj c f k)"
    by (simp only: bitmap_clear_def mark_unused_def Let_def idx d m slab_bm_def bitmap.simps)
qed

lemma mark_used_spec:
  assumes "slab_at f" "sc_size c \<noteq> 0" "k < obj_num c"
  shows "used (mark_used m c f (slab_obj c f k)) c f = insert k (used m c f)"
    "same_outside (bm_region c f) m (mark_used m c f (slab_obj c f k))"
proof -
  have k: "k < bm_cap (obj_num c)" using assms(3) bm_cap_gt [of "obj_num c"] by simp
  note b = mark_as_bitmap(1) [OF assms]
  show "used (mark_used m c f (slab_obj c f k)) c f = insert k (used m c f)"
    unfolding used_def by (rule bm_bits_set [OF obj_num_less k b])
  show "same_outside (bm_region c f) m (mark_used m c f (slab_obj c f k))"
    by (rule bitmap_set_frame [OF obj_num_less k b])
qed

lemma mark_unused_spec:
  assumes "slab_at f" "sc_size c \<noteq> 0" "k < obj_num c"
  shows "used (mark_unused m c f (slab_obj c f k)) c f = used m c f - {k}"
    "same_outside (bm_region c f) m (mark_unused m c f (slab_obj c f k))"
proof -
  have k: "k < bm_cap (obj_num c)" using assms(3) bm_cap_gt [of "obj_num c"] by simp
  note b = mark_as_bitmap(2) [OF assms, of m]
  show "used (mark_unused m c f (slab_obj c f k)) c f = used m c f - {k}"
    using bm_bits_clear [OF obj_num_less k, of m "slab_bm c f"] unfolding used_def b .
  show "same_outside (bm_region c f) m (mark_unused m c f (slab_obj c f k))"
    using bitmap_clear_frame [OF obj_num_less k, of "slab_bm c f" m] unfolding b .
qed

text \<open>A fresh bitmap.\<close>

lemma used_memset:
  "used (memset m (f - bitmap_sz (sc_size c)) 0 (unat (bitmap_sz (sc_size c)))) c f = {}"
proof -
  have "bitmap_init m (f - bitmap_sz (sc_size c)) (of_nat (obj_num c)) =
      (slab_bm c f, memset m (f - bitmap_sz (sc_size c)) 0 (unat (bitmap_sz (sc_size c))))"
    by (simp add: bitmap_init_def slab_bm_def bitmap_bytes_of_nat [OF obj_num_less] bitmap_sz_eq)
  from bm_bits_init(3) [OF obj_num_less this] show ?thesis by (simp add: used_def)
qed

lemma bm_region_eq: "bm_region c f = region (f - bitmap_sz (sc_size c)) (unat (bitmap_sz (sc_size c)))"
  by (simp add: bm_storage_def slab_bm_def bitmap_sz_eq)

section \<open>Scanning the bitmap\<close>

lemma all_zero_iff: "all_zero m p n \<longleftrightarrow> (\<forall>i < n. m (p + of_nat i) = 0)"
proof (induction n arbitrary: p)
  case (Suc n)
  have "(\<forall>i < Suc n. m (p + of_nat i) = 0) \<longleftrightarrow> m p = 0 \<and> (\<forall>i < n. m (p + 1 + of_nat i) = 0)"
    by (auto simp: All_less_Suc2 algebra_simps)
  with Suc show ?case by simp
qed simp

lemma used_iff:
  "i < obj_num c div 8 + 1 \<Longrightarrow> b < 8 \<Longrightarrow>
   i * 8 + b \<in> used m c f \<longleftrightarrow> bit (m (f - bitmap_sz (sc_size c) + of_nat i)) b"
proof -
  assume i: "i < obj_num c div 8 + 1" and b: "b < 8"
  then have cap: "i * 8 + b < bm_cap (obj_num c)" by (simp add: bm_cap_def)
  moreover have "i * 8 + b < 4294967296" using cap bm_cap_le [OF obj_num_less, of c] by simp
  ultimately show ?thesis
    using b by (simp add: used_def bm_bits_iff bitmap_isset_of_nat slab_bm_def del: of_nat_add of_nat_mult)
qed

lemma all_unused_iff: "all_unused m c f \<longleftrightarrow> used m c f = {}"
proof -
  let ?p = "f - bitmap_sz (sc_size c)"
  have "used m c f = {} \<longleftrightarrow> (\<forall>i < obj_num c div 8 + 1. \<forall>b < 8. i * 8 + b \<notin> used m c f)"
  proof
    assume all: "\<forall>i < obj_num c div 8 + 1. \<forall>b < 8. i * 8 + b \<notin> used m c f"
    have "x \<notin> used m c f" for x
    proof
      assume x: "x \<in> used m c f"
      then have "x div 8 < obj_num c div 8 + 1"
        by (auto simp: used_def bm_bits_def bm_cap_def)
      with all [rule_format, of "x div 8" "x mod 8"] x show False by simp
    qed
    then show "used m c f = {}" by auto
  qed auto
  also have "\<dots> \<longleftrightarrow> (\<forall>i < obj_num c div 8 + 1. \<forall>b < 8. \<not> bit (m (?p + of_nat i)) b)"
    using used_iff by blast
  also have "\<dots> \<longleftrightarrow> (\<forall>i < obj_num c div 8 + 1. m (?p + of_nat i) = 0)"
  proof -
    have "(\<forall>b < 8. \<not> bit w b) \<longleftrightarrow> w = 0" for w :: u8
      using bit_word_eqI [of w 0] by auto
    then show ?thesis by simp
  qed
  finally show ?thesis by (simp add: all_unused_def Let_def all_zero_iff bitmap_sz_eq)
qed

lemma lsb_clear_from_spec:
  "\<exists>k. lsb_clear_from i byte = i + k \<and> \<not> bit byte k \<and> (\<forall>j < k. bit byte j)"
proof (induction i byte rule: lsb_clear_from.induct)
  case (1 i byte)
  have b0: "byte AND 1 = 1 \<longleftrightarrow> bit byte 0" by (simp add: and_one_eq bit_0 odd_iff_mod_2_eq_one)
  show ?case
  proof (cases "bit byte 0")
    case True
    with 1 b0 obtain k where k: "lsb_clear_from (Suc i) (drop_bit 1 byte) = Suc i + k"
      "\<not> bit (drop_bit 1 byte) k" "\<forall>j < k. bit (drop_bit 1 byte) j" by blast
    have "lsb_clear_from i byte = i + Suc k"
      using k(1) b0 True by (subst lsb_clear_from.simps) simp
    moreover have "\<not> bit byte (Suc k)" using k(2) by (simp add: bit_drop_bit_eq)
    moreover have "bit byte j" if "j < Suc k" for j
      using that k(3) True by (cases j) (auto simp: bit_drop_bit_eq)
    ultimately show ?thesis by blast
  next
    case False
    then show ?thesis using b0 by (subst lsb_clear_from.simps) auto
  qed
qed

lemma lsb_clear_spec:
  assumes "byte \<noteq> 0xFF"
  shows "lsb_clear byte < 8" "\<not> bit byte (lsb_clear byte)" "j < lsb_clear byte \<Longrightarrow> bit byte j"
proof -
  obtain k where k: "lsb_clear byte = k" "\<not> bit byte k" "\<forall>j < k. bit byte j"
    using lsb_clear_from_spec [of 0 byte] by (auto simp: lsb_clear_def)
  show "\<not> bit byte (lsb_clear byte)" "j < lsb_clear byte \<Longrightarrow> bit byte j" using k by auto
  have ff: "bit (0xFF :: u8) j" if "j < 8" for j
  proof -
    have "(0xFF :: u8) = mask 8" by (simp add: mask_eq_exp_minus_1)
    with that show ?thesis by (simp only: bit_mask_iff) simp
  qed
  show "lsb_clear byte < 8"
  proof (rule ccontr)
    assume "\<not> lsb_clear byte < 8"
    with k ff have "byte = 0xFF" by (intro bit_word_eqI) auto
    with assms show False by simp
  qed
qed

lemma find_empty_from_spec:
  fixes m :: mem
  assumes "i + n = obj_num c div 8 + 1" "slab_at f" "sc_size c \<noteq> 0"
  defines "e \<equiv> find_empty_from m c f (f - bitmap_sz (sc_size c) + of_nat i) (of_nat i) n"
  shows "e = 0 \<and> (\<forall>k. 8 * i \<le> k \<and> k < obj_num c \<longrightarrow> k \<in> used m c f) \<or>
    (\<exists>k < obj_num c. e = slab_obj c f k \<and> k \<notin> used m c f \<and> (\<forall>j. 8 * i \<le> j \<and> j < k \<longrightarrow> j \<in> used m c f))"
  using assms(1) unfolding e_def
proof (induction n arbitrary: i)
  case 0
  then show ?case by auto
next
  case (Suc n)
  let ?w = "m (f - bitmap_sz (sc_size c) + of_nat i)"
  have i: "i < obj_num c div 8 + 1" using Suc.prems by simp
  have in_byte: "k \<in> used m c f \<longleftrightarrow> bit ?w (k - 8 * i)" if "8 * i \<le> k" "k < 8 * i + 8" for k
    using used_iff [OF i, of "k - 8 * i" m f] that by (simp add: mult.commute)
  show ?case
  proof (cases "?w = 0xFF")
    case True
    have all: "k \<in> used m c f" if "8 * i \<le> k" "k < 8 * i + 8" for k
    proof -
      have "(0xFF :: u8) = mask 8" by (simp add: mask_eq_exp_minus_1)
      moreover have "k - 8 * i < 8" using that by arith
      ultimately show ?thesis using in_byte [OF that] True by (simp only: bit_mask_iff) simp
    qed
    have "Suc i + n = obj_num c div 8 + 1" using Suc.prems by simp
    from Suc.IH [OF this] show ?thesis
    proof (elim disjE conjE exE)
      assume "find_empty_from m c f (f - bitmap_sz (sc_size c) + of_nat (Suc i)) (of_nat (Suc i)) n = 0"
        and later: "\<forall>k. 8 * Suc i \<le> k \<and> k < obj_num c \<longrightarrow> k \<in> used m c f"
      moreover have "k \<in> used m c f" if "8 * i \<le> k" "k < obj_num c" for k
        using all [of k] later that by (cases "k < 8 * i + 8") auto
      ultimately show ?thesis using True by (simp add: algebra_simps)
    next
      fix k assume k: "k < obj_num c"
        "find_empty_from m c f (f - bitmap_sz (sc_size c) + of_nat (Suc i)) (of_nat (Suc i)) n = slab_obj c f k"
        "k \<notin> used m c f" "\<forall>j. 8 * Suc i \<le> j \<and> j < k \<longrightarrow> j \<in> used m c f"
      moreover have "j \<in> used m c f" if "8 * i \<le> j" "j < k" for j
        using all [of j] k(4) that by (cases "j < 8 * i + 8") auto
      ultimately show ?thesis using True by (intro disjI2 exI [of _ k]) (simp add: algebra_simps)
    qed
  next
    case False
    note l = lsb_clear_spec [OF False]
    let ?k = "8 * i + lsb_clear ?w"
    have small: "?k < 4294967296"
      using i l(1) obj_num_less [of c] bm_cap_le [OF obj_num_less, of c] by (simp add: bm_cap_def)
    have idx: "of_nat i * 8 + of_nat (lsb_clear ?w) = (of_nat ?k :: u32)" by (simp add: mult.commute)
    have ge: "bitmap_num (sc_size c) \<le> of_nat ?k \<longleftrightarrow> obj_num c \<le> ?k"
      using small by (simp add: word_le_nat_alt obj_num_def del: of_nat_add of_nat_mult)
    have eq: "find_empty_from m c f (f - bitmap_sz (sc_size c) + of_nat i) (of_nat i) (Suc n) =
        (if obj_num c \<le> ?k then 0 else slab_obj c f ?k)"
      using False by (simp add: Let_def idx ge slab_obj_def del: of_nat_add of_nat_mult)
    have before: "j \<in> used m c f" if "8 * i \<le> j" "j < ?k" for j
      using in_byte [of j] l(1) l(3) [of "j - 8 * i"] that by simp
    have "?k \<notin> used m c f" using in_byte [of ?k] l(1,2) by simp
    then show ?thesis unfolding eq using before by (auto simp: not_le)
  qed
qed

lemma find_empty_obj_spec:
  assumes "slab_at f" "sc_size c \<noteq> 0"
  obtains (none) "find_empty_obj m c f = 0" "\<forall>k < obj_num c. k \<in> used m c f"
    | (some) k where "k < obj_num c" "find_empty_obj m c f = slab_obj c f k" "k \<notin> used m c f"
        "\<forall>j < k. j \<in> used m c f"
  using find_empty_from_spec [of 0 "obj_num c div 8 + 1" c f m, OF _ assms]
  unfolding find_empty_obj_def Let_def bitmap_sz_eq by auto

section \<open>The parts of a slab\<close>

abbreviation slab_region :: "u32 \<Rightarrow> u32 set" where
  "slab_region f \<equiv> region (START_FOR_FOOTER f) 8192"

definition obj_region :: "slab_cache \<Rightarrow> u32 \<Rightarrow> nat \<Rightarrow> u32 set" where
  "obj_region c f k = region (slab_obj c f k) (unat (sc_size c))"

lemma footer_region: "slab_at f \<Longrightarrow> region f 4 = region (START_FOR_FOOTER f + of_nat 0x1FFC) 4"
  using slab_at_start(3) [of f] by simp

lemma bm_region_start:
  assumes "slab_at f" "slab_fits c"
  shows "bm_region c f = region (START_FOR_FOOTER f + of_nat (0x1FFC - unat (bitmap_sz (sc_size c))))
    (unat (bitmap_sz (sc_size c)))"
proof -
  have le: "unat (bitmap_sz (sc_size c)) \<le> 0x1FFC" using assms(2) by (simp add: slab_fits_def)
  then have "of_nat (0x1FFC - unat (bitmap_sz (sc_size c))) = (0x1FFC :: u32) - bitmap_sz (sc_size c)"
    by (simp add: of_nat_diff)
  then have "f - bitmap_sz (sc_size c) = START_FOR_FOOTER f + of_nat (0x1FFC - unat (bitmap_sz (sc_size c)))"
    using slab_at_start(3) [OF assms(1)] by (simp add: algebra_simps)
  then show ?thesis by (simp add: bm_region_eq)
qed

lemma obj_region_start: "obj_region c f k = region (START_FOR_FOOTER f + of_nat (unat (sc_size c) * k)) (unat (sc_size c))"
  by (simp add: obj_region_def slab_obj_def)

text \<open>The link, the bitmap and the objects lie in the slab and do not overlap.\<close>

lemma slab_parts:
  assumes "slab_at f" "slab_fits c"
  shows "region f 4 \<subseteq> slab_region f" "bm_region c f \<subseteq> slab_region f" "bm_region c f \<inter> region f 4 = {}"
proof -
  let ?s = "START_FOR_FOOTER f" and ?n = "unat (bitmap_sz (sc_size c))"
  have le: "?n \<le> 0x1FFC" using assms(2) by (simp add: slab_fits_def)
  show "region f 4 \<subseteq> slab_region f" unfolding footer_region [OF assms(1)] by (rule region_sub) simp
  show "bm_region c f \<subseteq> slab_region f" unfolding bm_region_start [OF assms] using le by (intro region_sub) simp
  show "bm_region c f \<inter> region f 4 = {}"
    unfolding footer_region [OF assms(1)] bm_region_start [OF assms]
    using le by (intro region_disjoint_offset) simp_all
qed

lemma obj_parts:
  assumes "slab_at f" "slab_fits c" "k < obj_num c"
  shows "obj_region c f k \<subseteq> slab_region f" "obj_region c f k \<inter> bm_region c f = {}"
    "obj_region c f k \<inter> region f 4 = {}" "k' < obj_num c \<Longrightarrow> k \<noteq> k' \<Longrightarrow> obj_region c f k \<inter> obj_region c f k' = {}"
proof -
  let ?n = "unat (bitmap_sz (sc_size c))" and ?z = "unat (sc_size c)"
  have z: "sc_size c \<noteq> 0" and fit: "obj_num c * ?z + ?n \<le> 0x1FFC" using assms(2) by (simp_all add: slab_fits_def)
  have end_k: "?z * k + ?z \<le> obj_num c * ?z" if "k < obj_num c" for k
    using mult_le_mono1 [of "Suc k" "obj_num c" ?z] that by (simp add: algebra_simps)
  have le: "?z * k + ?z \<le> 0x1FFC" by (rule slab_obj_props(2) [OF assms(1) z assms(3)])
  show "obj_region c f k \<subseteq> slab_region f" unfolding obj_region_start using le by (intro region_sub) simp
  show "obj_region c f k \<inter> bm_region c f = {}"
    unfolding obj_region_start bm_region_start [OF assms(1,2)]
    using fit end_k [OF assms(3)] by (intro region_disjoint_offset) simp_all
  show "obj_region c f k \<inter> region f 4 = {}"
    unfolding obj_region_start footer_region [OF assms(1)] using le by (intro region_disjoint_offset) simp_all
  have two: "region (START_FOR_FOOTER f + of_nat (?z * a)) ?z \<inter> region (START_FOR_FOOTER f + of_nat (?z * b)) ?z = {}"
    if "a < b" "b < obj_num c" for a b
  proof (rule region_disjoint_offset)
    show "?z * a + ?z \<le> ?z * b" using mult_le_mono2 [of "Suc a" b ?z] that(1) by simp
    show "?z * b + ?z \<le> 4294967296" using end_k [OF that(2)] fit by simp
  qed
  show "obj_region c f k \<inter> obj_region c f k' = {}" if "k' < obj_num c" "k \<noteq> k'"
    using two [of k k'] two [of k' k] that assms(3) unfolding obj_region_start
    by (cases "k < k'") (auto simp: Int_commute)
qed

text \<open>Different slabs are disjoint.\<close>

lemma slab_regions_disjoint:
  assumes "slab_at f" "slab_at g" "f \<noteq> g"
  shows "slab_region f \<inter> slab_region g = {}"
proof -
  note a = slab_at_start [OF assms(1)] and b = slab_at_start [OF assms(2)]
  have ne: "unat (START_FOR_FOOTER f) \<noteq> unat (START_FOR_FOOTER g)"
    using assms(3) a(3) b(3) by (metis word_unat_eq_iff)
  have gap: "x + 8192 \<le> y" if "x < y" "x mod 8192 = 0" "y mod 8192 = 0" for x y :: nat
    using that by (auto simp: mod_eq_0_iff_dvd elim!: dvdE)
  have dj: "region x 8192 \<inter> region y 8192 = {}" if "unat x + 8192 \<le> unat y" "unat y + 8192 \<le> 4294967296" for x y :: u32
    using region_disjoint_offset [of "unat x" 8192 "unat y" 8192 0] that by simp
  show ?thesis
    using dj gap a(2,6) b(2,6) ne by (metis Int_commute linorder_neqE_nat)
qed

section \<open>The list of slabs\<close>

fun chain :: "mem \<Rightarrow> u32 \<Rightarrow> u32 list \<Rightarrow> bool" where
  "chain m p [] \<longleftrightarrow> p = 0"
| "chain m p (f # fs) \<longleftrightarrow> p = f \<and> f \<noteq> 0 \<and> chain m (slab_next m f) fs"

lemma chain_frame:
  "same_outside A m m' \<Longrightarrow> (\<And>f. f \<in> set fs \<Longrightarrow> region f 4 \<inter> A = {}) \<Longrightarrow> chain m' p fs = chain m p fs"
  by (induction fs arbitrary: p) (auto simp: slab_next_def load32_frame)

text \<open>
  The invariant of a cache whose slabs have the footers \<open>fs\<close>: the list is linked, the bitmaps mark
  existing objects only, and \<^verbatim>\<open>empty\<close> is null or an object that is not in use.
\<close>

definition slab_inv :: "mem \<Rightarrow> slab_cache \<Rightarrow> u32 list \<Rightarrow> bool" where
  "slab_inv m c fs \<longleftrightarrow> slab_fits c \<and> chain m (sc_first c) fs \<and> distinct fs \<and> (\<forall>f \<in> set fs. slab_at f) \<and>
     (\<forall>f \<in> set fs. used m c f \<subseteq> {..<obj_num c}) \<and>
     (sc_empty c = 0 \<or> (\<exists>f \<in> set fs. \<exists>k < obj_num c. sc_empty c = slab_obj c f k \<and> k \<notin> used m c f))"

definition live :: "mem \<Rightarrow> slab_cache \<Rightarrow> u32 list \<Rightarrow> (u32 \<times> nat) set" where
  "live m c fs = {(f, k). f \<in> set fs \<and> k \<in> used m c f}"

lemma slab_invD:
  assumes "slab_inv m c fs"
  shows "slab_fits c" "sc_size c \<noteq> 0" "chain m (sc_first c) fs" "distinct fs"
    "f \<in> set fs \<Longrightarrow> slab_at f" "f \<in> set fs \<Longrightarrow> used m c f \<subseteq> {..<obj_num c}"
  using assms by (simp_all add: slab_inv_def slab_fits_def)

lemma same_geometry [simp]:
  "slab_fits (c\<lparr>sc_empty := e\<rparr>) = slab_fits c" "obj_num (c\<lparr>sc_empty := e\<rparr>) = obj_num c"
  "slab_obj (c\<lparr>sc_empty := e\<rparr>) = slab_obj c" "used m (c\<lparr>sc_empty := e\<rparr>) = used m c"
  "slab_fits (c\<lparr>sc_first := p\<rparr>) = slab_fits c" "obj_num (c\<lparr>sc_first := p\<rparr>) = obj_num c"
  "slab_obj (c\<lparr>sc_first := p\<rparr>) = slab_obj c" "used m (c\<lparr>sc_first := p\<rparr>) = used m c"
  "slab_fits (c\<lparr>sc_lock := l\<rparr>) = slab_fits c" "obj_num (c\<lparr>sc_lock := l\<rparr>) = obj_num c"
  "slab_obj (c\<lparr>sc_lock := l\<rparr>) = slab_obj c" "used m (c\<lparr>sc_lock := l\<rparr>) = used m c"
  by (simp_all add: slab_fits_def obj_num_def slab_obj_def used_def slab_bm_def fun_eq_iff)

text \<open>The bitmaps and links a write in one slab's bitmap leaves alone.\<close>

lemma bitmap_write:
  assumes "slab_fits c" "slab_at f" "slab_at g" "same_outside (bm_region c f) m m'"
  shows "f \<noteq> g \<Longrightarrow> used m' c g = used m c g" "region g 4 \<inter> bm_region c f = {}"
proof -
  note p = slab_parts [OF assms(2,1)] and q = slab_parts [OF assms(3,1)]
  show "region g 4 \<inter> bm_region c f = {}"
  proof (cases "f = g")
    case True
    then show ?thesis using p(3) by blast
  next
    case False
    then show ?thesis using slab_regions_disjoint [OF assms(2,3)] p(2) q(1) by blast
  qed
  show "used m' c g = used m c g" if "f \<noteq> g"
    using slab_regions_disjoint [OF assms(2,3) that] p(2) q(2) by (intro used_frame [OF assms(4)]) blast
qed

text \<open>The search for the next empty object ends, with null or an object that is not in use.\<close>

lemma next_empty_spec:
  assumes "chain m p fs" "sc_size c \<noteq> 0" "\<forall>f \<in> set fs. slab_at f"
  shows "\<exists>e. next_empty m c p = Some e \<and>
    (e = 0 \<or> (\<exists>f \<in> set fs. \<exists>k < obj_num c. e = slab_obj c f k \<and> k \<notin> used m c f))"
  using assms
proof (induction fs arbitrary: p)
  case Nil
  then show ?case by (simp add: next_empty.simps)
next
  case (Cons f fs)
  then have p: "p = f" "f \<noteq> 0" and at: "slab_at f" by simp_all
  show ?case
  proof (cases rule: find_empty_obj_spec [OF at Cons.prems(2), of m])
    case 1
    then have "next_empty m c p = next_empty m c (slab_next m f)"
      using p by (subst next_empty.simps) simp
    then show ?thesis using Cons.IH [of "slab_next m f"] Cons.prems by auto
  next
    case (2 k)
    then have "next_empty m c p = Some (slab_obj c f k)"
      using p slab_obj_props(5) [OF at Cons.prems(2) 2(1)] by (subst next_empty.simps) simp
    then show ?thesis using 2 by auto
  qed
qed

lemma chain_suffix:
  "chain m p (xs @ f # ys) \<Longrightarrow> chain m f (f # ys)"
  by (induction xs arbitrary: p) auto

text \<open>Taking the object \<^verbatim>\<open>empty\<close> points to.\<close>

lemma slab_take_empty:
  assumes "slab_inv (mem s) c fs" "sc_empty c \<noteq> 0"
  obtains f k e m where "slab_take s vms c = Inr (slab_obj c f k, c\<lparr>sc_empty := e\<rparr>, vms, s\<lparr>mem := m\<rparr>)"
    "f \<in> set fs" "k < obj_num c" "k \<notin> used (mem s) c f" "same_outside (bm_region c f) (mem s) m"
    "live m c fs = insert (f, k) (live (mem s) c fs)" "slab_inv m (c\<lparr>sc_empty := e\<rparr>) fs"
proof -
  note inv = slab_invD [OF assms(1)]
  obtain f k where fk: "f \<in> set fs" "k < obj_num c" "sc_empty c = slab_obj c f k" "k \<notin> used (mem s) c f"
    using assms by (auto simp: slab_inv_def)
  have at: "slab_at f" by (rule inv(5) [OF fk(1)])
  define m where "m = mark_used (mem s) c f (slab_obj c f k)"
  note mk = mark_used_spec [OF at inv(2) fk(2), of "mem s", folded m_def]
  have other: "g \<in> set fs \<Longrightarrow> g \<noteq> f \<Longrightarrow> used m c g = used (mem s) c g" for g
    using bitmap_write(1) [OF inv(1) at inv(5) mk(2)] by metis
  have ch: "chain m (sc_first c) fs"
    using chain_frame [OF mk(2)] bitmap_write(2) [OF inv(1) at inv(5) mk(2)] inv(3) by simp
  obtain xs ys where split: "fs = xs @ f # ys" using split_list [OF fk(1)] by blast
  then have "chain m f (f # ys)" "\<forall>g \<in> set (f # ys). slab_at g"
    using ch chain_suffix inv(5) by auto
  from next_empty_spec [OF this(1) inv(2) this(2)] split
  obtain e where e: "next_empty m c f = Some e"
      "e = 0 \<or> (\<exists>g \<in> set fs. \<exists>k < obj_num c. e = slab_obj c g k \<and> k \<notin> used m c g)" by auto
  have "slab_take s vms c = Inr (slab_obj c f k, c\<lparr>sc_empty := e\<rparr>, vms, s\<lparr>mem := m\<rparr>)"
    using assms(2) fk(3) slab_obj_props(3) [OF at inv(2) fk(2)] e(1) inv(2)
    by (simp add: slab_take_def nonzero_size_def m_def Let_def)
  moreover have "live m c fs = insert (f, k) (live (mem s) c fs)"
    using mk(1) other fk(1) by (auto simp: live_def)
  moreover have "used m c g \<subseteq> {..<obj_num c}" if "g \<in> set fs" for g
    using other [OF that] inv(6) [OF that] mk(1) fk(2) by (cases "g = f") auto
  then have "slab_inv m (c\<lparr>sc_empty := e\<rparr>) fs"
    using inv ch e(2) by (simp add: slab_inv_def)
  ultimately show ?thesis using that fk mk(2) by blast
qed

end
