(* ===== verification/Vmspace_Correct.thy ===== *)
theory Vmspace_Correct
  imports Vmspace
begin

text \<open>
  The virtual address range manager keeps its invariant: the addresses it could hand out are
  unmapped, and what it hands out has fresh frames behind it. Releasing a block undoes its allocation.
\<close>

section \<open>The invariant\<close>

definition vs_base :: "vmspace \<Rightarrow> nat" where
  "vs_base vms = unat (buddy_start (vs_allocator vms)) div 4096"

abbreviation vs_free :: "'a vmm_scheme \<Rightarrow> vmspace \<Rightarrow> nat set" where
  "vs_free s vms \<equiv> buddy_free_pages (vs_allocator vms) (mem s)"

text \<open>
  The allocator's bitmaps are apart from those of the physical memory manager, its range lies
  between the kernel's image and the recursive window, and no page it could hand out is mapped.
\<close>

definition vs_inv :: "'a vmm_scheme \<Rightarrow> vmspace \<Rightarrow> bool" where
  "vs_inv s vms \<longleftrightarrow> vm_inv s \<and> unlocked (vs_lock vms) \<and> buddy_inv (vs_allocator vms) (mem s) \<and>
     buddy_storage (vs_allocator vms) \<inter> pmm_storage s = {} \<and>
     0xC0400000 \<le> unat (buddy_start (vs_allocator vms)) \<and>
     unat (buddy_start (vs_allocator vms)) + unat (buddy_size (vs_allocator vms)) \<le> 0xFF800000 \<and>
     (\<forall>p \<in> vs_free s vms. space s (vs_base vms + p) = None)"

lemma pmm_frame:
  assumes "pmm_inv s" "same_outside A (mem s) m" "A \<inter> pmm_storage s = {}"
  shows "pmm_inv (s\<lparr>mem := m\<rparr>)" "pmm_frames (s\<lparr>mem := m\<rparr>) = pmm_frames s"
proof -
  have disj: "A \<inter> buddy_storage (allocators s ! r) = {}" if "r < 3" for r
    using assms(3) that by (auto simp: pmm_storage_def)
  note fr = buddy_frame [OF assms(2) disj]
  show "pmm_inv (s\<lparr>mem := m\<rparr>)" using assms(1) fr(1) by (simp add: pmm_inv_def)
  show "pmm_frames (s\<lparr>mem := m\<rparr>) = pmm_frames s"
    using fr(2) pmm_invD(4) [OF assms(1)] by (simp add: pmm_frames_def)
qed

lemma vm_inv_data:
  assumes "vm_inv s" "same_outside A (mem s) m" "A \<inter> pmm_storage s = {}"
  shows "vm_inv (s\<lparr>mem := m\<rparr>)"
proof -
  have "pmm_inv (s\<lparr>mem := m\<rparr>)" "pmm_frames (s\<lparr>mem := m\<rparr>) = pmm_frames s"
    using assms pmm_frame [of s A m] by (simp_all add: vm_inv_def vm_core_def)
  with assms(1) vm_cong [of "s\<lparr>mem := m\<rparr>" s] show ?thesis by (simp add: vm_inv_def vm_core_def)
qed

lemma vm_inv_cong:
  assumes "mem s = mem t" "allocators s = allocators t" "pmm_lock s = pmm_lock t"
    "ptmem s = ptmem t" "cr3 s = cr3 t" "current s = current t"
  shows "vm_inv s = vm_inv t"
  using vm_core_cong [OF assms(1-5)] assms(6) by (simp add: vm_inv_def)

text \<open>The physical memory manager's steps keep the virtual memory manager's invariant.\<close>

lemma vm_inv_pmm_step:
  assumes "vm_inv s" "pmm_step s s'" "pmm_inv s'" "table_frames s \<inter> pmm_frames s' = {}"
  shows "vm_inv s'" "space s' = space s" "vm_step s s'" "table_frames s' = table_frames s"
proof -
  note st = pmm_stepD [OF assms(2)]
  have "current s' = current s" by (subst st(5), simp)
  then show "vm_inv s'"
    using assms(1,3,4) vm_cong [OF st(2,3)] by (auto simp: vm_inv_def vm_core_def)
  show "space s' = space s" using vm_cong [OF st(2,3)] by (simp add: space_def fun_eq_iff)
  have "s' = s\<lparr>mem := mem s', ptmem := ptmem s', pmm_lock := pmm_lock s', current := current s'\<rparr>"
    by (subst st(5)) (simp add: st(2) \<open>current s' = current s\<close>)
  with st(1) show "vm_step s s'" by (simp add: vm_step_def)
  show "table_frames s' = table_frames s" by (rule vm_cong(2) [OF st(2,3)])
qed

lemma vs_keep:
  assumes "buddy_inv bd (mem s)" "buddy_storage bd \<inter> pmm_storage s = {}"
    "same_outside (pmm_storage s) (mem s) m"
  shows "buddy_inv bd m" "buddy_free_pages bd m = buddy_free_pages bd (mem s)"
proof -
  have d: "pmm_storage s \<inter> buddy_storage bd = {}" using assms(2) by blast
  show "buddy_inv bd m" "buddy_free_pages bd m = buddy_free_pages bd (mem s)"
    using buddy_frame [OF assms(3) d] assms(1) by (simp_all add: buddy_inv_def)
qed
section \<open>Putting pages behind addresses\<close>

definition back_pages :: "'a vmm_scheme \<Rightarrow> u32 \<Rightarrow> u32 \<Rightarrow> u32 \<Rightarrow> 'a vmm_scheme res" where
  "back_pages s v npages flags =
     bind_res (alloc_pages s PAGE_REQ_NONE npages) (\<lambda>(p, s3).
     let phys_pages = ucast p :: u32 in
     bind_res (assert_res (phys_pages \<noteq> NOT 0) ''Out of memory!'') (\<lambda>_.
     bind_res (map_pages s3 v (ucast phys_pages) (sint npages) flags) (\<lambda>(ok, s4).
     bind_res (assert_res (ok = 0) ''vmspace_alloc: map failed!'') (\<lambda>_. Inr s4))))"

lemma sint_small: "unat (x :: u32) < 2147483648 \<Longrightarrow> sint x = int (unat x)"
proof -
  assume "unat x < 2147483648"
  moreover have eq: "int (unat x) = uint x" by simp
  ultimately have "uint x < 2147483648" by linarith
  moreover have "0 \<le> uint x" by simp
  then have "- 2147483648 \<le> uint x" by linarith
  ultimately have "signed_take_bit 31 (uint x) = uint x" by (intro signed_take_bit_int_eq_self) simp_all
  with eq show ?thesis by (simp add: sint_uint)
qed

text \<open>
  Enough physical memory to put \<open>n\<close> pages of a block of order \<open>i\<close> behind addresses: nothing above
  4GB, a free block of the order, and a frame for every page table that may have to be made.
\<close>

definition enough :: "'a pmm_scheme \<Rightarrow> nat \<Rightarrow> nat \<Rightarrow> bool" where
  "enough s i n \<longleftrightarrow> pmm_frames s \<subseteq> {..<1048576} \<and> 2 ^ i + n < card (low_frames s) \<and>
     (\<exists>j. blk i j \<subseteq> buddy_free_pages (allocators s ! PAGE_REQ_UNDER4GB) (mem s))"

lemma enough_cong:
  assumes "mem s = mem t" "allocators s = allocators t" "pmm_lock s = pmm_lock t"
  shows "enough s i n = enough t i n"
  using pmm_cong(2) [OF assms] assms by (simp add: enough_def low_frames_def)

lemma enough_data:
  assumes "pmm_inv s" "same_outside A (mem s) m" "A \<inter> pmm_storage s = {}"
  shows "enough (s\<lparr>mem := m\<rparr>) i n = enough s i n"
proof -
  have u4: "PAGE_REQ_UNDER4GB < 3" by (simp add: page_req_defs)
  have "A \<inter> buddy_storage (allocators s ! PAGE_REQ_UNDER4GB) = {}" using assms(3) u4 by (auto simp: pmm_storage_def)
  from buddy_frame(3) [OF assms(2) this pmm_invD(4) [OF assms(1) u4]]
  show ?thesis using pmm_frame(2) [OF assms] by (simp add: enough_def low_frames_def)
qed

text \<open>A frame that no page table took is still there for the next one.\<close>

lemma enough_tables:
  assumes "enough s i n" "table_frames s \<inter> pmm_frames s = {}" "card (frames_of a i) \<le> 2 ^ i"
    "pmm_frames s1 = pmm_frames s - frames_of a i" "tables_from s1 t" "table_frames s1 = table_frames s"
    "card (table_frames t - table_frames s1) \<le> n"
  shows "low_frames t \<noteq> {}"
proof
  assume empty: "low_frames t = {}"
  have "low_frames s \<subseteq> frames_of a i \<union> (table_frames t - table_frames s1)"
    using empty assms(2,4-6) unfolding low_frames_def tables_from_def by blast
  then have "card (low_frames s) \<le> card (frames_of a i \<union> (table_frames t - table_frames s1))"
    by (intro card_mono) (simp_all add: finite_table_frames frames_of_def)
  also have "\<dots> \<le> 2 ^ i + n" using card_Un_le add_mono [OF assms(3,7)] le_trans by blast
  finally show False using assms(1) by (simp add: enough_def)
qed

lemma back_pages_spec:
  assumes "vm_inv s" "log2_roundup (npages * get_page_size) = Inr (12 + i)" "i \<le> top_order"
    "unat npages \<le> 524288" "own_pages (vpn v) (unat npages)" "\<forall>j < unat npages. space s (vpn v + j) = None"
  obtains (ok) a s' where "back_pages s v npages flags = Inr s'" "vm_inv s'" "vm_step s s'"
      "frames_of a i \<subseteq> pmm_frames s" "req_met PAGE_REQ_NONE (frames_of a i)"
      "table_frames s \<subseteq> table_frames s'" "table_frames s' \<subseteq> table_frames s \<union> pmm_frames s - frames_of a i"
      "pmm_frames s' = pmm_frames s - frames_of a i - table_frames s'"
      "space s' = (\<lambda>m. if vpn v \<le> m \<and> m < vpn v + unat npages
        then Some (map_entry (ucast (ucast a :: u32) + of_nat ((m - vpn v) * 4096)) flags) else space s m)"
    | (panic) msg where "back_pages s v npages flags = Inl (Panic msg)" "\<not> enough s i (unat npages)"
proof -
  have pmm: "pmm_inv s" and none: "PAGE_REQ_NONE < 3"
    using assms(1) by (simp_all add: vm_inv_def vm_core_def page_req_defs)
  have num: "sint npages = int (unat npages)" using assms(4) by (intro sint_small) simp
  show ?thesis
  proof (cases rule: alloc_pages_spec [OF pmm none assms(2,3)])
    case (2 s')
    have "ucast (NOT 0 :: u64) = (NOT 0 :: u32)"
      by (intro bit_word_eqI) (simp add: bit_simps)
    moreover have "\<not> enough s i (unat npages)" using 2(7) by (simp add: enough_def)
    ultimately show ?thesis using 2(1) panic by (simp add: back_pages_def)
  next
    case (1 a s1)
    have sub: "table_frames s \<inter> pmm_frames s1 = {}"
      using 1(7) assms(1) by (auto simp: vm_inv_def vm_core_def)
    note vm = vm_inv_pmm_step [OF assms(1) 1(5) 1(4) sub]
    let ?p = "ucast (ucast a :: u32) :: u64"
    show ?thesis
    proof (cases "ucast a = (NOT 0 :: u32)")
      case True
      have "\<not> enough s i (unat npages)"
      proof
        assume "enough s i (unat npages)"
        moreover have "unat a div 4096 \<in> frames_of a i" by (simp add: frames_of_def)
        ultimately have "unat a div 4096 < 1048576" using 1(6) unfolding enough_def by blast
        then have "unat (ucast a :: u32) = unat a" by (intro unat_ucast_small) simp
        then have "unat a = 0xFFFFFFFF" using True by (simp add: unsigned_minus_1_eq_mask mask_eq_exp_minus_1)
        then show False using 1(3) by simp
      qed
      then show ?thesis using 1(1) panic True by (simp add: back_pages_def)
    next
      case False
      have "\<forall>j. 0 \<le> j \<and> j < 0 + unat npages \<longrightarrow> space s1 (vpn v + j) = None"
        using assms(6) vm(2) by simp
      from map_loop_spec [OF vm(1) _ _ this, of ?p flags] assms(4,5) show ?thesis
      proof (elim meta_impE disjE exE conjE)
        fix s2 assume s2: "map_loop s1 v ?p flags 0 (unat npages) = Inr (0, s2)" "vm_inv s2"
          "vm_step s1 s2" "tables_from s1 s2" and "card (table_frames s2 - table_frames s1) \<le> unat npages"
        assume s2': "space s2 = (\<lambda>m. if vpn v + 0 \<le> m \<and> m < vpn v + 0 + unat npages
             then Some (map_entry (?p + of_nat ((m - vpn v) * 4096)) flags) else space s1 m)"
        have "back_pages s v npages flags = Inr s2"
          using 1(1) False s2(1) num by (simp add: back_pages_def map_pages_def Let_def)
        moreover have "table_frames s \<inter> pmm_frames s = {}"
          using assms(1) by (simp add: vm_inv_def vm_core_def)
        then have "table_frames s \<subseteq> table_frames s2"
            "table_frames s2 \<subseteq> table_frames s \<union> pmm_frames s - frames_of a i"
            "pmm_frames s2 = pmm_frames s - frames_of a i - table_frames s2"
          using s2(4) 1(6,7) vm(4) unfolding tables_from_def by auto
        ultimately show ?thesis
          using ok [OF _ s2(2) vm_step_trans [OF vm(3) s2(3)] 1(6,8)] s2' vm(2)
          by (simp add: fun_eq_iff)
      next
        fix t assume t: "map_loop s1 v ?p flags 0 (unat npages) = Inl (Panic ''alloc_page failed in map()!'')"
          "vm_inv t" "vm_step s1 t" "tables_from s1 t" "card (table_frames t - table_frames s1) \<le> unat npages"
          "free_frames (allocators t ! PAGE_REQ_UNDER4GB) (mem t) = {}"
        have "pmm_inv t" using t(2) by (simp add: vm_inv_def vm_core_def)
        then have "low_frames t = {}" using low_frames_zone t(6) by blast
        moreover have "table_frames s \<inter> pmm_frames s = {}" "card (frames_of a i) \<le> 2 ^ i"
          using assms(1) by (simp_all add: vm_inv_def vm_core_def frames_of_def)
        ultimately have "\<not> enough s i (unat npages)" using enough_tables [OF _ _ _ 1(7) t(4) vm(4) t(5)] by blast
        moreover have "back_pages s v npages flags = Inl (Panic ''alloc_page failed in map()!'')"
          using 1(1) False num t(1) by (simp add: back_pages_def map_pages_def Let_def)
        ultimately show ?thesis using panic by blast
      qed (simp_all add: own_pages_def)
    qed
  qed
qed

lemma vmspace_alloc_eq:
  assumes "unlocked (vs_lock vms)" "alloc_phys \<noteq> 0"
    "buddy_alloc (vs_allocator vms) (mem s) sz = Inr (addr, m2)"
  defines "s2 \<equiv> s\<lparr>eflags := eflags (held_state s), mem := m2\<rparr>"
    and "vms1 \<equiv> vms\<lparr>vs_lock := held_lock s (vs_lock vms)\<rparr>"
  shows "vmspace_alloc s vms sz alloc_phys =
    bind_res (if addr \<noteq> NOT 0 then back_pages s2 (ucast addr) (drop_bit get_page_shift sz) alloc_phys else Inr s2)
      (\<lambda>s5. bind_res (spinlock_release s5 (vs_lock vms1)) (\<lambda>(s6, l6).
         Inr (ucast addr, vms1\<lparr>vs_lock := l6\<rparr>, s6)))"
  using assms(1-3)
  by (simp add: vmspace_alloc_def back_pages_def s2_def vms1_def disable_interrupts_def Let_def
      split: if_split)

lemma vs_invD:
  assumes "vs_inv s vms"
  shows "vm_inv s" "unlocked (vs_lock vms)" "buddy_inv (vs_allocator vms) (mem s)"
    "buddy_wf (vs_allocator vms)" "buddy_storage (vs_allocator vms) \<inter> pmm_storage s = {}"
    "p \<in> vs_free s vms \<Longrightarrow> space s (vs_base vms + p) = None"
  using assms by (auto simp: vs_inv_def buddy_inv_def)

text \<open>The addresses of a managed range fit in 32 bits and lie below the recursive window.\<close>

lemma vs_addr:
  assumes "vs_inv s vms" "p + n \<le> buddy_pages (vs_allocator vms)"
  defines "v \<equiv> ucast (page_addr (vs_allocator vms) p) :: u32"
  shows "vpn v = vs_base vms + p" "own_pages (vpn v) n" "ucast v = page_addr (vs_allocator vms) p"
proof -
  let ?bd = "vs_allocator vms"
  have top: "unat (buddy_start ?bd) + unat (buddy_size ?bd) \<le> 0xFF800000"
    using assms(1) by (simp add: vs_inv_def)
  have pages: "buddy_pages ?bd * 4096 \<le> unat (buddy_size ?bd)" by (simp add: buddy_pages_def)
  have a: "unat (page_addr ?bd p) = unat (buddy_start ?bd) + p * 4096"
    using assms(2) by (intro unat_page_addr [OF vs_invD(4) [OF assms(1)]]) simp
  have pn: "(p + n) * 4096 \<le> unat (buddy_size ?bd)"
    using assms(2) pages by (meson le_trans mult_le_mono1)
  have lt: "unat (page_addr ?bd p) < 4294967296" using a pn top by (simp add: add_mult_distrib)
  then have v: "unat v = unat (page_addr ?bd p)" unfolding v_def by (intro unat_ucast_small) simp
  show "vpn v = vs_base vms + p" by (simp add: vpn_def v a vs_base_def)
  then show "own_pages (vpn v) n"
  proof -
    have "unat (buddy_start ?bd) div 4096 * 4096 \<le> unat (buddy_start ?bd)" by simp
    then have "(vs_base vms + p + n) * 4096 \<le> 0xFF800000"
      using pn top unfolding vs_base_def by (simp add: add_mult_distrib)
    moreover have "787456 \<le> vs_base vms"
      using assms(1) div_le_mono [of "0xC0400000" "unat (buddy_start ?bd)" 4096]
      by (simp add: vs_inv_def vs_base_def)
    ultimately show ?thesis using \<open>vpn v = vs_base vms + p\<close> by (intro own_pages_kernel) simp_all
  qed
  show "ucast v = page_addr ?bd p" using v lt by (simp add: word_unat_eq_iff unat_ucast_small)
qed

lemma whole_pages:
  assumes "unat (sz :: u32) mod 4096 = 0"
  shows "drop_bit get_page_shift sz * get_page_size = sz" "unat (drop_bit get_page_shift sz) = unat sz div 4096"
proof -
  show n: "unat (drop_bit get_page_shift sz) = unat sz div 4096"
    by (simp only: get_page_shift_def unat_drop_bit) simp
  have "unat (drop_bit get_page_shift sz) * 4096 = unat sz"
    using n assms by (simp add: mod_eq_0_iff_dvd)
  then have "unat (drop_bit get_page_shift sz * get_page_size) = unat sz"
    using unat_u32_less [of sz] by (simp add: get_page_size_def unat_word_ariths del: n)
  then show "drop_bit get_page_shift sz * get_page_size = sz" by (simp only: word_unat_eq_iff)
qed

lemma log2_roundup_pages:
  assumes "log2_roundup sz = Inr (12 + i)"
  shows "unat sz div 4096 \<le> 2 ^ i"
proof -
  have "sz \<noteq> 0" using assms log2_roundup_zero by auto
  then have "unat sz \<le> 2 ^ (12 + i)" using log2_roundup_spec [of sz] assms by (metis Inr_inject)
  then have "unat sz div 4096 \<le> 2 ^ (12 + i) div 4096" by (rule div_le_mono)
  then show ?thesis by (simp add: power_add)
qed

text \<open>A vmspace after its allocator has changed and the rest of the machine has moved on.\<close>

lemma vs_inv_after:
  assumes "vs_inv s vms" "buddy_inv (vs_allocator vms) m2" "buddy_free_pages (vs_allocator vms) m2 \<subseteq> F"
    "vm_inv s'" "pmm_storage s' = pmm_storage s" "same_outside (pmm_storage s) m2 (mem s')" "unlocked l"
    "\<And>p. p \<in> F \<Longrightarrow> space s' (vs_base vms + p) = None"
  shows "vs_inv s' (vms\<lparr>vs_lock := l\<rparr>)"
    "vs_free s' (vms\<lparr>vs_lock := l\<rparr>) = buddy_free_pages (vs_allocator vms) m2"
proof -
  have d: "pmm_storage s \<inter> buddy_storage (vs_allocator vms) = {}" using vs_invD(5) [OF assms(1)] by blast
  have keep: "buddy_inv (vs_allocator vms) (mem s')"
      "buddy_free_pages (vs_allocator vms) (mem s') = buddy_free_pages (vs_allocator vms) m2"
    using buddy_frame [OF assms(6) d] assms(2) by (simp_all add: buddy_inv_def)
  show "vs_inv s' (vms\<lparr>vs_lock := l\<rparr>)"
    using assms(1,3,4,5,7,8) keep by (auto simp: vs_inv_def vs_base_def)
  show "vs_free s' (vms\<lparr>vs_lock := l\<rparr>) = buddy_free_pages (vs_allocator vms) m2" using keep(2) by simp
qed

text \<open>What an operation on a vmspace may change: the allocators' bitmaps, the page tables, locks.\<close>

definition vs_step :: "'a vmm_scheme \<Rightarrow> vmspace \<Rightarrow> 'a vmm_scheme \<Rightarrow> bool" where
  "vs_step s vms s' \<longleftrightarrow> same_outside (buddy_storage (vs_allocator vms) \<union> pmm_storage s) (mem s) (mem s') \<and>
     s' = s\<lparr>mem := mem s', ptmem := ptmem s', pmm_lock := pmm_lock s', current := current s'\<rparr>"

lemma vs_stepD:
  assumes "vs_step s vms s'"
  shows "same_outside (buddy_storage (vs_allocator vms) \<union> pmm_storage s) (mem s) (mem s')"
    "allocators s' = allocators s" "eflags s' = eflags s" "pmm_storage s' = pmm_storage s"
    "s' = s\<lparr>mem := mem s', ptmem := ptmem s', pmm_lock := pmm_lock s', current := current s'\<rparr>"
proof -
  show eq: "s' = s\<lparr>mem := mem s', ptmem := ptmem s', pmm_lock := pmm_lock s', current := current s'\<rparr>"
    and "same_outside (buddy_storage (vs_allocator vms) \<union> pmm_storage s) (mem s) (mem s')"
    using assms by (simp_all add: vs_step_def)
  show "allocators s' = allocators s" "eflags s' = eflags s" by (subst eq, simp)+
  then show "pmm_storage s' = pmm_storage s" by (simp add: pmm_storage_def)
qed

text \<open>A change of the vmspace's own bitmaps around a step of the managers below.\<close>

lemma vs_stepI:
  assumes "same_outside (buddy_storage (vs_allocator vms)) (mem s) m1"
    "vm_step (s\<lparr>eflags := f, mem := m1\<rparr>) s2" "same_outside (buddy_storage (vs_allocator vms)) (mem s2) m3"
  shows "vs_step s vms (s2\<lparr>mem := m3, eflags := eflags s\<rparr>)"
proof -
  have eq: "s2 = s\<lparr>eflags := f, mem := mem s2, ptmem := ptmem s2, pmm_lock := pmm_lock s2, current := current s2\<rparr>"
    using vm_stepD(8) [OF assms(2)] by simp
  have "same_outside (pmm_storage s) m1 (mem s2)"
    using vm_stepD(1) [OF assms(2)] by (simp add: pmm_storage_def)
  then have "same_outside (buddy_storage (vs_allocator vms) \<union> pmm_storage s) (mem s) m3"
    using assms(1,3) by (simp add: same_outside_def)
  moreover have "s2\<lparr>mem := m3, eflags := eflags s\<rparr> =
      s\<lparr>mem := m3, ptmem := ptmem s2, pmm_lock := pmm_lock s2, current := current s2\<rparr>" by (subst eq) simp
  ultimately show ?thesis by (simp add: vs_step_def)
qed

text \<open>Writing the range's own bitmaps is nothing to the memory managers.\<close>

lemma vs_bitmap_written:
  fixes e :: u32
  assumes "vs_inv s vms" "same_outside (buddy_storage (vs_allocator vms)) (mem s) m"
  defines "s' \<equiv> s\<lparr>eflags := e, mem := m\<rparr>"
  shows "vm_inv s'" "space s' = space s" "pmm_frames s' = pmm_frames s" "pmm_storage s' = pmm_storage s"
    "table_frames s' = table_frames s" "enough s' i n = enough s i n"
proof -
  note inv = vs_invD [OF assms(1)]
  have pmm: "pmm_inv s" using inv(1) by (simp add: vm_inv_def vm_core_def)
  show "pmm_frames s' = pmm_frames s"
    using pmm_frame(2) [OF pmm assms(2) inv(5)] pmm_cong(2) [of s' "s\<lparr>mem := m\<rparr>"] by (simp add: s'_def)
  show "vm_inv s'"
    using vm_inv_data [OF inv(1) assms(2) inv(5)] vm_inv_cong [of s' "s\<lparr>mem := m\<rparr>"] by (simp add: s'_def)
  show "space s' = space s" "pmm_storage s' = pmm_storage s" "table_frames s' = table_frames s"
    using vm_cong(2,3) [of s' s] by (simp_all add: s'_def space_def fun_eq_iff pmm_storage_def)
  show "enough s' i n = enough s i n"
    using enough_cong [of s' "s\<lparr>mem := m\<rparr>"] enough_data [OF pmm assms(2) inv(5)] by (simp add: s'_def)
qed

lemma vmspace_alloc_spec:
  assumes "vs_inv s vms" "log2_roundup sz = Inr (12 + i)" "i \<le> top_order" "unat sz mod 4096 = 0"
    "flags \<noteq> 0"
  obtains (ok) j a s' vms' where
      "vmspace_alloc s vms sz flags = Inr (ucast (page_addr (vs_allocator vms) (j * 2 ^ i)), vms', s')"
      "vs_inv s' vms'" "vs_allocator vms' = vs_allocator vms" "blk i j \<subseteq> vs_free s vms"
      "(j + 1) * 2 ^ i \<le> buddy_pages (vs_allocator vms)"
      "vs_free s' vms' = vs_free s vms - blk i j"
      "frames_of a i \<subseteq> pmm_frames s" "req_met PAGE_REQ_NONE (frames_of a i)"
      "table_frames s \<subseteq> table_frames s'" "table_frames s' \<subseteq> table_frames s \<union> pmm_frames s - frames_of a i"
      "pmm_frames s' = pmm_frames s - frames_of a i - table_frames s'"
      "space s' = (\<lambda>m. if vs_base vms + j * 2 ^ i \<le> m \<and> m < vs_base vms + j * 2 ^ i + unat sz div 4096
        then Some (map_entry (ucast (ucast a :: u32) + of_nat ((m - (vs_base vms + j * 2 ^ i)) * 4096)) flags)
        else space s m)" "vs_step s vms s'"
    | (full) s' vms' where "vmspace_alloc s vms sz flags = Inr (NOT 0, vms', s')" "vs_inv s' vms'"
      "\<forall>j. \<not> blk i j \<subseteq> vs_free s vms" "space s' = space s" "vs_free s' vms' = vs_free s vms" "vs_step s vms s'"
    | (panic) msg where "vmspace_alloc s vms sz flags = Inl (Panic msg)" "\<not> enough s i (unat sz div 4096)"
proof -
  let ?bd = "vs_allocator vms" and ?n = "unat sz div 4096" and ?np = "drop_bit get_page_shift sz"
  let ?vms = "vms\<lparr>vs_lock := left_lock s (vs_lock vms)\<rparr>"
  note inv = vs_invD [OF assms(1)]
  note wp = whole_pages [OF assms(4)]
  have n: "?n \<le> 2 ^ i" "(2 :: nat) ^ i \<le> 65536"
    using log2_roundup_pages [OF assms(2)] power_increasing [of i 16 "2 :: nat"] assms(3)
    by (simp_all add: top_order_def)
  from buddy_alloc_spec [OF inv(3) assms(2,3)] show ?thesis
  proof (elim disjE exE conjE)
    assume f: "\<forall>j. \<not> blk i j \<subseteq> buddy_free_pages ?bd (mem s)" "buddy_alloc ?bd (mem s) sz = Inr (NOT 0, mem s)"
    have u: "ucast (NOT 0 :: u64) = (NOT 0 :: u32)" by (intro bit_word_eqI) (simp add: bit_simps)
    have "vmspace_alloc s vms sz flags = Inr (NOT 0, ?vms, s)"
      using vmspace_alloc_eq [OF inv(2) assms(5) f(2)] u by (simp add: disable_interrupts_def)
    moreover have "vs_inv s ?vms" using assms(1) by (simp add: vs_inv_def vs_base_def)
    ultimately show ?thesis using full f(1) by (simp add: vs_step_def same_outside_def)
  next
    fix j m2 assume b: "buddy_alloc ?bd (mem s) sz = Inr (page_addr ?bd (j * 2 ^ i), m2)"
      "(j + 1) * 2 ^ i \<le> buddy_pages ?bd" "blk i j \<subseteq> buddy_free_pages ?bd (mem s)" "buddy_inv ?bd m2"
      "buddy_free_pages ?bd m2 = buddy_free_pages ?bd (mem s) - blk i j"
      "same_outside (buddy_storage ?bd) (mem s) m2"
    let ?v = "ucast (page_addr ?bd (j * 2 ^ i)) :: u32"
    define s2 where "s2 = s\<lparr>eflags := eflags (held_state s), mem := m2\<rparr>"
    have fit: "j * 2 ^ i + ?n \<le> buddy_pages ?bd" using b(2) n(1) by simp
    note v = vs_addr [OF assms(1) fit]
    have ne: "page_addr ?bd (j * 2 ^ i) \<noteq> NOT 0"
      using b(2) less_le_trans [of "j * 2 ^ i" "(j + 1) * 2 ^ i"] by (intro place_span [OF inv(4)]) simp
    note s2 = vs_bitmap_written [OF assms(1) b(6), where e = "eflags (held_state s)", folded s2_def]
    have hole: "\<forall>k < unat ?np. space s2 (vpn ?v + k) = None"
    proof (intro allI impI)
      fix k assume "k < unat ?np"
      then have "j * 2 ^ i + k \<in> blk i j" using wp(2) n(1) by (simp add: blk_eq)
      then show "space s2 (vpn ?v + k) = None"
        using b(3) inv(6) v(1) s2(2) by (simp add: add.assoc subset_iff)
    qed
    have *: "log2_roundup (?np * get_page_size) = Inr (12 + i)" "unat ?np \<le> 524288" "own_pages (vpn ?v) (unat ?np)"
      using wp assms(2) n v(2) by simp_all
    note eq = vmspace_alloc_eq [OF inv(2) assms(5) b(1), folded s2_def]
    show ?thesis
    proof (cases rule: back_pages_spec [OF s2(1) *(1) assms(3) *(2,3) hole, of flags])
      case (2 msg)
      then show ?thesis using eq ne panic s2(6) wp(2) by simp
    next
      case (1 a s5)
      let ?s' = "s5\<lparr>eflags := eflags s\<rparr>"
      note st = vm_stepD [OF 1(3)]
      have rel: "spinlock_release s5 (held_lock s (vs_lock vms)) = Inr (?s', left_lock s (vs_lock vms))"
        using st(5) by (intro spinlock_release_restores) (simp add: s2_def)
      have "vmspace_alloc s vms sz flags = Inr (?v, ?vms, ?s')"
        using eq ne 1(1) rel by simp
      moreover have sp: "space ?s' = (\<lambda>m. if vs_base vms + j * 2 ^ i \<le> m \<and> m < vs_base vms + j * 2 ^ i + ?n
          then Some (map_entry (ucast (ucast a :: u32) + of_nat ((m - (vs_base vms + j * 2 ^ i)) * 4096)) flags)
          else space s m)"
      proof -
        have "space ?s' = space s5" using vm_core_cong(2) [of ?s' s5] by simp
        then show ?thesis using 1(9) unfolding v(1) wp(2) s2(2) by simp
      qed
      moreover have vm: "vm_inv ?s'" "pmm_frames ?s' = pmm_frames s5" "pmm_storage ?s' = pmm_storage s"
        using 1(2) vm_inv_cong [of ?s' s5] pmm_cong [of ?s' s5] st(4) s2(4) by simp_all
      moreover have "vs_inv ?s' ?vms" "vs_free ?s' ?vms = vs_free s vms - blk i j"
      proof -
        have "same_outside (pmm_storage s) m2 (mem ?s')" using st(1) s2(4) by (simp add: s2_def)
        moreover have "space ?s' (vs_base vms + p) = None" if "p \<in> vs_free s vms - blk i j" for p
          using that inv(6) n(1) unfolding sp by (auto simp: blk_eq)
        ultimately show "vs_inv ?s' ?vms" "vs_free ?s' ?vms = vs_free s vms - blk i j"
          using vs_inv_after [OF assms(1) b(4) _ vm(1,3), where F = "vs_free s vms - blk i j"
              and l = "left_lock s (vs_lock vms)"] b(5) by simp_all
      qed
      moreover have "vs_step s vms ?s'"
        using vs_stepI [OF b(6), of "eflags (held_state s)" s5 "mem s5"] 1(3)
        by (simp add: s2_def same_outside_def)
      ultimately show ?thesis
        using ok [of j ?vms ?s' a] b(2,3) 1(4-8) s2(3,5) vm_cong(2) [of ?s' s5] by simp
    qed
  qed
qed

section \<open>Giving pages back\<close>

text \<open>
  \<open>backed s v F n\<close>: the \<open>n\<close> pages from \<open>v\<close> on are mapped to the frames \<open>F 0, ..., F (n - 1)\<close>, all
  different, all managed, none free and none a page table.
\<close>

definition backed :: "'a vmm_scheme \<Rightarrow> u32 \<Rightarrow> (nat \<Rightarrow> nat) \<Rightarrow> nat set \<Rightarrow> bool" where
  "backed s v F K \<longleftrightarrow> inj_on F K \<and>
     (\<forall>k \<in> K. F k \<in> pmm_managed s \<and> F k \<notin> pmm_frames s \<and> F k \<notin> table_frames s \<and>
        (\<exists>e. space s (vpn v + k) = Some e \<and> frame e = F k))"

lemma unat_page_of_entry:
  "unat (ucast (e AND 0xFFFFF000 :: u32) :: u64) = frame e * 4096"
  using unat_u32_less [of "e AND 0xFFFFF000"] unat_frame_mask [of e] by (subst unat_ucast_small) simp_all

lemma pmm_managed_cong: "allocators s = allocators t \<Longrightarrow> pmm_managed s = pmm_managed t"
  by (simp add: pmm_managed_def)

lemma free_one_page:
  assumes "vm_inv s" "own_table (vpn v div 1024)" "space s (vpn v) = Some e" "frame e \<in> pmm_managed s"
    "frame e \<notin> pmm_frames s" "frame e \<notin> table_frames s"
  obtains s1 s2 where "get_mapping s v = Inr (ucast (e AND 0xFFFFF000), Some (from_x86_flags (e AND 0xFFF)))"
    "free_page s (ucast (e AND 0xFFFFF000)) = Inr (0, s1)" "unmap_pages s1 v 1 = Inr (0, s2)"
    "vm_inv s2" "vm_step s s2" "pmm_frames s2 = insert (frame e) (pmm_frames s)"
    "table_frames s2 = table_frames s" "space s2 = (space s)(vpn v := None)"
proof -
  have core: "pmm_inv s" "rec_ok s" "table_frames s \<inter> pmm_frames s = {}"
    using assms(1) by (simp_all add: vm_inv_def vm_core_def tables_ok_def)
  have look: "lookup s (vpn v) = Some e" using assms(3) by (simp add: space_def split: if_splits)
  let ?p = "ucast (e AND 0xFFFFF000) :: u64"
  have p: "unat ?p mod 4096 = 0" "unat ?p div 4096 = frame e" by (simp_all add: unat_page_of_entry)
  obtain s1 where s1: "free_page s ?p = Inr (0, s1)" "pmm_inv s1" "pmm_step s s1"
      "pmm_frames s1 = insert (frame e) (pmm_frames s)"
    using free_page_spec [OF core(1) p(1)] assms(4,5) p(2) by auto
  have "table_frames s \<inter> pmm_frames s1 = {}" using s1(4) core(3) assms(6) by auto
  note vm = vm_inv_pmm_step [OF assms(1) s1(3,2) this]
  have "\<forall>j. 0 \<le> j \<and> j < 0 + 1 \<longrightarrow> space s1 (vpn v + j) \<noteq> None" using vm(2) assms(3) by simp
  from unmap_loop_spec [OF vm(1) _ _ this] assms(2) obtain s2 where s2: "unmap_loop s1 v 0 1 = Inr (0, s2)"
      "vm_inv s2" "vm_step s1 s2" "pmm_frames s2 = pmm_frames s1" "table_frames s2 = table_frames s1"
      "space s2 = (\<lambda>m. if vpn v + 0 \<le> m \<and> m < vpn v + 0 + 1 then None else space s1 m)"
    by auto
  have "space s2 = (space s)(vpn v := None)" unfolding s2(6) vm(2) by (auto simp: fun_eq_iff)
  moreover have "unmap_pages s1 v 1 = Inr (0, s2)" using s2(1) by (simp add: unmap_pages_def)
  ultimately show ?thesis
    using that [OF _ s1(1)] get_mapping_eq [OF core(2), of v] look s2 s1(4) vm(4)
      vm_step_trans [OF vm(3) s2(3)] by simp
qed

lemma vmspace_free_loop_spec:
  assumes "vm_inv s" "unat sz = n * 4096" "own_pages (vpn addr) n" "k \<le> n" "backed s addr F {k..<n}"
  shows "\<exists>s'. vmspace_free_loop s addr sz (of_nat (k * 4096)) = Some (Inr s') \<and> vm_inv s' \<and> vm_step s s' \<and>
    pmm_frames s' = pmm_frames s \<union> F ` {k..<n} \<and> table_frames s' = table_frames s \<and>
    space s' = (\<lambda>m. if vpn addr + k \<le> m \<and> m < vpn addr + n then None else space s m)"
  using assms(1,4,5)
proof (induction "n - k" arbitrary: s k)
  case 0
  have "n * 4096 < 4294967296" using assms(2) unat_u32_less [of sz] by simp
  then have "\<not> (of_nat (k * 4096) :: u32) < sz"
    using 0 assms(2) by (simp add: word_less_nat_alt del: of_nat_mult)
  then have "vmspace_free_loop s addr sz (of_nat (k * 4096)) = Some (Inr s)"
    by (simp add: vmspace_free_loop.simps del: of_nat_mult)
  with 0 show ?case by (intro exI [of _ s]) (auto simp: vm_step_refl fun_eq_iff)
next
  case (Suc d)
  have k: "k < n" using Suc(2) by simp
  have lt: "n * 4096 < 4294967296" using assms(2) unat_u32_less [of sz] by simp
  let ?i = "of_nat (k * 4096) :: u32"
  have "unat ?i = k * 4096" using k lt by (intro unat_of_nat_u32) simp
  then have i: "?i < sz" "?i + get_page_size = of_nat (Suc k * 4096)"
    using k assms(2) by (simp add: word_less_nat_alt) (simp add: get_page_size_def algebra_simps)
  have own: "own_table ((vpn addr + k) div 1024)" using k assms(3) by (simp add: own_pages_def)
  note pg = nth_page(1) [OF own]
  have "k \<in> {k..<n}" using k by simp
  with Suc.prems(3) obtain e where e: "space s (vpn addr + k) = Some e" "frame e = F k"
    and f: "F k \<in> pmm_managed s" "F k \<notin> pmm_frames s" "F k \<notin> table_frames s"
    unfolding backed_def by blast
  obtain s1 s2 where s12: "get_mapping s (addr + ?i) = Inr (ucast (e AND 0xFFFFF000), Some (from_x86_flags (e AND 0xFFF)))"
    "free_page s (ucast (e AND 0xFFFFF000)) = Inr (0, s1)" "unmap_pages s1 (addr + ?i) 1 = Inr (0, s2)"
    "vm_inv s2" "vm_step s s2" "pmm_frames s2 = insert (F k) (pmm_frames s)"
    "table_frames s2 = table_frames s" "space s2 = (space s)(vpn addr + k := None)"
    using free_one_page [OF Suc.prems(1), of "addr + ?i" e] pg own e f by metis
  have step: "vmspace_free_loop s addr sz ?i = vmspace_free_loop s2 addr sz (of_nat (Suc k * 4096))"
    using i s12(1-3) ucast_not_minus_1 [of "e AND 0xFFFFF000"]
    by (subst vmspace_free_loop.simps) (simp add: add.commute del: of_nat_mult of_nat_Suc)
  have "backed s2 addr F {Suc k..<n}"
  proof -
    have man: "pmm_managed s2 = pmm_managed s" by (rule pmm_managed_cong [OF vm_stepD(2) [OF s12(5)]])
    have inj: "inj_on F {k..<n}" using Suc.prems(3) by (simp add: backed_def)
    have "F j \<noteq> F k" if "j \<in> {Suc k..<n}" for j using inj_onD [OF inj, of j k] that by auto
    moreover have "inj_on F {Suc k..<n}" by (rule inj_on_subset [OF inj]) auto
    moreover have "j \<in> {k..<n}" if "j \<in> {Suc k..<n}" for j using that by simp
    ultimately show ?thesis
      using Suc.prems(3) unfolding backed_def s12(6-8) man by (simp add: Ball_def)
  qed
  moreover have "d = n - Suc k" "Suc k \<le> n" using Suc(2) k by simp_all
  ultimately obtain s' where s': "vmspace_free_loop s2 addr sz (of_nat (Suc k * 4096)) = Some (Inr s')"
    "vm_inv s'" "vm_step s2 s'" "pmm_frames s' = pmm_frames s2 \<union> F ` {Suc k..<n}"
    "table_frames s' = table_frames s2"
    "space s' = (\<lambda>m. if vpn addr + Suc k \<le> m \<and> m < vpn addr + n then None else space s2 m)"
    using Suc(1) [of "Suc k" s2] s12(4) by blast
  have "{k..<n} = insert k {Suc k..<n}" using k by auto
  then have "pmm_frames s' = pmm_frames s \<union> F ` {k..<n}" using s'(4) s12(6) by auto
  moreover have "space s' = (\<lambda>m. if vpn addr + k \<le> m \<and> m < vpn addr + n then None else space s m)"
    unfolding s'(6) s12(8) using k by (auto simp: fun_eq_iff)
  ultimately show ?case
    using step s'(1,2,5) s12(7) vm_step_trans [OF s12(5) s'(3)] by simp
qed

text \<open>
  Freeing a block of which the first pages are backed: afterwards its addresses are free again,
  nothing is mapped there, and the frames behind it are free.
\<close>

lemma vmspace_free_spec:
  assumes "vs_inv s vms" "log2_roundup sz = Inr (12 + i)" "i \<le> top_order" "unat sz = n * 4096"
    "(j + 1) * 2 ^ i \<le> buddy_pages (vs_allocator vms)" "blk i j \<inter> vs_free s vms = {}" "flag \<noteq> 0"
    "\<And>k. n \<le> k \<Longrightarrow> k < 2 ^ i \<Longrightarrow> space s (vs_base vms + j * 2 ^ i + k) = None"
  defines "v \<equiv> ucast (page_addr (vs_allocator vms) (j * 2 ^ i)) :: u32"
  assumes "backed s v F {..<n}"
  shows "\<exists>vms' s'. vmspace_free s vms sz v flag = Inr (vms', s') \<and> vs_inv s' vms' \<and>
    vs_allocator vms' = vs_allocator vms \<and> vs_free s' vms' = vs_free s vms \<union> blk i j \<and>
    pmm_frames s' = pmm_frames s \<union> F ` {..<n} \<and> table_frames s' = table_frames s \<and>
    space s' = (\<lambda>m. if m \<in> (+) (vs_base vms) ` blk i j then None else space s m) \<and> vs_step s vms s'"
proof -
  let ?bd = "vs_allocator vms" and ?s1 = "held_state s" and ?vms = "vms\<lparr>vs_lock := left_lock s (vs_lock vms)\<rparr>"
  note inv = vs_invD [OF assms(1)]
  have n: "n \<le> 2 ^ i" using log2_roundup_pages [OF assms(2)] assms(4) by simp
  have fit: "j * 2 ^ i + n \<le> buddy_pages ?bd" using assms(5) n by simp
  note v = vs_addr [OF assms(1) fit, folded v_def]
  have c: "mem ?s1 = mem s" "allocators ?s1 = allocators s" "pmm_lock ?s1 = pmm_lock s"
    "ptmem ?s1 = ptmem s" "cr3 ?s1 = cr3 s" "current ?s1 = current s" by (simp_all add: disable_interrupts_def)
  have h: "vm_inv ?s1" "space ?s1 = space s" "pmm_frames ?s1 = pmm_frames s" "table_frames ?s1 = table_frames s"
      "pmm_storage ?s1 = pmm_storage s" "pmm_managed ?s1 = pmm_managed s"
    using vm_inv_cong [OF c] vm_core_cong(2) [OF c(1-5)] pmm_cong(2) [OF c(1-3)] vm_cong(2) [OF c(4,5)] inv(1)
      pmm_managed_cong [OF c(2)] by (simp_all add: pmm_storage_def c(2))
  have "backed ?s1 v F {0..<n}" using assms(10) by (simp add: backed_def h atLeast0LessThan)
  from vmspace_free_loop_spec [OF h(1) assms(4) v(2) _ this]
  obtain s2 where s2: "vmspace_free_loop ?s1 v sz 0 = Some (Inr s2)" "vm_inv s2" "vm_step ?s1 s2"
      "pmm_frames s2 = pmm_frames s \<union> F ` {..<n}" "table_frames s2 = table_frames s"
      "space s2 = (\<lambda>m. if vpn v \<le> m \<and> m < vpn v + n then None else space s m)"
    unfolding h(2-4) by (auto simp: atLeast0LessThan)
  note st = vm_stepD [OF s2(3), unfolded h(5) c(1,2)]
  note keep = vs_keep [OF inv(3,5) st(1)]
  have "blk i j \<inter> buddy_free_pages ?bd (mem s2) = {}" using keep(2) assms(6) by simp
  from buddy_free_block [OF keep(1) assms(2,3,5) this]
  obtain m3 where m3: "buddy_free ?bd (mem s2) (page_addr ?bd (j * 2 ^ i)) sz = Inr m3" "buddy_inv ?bd m3"
      "buddy_free_pages ?bd m3 = vs_free s vms \<union> blk i j" "same_outside (buddy_storage ?bd) (mem s2) m3"
    using keep(2) by auto
  let ?s3 = "s2\<lparr>mem := m3\<rparr>" and ?s' = "s2\<lparr>mem := m3, eflags := eflags s\<rparr>"
  have rel: "spinlock_release ?s3 (held_lock s (vs_lock vms)) = Inr (?s3\<lparr>eflags := eflags s\<rparr>, left_lock s (vs_lock vms))"
    using st(5) by (intro spinlock_release_restores) simp
  have run: "vmspace_free s vms sz v flag = Inr (?vms, ?s')"
    using inv(2) assms(7) s2(1) m3(1) v(3) rel by (simp add: vmspace_free_def or_hang_def Let_def)
  have d: "buddy_storage ?bd \<inter> pmm_storage s2 = {}" using inv(5) st(4) by simp
  have s3: "vm_inv ?s3" by (rule vm_inv_data [OF s2(2) m3(4) d])
  have e: "vm_inv ?s'" "pmm_storage ?s' = pmm_storage s" "pmm_frames ?s' = pmm_frames s2"
      "table_frames ?s' = table_frames s2" "space ?s' = space s2"
    using s3 vm_inv_cong [of ?s' ?s3] st(4) pmm_cong(2) [of ?s' ?s3] pmm_frame(2) [OF _ m3(4) d] s2(2)
      vm_cong(2,3) [of ?s' s2] by (simp_all add: pmm_storage_def vm_inv_def vm_core_def space_def fun_eq_iff)
  have sp: "space s2 = (\<lambda>m. if m \<in> (+) (vs_base vms) ` blk i j then None else space s m)"
  proof
    fix m
    have blk: "m \<in> (+) (vs_base vms) ` blk i j \<longleftrightarrow> vpn v \<le> m \<and> m < vpn v + 2 ^ i"
      unfolding v(1) blk_eq by (auto simp: image_iff le_iff_add)
    show "space s2 m = (if m \<in> (+) (vs_base vms) ` blk i j then None else space s m)"
      using assms(8) [of "m - vpn v"] n unfolding blk s2(6) v(1) by auto
  qed
  have "vs_inv ?s' ?vms" "vs_free ?s' ?vms = vs_free s vms \<union> blk i j"
  proof -
    have "space ?s' (vs_base vms + p) = None" if "p \<in> vs_free s vms \<union> blk i j" for p
      using that inv(6) unfolding e(5) sp by auto
    then show "vs_inv ?s' ?vms" "vs_free ?s' ?vms = vs_free s vms \<union> blk i j"
      using vs_inv_after [OF assms(1) m3(2) _ e(1,2), where F = "vs_free s vms \<union> blk i j"
          and l = "left_lock s (vs_lock vms)"] m3(3) by (simp_all add: same_outside_def)
  qed
  moreover have "vs_step s vms ?s'"
    using vs_stepI [of vms s "mem s" "eflags ?s1" s2 m3] s2(3) m3(4)
    by (simp add: same_outside_def disable_interrupts_def)
  ultimately show ?thesis using run e s2(4,5) sp by simp
qed

text \<open>Writes in the range itself disturb neither allocator.\<close>

lemma vs_inv_data:
  assumes "vs_inv s vms" "same_outside A (mem s) m" "A \<inter> (buddy_storage (vs_allocator vms) \<union> pmm_storage s) = {}"
  shows "vs_inv (s\<lparr>mem := m\<rparr>) vms" "vs_free (s\<lparr>mem := m\<rparr>) vms = vs_free s vms"
    "pmm_frames (s\<lparr>mem := m\<rparr>) = pmm_frames s" "space (s\<lparr>mem := m\<rparr>) = space s"
    "backed (s\<lparr>mem := m\<rparr>) v F K = backed s v F K"
proof -
  note inv = vs_invD [OF assms(1)]
  have d: "A \<inter> buddy_storage (vs_allocator vms) = {}" "A \<inter> pmm_storage s = {}" using assms(3) by blast+
  note b = buddy_frame [OF assms(2) d(1)]
  show fr: "vs_free (s\<lparr>mem := m\<rparr>) vms = vs_free s vms" using b(3) [OF inv(4)] by simp
  show sp: "space (s\<lparr>mem := m\<rparr>) = space s" using vm_cong(3) [of "s\<lparr>mem := m\<rparr>" s] by (simp add: space_def fun_eq_iff)
  show pf: "pmm_frames (s\<lparr>mem := m\<rparr>) = pmm_frames s"
    using pmm_frame(2) [OF _ assms(2) d(2)] inv(1) by (simp add: vm_inv_def vm_core_def)
  show "vs_inv (s\<lparr>mem := m\<rparr>) vms"
    using assms(1) vm_inv_data [OF inv(1) assms(2) d(2)] b(1) fr sp
    by (simp add: vs_inv_def pmm_storage_def)
  have "table_frames (s\<lparr>mem := m\<rparr>) = table_frames s" "pmm_managed (s\<lparr>mem := m\<rparr>) = pmm_managed s"
    using vm_cong(2) [of "s\<lparr>mem := m\<rparr>" s] pmm_managed_cong [of "s\<lparr>mem := m\<rparr>" s] by simp_all
  then show "backed (s\<lparr>mem := m\<rparr>) v F K = backed s v F K" by (simp add: backed_def sp pf)
qed

text \<open>A state that differs in such writes, or in what the managers do not look at.\<close>

lemma vs_inv_like:
  assumes "vs_inv s vms" "same_outside A (mem s) (mem t)" "A \<inter> (buddy_storage (vs_allocator vms) \<union> pmm_storage s) = {}"
    "allocators t = allocators s" "pmm_lock t = pmm_lock s" "ptmem t = ptmem s" "cr3 t = cr3 s" "current t = current s"
  shows "vs_inv t vms" "vs_free t vms = vs_free s vms" "pmm_frames t = pmm_frames s" "space t = space s"
    "backed t v F K = backed s v F K" "table_frames t = table_frames s"
proof -
  let ?u = "s\<lparr>mem := mem t\<rparr>"
  note d = vs_inv_data [OF assms(1-3)]
  have e: "mem t = mem ?u" "allocators t = allocators ?u" "pmm_lock t = pmm_lock ?u" "ptmem t = ptmem ?u"
    "cr3 t = cr3 ?u" "current t = current ?u" using assms(4-8) by simp_all
  note c = vm_core_cong [OF e(1-5)] and p = pmm_cong [OF e(1-3)] and v = vm_cong [OF e(4,5)]
  show "vs_inv t vms" using d(1) by (simp add: vs_inv_def vm_inv_cong [OF e] c(2) pmm_storage_def assms(4))
  show "vs_free t vms = vs_free s vms" using d(2) by simp
  show "pmm_frames t = pmm_frames s" using d(3) p(2) by simp
  show "space t = space s" using d(4) c(2) by simp
  show tf: "table_frames t = table_frames s" by (rule vm_cong(2) [OF assms(6,7)])
  show "backed t v F K = backed s v F K"
    unfolding backed_def \<open>space t = space s\<close> \<open>pmm_frames t = pmm_frames s\<close> tf pmm_managed_cong [OF assms(4)] ..
qed

lemma frame_of_map_entry:
  assumes "unat p < 4294967296"
  shows "frame (map_entry p flags) = unat p div 4096"
proof -
  have "p = ucast (ucast p :: u32)" using assms by (simp add: word_unat_eq_iff unat_ucast_small)
  then have "ucast (p AND 0xFFFFF000) = (ucast p :: u32) AND 0xFFFFF000"
    by (intro bit_word_eqI) (auto simp: bit_simps bit_page_mask)
  then have "frame (map_entry p flags AND 0xFFFFF000) = frame (ucast p :: u32)"
    by (simp only: frame_map_entry frame_mask)
  then have "frame (map_entry p flags) = frame (ucast p :: u32)" by (simp only: frame_mask)
  then show ?thesis using assms by (simp add: frame_def unat_ucast_small)
qed

lemma backed_after_alloc:
  assumes "frames_of a i \<subseteq> pmm_managed s" "frames_of a i \<inter> pmm_frames s = {}"
    "frames_of a i \<inter> table_frames s = {}" "frames_of a i \<subseteq> {..<1048576}" "n \<le> 2 ^ i"
    "\<And>k. k < n \<Longrightarrow> space s (vpn v + k) = Some (map_entry (ucast (ucast a :: u32) + of_nat (k * 4096)) flags)"
  shows "backed s v (\<lambda>k. unat a div 4096 + k) {..<n}"
  unfolding backed_def
proof (intro conjI ballI)
  show "inj_on (\<lambda>k. unat a div 4096 + k) {..<n}" by (simp add: inj_on_def)
  fix k assume "k \<in> {..<n}"
  then have k: "k < n" by simp
  then have mem: "unat a div 4096 + k \<in> frames_of a i" using assms(5) by (simp add: frames_of_def)
  then show "unat a div 4096 + k \<in> pmm_managed s" "unat a div 4096 + k \<notin> pmm_frames s"
    "unat a div 4096 + k \<notin> table_frames s" using assms(1-3) by blast+
  have lt: "unat a div 4096 + k < 1048576" using mem assms(4) by blast
  then have a: "unat a + k * 4096 < 4294967296" by linarith
  then have "ucast (ucast a :: u32) = a" by (simp add: word_unat_eq_iff unat_ucast_small)
  moreover have "unat (a + of_nat (k * 4096)) = unat a + k * 4096"
    using a by (simp add: unat_word_ariths unat_of_nat del: of_nat_mult)
  ultimately have "frame (map_entry (ucast (ucast a :: u32) + of_nat (k * 4096)) flags) = unat a div 4096 + k"
    using a by (subst frame_of_map_entry) simp_all
  with assms(6) [OF k] show "\<exists>e. space s (vpn v + k) = Some e \<and> frame e = unat a div 4096 + k" by blast
qed

lemma pmm_frames_managed: "pmm_inv s \<Longrightarrow> pmm_frames s \<subseteq> pmm_managed s"
  using free_frames_zone pmm_invD by (fastforce simp: pmm_frames_def pmm_managed_def)

text \<open>
  What \<^verbatim>\<open>vmspace_alloc\<close> gives, \<^verbatim>\<open>vmspace_free\<close> takes back, after any writes outside the bitmaps. Page tables that had to be made stay.
\<close>

lemma vmspace_alloc_free:
  assumes "vs_inv s vms" "i \<le> top_order" "flags \<noteq> 0" "flag \<noteq> 0" "pmm_frames s \<subseteq> {..<1048576}"
    "vmspace_alloc s vms (2 ^ (12 + i)) flags = Inr (v, vms1, s1)" "v \<noteq> NOT 0"
    "same_outside A (mem s1) (mem t)" "A \<inter> (buddy_storage (vs_allocator vms) \<union> pmm_storage s) = {}"
    "allocators t = allocators s1" "pmm_lock t = pmm_lock s1" "ptmem t = ptmem s1" "cr3 t = cr3 s1" "current t = current s1"
  obtains vms' s' where "vmspace_free t vms1 (2 ^ (12 + i)) v flag = Inr (vms', s')" "vs_inv s' vms'"
    "vs_free s' vms' = vs_free s vms" "space s' = space s" "table_frames s \<subseteq> table_frames s'"
    "pmm_frames s' = pmm_frames s - table_frames s'" "vs_allocator vms' = vs_allocator vms" "pmm_storage s' = pmm_storage s"
proof -
  let ?sz = "2 ^ (12 + i) :: u32" and ?bd = "vs_allocator vms"
  have i: "12 + i < 32" using assms(2) by (simp add: top_order_def)
  have "(2 :: nat) ^ i \<le> 2 ^ 16" using assms(2) by (intro power_increasing) (simp_all add: top_order_def)
  then have "unat (of_nat (2 ^ i * 4096) :: u32) = 2 ^ i * 4096" by (intro unat_of_nat_u32) simp
  then have sz: "unat ?sz = 2 ^ i * 4096" by (simp add: power_add mult.commute)
  have l: "log2_roundup ?sz = Inr (12 + i)" using log2_roundup_exp [OF i] by (simp only: push_bit_of_1)
  show ?thesis
  proof (cases rule: vmspace_alloc_spec [OF assms(1) l assms(2) _ assms(3)])
    case 1 then show ?case using sz by simp
  next
    case (2 j a s1' vms1')
    have eq: "s1' = s1" "vms1' = vms1" "v = ucast (page_addr ?bd (j * 2 ^ i))" using 2(1) assms(6) by simp_all
    note al = 2(2-13)[unfolded eq(1,2)]
    let ?w = "vs_base vms + j * 2 ^ i"
    have b: "vs_base vms1 = vs_base vms" using al(2) by (simp add: vs_base_def)
    have vp: "vpn v = ?w" using vs_addr(1) [OF assms(1), of "j * 2 ^ i" 0] al(4) eq(3) by simp
    have fl: "frames_of a i \<subseteq> {..<1048576}" using al(6) assms(5) by blast
    have ms: "pmm_managed s1 = pmm_managed s" by (rule pmm_managed_cong [OF vs_stepD(2) [OF al(12)]])
    have F: "(\<lambda>k. unat a div 4096 + k) ` {..<2 ^ i} = frames_of a i"
      by (simp add: frames_of_def lessThan_atLeast0 add.commute)
    have fr: "vs_free s1 vms = vs_free s vms - blk i j" using al(5) unfolding al(2) .
    have "backed s1 v (\<lambda>k. unat a div 4096 + k) {..<2 ^ i}"
    proof (rule backed_after_alloc [OF _ _ _ fl])
      show "frames_of a i \<subseteq> pmm_managed s1"
        using al(6) pmm_frames_managed [of s] vs_invD(1) [OF assms(1)] by (auto simp: ms vm_inv_def vm_core_def)
      show "frames_of a i \<inter> pmm_frames s1 = {}" "frames_of a i \<inter> table_frames s1 = {}" using al(9,10) by auto
      show "space s1 (vpn v + k) = Some (map_entry (ucast (ucast a :: u32) + of_nat (k * 4096)) flags)" if "k < 2 ^ i" for k
        using that by (simp add: al(11) vp sz del: of_nat_mult)
    qed simp
    have A: "A \<inter> (buddy_storage (vs_allocator vms1) \<union> pmm_storage s1) = {}"
      using assms(9) vs_stepD(4) [OF al(12)] al(2) by simp
    note like = vs_inv_like [OF al(1) assms(8) A assms(10-14)]
    from this have bt: "backed t v (\<lambda>k. unat a div 4096 + k) {..<2 ^ i}" using like(5) \<open>backed s1 v (\<lambda>k. unat a div 4096 + k) {..<2 ^ i}\<close> by simp
    have frt: "vs_free t vms = vs_free s vms - blk i j" using like(2) fr unfolding al(2) by simp
    from vmspace_free_spec [OF like(1) l assms(2) sz, of j flag "\<lambda>k. unat a div 4096 + k", unfolded al(2), OF al(4) _ assms(4), folded eq(3), OF _ _ bt]
    obtain vms' s' where r: "vmspace_free t vms1 ?sz v flag = Inr (vms', s')" "vs_inv s' vms'"
       "vs_free s' vms' = vs_free t vms \<union> blk i j"
       "pmm_frames s' = pmm_frames s1 \<union> frames_of a i" "table_frames s' = table_frames s1"
       "space s' = (\<lambda>m. if m \<in> (+) (vs_base vms) ` blk i j then None else space s1 m)"
       "vs_allocator vms' = vs_allocator vms" "vs_step t vms1 s'"
      unfolding F b like(3,4,6) using frt by auto
    have "space s' m = space s m" for m
    proof -
      have m: "m \<in> (+) (vs_base vms) ` blk i j \<longleftrightarrow> ?w \<le> m \<and> m < ?w + 2 ^ i"
        unfolding blk_eq by (auto simp: image_iff le_iff_add)
      have "space s m = None" if "m \<in> (+) (vs_base vms) ` blk i j"
        using that
      proof
        fix p assume "m = vs_base vms + p" "p \<in> blk i j"
        then show ?thesis using vs_invD(6) [OF assms(1)] al(3) by (simp add: subset_iff)
      qed
      then show ?thesis unfolding r(6) al(11) sz using m by simp
    qed
    moreover have "pmm_frames s' = pmm_frames s - table_frames s'" using r(4,5) al(6,9,10) by auto
    moreover have "vs_free s' vms' = vs_free s vms" using r(3) al(3) frt by auto
    moreover have "pmm_storage s' = pmm_storage s"
      using vs_stepD(4) [OF r(8)] vs_stepD(4) [OF al(12)] assms(10) by (simp add: pmm_storage_def)
    ultimately show ?thesis using that [OF r(1,2)] al(8) r(5,7) by auto
  next
    case 3 then show ?thesis using assms(6,7) by simp
  next
    case 4 then show ?thesis using assms(6) by simp
  qed
qed

section \<open>Success\<close>

text \<open>With a free block of addresses and enough physical memory, \<^verbatim>\<open>vmspace_alloc\<close> delivers.\<close>

lemma vmspace_alloc_reached:
  assumes "vs_inv s vms" "i \<le> top_order" "flags \<noteq> 0" "blk i k \<subseteq> vs_free s vms" "enough s i (2 ^ i)"
  shows "\<exists>j a vms' s'. vmspace_alloc s vms (2 ^ (12 + i)) flags =
      Inr (ucast (page_addr (vs_allocator vms) (j * 2 ^ i)), vms', s') \<and>
    ucast (page_addr (vs_allocator vms) (j * 2 ^ i)) \<noteq> (NOT 0 :: u32) \<and> vs_inv s' vms' \<and> blk i j \<subseteq> vs_free s vms \<and> vs_free s' vms' = vs_free s vms - blk i j \<and>
    frames_of a i \<subseteq> pmm_frames s \<and> pmm_frames s' = pmm_frames s - frames_of a i - table_frames s' \<and>
    space s' = (\<lambda>m. if vs_base vms + j * 2 ^ i \<le> m \<and> m < vs_base vms + j * 2 ^ i + 2 ^ i
      then Some (map_entry (a + of_nat ((m - (vs_base vms + j * 2 ^ i)) * 4096)) flags) else space s m)"
proof -
  have i: "12 + i < 32" using assms(2) by (simp add: top_order_def)
  have l: "log2_roundup (2 ^ (12 + i)) = Inr (12 + i)" using log2_roundup_exp [OF i] by (simp only: push_bit_of_1)
  have u: "unat (2 ^ (12 + i) :: u32) = 2 ^ (12 + i)" using unat_exp_u32 [OF i] by (simp only: push_bit_of_1)
  have sz: "unat (2 ^ (12 + i) :: u32) mod 4096 = 0" "unat (2 ^ (12 + i) :: u32) div 4096 = 2 ^ i"
    unfolding u by (simp_all add: power_add)
  show ?thesis
  proof (cases rule: vmspace_alloc_spec [OF assms(1) l assms(2) sz(1) assms(3)])
    case (1 j a s' vms')
    have "unat a div 4096 \<in> frames_of a i" by (simp add: frames_of_def)
    then have "unat a div 4096 < 1048576" using 1(7) assms(5) unfolding enough_def by blast
    then have aa: "(ucast (ucast a :: u32) :: u64) = a" by (simp add: word_unat_eq_iff unat_ucast_small)
    have "(ucast (page_addr (vs_allocator vms) (j * 2 ^ i)) :: u32) \<noteq> NOT 0"
    proof -
      have "1 \<le> (2 ^ i :: nat)" by simp
      moreover have "j * 2 ^ i + 2 ^ i \<le> buddy_pages (vs_allocator vms)" using 1(5) by (simp add: add_mult_distrib)
      ultimately have "j * 2 ^ i + 1 \<le> buddy_pages (vs_allocator vms)" by linarith
      from vs_addr(2) [OF assms(1) this]
      have "vpn (ucast (page_addr (vs_allocator vms) (j * 2 ^ i))) < 1048575"
        by (auto simp: own_pages_def dest: own_table_less)
      moreover have "vpn (NOT 0) = 1048575" by (simp add: vpn_def unsigned_minus_1_eq_mask mask_eq_exp_minus_1)
      ultimately show ?thesis by (metis less_irrefl)
    qed
    then show ?thesis using 1(1,2,4,6,7,11) 1(12) [unfolded sz(2) aa] by (intro exI [of _ j] exI [of _ a] exI [of _ vms'] exI [of _ s']) simp
  next
    case 2
    then show ?thesis using assms(4) by blast
  next
    case 3
    then show ?thesis using assms(5) sz(2) by simp
  qed
qed

end
