(* ===== verification/Slab_Correct.thy ===== *)
theory Slab_Correct
  imports Slab_Layout Vmspace_Correct
begin

text \<open>
  Slab caches on a vmspace: making a slab, taking an object, giving it back. The invariant ties
  the list of slabs to the pages of the vmspace and to the frames behind them.
\<close>

section \<open>Slabs in a vmspace\<close>

definition vs_area :: "vmspace \<Rightarrow> u32 set" where
  "vs_area vms = region (ucast (buddy_start (vs_allocator vms))) (buddy_pages (vs_allocator vms) * 4096)"

text \<open>The footer of the slab in the \<open>j\<close>-th pair of pages.\<close>

definition slab_foot :: "vmspace \<Rightarrow> nat \<Rightarrow> u32" where
  "slab_foot vms j = ucast (page_addr (vs_allocator vms) (j * 2)) + 0x1FFC"

text \<open>The range starts at a multiple of the slab size, and no allocator keeps its bitmaps in it.\<close>

definition vs_slabs :: "'a vmm_scheme \<Rightarrow> vmspace \<Rightarrow> bool" where
  "vs_slabs s vms \<longleftrightarrow> vs_inv s vms \<and> unat (buddy_start (vs_allocator vms)) mod 8192 = 0 \<and>
     8192 \<le> unat (buddy_start (vs_allocator vms)) \<and>
     vs_area vms \<inter> (buddy_storage (vs_allocator vms) \<union> pmm_storage s) = {}"

lemma slab_foot_props:
  assumes "vs_slabs s vms" "(j + 1) * 2 \<le> buddy_pages (vs_allocator vms)"
  defines "a \<equiv> ucast (page_addr (vs_allocator vms) (j * 2)) :: u32"
  shows "slab_at (slab_foot vms j)" "START_FOR_FOOTER (slab_foot vms j) = a"
    "FOOTER_FOR_PTR a = slab_foot vms j" "slab_region (slab_foot vms j) \<subseteq> vs_area vms"
    "unat a = unat (buddy_start (vs_allocator vms)) + j * 8192"
proof -
  let ?bd = "vs_allocator vms"
  have inv: "vs_inv s vms" and al: "unat (buddy_start ?bd) mod 8192 = 0" "8192 \<le> unat (buddy_start ?bd)"
    using assms(1) by (simp_all add: vs_slabs_def)
  have fit: "j * 2 + 2 \<le> buddy_pages ?bd" using assms(2) by simp
  have v: "ucast a = page_addr ?bd (j * 2)" using vs_addr(3) [OF inv fit] by (simp add: a_def)
  have u: "unat (page_addr ?bd (j * 2)) = unat (buddy_start ?bd) + j * 2 * 4096"
    using fit by (intro unat_page_addr [OF vs_invD(4) [OF inv]]) simp
  have ua: "unat a = unat (page_addr ?bd (j * 2))"
    using unat_ucast_small [of a, where 'b = 64] unat_u32_less [of a] v by simp
  then show ua': "unat a = unat (buddy_start ?bd) + j * 8192" using u by simp
  have top: "unat (buddy_start ?bd) + unat (buddy_size ?bd) \<le> 0xFF800000" using inv by (simp add: vs_inv_def)
  have "buddy_pages ?bd * 4096 \<le> unat (buddy_size ?bd)" by (simp add: buddy_pages_def)
  then have lim: "unat a + 8192 \<le> 0xFF800000" using ua' top fit by simp
  have foot: "unat (slab_foot vms j) = unat a + 0x1FFC"
    using lim by (simp add: slab_foot_def a_def [symmetric] unat_word_ariths)
  have "(unat (buddy_start ?bd) + j * 8192) mod 8192 = 0" using al(1) by simp
  then have "(unat (buddy_start ?bd) + j * 8192 + 0x1FFC) mod 8192 = 0x1FFC" by (subst mod_add_eq [symmetric]) simp
  then show at: "slab_at (slab_foot vms j)"
    using al(2) ua' foot by (simp add: slab_at_def)
  have "unat (START_FOR_FOOTER (slab_foot vms j)) = unat a" using slab_at_start(1) [OF at] foot by simp
  then show st: "START_FOR_FOOTER (slab_foot vms j) = a" by (simp only: word_unat_eq_iff)
  have "unat (a AND SLAB_ADDR_MASK) = unat a"
    using al(1) ua' by (simp add: unat_slab_mask mod_eq_0_iff_dvd)
  then have "a AND SLAB_ADDR_MASK = a" by (simp only: word_unat_eq_iff)
  then show "FOOTER_FOR_PTR a = slab_foot vms j"
    by (simp add: FOOTER_FOR_PTR_def slab_foot_def a_def [symmetric] SLAB_SIZE_def)
  have "unat (buddy_start ?bd) < 4294967296" using al top by simp
  then have b: "unat (ucast (buddy_start ?bd) :: u32) = unat (buddy_start ?bd)" by (intro unat_ucast_small) simp
  have "a = ucast (buddy_start ?bd) + of_nat (j * 8192)"
    using lim ua' b by (simp add: word_unat_eq_iff unat_word_ariths del: of_nat_mult)
  then show "slab_region (slab_foot vms j) \<subseteq> vs_area vms"
    unfolding st vs_area_def using fit by (simp only:) (intro region_sub, simp)
qed

lemma slab_foot_inj:
  assumes "vs_slabs s vms" "(j + 1) * 2 \<le> buddy_pages (vs_allocator vms)" "(j' + 1) * 2 \<le> buddy_pages (vs_allocator vms)"
    "slab_foot vms j = slab_foot vms j'"
  shows "j = j'"
  using slab_foot_props(2,5) [OF assms(1,2)] slab_foot_props(2,5) [OF assms(1,3)] assms(4) by simp

definition slab_pages :: "nat list \<Rightarrow> nat set" where
  "slab_pages js = (\<Union>j \<in> set js. blk 1 j)"

abbreviation vs_addr0 :: "vmspace \<Rightarrow> u32" where
  "vs_addr0 vms \<equiv> ucast (buddy_start (vs_allocator vms))"

text \<open>A cache whose slabs lie in the pairs of pages \<open>js\<close> of the range, backed by the frames \<open>G\<close>.\<close>

definition cache_inv :: "'a vmm_scheme \<Rightarrow> vmspace \<Rightarrow> slab_cache \<Rightarrow> nat list \<Rightarrow> (nat \<Rightarrow> nat) \<Rightarrow> bool" where
  "cache_inv s vms c js G \<longleftrightarrow> vs_slabs s vms \<and> slab_inv (mem s) c (map (slab_foot vms) js) \<and>
     (\<forall>j \<in> set js. (j + 1) * 2 \<le> buddy_pages (vs_allocator vms) \<and> blk 1 j \<inter> vs_free s vms = {}) \<and>
     backed s (vs_addr0 vms) G (slab_pages js)"

abbreviation feet :: "vmspace \<Rightarrow> nat list \<Rightarrow> u32 list" where
  "feet vms js \<equiv> map (slab_foot vms) js"

lemma vpn_vs_addr0: "vs_slabs s vms \<Longrightarrow> vpn (vs_addr0 vms) = vs_base vms"
proof -
  assume "vs_slabs s vms"
  then have "unat (buddy_start (vs_allocator vms)) < 4294967296" by (auto simp: vs_slabs_def vs_inv_def)
  then have "unat (vs_addr0 vms) = unat (buddy_start (vs_allocator vms))" by (intro unat_ucast_small) simp
  then show ?thesis by (simp add: vpn_def vs_base_def)
qed

section \<open>Making a slab\<close>

lemma backed_shift:
  assumes "vpn v' = vpn v + d" "backed s v' F K"
  shows "backed s v (\<lambda>p. F (p - d)) ((+) d ` K)"
proof -
  have "inj_on (\<lambda>p. F (p - d)) ((+) d ` K)" using assms(2) by (auto simp: backed_def inj_on_def)
  then show ?thesis using assms by (auto simp: backed_def add.assoc)
qed

lemma backed_keep:
  assumes "backed s v G K" "\<And>k. k \<in> K \<Longrightarrow> space s' (vpn v + k) = space s (vpn v + k)"
    "table_frames s' \<subseteq> table_frames s \<union> pmm_frames s" "pmm_managed s' = pmm_managed s"
    "pmm_frames s' \<inter> G ` K = {}"
  shows "backed s' v G K"
  unfolding backed_def
proof (intro conjI ballI)
  show "inj_on G K" using assms(1) by (simp add: backed_def)
  fix k assume k: "k \<in> K"
  then have b: "G k \<in> pmm_managed s" "G k \<notin> pmm_frames s" "G k \<notin> table_frames s"
    "\<exists>e. space s (vpn v + k) = Some e \<and> frame e = G k" using assms(1) by (simp_all add: backed_def)
  show "G k \<in> pmm_managed s'" using b(1) assms(4) by simp
  show "G k \<notin> pmm_frames s'" using assms(5) k by blast
  show "G k \<notin> table_frames s'" using assms(3) b(2,3) by blast
  show "\<exists>e. space s' (vpn v + k) = Some e \<and> frame e = G k" using b(4) assms(2) [OF k] by simp
qed

lemma backed_Un:
  assumes "backed s v G K" "backed s v G' K'" "K \<inter> K' = {}" "G ` K \<inter> G' ` K' = {}"
  shows "backed s v (\<lambda>k. if k \<in> K' then G' k else G k) (K \<union> K')"
proof -
  have "inj_on (\<lambda>k. if k \<in> K' then G' k else G k) (K \<union> K')"
    using assms by (auto simp: backed_def inj_on_def)
  then show ?thesis using assms(1,2,3) by (auto simp: backed_def)
qed

lemma backed_frames: "backed s v G K \<Longrightarrow> G ` K \<inter> pmm_frames s = {} \<and> G ` K \<inter> table_frames s = {}"
  by (auto simp: backed_def)

lemma blk_image: "blk i j = (+) (j * 2 ^ i) ` {..<2 ^ i}"
  by (simp add: blk_eq lessThan_atLeast0 add.commute)

lemma log2_slab: "log2_roundup SLAB_SIZE = Inr (12 + 1)"
  unfolding SLAB_SIZE_def by (rule log2_roundup_eq) simp_all

lemma cache_invD:
  assumes "cache_inv s vms c js G"
  shows "vs_slabs s vms" "vs_inv s vms" "slab_inv (mem s) c (feet vms js)"
    "j \<in> set js \<Longrightarrow> (j + 1) * 2 \<le> buddy_pages (vs_allocator vms)" "j \<in> set js \<Longrightarrow> blk 1 j \<inter> vs_free s vms = {}"
    "backed s (vs_addr0 vms) G (slab_pages js)"
  using assms by (simp_all add: cache_inv_def vs_slabs_def)

lemma vpn_block:
  assumes "vs_slabs s vms" "(j + 1) * 2 \<le> buddy_pages (vs_allocator vms)"
  shows "vpn (ucast (page_addr (vs_allocator vms) (j * 2))) = vpn (vs_addr0 vms) + j * 2"
proof -
  have "j * 2 + 2 \<le> buddy_pages (vs_allocator vms)" using assms(2) by simp
  moreover have "vs_inv s vms" using assms(1) by (simp add: vs_slabs_def)
  ultimately show ?thesis using vs_addr(1) [of s vms "j * 2" 2] by (simp add: vpn_vs_addr0 [OF assms(1)])
qed

text \<open>Room for one more slab: a pair of pages of the range, and physical memory for it.\<close>

definition slab_room :: "'a vmm_scheme \<Rightarrow> vmspace \<Rightarrow> bool" where
  "slab_room s vms \<longleftrightarrow> (\<exists>j. blk 1 j \<subseteq> vs_free s vms) \<and> enough s 1 2"

text \<open>The pages of a fresh block are backed beside those of the slabs there are.\<close>

lemma backed_new_slab:
  assumes "cache_inv s vms c js G" "(j + 1) * 2 \<le> buddy_pages (vs_allocator vms)" "blk 1 j \<subseteq> vs_free s vms"
    "frames_of a 1 \<subseteq> pmm_frames s" "pmm_frames s \<subseteq> {..<1048576}"
    "table_frames s' \<subseteq> table_frames s \<union> pmm_frames s - frames_of a 1"
    "pmm_frames s' = pmm_frames s - frames_of a 1 - table_frames s'"
    "space s' = (\<lambda>m. if vs_base vms + j * 2 ^ 1 \<le> m \<and> m < vs_base vms + j * 2 ^ 1 + 2
        then Some (map_entry (ucast (ucast a :: u32) + of_nat ((m - (vs_base vms + j * 2 ^ 1)) * 4096)) flags)
        else space s m)"
    "allocators s' = allocators s"
  obtains G' where "backed s' (vs_addr0 vms) G' (slab_pages (j # js))"
proof -
  note inv = cache_invD [OF assms(1)]
  let ?v = "ucast (page_addr (vs_allocator vms) (j * 2)) :: u32" and ?F = "\<lambda>k. unat a div 4096 + k"
  note vb = vpn_block [OF inv(1) assms(2)] and v0 = vpn_vs_addr0 [OF inv(1)]
  have man: "pmm_managed s' = pmm_managed s" by (rule pmm_managed_cong [OF assms(9)])
  have pmm: "pmm_inv s" using vs_invD(1) [OF inv(2)] by (simp add: vm_inv_def vm_core_def)
  have "backed s' ?v ?F {..<2}"
  proof (rule backed_after_alloc)
    show "frames_of a 1 \<subseteq> pmm_managed s'" using assms(4) pmm_frames_managed [OF pmm] man by blast
    show "frames_of a 1 \<inter> pmm_frames s' = {}" "frames_of a 1 \<inter> table_frames s' = {}" using assms(6,7) by blast+
    show "frames_of a 1 \<subseteq> {..<1048576}" using assms(4,5) by blast
    show "space s' (vpn ?v + k) = Some (map_entry (ucast (ucast a :: u32) + of_nat (k * 4096)) flags)" if "k < 2" for k
      using that unfolding assms(8) vb v0 by simp
  qed simp
  from backed_shift [OF vb this] have new: "backed s' (vs_addr0 vms) (\<lambda>p. ?F (p - j * 2)) (blk 1 j)"
    by (simp add: blk_image)
  have dj: "slab_pages js \<inter> blk 1 j = {}" using inv(5) assms(3) by (auto simp: slab_pages_def)
  have old: "backed s' (vs_addr0 vms) G (slab_pages js)"
  proof (rule backed_keep [OF inv(6)])
    fix k assume "k \<in> slab_pages js"
    then have "k \<notin> blk 1 j" using dj by blast
    then show "space s' (vpn (vs_addr0 vms) + k) = space s (vpn (vs_addr0 vms) + k)"
      unfolding assms(8) v0 by (auto simp: blk_eq)
  next
    show "pmm_frames s' \<inter> G ` slab_pages js = {}" using backed_frames [OF inv(6)] assms(7) by blast
  qed (use assms(6) man in auto)
  have "(\<lambda>p. ?F (p - j * 2)) ` blk 1 j \<subseteq> frames_of a 1" by (auto simp: blk_eq frames_of_def)
  then have "G ` slab_pages js \<inter> (\<lambda>p. ?F (p - j * 2)) ` blk 1 j = {}"
    using backed_frames [OF inv(6)] assms(4) by blast
  from backed_Un [OF old new dj this] show ?thesis
    using that by (simp add: slab_pages_def Un_commute)
qed

lemma create_spec:
  assumes "cache_inv s vms c js G" "pmm_frames s \<subseteq> {..<1048576}"
  obtains (ok) j vms1 s1 G' where "create s vms c = Inr (slab_foot vms j, vms1, s1)"
      "vs_allocator vms1 = vs_allocator vms" "(j + 1) * 2 \<le> buddy_pages (vs_allocator vms)"
      "blk 1 j \<subseteq> vs_free s vms" "vs_slabs s1 vms1" "vs_free s1 vms1 = vs_free s vms - blk 1 j"
      "backed s1 (vs_addr0 vms) G' (slab_pages (j # js))" "used (mem s1) c (slab_foot vms j) = {}"
      "same_outside (buddy_storage (vs_allocator vms) \<union> pmm_storage s \<union> slab_region (slab_foot vms j)) (mem s) (mem s1)"
      "s1 = s\<lparr>mem := mem s1, ptmem := ptmem s1, pmm_lock := pmm_lock s1, current := current s1\<rparr>"
      "pmm_frames s1 \<subseteq> pmm_frames s"
    | (fault) e where "create s vms c = Inl e" "\<not> slab_room s vms"
proof -
  note inv = cache_invD [OF assms(1)] and sl = slab_invD [OF cache_invD(3) [OF assms(1)]]
  have *: "1 \<le> top_order" "unat SLAB_SIZE mod 4096 = 0" "PAGE_WRITE \<noteq> 0" "unat SLAB_SIZE div 4096 = 2"
    by (simp_all add: top_order_def SLAB_SIZE_def PAGE_WRITE_def)
  show ?thesis
  proof (cases rule: vmspace_alloc_spec [OF inv(2) log2_slab *(1-3)])
    case (1 j a s2 vms2)
    let ?f = "slab_foot vms j" and ?a = "ucast (page_addr (vs_allocator vms) (j * 2)) :: u32"
    let ?n = "bitmap_sz (sc_size c)"
    have j: "(j + 1) * 2 \<le> buddy_pages (vs_allocator vms)" using 1(5) by simp
    note ft = slab_foot_props [OF inv(1) j]
    define m where "m = memset (store32 (mem s2) ?f 0) (?f - ?n) 0 (unat ?n)"
    let ?s1 = "s2\<lparr>mem := m\<rparr>"
    note st = vs_stepD [OF 1(13)]
    have "unat ?a < 0xFFFFFFFF"
      using slab_at_start(6) [OF ft(1)] unfolding ft(2) by simp
    then have "?a \<noteq> NOT 0" by (auto simp: unsigned_minus_1_eq_mask mask_eq_exp_minus_1)
    then have run: "create s vms c = Inr (?f, vms2, ?s1)"
      using 1(1) ft(3) sl(2) by (simp add: create_def nonzero_size_def m_def Let_def)
    note parts = slab_parts [OF ft(1) sl(1)]
    have m: "same_outside (slab_region ?f) (mem s2) m"
    proof -
      have "same_outside (bm_region c ?f) (store32 (mem s2) ?f 0) m"
        unfolding m_def bm_region_eq by (rule memset_same_outside)
      from same_outside_mono [OF this parts(2)] show ?thesis
        by (rule same_outside_trans [OF same_outside_mono [OF store32_same_outside parts(1)]])
    qed
    have area: "slab_region ?f \<inter> (buddy_storage (vs_allocator vms2) \<union> pmm_storage s2) = {}"
      using ft(4) inv(1) unfolding vs_slabs_def st(4) 1(3) by blast
    note keep = vs_inv_data [OF 1(2) m area]
    obtain G' where "backed s2 (vs_addr0 vms) G' (slab_pages (j # js))"
      by (rule backed_new_slab [OF assms(1) j 1(4,7) assms(2) 1(10,11) 1(12) [unfolded *(4)] st(2)])
    then have bk: "backed ?s1 (vs_addr0 vms) G' (slab_pages (j # js))" using keep(5) by simp
    have vsl: "vs_slabs ?s1 vms2"
      using inv(1) keep(1) st(4) unfolding vs_slabs_def vs_area_def 1(3) by (simp add: pmm_storage_def)
    have out: "same_outside (buddy_storage (vs_allocator vms) \<union> pmm_storage s \<union> slab_region ?f) (mem s) m"
      using st(1) m by (simp add: same_outside_def)
    have eq: "?s1 = s\<lparr>mem := m, ptmem := ptmem s2, pmm_lock := pmm_lock s2, current := current s2\<rparr>"
      by (subst st(5)) simp
    have fr: "vs_free ?s1 vms2 = vs_free s vms - blk 1 j" using keep(2) 1(6) by simp
    have us: "used m c ?f = {}" unfolding m_def by (rule used_memset)
    have pf: "pmm_frames ?s1 \<subseteq> pmm_frames s" using keep(3) 1(11) by auto
    show ?thesis
      using ok [OF run 1(3) j 1(4) vsl fr bk] us out eq pf by simp
  next
    case (2 s' vms')
    then show ?thesis using fault by (simp add: create_def slab_room_def)
  next
    case (3 msg)
    then show ?thesis using fault *(4) by (simp add: create_def slab_room_def)
  qed
qed

lemma feet_cong: "vs_allocator vms' = vs_allocator vms \<Longrightarrow> slab_foot vms' = slab_foot vms"
  by (simp add: slab_foot_def fun_eq_iff)

text \<open>The slabs of a cache are apart from the allocators' bitmaps and from a fresh slab.\<close>

lemma slabs_apart:
  assumes "cache_inv s vms c js G" "f \<in> set (feet vms js)"
  shows "slab_region f \<inter> (buddy_storage (vs_allocator vms) \<union> pmm_storage s) = {}"
    "(j + 1) * 2 \<le> buddy_pages (vs_allocator vms) \<Longrightarrow> blk 1 j \<subseteq> vs_free s vms \<Longrightarrow>
     slab_region f \<inter> slab_region (slab_foot vms j) = {}"
proof -
  note inv = cache_invD [OF assms(1)]
  obtain i where i: "i \<in> set js" "f = slab_foot vms i" using assms(2) by auto
  note fi = slab_foot_props [OF inv(1) inv(4) [OF i(1)]]
  show "slab_region f \<inter> (buddy_storage (vs_allocator vms) \<union> pmm_storage s) = {}"
    using fi(4) inv(1) unfolding i(2) vs_slabs_def by blast
  assume j: "(j + 1) * 2 \<le> buddy_pages (vs_allocator vms)" "blk 1 j \<subseteq> vs_free s vms"
  have "blk 1 i \<noteq> {}" by (simp add: blk_eq)
  then have "i \<noteq> j" using inv(5) [OF i(1)] j(2) by blast
  then have "slab_foot vms i \<noteq> slab_foot vms j" using slab_foot_inj [OF inv(1) inv(4) [OF i(1)] j(1)] by blast
  with slab_regions_disjoint [OF fi(1) slab_foot_props(1) [OF inv(1) j(1)]] show
    "slab_region f \<inter> slab_region (slab_foot vms j) = {}" unfolding i(2) by blast
qed

text \<open>A change outside the slabs of a list leaves the links, the bitmaps and the objects alone.\<close>

lemma slabs_keep:
  assumes "slab_fits c" "\<And>f. f \<in> set fs \<Longrightarrow> slab_at f" "same_outside A m m'"
    "\<And>f. f \<in> set fs \<Longrightarrow> slab_region f \<inter> A = {}"
  shows "chain m' p fs = chain m p fs" "f \<in> set fs \<Longrightarrow> used m' c f = used m c f" "live m' c fs = live m c fs"
proof -
  have p: "region f 4 \<inter> A = {}" "A \<inter> bm_region c f = {}" if "f \<in> set fs" for f
    using slab_parts [OF assms(2) [OF that] assms(1)] assms(4) [OF that] by blast+
  show "chain m' p fs = chain m p fs" by (rule chain_frame [OF assms(3) p(1)])
  show u: "used m' c f = used m c f" if "f \<in> set fs" for f by (rule used_frame [OF assms(3) p(2) [OF that]])
  then show "live m' c fs = live m c fs" by (auto simp: live_def)
qed

lemma obj_0: "slab_obj c f 0 = START_FOR_FOOTER f"
  by (simp add: slab_obj_def)

text \<open>Taking the first object of a fresh slab.\<close>

lemma slab_take_new:
  assumes "cache_inv s vms c js G" "sc_empty c = 0" "pmm_frames s \<subseteq> {..<1048576}"
  obtains (ok) j c' vms' s' G' where "slab_take s vms c = Inr (slab_obj c (slab_foot vms j) 0, c', vms', s')"
      "cache_inv s' vms' c' (j # js) G'" "c' = c\<lparr>sc_first := sc_first c', sc_empty := sc_empty c'\<rparr>"
      "vs_allocator vms' = vs_allocator vms" "slab_foot vms j \<notin> set (feet vms js)"
      "live (mem s') c (feet vms (j # js)) = insert (slab_foot vms j, 0) (live (mem s) c (feet vms js))"
      "same_outside (buddy_storage (vs_allocator vms) \<union> pmm_storage s \<union> slab_region (slab_foot vms j)) (mem s) (mem s')"
      "s' = s\<lparr>mem := mem s', ptmem := ptmem s', pmm_lock := pmm_lock s', current := current s'\<rparr>"
      "\<And>f. f \<in> set (feet vms js) \<Longrightarrow> slab_region f \<inter> slab_region (slab_foot vms j) = {}"
    | (fault) e where "slab_take s vms c = Inl e" "\<not> slab_room s vms"
proof -
  note inv = cache_invD [OF assms(1)] and sl = slab_invD [OF cache_invD(3) [OF assms(1)]]
  show ?thesis
  proof (cases rule: create_spec [OF assms(1,3)])
    case (1 j vms1 s1 G')
    let ?g = "slab_foot vms j" and ?fs = "feet vms js"
    let ?A = "buddy_storage (vs_allocator vms) \<union> pmm_storage s \<union> slab_region ?g"
    note at = slab_foot_props(1) [OF inv(1) 1(3)]
    note parts = slab_parts [OF at sl(1)]
    have num: "0 < obj_num c" using sl(1) by (simp add: slab_fits_def)
    define m1 where "m1 = store32 (mem s1) ?g (sc_first c)"
    define m2 where "m2 = mark_used m1 c ?g (slab_obj c ?g 0)"
    define c' where "c' = c\<lparr>sc_first := ?g, sc_empty := find_empty_obj m2 c ?g\<rparr>"
    let ?s' = "s1\<lparr>mem := m2\<rparr>"
    have take: "slab_take s vms c = Inr (slab_obj c ?g 0, c', vms1, ?s')"
      using assms(2) 1(1) by (simp add: slab_take_def Let_def c'_def m2_def m1_def obj_0)
    note mk = mark_used_spec [OF at sl(2) num, of m1, folded m2_def]
    have w1: "same_outside (region ?g 4) (mem s1) m1" unfolding m1_def by (rule store32_same_outside)
    have w: "same_outside (slab_region ?g) (mem s1) m2"
      by (rule same_outside_trans [OF same_outside_mono [OF w1 parts(1)] same_outside_mono [OF mk(2) parts(2)]])
    have out: "same_outside ?A (mem s) m2" using 1(9) w by (simp add: same_outside_def)
    have apart: "slab_region f \<inter> ?A = {}" if "f \<in> set ?fs" for f
      using slabs_apart(1) [OF assms(1) that] slabs_apart(2) [OF assms(1) that 1(3,4)] by blast
    note keep = slabs_keep [where fs = ?fs, OF sl(1) sl(5) out apart]
    have "slab_next m2 ?g = sc_first c"
      using load32_frame [OF mk(2)] parts(3) by (simp add: slab_next_def m1_def Int_commute)
    moreover have "?g \<noteq> 0" by (rule slab_at_start(5) [OF at])
    ultimately have ch: "chain m2 ?g (?g # ?fs)" using keep(1) sl(3) by simp
    have new: "?g \<notin> set ?fs"
    proof
      assume "?g \<in> set ?fs"
      then have "slab_region ?g \<inter> slab_region ?g = {}" using slabs_apart(2) [OF assms(1) _ 1(3,4)] by blast
      then show False using region_memI [of 0 8192 "START_FOR_FOOTER ?g"] by auto
    qed
    have u1: "used m1 c ?g = {}" using used_frame [OF w1, of c ?g] parts(3) 1(8) by (simp add: Int_commute)
    have ug: "used m2 c ?g = {0}" using mk(1) u1 by simp
    have li: "live m2 c (?g # ?fs) = insert (?g, 0) (live (mem s) c ?fs)"
      using ug keep(3) by (auto simp: live_def)
    have "sc_empty c' = 0 \<or> (\<exists>k < obj_num c. sc_empty c' = slab_obj c ?g k \<and> k \<notin> used m2 c ?g)"
      by (cases rule: find_empty_obj_spec [OF at sl(2), of m2]) (auto simp: c'_def)
    then have si: "slab_inv m2 c' (?g # ?fs)"
      using sl(1,4) ch new ug keep(2) sl(6) at num unfolding slab_inv_def
      by (simp add: c'_def) (use sl(5) in auto)
    have "vs_slabs ?s' vms1" "vs_free ?s' vms1 = vs_free s vms - blk 1 j" "backed ?s' (vs_addr0 vms) G' (slab_pages (j # js))"
    proof -
      have a: "slab_region ?g \<inter> (buddy_storage (vs_allocator vms1) \<union> pmm_storage s1) = {}"
      proof -
        have "allocators s1 = allocators s" by (subst 1(10)) simp
        then have "pmm_storage s1 = pmm_storage s" by (simp add: pmm_storage_def)
        then show ?thesis
          using slab_foot_props(4) [OF inv(1) 1(3)] inv(1) unfolding vs_slabs_def 1(2) by blast
      qed
      have vi: "vs_inv s1 vms1" using 1(5) by (simp add: vs_slabs_def)
      note k = vs_inv_data [OF vi w a]
      show "vs_slabs ?s' vms1" using 1(5) k(1) by (simp add: vs_slabs_def pmm_storage_def)
      show "vs_free ?s' vms1 = vs_free s vms - blk 1 j" using k(2) 1(6) by simp
      show "backed ?s' (vs_addr0 vms) G' (slab_pages (j # js))" using k(5) 1(7) by simp
    qed
    then have ci: "cache_inv ?s' vms1 c' (j # js) G'"
      using si inv(4,5) 1(3) by (auto simp: cache_inv_def 1(2) feet_cong [OF 1(2)])
    have "?s' = s\<lparr>mem := m2, ptmem := ptmem s1, pmm_lock := pmm_lock s1, current := current s1\<rparr>"
      by (subst 1(10)) simp
    then show ?thesis
      using ok [OF take ci _ 1(2) new] li out slabs_apart(2) [OF assms(1) _ 1(3,4)] by (simp add: c'_def)
  next
    case (2 e)
    then show ?thesis using assms(2) fault by (simp add: slab_take_def)
  qed
qed

end
