(* ===== verification/Slab_Alloc.thy ===== *)
theory Slab_Alloc
  imports Slab_Correct
begin

text \<open>
  \<^verbatim>\<open>slab_cache_alloc\<close>: the object it returns was not in use, is in use afterwards, and no object in
  use changes.
\<close>

section \<open>Allocating an object\<close>

lemma same_objects [simp]:
  "live m (c\<lparr>sc_lock := l\<rparr>) = live m c" "obj_region (c\<lparr>sc_lock := l\<rparr>) = obj_region c"
  "live m (c\<lparr>sc_empty := e\<rparr>) = live m c" "obj_region (c\<lparr>sc_empty := e\<rparr>) = obj_region c"
  "live m (c\<lparr>sc_first := p\<rparr>) = live m c" "obj_region (c\<lparr>sc_first := p\<rparr>) = obj_region c"
  by (simp_all add: live_def obj_region_def fun_eq_iff)

lemma cache_inv_cong:
  assumes "mem s = mem t" "allocators s = allocators t" "pmm_lock s = pmm_lock t"
    "ptmem s = ptmem t" "cr3 s = cr3 t" "current s = current t"
  shows "cache_inv s vms c js G = cache_inv t vms c js G" "pmm_frames s = pmm_frames t"
    "pmm_storage s = pmm_storage t" "vs_inv s vms = vs_inv t vms" "vs_slabs s vms = vs_slabs t vms"
proof -
  note c = vm_core_cong [OF assms(1-5)] and p = pmm_cong [OF assms(1-3)] and v = vm_cong [OF assms(4,5)]
  show st: "pmm_storage s = pmm_storage t" by (simp add: pmm_storage_def assms(2))
  show pf: "pmm_frames s = pmm_frames t" by (rule p(2))
  show vi: "vs_inv s vms = vs_inv t vms" by (simp add: vs_inv_def vm_inv_cong [OF assms] c(2) st assms(1))
  show vs: "vs_slabs s vms = vs_slabs t vms" by (simp add: vs_slabs_def vi st)
  show "cache_inv s vms c js G = cache_inv t vms c js G"
    by (simp add: cache_inv_def vs assms(1) backed_def c(2) p(2) v(2) pmm_managed_cong [OF assms(2)])
qed

lemma held_fields [simp]:
  "mem (held_state s) = mem s" "allocators (held_state s) = allocators s" "pmm_lock (held_state s) = pmm_lock s"
  "ptmem (held_state s) = ptmem s" "cr3 (held_state s) = cr3 s" "current (held_state s) = current s"
  for s :: "'a vmm_scheme"
  by (simp_all add: disable_interrupts_def)

lemma slab_inv_lock [simp]: "slab_inv m (c\<lparr>sc_lock := l\<rparr>) fs = slab_inv m c fs"
  by (simp add: slab_inv_def)

lemma cache_inv_lock [simp]: "cache_inv s vms (c\<lparr>sc_lock := l\<rparr>) js G = cache_inv s vms c js G"
  by (simp add: cache_inv_def)

text \<open>Writes into an object of a slab keep the invariant.\<close>

lemma cache_inv_obj_write:
  assumes "cache_inv s vms c js G" "f \<in> set (feet vms js)" "k < obj_num c"
    "same_outside (obj_region c f k) (mem s) m"
  shows "cache_inv (s\<lparr>mem := m\<rparr>) vms c js G" "live m c (feet vms js) = live (mem s) c (feet vms js)"
proof -
  note inv = cache_invD [OF assms(1)] and sl = slab_invD [OF cache_invD(3) [OF assms(1)]]
  note at = sl(5) [OF assms(2)]
  note op = obj_parts [OF at sl(1) assms(3)]
  have other: "obj_region c f k \<inter> region g 4 = {}" "obj_region c f k \<inter> bm_region c g = {}"
    if g: "g \<in> set (feet vms js)" for g
  proof -
    note gp = slab_parts [OF sl(5) [OF g] sl(1)]
    show "obj_region c f k \<inter> region g 4 = {}" "obj_region c f k \<inter> bm_region c g = {}"
      using op gp slab_regions_disjoint [OF at sl(5) [OF g]] by (cases "f = g"; blast)+
  qed
  have u: "g \<in> set (feet vms js) \<Longrightarrow> used m c g = used (mem s) c g" for g
    by (rule used_frame [OF assms(4) other(2)])
  then show "live m c (feet vms js) = live (mem s) c (feet vms js)" by (auto simp: live_def)
  have "chain m (sc_first c) (feet vms js)"
    using chain_frame [OF assms(4)] other(1) sl(3) by (metis Int_commute)
  then have "slab_inv m c (feet vms js)"
    using inv(3) u unfolding slab_inv_def by (simp cong: ball_cong bex_cong)
  moreover have "obj_region c f k \<inter> (buddy_storage (vs_allocator vms) \<union> pmm_storage s) = {}"
    using op(1) slabs_apart(1) [OF assms(1,2)] by blast
  note k = vs_inv_data [OF inv(2) assms(4) this]
  moreover have "vs_slabs (s\<lparr>mem := m\<rparr>) vms" using inv(1) k(1) by (simp add: vs_slabs_def pmm_storage_def)
  ultimately show "cache_inv (s\<lparr>mem := m\<rparr>) vms c js G"
    using assms(1) by (simp add: cache_inv_def)
qed

text \<open>
  The result of taking an object, whichever way it is found. The objects in use keep their
  contents, and so does everything outside the slabs and the allocators' bitmaps.
\<close>

definition took :: "'a vmm_scheme \<Rightarrow> vmspace \<Rightarrow> slab_cache \<Rightarrow> nat list \<Rightarrow> u32 \<Rightarrow> nat \<Rightarrow> slab_cache \<Rightarrow> vmspace \<Rightarrow>
    'a vmm_scheme \<Rightarrow> nat list \<Rightarrow> (nat \<Rightarrow> nat) \<Rightarrow> bool" where
  "took s vms c js f k c' vms' s' js' G' \<longleftrightarrow>
     cache_inv s' vms' c' js' G' \<and> vs_allocator vms' = vs_allocator vms \<and>
     sc_size c' = sc_size c \<and> sc_init c' = sc_init c \<and> set js \<subseteq> set js' \<and>
     f \<in> set (feet vms js') \<and> k < obj_num c \<and> (f, k) \<notin> live (mem s) c (feet vms js) \<and>
     live (mem s') c (feet vms js') = insert (f, k) (live (mem s) c (feet vms js)) \<and>
     (\<forall>g k'. (g, k') \<in> live (mem s) c (feet vms js) \<longrightarrow> (\<forall>a \<in> obj_region c g k'. mem s' a = mem s a)) \<and>
     same_outside (vs_area vms \<union> buddy_storage (vs_allocator vms) \<union> pmm_storage s) (mem s) (mem s')"

lemma live_obj:
  assumes "cache_inv s vms c js G" "(g, k) \<in> live (mem s) c (feet vms js)"
  shows "g \<in> set (feet vms js)" "k < obj_num c" "slab_at g"
  using assms(2) slab_invD(5,6) [OF cache_invD(3) [OF assms(1)]] by (auto simp: live_def)

lemma slab_in_area: "cache_inv s vms c js G \<Longrightarrow> f \<in> set (feet vms js) \<Longrightarrow> slab_region f \<subseteq> vs_area vms"
  using slab_foot_props(4) [OF cache_invD(1) cache_invD(4)] by (metis (no_types, lifting) imageE list.set_map)

lemma slab_take_spec:
  assumes "cache_inv s vms c js G" "pmm_frames s \<subseteq> {..<1048576}"
  obtains (ok) f k c' vms' s' js' G' where "slab_take s vms c = Inr (slab_obj c f k, c', vms', s')"
      "took s vms c js f k c' vms' s' js' G'" "sc_lock c' = sc_lock c" "eflags s' = eflags s"
      "s' = s\<lparr>mem := mem s', ptmem := ptmem s', pmm_lock := pmm_lock s', current := current s'\<rparr>"
      "sc_empty c \<noteq> 0 \<Longrightarrow> js' = js \<and> vms' = vms"
    | (fault) e where "slab_take s vms c = Inl e" "sc_empty c = 0" "\<not> slab_room s vms"
proof (cases "sc_empty c = 0")
  case False
  note inv = cache_invD [OF assms(1)]
  from slab_take_empty [OF inv(3) False] obtain f k e m where
    t: "slab_take s vms c = Inr (slab_obj c f k, c\<lparr>sc_empty := e\<rparr>, vms, s\<lparr>mem := m\<rparr>)"
    "f \<in> set (feet vms js)" "k < obj_num c" "k \<notin> used (mem s) c f" "same_outside (bm_region c f) (mem s) m"
    "live m c (feet vms js) = insert (f, k) (live (mem s) c (feet vms js))" "slab_inv m (c\<lparr>sc_empty := e\<rparr>) (feet vms js)"
    by metis
  note sl = slab_invD [OF inv(3)]
  note parts = slab_parts [OF sl(5) [OF t(2)] sl(1)]
  have "bm_region c f \<inter> (buddy_storage (vs_allocator vms) \<union> pmm_storage s) = {}"
    using parts(2) slabs_apart(1) [OF assms(1) t(2)] by blast
  note k = vs_inv_data [OF inv(2) t(5) this]
  have "cache_inv (s\<lparr>mem := m\<rparr>) vms (c\<lparr>sc_empty := e\<rparr>) js G"
    using assms(1) t(7) k inv(1) by (simp add: cache_inv_def vs_slabs_def pmm_storage_def)
  moreover have "m a = mem s a" if "(g, k') \<in> live (mem s) c (feet vms js)" "a \<in> obj_region c g k'" for g k' a
  proof -
    note g = live_obj [OF assms(1) that(1)]
    have "obj_region c g k' \<inter> bm_region c f = {}"
      using obj_parts(1,2) [OF g(3) sl(1) g(2)] slab_regions_disjoint [OF g(3) sl(5) [OF t(2)]] parts(2)
      by (cases "g = f") blast+
    then show ?thesis using t(5) that(2) by (auto simp: same_outside_def)
  qed
  moreover have "same_outside (vs_area vms \<union> buddy_storage (vs_allocator vms) \<union> pmm_storage s) (mem s) m"
    using slab_in_area [OF assms(1) t(2)] parts(2) by (intro same_outside_mono [OF t(5)]) blast
  ultimately have "took s vms c js f k (c\<lparr>sc_empty := e\<rparr>) vms (s\<lparr>mem := m\<rparr>) js G"
    using t(2,3,4,6) by (auto simp: took_def live_def)
  with ok [OF t(1)] show ?thesis by simp
next
  case True
  note sl = slab_invD [OF cache_invD(3) [OF assms(1)]]
  show ?thesis
  proof (cases rule: slab_take_new [OF assms(1) True assms(2)])
    case (1 j c' vms' s' G')
    let ?g = "slab_foot vms j"
    have fits: "0 < obj_num c" using sl(1) by (simp add: slab_fits_def)
    have eq: "sc_size c' = sc_size c" "sc_init c' = sc_init c" "sc_lock c' = sc_lock c" by (subst 1(3), simp)+
    have area: "slab_region ?g \<subseteq> vs_area vms"
      using slab_in_area [OF 1(2), of ?g] feet_cong [OF 1(4)] by (simp add: vs_area_def 1(4))
    have "mem s' a = mem s a" if "(g, k') \<in> live (mem s) c (feet vms js)" "a \<in> obj_region c g k'" for g k' a
    proof -
      note g = live_obj [OF assms(1) that(1)]
      have "a \<notin> buddy_storage (vs_allocator vms) \<union> pmm_storage s \<union> slab_region ?g"
        using obj_parts(1) [OF g(3) sl(1) g(2)] that(2) slabs_apart(1) [OF assms(1) g(1)] 1(9) [OF g(1)] by blast
      then show ?thesis by (rule same_outsideD [OF 1(7)])
    qed
    moreover have "same_outside (vs_area vms \<union> buddy_storage (vs_allocator vms) \<union> pmm_storage s) (mem s) (mem s')"
      using area by (intro same_outside_mono [OF 1(7)]) blast
    moreover have "(?g, 0) \<notin> live (mem s) c (feet vms js)" using 1(5) by (auto simp: live_def)
    ultimately have "took s vms c js ?g 0 c' vms' s' (j # js) G'"
      using 1(2,4,6) eq(1,2) fits by (auto simp: took_def)
    moreover have "eflags s' = eflags s" by (subst 1(8)) simp
    ultimately show ?thesis using ok [OF 1(1)] eq(3) 1(8) True by simp
  next
    case (2 e)
    then show ?thesis using fault True by blast
  qed
qed

text \<open>
  \<^verbatim>\<open>slab_cache_alloc\<close> as a whole. \<^verbatim>\<open>init\<close>, if there is one, lies outside the range and the bitmaps.
\<close>

lemma took_written:
  assumes "cache_inv s vms c js G" "took s vms c js f k c' vms' s' js' G'" "same_outside (obj_region c f k) (mem s') m"
  shows "obj_region c f k \<subseteq> vs_area vms"
    "took s vms c js f k (c'\<lparr>sc_lock := l\<rparr>) vms' (s'\<lparr>mem := m, eflags := e\<rparr>) js' G'"
proof -
  note tk = assms(2) [unfolded took_def]
  have same: "obj_num c' = obj_num c" "slab_obj c' = slab_obj c" "obj_region c' = obj_region c" "live m c' = live m c" for m
    using tk by (simp_all add: obj_num_def slab_obj_def obj_region_def live_def used_def slab_bm_def fun_eq_iff)
  have ft: "feet vms' = feet vms" using tk feet_cong by metis
  have f: "f \<in> set (feet vms' js')" "k < obj_num c'" and ci: "cache_inv s' vms' c' js' G'" using tk ft same by simp_all
  have at: "slab_at f" and fits: "slab_fits c"
    using slab_invD(5) [OF cache_invD(3) [OF ci] f(1)] slab_invD(1) [OF cache_invD(3) [OF assms(1)]] by simp_all
  have "slab_region f \<subseteq> vs_area vms" using slab_in_area [OF ci f(1)] tk by (simp add: vs_area_def)
  then show area: "obj_region c f k \<subseteq> vs_area vms" using obj_parts(1) [OF at fits] f(2) same(1) by auto
  let ?s = "s'\<lparr>mem := m, eflags := e\<rparr>"
  have ci': "cache_inv ?s vms' (c'\<lparr>sc_lock := l\<rparr>) js' G'" "live m c (feet vms js') = insert (f, k) (live (mem s) c (feet vms js))"
    using cache_inv_obj_write [OF ci f, of m, unfolded same ft, OF assms(3)] cache_inv_cong(1) [of ?s "s'\<lparr>mem := m\<rparr>"] tk by simp_all
  have keep: "m a = mem s a" if "(g, k') \<in> live (mem s) c (feet vms js)" "a \<in> obj_region c g k'" for g k' a
  proof -
    note g = live_obj [OF assms(1) that(1)]
    have "(g, k') \<noteq> (f, k)" using that(1) tk by auto
    then have "obj_region c g k' \<inter> obj_region c f k = {}"
      using obj_parts(1,4) [OF g(3) fits g(2)] obj_parts(1) [OF at fits] f(2) same(1)
        slab_regions_disjoint [OF g(3) at] by (cases "g = f") (auto, blast)
    then have "m a = mem s' a" using assms(3) that(2) by (auto simp: same_outside_def)
    then show ?thesis using tk that by auto
  qed
  have out: "same_outside (vs_area vms \<union> buddy_storage (vs_allocator vms) \<union> pmm_storage s) (mem s) m"
    using tk assms(3) area by (auto simp: same_outside_def)
  show "took s vms c js f k (c'\<lparr>sc_lock := l\<rparr>) vms' ?s js' G'" using tk ci' keep out by (auto simp: took_def)
qed

lemma slab_cache_alloc_spec:
  assumes "cache_inv s vms c js G" "unlocked (sc_lock c)" "pmm_frames s \<subseteq> {..<1048576}"
    "sc_init c = 0 \<or> region (sc_init c) (unat (sc_size c)) \<inter>
      (vs_area vms \<union> buddy_storage (vs_allocator vms) \<union> pmm_storage s) = {}"
  obtains (ok) f k c' vms' s' js' G' where "slab_cache_alloc s vms c = Inr (slab_obj c f k, c', vms', s')"
      "took s vms c js f k c' vms' s' js' G'" "unlocked (sc_lock c')" "eflags s' = eflags s"
      "sc_init c \<noteq> 0 \<Longrightarrow> \<forall>i < unat (sc_size c). mem s' (slab_obj c f k + of_nat i) = mem s (sc_init c + of_nat i)"
      "s' = s\<lparr>mem := mem s', ptmem := ptmem s', pmm_lock := pmm_lock s', current := current s'\<rparr>"
    | (fault) e where "slab_cache_alloc s vms c = Inl e" "sc_empty c = 0" "\<not> slab_room s vms"
proof -
  let ?s1 = "held_state s" and ?c1 = "c\<lparr>sc_lock := held_lock s (sc_lock c)\<rparr>"
  note cc = cache_inv_cong [of ?s1 s, simplified]
  have ci: "cache_inv ?s1 vms ?c1 js G" using assms(1) cc(1) by simp
  have pf: "pmm_frames ?s1 \<subseteq> {..<1048576}" using assms(3) cc(2) by simp
  show ?thesis
  proof (cases rule: slab_take_spec [OF ci pf])
    case (2 e)
    moreover have "slab_room ?s1 vms = slab_room s vms"
      by (simp add: slab_room_def enough_cong [of ?s1 s, simplified])
    ultimately show ?thesis using fault assms(2) by (simp add: slab_cache_alloc_def Let_def)
  next
    case (1 f k c2 vms2 s2 js2 G2)
    let ?o = "slab_obj c f k" and ?n = "unat (sc_size c)"
    have tk: "took s vms c js f k c2 vms2 s2 js2 G2" using 1(2) cc(3) by (simp add: took_def)
    then have c2: "sc_init c2 = sc_init c" "sc_size c2 = sc_size c"
      and out: "same_outside (vs_area vms \<union> buddy_storage (vs_allocator vms) \<union> pmm_storage s) (mem s) (mem s2)"
      by (simp_all add: took_def)
    define m3 where "m3 = (if sc_init c \<noteq> 0 then memcpy (mem s2) ?o (sc_init c) ?n else mem s2)"
    let ?s4 = "s2\<lparr>mem := m3, eflags := eflags s\<rparr>" and ?c4 = "c2\<lparr>sc_lock := left_lock s (sc_lock c)\<rparr>"
    have rel: "spinlock_release (s2\<lparr>mem := m3\<rparr>) (held_lock s (sc_lock c)) = Inr (?s4, left_lock s (sc_lock c))"
      using spinlock_release_restores [of "s2\<lparr>mem := m3\<rparr>" s] 1(4) by simp
    have "(if sc_init c2 \<noteq> 0 then s2\<lparr>mem := memcpy (mem s2) ?o (sc_init c2) (unat (sc_size c2))\<rparr> else s2) = s2\<lparr>mem := m3\<rparr>"
      by (simp add: c2 m3_def)
    then have run: "slab_cache_alloc s vms c = Inr (?o, ?c4, vms2, ?s4)"
      using 1(1,3) rel assms(2) by (simp add: slab_cache_alloc_def Let_def)
    have w: "same_outside (obj_region c f k) (mem s2) m3"
      by (simp add: m3_def obj_region_def same_outside_def memcpy_outside)
    note written = took_written [OF assms(1) tk w]
    have "mem ?s4 (?o + of_nat i) = mem s (sc_init c + of_nat i)" if "sc_init c \<noteq> 0" "i < ?n" for i
    proof -
      let ?R = "region (sc_init c) ?n"
      have R: "?R \<inter> (vs_area vms \<union> buddy_storage (vs_allocator vms) \<union> pmm_storage s) = {}" using assms(4) that(1) by simp
      have "region ?o ?n \<inter> ?R = {}" using R written(1) unfolding obj_region_def by blast
      then have "m3 (?o + of_nat i) = mem s2 (sc_init c + of_nat i)"
        using that unat_u32_less [of "sc_size c"] by (simp add: m3_def memcpy_disjoint)
      moreover have "sc_init c + of_nat i \<in> ?R" using that(2) by (rule region_memI)
      ultimately show ?thesis using out R by (auto simp: same_outside_def)
    qed
    moreover have "?s4 = s\<lparr>mem := m3, ptmem := ptmem s2, pmm_lock := pmm_lock s2, current := current s2\<rparr>"
      by (subst 1(5)) (simp add: disable_interrupts_def)
    ultimately show ?thesis using ok [OF run written(2)] by simp
  qed
qed

end
