(* ===== verification/Slab_Free.thy ===== *)
theory Slab_Free
  imports Slab_Alloc
begin

text \<open>
  \<^verbatim>\<open>slab_cache_free\<close>: the object is no longer in use, an empty slab at the end of the list is unlinked
  and its pages go back to the vmspace, and no object in use changes.
\<close>

section \<open>Giving an object back\<close>

lemma chain_end: "chain m p (xs @ f # ys) \<Longrightarrow> slab_next m f = 0 \<Longrightarrow> ys = []"
  using chain_suffix [of m p xs f ys] by (cases ys) auto

lemma slab_before_spec:
  "chain m p (xs @ [f]) \<Longrightarrow> distinct (xs @ [f]) \<Longrightarrow> xs \<noteq> [] \<Longrightarrow> slab_before m p f = Some (Inr (last xs))"
proof (induction xs arbitrary: p)
  case (Cons g xs)
  show ?case
  proof (cases xs)
    case Nil
    then show ?thesis using Cons.prems by (subst slab_before.simps) simp
  next
    case (Cons h ys)
    then have "slab_next m g = h" "h \<noteq> f" "g \<noteq> 0" "p = g" using Cons.prems by auto
    then have "slab_before m p f = slab_before m (slab_next m g) f" by (subst slab_before.simps) simp
    then show ?thesis using Cons.IH [of "slab_next m g"] Cons.prems Cons by simp
  qed
qed simp

lemma chain_cut:
  assumes "chain m p (xs @ [f])" "xs \<noteq> []" "distinct xs"
    "\<And>g h. g \<in> set xs \<Longrightarrow> h \<in> set xs \<Longrightarrow> g \<noteq> h \<Longrightarrow> region g 4 \<inter> region h 4 = {}"
  shows "chain (store32 m (last xs) 0) p xs"
  using assms
proof (induction xs arbitrary: p)
  case (Cons g xs)
  show ?case
  proof (cases xs)
    case Nil
    then show ?thesis using Cons.prems by (simp add: slab_next_def)
  next
    case (Cons h ys)
    then have l: "last xs \<in> set xs" "g \<noteq> last xs" using Cons.prems(3) by auto
    then have "region g 4 \<inter> region (last xs) 4 = {}" using Cons.prems(4) by simp
    then have "slab_next (store32 m (last xs) 0) g = slab_next m g"
      unfolding slab_next_def by (rule load32_frame [OF store32_same_outside])
    then show ?thesis using Cons.IH [of "slab_next m g"] Cons.prems Cons by auto
  qed
qed simp

text \<open>The cache after the object is marked unused, before a slab is given up.\<close>

lemma mark_unused_inv:
  assumes "cache_inv s vms c js G" "(f, k) \<in> live (mem s) c (feet vms js)"
  defines "m \<equiv> mark_unused (mem s) c f (slab_obj c f k)"
    and "c' \<equiv> (if sc_empty c = 0 \<or> sc_empty c > slab_obj c f k then c\<lparr>sc_empty := slab_obj c f k\<rparr> else c)"
  shows "cache_inv (s\<lparr>mem := m\<rparr>) vms c' js G" "live m c (feet vms js) = live (mem s) c (feet vms js) - {(f, k)}"
    "same_outside (bm_region c f) (mem s) m"
proof -
  note inv = cache_invD [OF assms(1)] and sl = slab_invD [OF cache_invD(3) [OF assms(1)]]
  note fk = live_obj [OF assms(1,2)]
  note mk = mark_unused_spec [OF fk(3) sl(2) fk(2), of "mem s", folded m_def]
  show w: "same_outside (bm_region c f) (mem s) m" by (rule mk(2))
  have other: "g \<in> set (feet vms js) \<Longrightarrow> g \<noteq> f \<Longrightarrow> used m c g = used (mem s) c g" for g
    using bitmap_write(1) [OF sl(1) fk(3) sl(5) w] by metis
  then have sub: "g \<in> set (feet vms js) \<Longrightarrow> used m c g \<subseteq> used (mem s) c g" for g
    using mk(1) by (cases "g = f") auto
  show "live m c (feet vms js) = live (mem s) c (feet vms js) - {(f, k)}"
    using mk(1) other by (auto simp: live_def)
  have ch: "chain m (sc_first c) (feet vms js)"
    using chain_frame [OF w] bitmap_write(2) [OF sl(1) fk(3) sl(5) w] sl(3) by blast
  have c': "slab_fits c' = slab_fits c" "sc_first c' = sc_first c" "obj_num c' = obj_num c"
      "slab_obj c' = slab_obj c" "used m c' = used m c" by (simp_all add: c'_def)
  have "\<exists>g \<in> set (feet vms js). \<exists>k < obj_num c. sc_empty c' = slab_obj c g k \<and> k \<notin> used m c g"
  proof (cases "sc_empty c = 0 \<or> sc_empty c > slab_obj c f k")
    case True
    then show ?thesis using fk(1,2) mk(1) unfolding c'_def by (intro bexI [of _ f] exI [of _ k]) simp_all
  next
    case False
    then show ?thesis using inv(3) sub unfolding slab_inv_def c'_def by (auto dest: subsetD)
  qed
  moreover have "used m c g \<subseteq> {..<obj_num c}" if "g \<in> set (feet vms js)" for g
    using sub [OF that] sl(6) [OF that] by (rule subset_trans)
  ultimately have "slab_inv m c' (feet vms js)"
    using sl ch unfolding slab_inv_def c' by blast
  moreover have "bm_region c f \<inter> (buddy_storage (vs_allocator vms) \<union> pmm_storage s) = {}"
    using slab_parts(2) [OF fk(3) sl(1)] slabs_apart(1) [OF assms(1) fk(1)] by blast
  note k = vs_inv_data [OF inv(2) w this]
  ultimately show "cache_inv (s\<lparr>mem := m\<rparr>) vms c' js G"
    using assms(1) inv(1) k by (simp add: cache_inv_def vs_slabs_def pmm_storage_def)
qed

lemma backed_unshift:
  assumes "vpn v' = vpn v + d" "backed s v G K" "(+) d ` K' \<subseteq> K"
  shows "backed s v' (\<lambda>k. G (d + k)) K'"
  unfolding backed_def
proof (intro conjI ballI)
  have "inj_on G K" using assms(2) by (simp add: backed_def)
  then have "inj_on G ((+) d ` K')" by (rule inj_on_subset [OF _ assms(3)])
  then show "inj_on (\<lambda>k. G (d + k)) K'" by (auto simp: inj_on_def)
  fix k assume "k \<in> K'"
  then have k: "d + k \<in> K" using assms(3) by blast
  show "G (d + k) \<in> pmm_managed s" "G (d + k) \<notin> pmm_frames s" "G (d + k) \<notin> table_frames s"
    "\<exists>e. space s (vpn v' + k) = Some e \<and> frame e = G (d + k)"
    using k assms(1,2) by (auto simp: backed_def add.assoc)
qed

text \<open>Giving up the pages of one slab.\<close>

lemma destroy_spec:
  assumes "vs_slabs s vms" "(j + 1) * 2 \<le> buddy_pages (vs_allocator vms)" "blk 1 j \<inter> vs_free s vms = {}"
    "backed s (vs_addr0 vms) G (slab_pages (js @ [j]))" "j \<notin> set js"
  obtains vms' s' where "destroy s vms (slab_foot vms j) = Inr (vms', s')" "vs_slabs s' vms'"
    "vs_allocator vms' = vs_allocator vms" "vs_free s' vms' = vs_free s vms \<union> blk 1 j"
    "backed s' (vs_addr0 vms) G (slab_pages js)" "vs_step s vms s'"
    "pmm_frames s' = pmm_frames s \<union> G ` blk 1 j"
proof -
  let ?v = "ucast (page_addr (vs_allocator vms) (j * 2)) :: u32"
  note ft = slab_foot_props [OF assms(1,2)] and vb = vpn_block [OF assms(1,2)] and v0 = vpn_vs_addr0 [OF assms(1)]
  have vi: "vs_inv s vms" using assms(1) by (simp add: vs_slabs_def)
  have i1: "1 \<le> top_order" "unat SLAB_SIZE = 2 * 4096" by (simp_all add: top_order_def SLAB_SIZE_def)
  have "(+) (j * 2) ` {..<2} \<subseteq> slab_pages (js @ [j])" using blk_image [of 1 j] by (auto simp: slab_pages_def)
  from backed_unshift [OF vb assms(4) this] have bk: "backed s ?v (\<lambda>k. G (j * 2 + k)) {..<2}" .
  have img: "(\<lambda>k. G (j * 2 + k)) ` {..<2} = G ` blk 1 j" by (simp add: blk_image image_image)
  from vmspace_free_spec [OF vi log2_slab i1, of j 1 "\<lambda>k. G (j * 2 + k)"] assms(2,3) bk
  obtain vms' s' where r: "vmspace_free s vms SLAB_SIZE ?v 1 = Inr (vms', s')" "vs_inv s' vms'"
    "vs_allocator vms' = vs_allocator vms" "vs_free s' vms' = vs_free s vms \<union> blk 1 j"
    "pmm_frames s' = pmm_frames s \<union> G ` blk 1 j" "table_frames s' = table_frames s"
    "space s' = (\<lambda>m. if m \<in> (+) (vs_base vms) ` blk 1 j then None else space s m)" "vs_step s vms s'"
    unfolding img by auto
  have blkdj: "blk 1 i \<inter> blk 1 j = {}" if "i \<in> set js" for i
    using that assms(5) by (auto simp: blk_def)
  have dj: "slab_pages js \<inter> blk 1 j = {}" using blkdj by (auto simp: slab_pages_def)
  have sub: "slab_pages js \<subseteq> slab_pages (js @ [j])" "blk 1 j \<subseteq> slab_pages (js @ [j])" by (auto simp: slab_pages_def)
  have inj: "inj_on G (slab_pages (js @ [j]))" using assms(4) by (simp add: backed_def)
  have old: "backed s (vs_addr0 vms) G (slab_pages js)"
    using assms(4) inj_on_subset [OF inj sub(1)] sub(1) by (auto simp: backed_def)
  have "backed s' (vs_addr0 vms) G (slab_pages js)"
  proof (rule backed_keep [OF old])
    fix k assume "k \<in> slab_pages js"
    then show "space s' (vpn (vs_addr0 vms) + k) = space s (vpn (vs_addr0 vms) + k)"
    proof -
      assume "k \<in> slab_pages js"
      then have "k \<notin> blk 1 j" using dj by blast
      then have "vs_base vms + k \<notin> (+) (vs_base vms) ` blk 1 j" by (simp add: image_iff)
      then show ?thesis unfolding r(7) v0 by (rule if_not_P)
    qed
  next
    have "G ` slab_pages js \<inter> G ` blk 1 j = {}" using inj_on_image_Int [OF inj sub] dj by simp
    then show "pmm_frames s' \<inter> G ` slab_pages js = {}" using backed_frames [OF old] unfolding r(5) by (simp add: Int_Un_distrib Int_Un_distrib2 Int_commute)
  qed (use r(6) pmm_managed_cong [OF vs_stepD(2) [OF r(8)]] in auto)
  moreover have "vs_slabs s' vms'"
    using assms(1) r(2) vs_stepD(4) [OF r(8)] by (simp add: vs_slabs_def vs_area_def r(3))
  ultimately show ?thesis using that r(1,3,4,5,8) ft(2) by (simp add: destroy_def)
qed

text \<open>The last slab is taken out of the list: only a link is written, and no bitmap changes.\<close>

lemma slab_unlink_last:
  fixes s :: "'a vmm_scheme" and f :: u32
  assumes "slab_inv (mem s) c (xs @ [f])"
  obtains m1 c1 where
    "(if sc_first c = f then Inr (c\<lparr>sc_first := 0\<rparr>, s)
      else bind_res (or_hang (slab_before (mem s) (sc_first c) f)) (\<lambda>p. Inr (c, s\<lparr>mem := store32 (mem s) p 0\<rparr>))) =
      Inr (c1, s\<lparr>mem := m1\<rparr>)"
    "chain m1 (sc_first c1) xs" "same_outside (\<Union>g \<in> set xs. region g 4) (mem s) m1"
    "\<forall>g \<in> set (xs @ [f]). used m1 c g = used (mem s) c g" "c1 = c\<lparr>sc_first := sc_first c1\<rparr>"
proof (cases "xs = []")
  case True
  then show ?thesis using slab_invD(3) [OF assms] by (intro that [of "c\<lparr>sc_first := 0\<rparr>" "mem s"]) simp_all
next
  case False
  note sl = slab_invD [OF assms]
  let ?L = "\<Union>g \<in> set xs. region g 4"
  let ?m1 = "store32 (mem s) (last xs) 0"
  have at: "slab_at g" if "g \<in> set xs" for g using sl(5) that by auto
  have links: "region g 4 \<inter> region h 4 = {}" if "g \<in> set xs" "h \<in> set xs" "g \<noteq> h" for g h
    using slab_parts(1) [OF at [OF that(1)] sl(1)] slab_parts(1) [OF at [OF that(2)] sl(1)]
      slab_regions_disjoint [OF at [OF that(1)] at [OF that(2)] that(3)] by blast
  have "region (last xs) 4 \<subseteq> ?L" using last_in_set [OF False] by blast
  then have w: "same_outside ?L (mem s) ?m1" by (rule same_outside_mono [OF store32_same_outside])
  have "sc_first c \<noteq> f" using sl(3,4) False by (cases xs) auto
  moreover have "slab_before (mem s) (sc_first c) f = Some (Inr (last xs))"
    using sl(3,4) False by (intro slab_before_spec) simp_all
  moreover have "chain ?m1 (sc_first c) xs" using sl(3,4) links False by (intro chain_cut) auto
  moreover have "used ?m1 c g = used (mem s) c g" if g: "g \<in> set (xs @ [f])" for g
  proof (rule used_frame [OF w])
    have ag: "slab_at g" using sl(5) g by auto
    have "region h 4 \<inter> bm_region c g = {}" if "h \<in> set xs" for h
      using slab_parts [OF ag sl(1)] slab_parts(1) [OF at [OF that] sl(1)] slab_regions_disjoint [OF ag at [OF that]]
      by (cases "g = h") blast+
    then show "?L \<inter> bm_region c g = {}" by blast
  qed
  ultimately show ?thesis using w by (intro that [of c ?m1] ballI) (simp_all add: or_hang_def)
qed

text \<open>A cache without its last slab, once its hint does not lead there.\<close>

lemma slab_inv_drop:
  fixes f :: u32
  assumes inv: "slab_inv m c (xs @ [f])" and "chain m' (sc_first c1) xs" "\<And>g. g \<in> set xs \<Longrightarrow> used m' c g = used m c g"
    and c1: "c1 = c\<lparr>sc_first := sc_first c1\<rparr>"
  shows "slab_inv m' (if FOOTER_FOR_PTR (sc_empty c1) = f then c1\<lparr>sc_empty := 0\<rparr> else c1) xs"
proof -
  let ?c2 = "if FOOTER_FOR_PTR (sc_empty c1) = f then c1\<lparr>sc_empty := 0\<rparr> else c1"
  note sl = slab_invD [OF inv]
  have c2: "slab_fits ?c2 = slab_fits c" "obj_num ?c2 = obj_num c" "slab_obj ?c2 = slab_obj c" "used m ?c2 = used m c"
      "sc_first ?c2 = sc_first c1" for m
    by (simp_all, (subst c1, simp)+)
  have ec: "sc_empty c1 = sc_empty c" by (subst c1) simp
  have "sc_empty ?c2 = 0 \<or> (\<exists>g \<in> set xs. \<exists>k < obj_num c. sc_empty ?c2 = slab_obj c g k \<and> k \<notin> used m' c g)"
  proof (cases "sc_empty ?c2 = 0")
    case False
    then have e: "sc_empty ?c2 = sc_empty c" "FOOTER_FOR_PTR (sc_empty c) \<noteq> f" by (auto simp: ec split: if_splits)
    then obtain g k where g: "g \<in> set (xs @ [f])" "k < obj_num c" "sc_empty c = slab_obj c g k" "k \<notin> used m c g"
      using inv False unfolding slab_inv_def by auto
    have "FOOTER_FOR_PTR (sc_empty c) = g" using slab_obj_props(3) [OF sl(5) [OF g(1)] sl(2) g(2)] g(3) by simp
    then have gx: "g \<in> set xs" using g(1) e(2) by auto
    with assms(3) [OF gx] g e(1) show ?thesis by auto
  qed simp
  then show ?thesis using sl(1,4,5,6) assms(2,3) unfolding slab_inv_def c2 by auto
qed

text \<open>Unlinking and giving up the last slab of the list, when nothing in it is in use.\<close>

lemma slab_drop_spec:
  assumes "cache_inv s vms c (js @ [j]) G" "used (mem s) c (slab_foot vms j) = {}"
  obtains c' vms' s' where "slab_drop s vms c (slab_foot vms j) = Inr (c', vms', s')"
    "cache_inv s' vms' c' js G" "vs_allocator vms' = vs_allocator vms"
    "live (mem s') c (feet vms js) = live (mem s) c (feet vms (js @ [j]))"
    "c' = c\<lparr>sc_first := sc_first c', sc_empty := sc_empty c'\<rparr>"
    "s' = s\<lparr>mem := mem s', ptmem := ptmem s', pmm_lock := pmm_lock s', current := current s'\<rparr>"
    "same_outside ((\<Union>g \<in> set (feet vms js). region g 4) \<union> buddy_storage (vs_allocator vms) \<union> pmm_storage s) (mem s) (mem s')"
proof -
  let ?f = "slab_foot vms j" and ?xs = "feet vms js"
  let ?L = "\<Union>g \<in> set ?xs. region g 4" and ?B = "buddy_storage (vs_allocator vms) \<union> pmm_storage s"
  note inv = cache_invD [OF assms(1)] and sl = slab_invD [OF cache_invD(3) [OF assms(1)]]
  have at: "slab_at g" if "g \<in> set ?xs" for g using sl(5) that by auto
  have si0: "slab_inv (mem s) c (?xs @ [?f])" using inv(3) by simp
  obtain m1 c1 where un: "(if sc_first c = ?f then Inr (c\<lparr>sc_first := 0\<rparr>, s)
      else bind_res (or_hang (slab_before (mem s) (sc_first c) ?f)) (\<lambda>p. Inr (c, s\<lparr>mem := store32 (mem s) p 0\<rparr>))) =
      Inr (c1, s\<lparr>mem := m1\<rparr>)" and ch1: "chain m1 (sc_first c1) ?xs" and w: "same_outside ?L (mem s) m1"
    and used1: "\<forall>g \<in> set (?xs @ [?f]). used m1 c g = used (mem s) c g" and c1: "c1 = c\<lparr>sc_first := sc_first c1\<rparr>"
    by (rule slab_unlink_last [OF si0])
  have ap: "slab_region g \<inter> ?B = {}" if "g \<in> set ?xs" for g using slabs_apart(1) [OF assms(1), of g] that by auto
  have "region g 4 \<inter> ?B = {}" if "g \<in> set ?xs" for g using ap [OF that] slab_parts(1) [OF at [OF that] sl(1)] by auto
  then have area: "?L \<inter> ?B = {}" by blast
  let ?s1 = "s\<lparr>mem := m1\<rparr>"
  note k = vs_inv_data [OF inv(2) w area]
  have vs1: "vs_slabs ?s1 vms" using inv(1) k(1) by (simp add: vs_slabs_def pmm_storage_def)
  have bk1: "backed ?s1 (vs_addr0 vms) G (slab_pages (js @ [j]))" using inv(6) k(5) by simp
  have jn: "j \<in> set (js @ [j])" and jd: "j \<notin> set js" using sl(4) by auto
  have fr: "blk 1 j \<inter> vs_free ?s1 vms = {}" using k(2) inv(5) [OF jn] by simp
  obtain vms' s' where d: "destroy ?s1 vms ?f = Inr (vms', s')" "vs_slabs s' vms'"
    "vs_allocator vms' = vs_allocator vms" "vs_free s' vms' = vs_free ?s1 vms \<union> blk 1 j"
    "backed s' (vs_addr0 vms) G (slab_pages js)" "vs_step ?s1 vms s'"
    using destroy_spec [OF vs1 inv(4) [OF jn] fr bk1 jd] by metis
  have st1: "same_outside ?B m1 (mem s')" using vs_stepD(1) [OF d(6)] by (simp add: pmm_storage_def)
  note keep = slabs_keep [where fs = ?xs, OF sl(1) at st1 ap]
  have usd: "used (mem s') c g = used (mem s) c g" if "g \<in> set ?xs" for g using keep(2) [of g] used1 that by simp
  let ?c2 = "if FOOTER_FOR_PTR (sc_empty c1) = ?f then c1\<lparr>sc_empty := 0\<rparr> else c1"
  have si: "slab_inv (mem s') ?c2 ?xs" using keep(1) ch1 usd by (intro slab_inv_drop [OF si0 _ _ c1]) auto
  have "(i + 1) * 2 \<le> buddy_pages (vs_allocator vms) \<and> blk 1 i \<inter> vs_free s' vms' = {}" if "i \<in> set js" for i
  proof -
    have "blk 1 i \<inter> blk 1 j = {}" using that jd by (auto simp: blk_def)
    then show ?thesis using inv(4,5) [of i] that d(4) k(2) by auto
  qed
  then have "cache_inv s' vms' ?c2 js G" using d(2,3,5) si by (simp add: cache_inv_def feet_cong [OF d(3)])
  moreover have "live (mem s') c ?xs = live (mem s) c (feet vms (js @ [j]))" using usd assms(2) by (auto simp: live_def)
  moreover have "same_outside (?L \<union> buddy_storage (vs_allocator vms) \<union> pmm_storage s) (mem s) (mem s')"
    using w st1 by (simp add: same_outside_def)
  moreover have "s' = s\<lparr>mem := mem s', ptmem := ptmem s', pmm_lock := pmm_lock s', current := current s'\<rparr>"
    by (subst vs_stepD(5) [OF d(6)]) simp
  moreover have "?c2 = c\<lparr>sc_first := sc_first ?c2, sc_empty := sc_empty ?c2\<rparr>" 
  proof -
    obtain x where "c1 = c\<lparr>sc_first := x\<rparr>" using c1 by blast
    then show ?thesis by simp
  qed
  moreover have "slab_drop s vms c ?f = Inr (?c2, vms', s')" using d(1) unfolding slab_drop_def Let_def un by simp
  ultimately show ?thesis using that d(3) by blast
qed

text \<open>The parts of the slabs that hold no objects: links and bitmaps.\<close>

definition slab_meta :: "slab_cache \<Rightarrow> u32 list \<Rightarrow> u32 set" where
  "slab_meta c fs = (\<Union>g \<in> set fs. region g 4 \<union> bm_region c g)"

lemma obj_not_meta:
  assumes "cache_inv s vms c js G" "g \<in> set (feet vms js)" "k < obj_num c"
  shows "obj_region c g k \<inter> (slab_meta c (feet vms js) \<union> buddy_storage (vs_allocator vms) \<union> pmm_storage s) = {}"
proof -
  note sl = slab_invD [OF cache_invD(3) [OF assms(1)]]
  note op = obj_parts [OF sl(5) [OF assms(2)] sl(1) assms(3)]
  have "obj_region c g k \<inter> (region h 4 \<union> bm_region c h) = {}" if h: "h \<in> set (feet vms js)" for h
  proof (cases "g = h")
    case True
    then show ?thesis using op(2,3) by blast
  next
    case False
    then show ?thesis
      using op(1) slab_parts(1,2) [OF sl(5) [OF h] sl(1)] slab_regions_disjoint [OF sl(5) [OF assms(2)] sl(5) [OF h]] by blast
  qed
  moreover have "obj_region c g k \<inter> (buddy_storage (vs_allocator vms) \<union> pmm_storage s) = {}"
    using op(1) slabs_apart(1) [OF assms(1,2)] by blast
  ultimately show ?thesis unfolding slab_meta_def by blast
qed

lemma slab_drop_if_unused:
  assumes "cache_inv s vms c js G" "f \<in> set (feet vms js)"
  obtains c' vms' s' js' where
    "(if slab_next (mem s) f = 0 \<and> all_unused (mem s) c f then slab_drop s vms c f else Inr (c, vms, s)) = Inr (c', vms', s')"
    "cache_inv s' vms' c' js' G" "vs_allocator vms' = vs_allocator vms" "set js' \<subseteq> set js"
    "sc_size c' = sc_size c" "sc_init c' = sc_init c" "sc_lock c' = sc_lock c"
    "live (mem s') c (feet vms js') = live (mem s) c (feet vms js)"
    "same_outside (slab_meta c (feet vms js) \<union> buddy_storage (vs_allocator vms) \<union> pmm_storage s) (mem s) (mem s')"
    "s' = s\<lparr>mem := mem s', ptmem := ptmem s', pmm_lock := pmm_lock s', current := current s'\<rparr>"
proof (cases "slab_next (mem s) f = 0 \<and> all_unused (mem s) c f")
  case False
  show ?thesis by (rule that [of c vms s js]) (use False assms(1) in \<open>auto simp: same_outside_def\<close>)
next
  case True
  obtain j where j: "j \<in> set js" "f = slab_foot vms j" using assms(2) by auto
  obtain xs ys where split: "js = xs @ j # ys" using split_list [OF j(1)] by blast
  have "chain (mem s) (sc_first c) (feet vms xs @ f # feet vms ys)"
    using slab_invD(3) [OF cache_invD(3) [OF assms(1)]] split j(2) by simp
  from chain_end [OF this] True have "feet vms ys = []" by blast
  then have js: "js = xs @ [j]" using split by simp
  have un: "used (mem s) c (slab_foot vms j) = {}" using True j(2) by (simp add: all_unused_iff)
  obtain c' vms' s' where d: "slab_drop s vms c (slab_foot vms j) = Inr (c', vms', s')"
    "cache_inv s' vms' c' xs G" "vs_allocator vms' = vs_allocator vms"
    "live (mem s') c (feet vms xs) = live (mem s) c (feet vms (xs @ [j]))"
    "c' = c\<lparr>sc_first := sc_first c', sc_empty := sc_empty c'\<rparr>"
    "s' = s\<lparr>mem := mem s', ptmem := ptmem s', pmm_lock := pmm_lock s', current := current s'\<rparr>"
    "same_outside ((\<Union>g \<in> set (feet vms xs). region g 4) \<union> buddy_storage (vs_allocator vms) \<union> pmm_storage s) (mem s) (mem s')"
    by (rule slab_drop_spec [OF assms(1) [unfolded js] un])
  have e: "sc_size c' = sc_size c" "sc_init c' = sc_init c" "sc_lock c' = sc_lock c" by (subst d(5), simp)+
  have "(\<Union>g \<in> set (feet vms xs). region g 4) \<union> buddy_storage (vs_allocator vms) \<union> pmm_storage s
      \<subseteq> slab_meta c (feet vms js) \<union> buddy_storage (vs_allocator vms) \<union> pmm_storage s"
    unfolding js by (auto simp: slab_meta_def)
  note out = same_outside_mono [OF d(7) this]
  show ?thesis
    by (rule that [OF _ d(2,3) _ e _ out d(6)]) (use True d(1,4) j(2) js in \<open>auto simp del: all_unused_iff\<close>)
qed

lemma slab_cache_free_spec:
  assumes "cache_inv s vms c js G" "unlocked (sc_lock c)" "(f, k) \<in> live (mem s) c (feet vms js)"
  obtains c' vms' s' js' where "slab_cache_free s vms c (slab_obj c f k) = Inr (c', vms', s')"
    "cache_inv s' vms' c' js' G" "unlocked (sc_lock c')" "vs_allocator vms' = vs_allocator vms"
    "sc_size c' = sc_size c" "sc_init c' = sc_init c" "set js' \<subseteq> set js"
    "live (mem s') c (feet vms js') = live (mem s) c (feet vms js) - {(f, k)}"
    "same_outside (slab_meta c (feet vms js) \<union> buddy_storage (vs_allocator vms) \<union> pmm_storage s) (mem s) (mem s')"
    "s' = s\<lparr>mem := mem s', ptmem := ptmem s', pmm_lock := pmm_lock s', current := current s'\<rparr>"
proof -
  let ?s1 = "held_state s" and ?c1 = "c\<lparr>sc_lock := held_lock s (sc_lock c)\<rparr>" and ?o = "slab_obj c f k"
  let ?M = "slab_meta c (feet vms js) \<union> buddy_storage (vs_allocator vms) \<union> pmm_storage s"
  have ci: "cache_inv ?s1 vms ?c1 js G" using assms(1) cache_inv_cong(1) [of ?s1 s] by simp
  have lv: "(f, k) \<in> live (mem ?s1) ?c1 (feet vms js)" using assms(3) by simp
  note fk = live_obj [OF assms(1,3)] and sl = slab_invD [OF cache_invD(3) [OF assms(1)]]
  define m2 where "m2 = mark_unused (mem s) c f ?o"
  define c2 where "c2 = (if sc_empty c = 0 \<or> sc_empty c > ?o then ?c1\<lparr>sc_empty := ?o\<rparr> else ?c1)"
  let ?s2 = "?s1\<lparr>mem := m2\<rparr>"
  have mu: "mark_unused (mem s) ?c1 f ?o = m2" by (simp add: m2_def mark_unused_def)
  have bm: "bm_region ?c1 f = bm_region c f" by (simp add: slab_bm_def)
  have o: "slab_obj ?c1 f k = ?o" by simp
  have ci2: "cache_inv ?s2 vms c2 js G" and lv2: "live m2 c (feet vms js) = live (mem s) c (feet vms js) - {(f, k)}"
    and w2: "same_outside (bm_region c f) (mem s) m2"
    using mark_unused_inv [OF ci lv] unfolding o mu held_fields bm c2_def by simp_all
  have c2: "sc_size c2 = sc_size c" "sc_init c2 = sc_init c" "sc_lock c2 = held_lock s (sc_lock c)"
      "slab_meta c2 = slab_meta c" "live m c2 = live m c" for m by (simp_all add: c2_def slab_meta_def slab_bm_def fun_eq_iff)
  have first: "sc_first c \<noteq> 0" using sl(3) fk(1) by (cases js) auto
  have ft: "FOOTER_FOR_PTR ?o = f" by (rule slab_obj_props(3) [OF fk(3) sl(2) fk(2)])
  have M2: "same_outside ?M (mem s) m2"
    using fk(1) by (intro same_outside_mono [OF w2]) (auto simp: slab_meta_def)
  define r where "r = (if slab_next m2 f = 0 \<and> all_unused m2 c2 f then slab_drop ?s2 vms c2 f else Inr (c2, vms, ?s2))"
  have run: "slab_cache_free s vms c ?o = bind_res r (\<lambda>(c3, vms3, s3).
      bind_res (spinlock_release s3 (sc_lock c3)) (\<lambda>(s4, l4). Inr (c3\<lparr>sc_lock := l4\<rparr>, vms3, s4)))"
    using assms(2) first sl(2) ft
    by (simp add: slab_cache_free_def Let_def nonzero_size_def mu r_def c2_def del: all_unused_iff cong: if_cong)
  obtain c3 vms3 s3 js3 where r3: "r = Inr (c3, vms3, s3)" "cache_inv s3 vms3 c3 js3 G"
    "vs_allocator vms3 = vs_allocator vms" "set js3 \<subseteq> set js"
    "sc_size c3 = sc_size c" "sc_init c3 = sc_init c" "sc_lock c3 = held_lock s (sc_lock c)"
    "live (mem s3) c (feet vms js3) = live m2 c (feet vms js)" "same_outside ?M m2 (mem s3)"
    "s3 = ?s2\<lparr>mem := mem s3, ptmem := ptmem s3, pmm_lock := pmm_lock s3, current := current s3\<rparr>"
  proof -
    have "mem ?s2 = m2" "pmm_storage ?s2 = pmm_storage s" by (simp_all add: pmm_storage_def)
    note d = slab_drop_if_unused [OF ci2 fk(1), unfolded c2 this, folded r_def]
    show thesis by (rule d) (rule that)
  qed
  let ?s4 = "s3\<lparr>eflags := eflags s\<rparr>" and ?c4 = "c3\<lparr>sc_lock := left_lock s (sc_lock c)\<rparr>"
  have "eflags s3 = eflags ?s1" by (subst r3(10)) simp
  then have rel: "spinlock_release s3 (held_lock s (sc_lock c)) = Inr (?s4, left_lock s (sc_lock c))"
    by (rule spinlock_release_restores)
  have "slab_cache_free s vms c ?o = Inr (?c4, vms3, ?s4)" using run r3(1,7) rel by simp
  moreover have "cache_inv ?s4 vms3 ?c4 js3 G" using r3(2) cache_inv_cong(1) [of ?s4 s3] by simp
  moreover have "?s4 = s\<lparr>mem := mem s3, ptmem := ptmem s3, pmm_lock := pmm_lock s3, current := current s3\<rparr>"
    by (subst r3(10)) (simp add: disable_interrupts_def)
  ultimately show ?thesis
    using that [of ?c4 vms3 ?s4 js3] r3(3-6,8) lv2 same_outside_trans [OF M2 r3(9)] by simp
qed

end
