(* ===== verification/Kmalloc_Correct.thy ===== *)
theory Kmalloc_Correct
  imports Kmalloc Slab_Free
begin

text \<open>
  The kernel heap on top of the slab caches and the vmspace: what \<^verbatim>\<open>kmalloc\<close> returns, that \<^verbatim>\<open>kfree\<close> takes it
  back whatever the client wrote behind the header, and for which sizes the layout of a slab is sound.
\<close>

section \<open>The header\<close>

definition kheader :: "nat \<Rightarrow> u32" where
  "kheader l = push_bit 8 KMALLOC_CANARY OR of_nat l"

lemma kheader:
  assumes "l < 256"
  shows "drop_bit 8 (kheader l) = KMALLOC_CANARY" "unat (kheader l AND 0xFF) = l"
proof -
  have "drop_bit 8 (of_nat l :: u32) = 0"
    using assms by (simp only: word_unat_eq_iff unat_drop_bit) simp
  moreover have "drop_bit 8 (push_bit 8 KMALLOC_CANARY) = KMALLOC_CANARY" by (simp add: KMALLOC_CANARY_def)
  ultimately show "drop_bit 8 (kheader l) = KMALLOC_CANARY" by (simp add: kheader_def drop_bit_or)
  have m: "(0xFF :: u32) = mask 8" by (simp add: mask_eq_exp_minus_1)
  have "take_bit 8 (push_bit 8 KMALLOC_CANARY) = 0" by (simp add: KMALLOC_CANARY_def)
  moreover have "take_bit 8 (of_nat l :: u32) = of_nat l"
    using assms by (simp add: take_bit_of_nat take_bit_nat_eq_self)
  ultimately have "kheader l AND 0xFF = of_nat l"
    by (simp only: m take_bit_eq_mask [symmetric] kheader_def take_bit_or) simp
  then show "unat (kheader l AND 0xFF) = l" using assms by simp
qed

text \<open>\<^verbatim>\<open>kfree\<close> of a block whose header is intact.\<close>

lemma kfree_cached:
  assumes "load32 (mem s) p = kheader l" "MIN_CACHESZ_LOG2 \<le> l" "l \<le> MAX_CACHESZ_LOG2"
  shows "kfree s (p + 4) = cache_free s (l - MIN_CACHESZ_LOG2) p"
  using assms kheader [of l] by (simp add: kfree_def Let_def kmalloc_consts)

lemma kfree_pages:
  assumes "load32 (mem s) p = kheader l" "MAX_CACHESZ_LOG2 < l" "l < 32"
  shows "kfree s (p + 4) = bind_res (vmspace_free s (kernel_vmspace s) (push_bit l 1) p 1)
    (\<lambda>(vms, s1). Inr (s1\<lparr>kernel_vmspace := vms\<rparr>))"
  using assms kheader [of l] by (simp add: kfree_def Let_def kmalloc_consts del: push_bit_of_1)

section \<open>Blocks from a cache\<close>

text \<open>The cache for blocks of \<open>2 ^ l\<close> bytes is in order and has its slabs in the pairs of pages \<open>js\<close>.\<close>

definition kcache :: "'a kheap_scheme \<Rightarrow> nat \<Rightarrow> nat list \<Rightarrow> (nat \<Rightarrow> nat) \<Rightarrow> bool" where
  "kcache s l js G \<longleftrightarrow> length (caches s) = 7 \<and> MIN_CACHESZ_LOG2 \<le> l \<and> l \<le> MAX_CACHESZ_LOG2 \<and>
     cache_inv s (kernel_vmspace s) (caches s ! (l - MIN_CACHESZ_LOG2)) js G \<and>
     sc_size (caches s ! (l - MIN_CACHESZ_LOG2)) = 2 ^ l \<and> sc_init (caches s ! (l - MIN_CACHESZ_LOG2)) = 0 \<and>
     unlocked (sc_lock (caches s ! (l - MIN_CACHESZ_LOG2)))"

abbreviation kslab :: "'a kheap_scheme \<Rightarrow> nat \<Rightarrow> slab_cache" where
  "kslab s l \<equiv> caches s ! (l - MIN_CACHESZ_LOG2)"

definition klive :: "'a kheap_scheme \<Rightarrow> nat \<Rightarrow> nat list \<Rightarrow> (u32 \<times> nat) set" where
  "klive s l js = live (mem s) (kslab s l) (feet (kernel_vmspace s) js)"

lemma klive_size: "sc_size c' = sc_size c \<Longrightarrow> live m c' = live m c"
  by (simp add: live_def used_def slab_bm_def obj_num_def fun_eq_iff)

lemma obj_size: "sc_size c' = sc_size c \<Longrightarrow> slab_obj c' = slab_obj c \<and> obj_region c' = obj_region c \<and> obj_num c' = obj_num c"
  by (simp add: slab_obj_def obj_region_def obj_num_def fun_eq_iff)

lemma cache_inv_more:
  fixes s t :: "'a kheap_scheme"
  assumes "mem s = mem t" "allocators s = allocators t" "pmm_lock s = pmm_lock t"
    "ptmem s = ptmem t" "cr3 s = cr3 t" "current s = current t"
  shows "cache_inv s vms c js G = cache_inv t vms c js G"
  by (rule cache_inv_cong(1) [OF assms])

lemma unat_cache_size:
  assumes "MIN_CACHESZ_LOG2 \<le> l" "l \<le> MAX_CACHESZ_LOG2"
  shows "unat (2 ^ l :: u32) = 2 ^ l" "4 \<le> unat (2 ^ l :: u32)"
proof -
  have l: "l \<in> {3, 4, 5, 6, 7, 8, 9}" using assms by (auto simp: kmalloc_consts)
  then show "unat (2 ^ l :: u32) = 2 ^ l" by auto
  show "4 \<le> unat (2 ^ l :: u32)" using l by auto
qed

lemma kmalloc_cached:
  assumes "log2_roundup (sz + 4) = Inr l0" "l = max l0 MIN_CACHESZ_LOG2" "kcache s l js G" "pmm_frames s \<subseteq> {..<1048576}"
  obtains (ok) f k s' js' G' where "kmalloc s sz = Inr (slab_obj (kslab s l) f k + 4, s')" "kcache s' l js' G'"
      "(f, k) \<notin> klive s l js" "klive s' l js' = insert (f, k) (klive s l js)" "k < obj_num (kslab s l)"
      "f \<in> set (feet (kernel_vmspace s) js')" "sc_size (kslab s' l) = sc_size (kslab s l)"
      "load32 (mem s') (slab_obj (kslab s l) f k) = kheader l"
      "\<forall>g k'. (g, k') \<in> klive s l js \<longrightarrow> (\<forall>a \<in> obj_region (kslab s l) g k'. mem s' a = mem s a)"
      "vs_allocator (kernel_vmspace s') = vs_allocator (kernel_vmspace s)"
    | (fault) e where "kmalloc s sz = Inl e" "sc_empty (kslab s l) = 0" "\<not> slab_room s (kernel_vmspace s)"
proof -
  let ?c = "kslab s l" and ?vms = "kernel_vmspace s" and ?i = "l - MIN_CACHESZ_LOG2"
  have kc: "length (caches s) = 7" "MIN_CACHESZ_LOG2 \<le> l" "l \<le> MAX_CACHESZ_LOG2" "cache_inv s ?vms ?c js G"
    "sc_size ?c = 2 ^ l" "sc_init ?c = 0" "unlocked (sc_lock ?c)" using assms(3) by (simp_all add: kcache_def)
  have i: "?i < length (caches s)" using kc(1-3) by (simp add: kmalloc_consts)
  have lmax: "(if l0 < MIN_CACHESZ_LOG2 then MIN_CACHESZ_LOG2 else l0) = l" using assms(2) by auto
  have run: "kmalloc s sz = bind_res (cache_alloc s ?i) (\<lambda>(p, s2). Inr (p + 4, s2\<lparr>mem := store32 (mem s2) p (kheader l)\<rparr>))"
    using assms(1) kc(2,3) by (simp add: kmalloc_def Let_def lmax kheader_def bind_res_assoc split_def)
  show ?thesis
  proof (cases rule: slab_cache_alloc_spec [OF kc(4,7) assms(4) disjI1 [OF kc(6)]])
    case (2 e)
    then show ?thesis using fault run by (simp add: cache_alloc_def)
  next
    case (1 f k c' vms' s1 js' G')
    let ?o = "slab_obj ?c f k"
    define m where "m = store32 (mem s1) ?o (kheader l)"
    define s' where "s' = s1\<lparr>kernel_vmspace := vms', caches := (caches s1)[?i := c'], mem := m\<rparr>"
    note tk = 1(2) [unfolded took_def]
    have cs: "caches s1 = caches s" by (subst 1(6)) simp
    have sel: "kslab s' l = c'" "kernel_vmspace s' = vms'" "mem s' = m" "length (caches s') = 7"
      using i kc(1) cs by (simp_all add: s'_def)
    have k': "kmalloc s sz = Inr (?o + 4, s')"
      using run 1(1) by (simp add: cache_alloc_def s'_def m_def)
    have sz: "sc_size c' = sc_size ?c" using tk by simp
    note ob = obj_size [OF sz]
    have ft: "feet vms' = feet ?vms" using tk feet_cong by metis
    have f: "f \<in> set (feet vms' js')" "k < obj_num c'" using tk ft ob by simp_all
    have w: "same_outside (obj_region c' f k) (mem s1) m"
    proof -
      have "4 \<le> unat (sc_size ?c)" using kc(5) unat_cache_size [OF kc(2,3)] by simp
      then show ?thesis unfolding m_def using ob region_mono [of 4 "unat (sc_size ?c)" ?o]
        by (intro same_outside_mono [OF store32_same_outside]) (simp add: obj_region_def)
    qed
    have ci1: "cache_inv s1 vms' c' js' G'" using tk by simp
    note ow = cache_inv_obj_write [OF ci1 f w]
    have "cache_inv s' vms' c' js' G'"
      using ow(1) cache_inv_more [of s' "s1\<lparr>mem := m\<rparr>"] by (simp add: s'_def)
    then have "kcache s' l js' G'"
      using kc tk 1(3) by (simp add: kcache_def sel)
    moreover have "klive s' l js' = insert (f, k) (klive s l js)"
      using ow(2) tk klive_size [OF sz] ft by (simp add: klive_def sel)
    moreover have "\<forall>g k'. (g, k') \<in> klive s l js \<longrightarrow> (\<forall>a \<in> obj_region ?c g k'. mem s' a = mem s a)"
    proof (intro allI impI ballI)
      fix g k' a assume g: "(g, k') \<in> klive s l js" "a \<in> obj_region ?c g k'"
      have at: "slab_at f" "slab_fits ?c" "slab_at g" "k' < obj_num ?c"
        using slab_invD(5) [OF cache_invD(3) [OF ci1] f(1)] slab_invD(1) [OF cache_invD(3) [OF kc(4)]]
          live_obj [OF kc(4) g(1) [unfolded klive_def]] by simp_all
      have "(g, k') \<noteq> (f, k)" using g(1) tk by (auto simp: klive_def)
      then have "obj_region ?c g k' \<inter> obj_region ?c f k = {}"
        using obj_parts(1,4) [OF at(3,2,4)] obj_parts(1) [OF at(1,2)] f(2) ob slab_regions_disjoint [OF at(3,1)]
        by (cases "g = f") (auto, blast)
      then have "m a = mem s1 a" using w g(2) ob by (auto simp: same_outside_def)
      then show "mem s' a = mem s a" using tk g by (auto simp: sel klive_def)
    qed
    ultimately show ?thesis
      using ok [OF k'] tk sel sz by (simp add: klive_def m_def)
  qed
qed

lemma kfree_cached_spec:
  assumes "kcache s l js G" "(f, k) \<in> klive s l js" "load32 (mem s) (slab_obj (kslab s l) f k) = kheader l"
  obtains s' js' where "kfree s (slab_obj (kslab s l) f k + 4) = Inr s'" "kcache s' l js' G"
    "klive s' l js' = klive s l js - {(f, k)}" "vs_allocator (kernel_vmspace s') = vs_allocator (kernel_vmspace s)"
    "\<forall>g k'. (g, k') \<in> klive s l js \<longrightarrow> (\<forall>a \<in> obj_region (kslab s l) g k'. mem s' a = mem s a)"
proof -
  let ?c = "kslab s l" and ?vms = "kernel_vmspace s" and ?i = "l - MIN_CACHESZ_LOG2"
  have kc: "length (caches s) = 7" "MIN_CACHESZ_LOG2 \<le> l" "l \<le> MAX_CACHESZ_LOG2" "cache_inv s ?vms ?c js G"
    "sc_size ?c = 2 ^ l" "sc_init ?c = 0" "unlocked (sc_lock ?c)" using assms(1) by (simp_all add: kcache_def)
  have i: "?i < length (caches s)" using kc(1-3) by (simp add: kmalloc_consts)
  obtain c' vms' s1 js' where fr: "slab_cache_free s ?vms ?c (slab_obj ?c f k) = Inr (c', vms', s1)"
    "cache_inv s1 vms' c' js' G" "unlocked (sc_lock c')" "vs_allocator vms' = vs_allocator ?vms"
    "sc_size c' = sc_size ?c" "sc_init c' = sc_init ?c" "set js' \<subseteq> set js"
    "live (mem s1) ?c (feet ?vms js') = live (mem s) ?c (feet ?vms js) - {(f, k)}"
    "same_outside (slab_meta ?c (feet ?vms js) \<union> buddy_storage (vs_allocator ?vms) \<union> pmm_storage s) (mem s) (mem s1)"
    "s1 = s\<lparr>mem := mem s1, ptmem := ptmem s1, pmm_lock := pmm_lock s1, current := current s1\<rparr>"
    using slab_cache_free_spec [OF kc(4,7) assms(2) [unfolded klive_def]] by metis
  define s' where "s' = s1\<lparr>kernel_vmspace := vms', caches := (caches s1)[?i := c']\<rparr>"
  have cs: "caches s1 = caches s" by (subst fr(10)) simp
  have sel: "kslab s' l = c'" "kernel_vmspace s' = vms'" "mem s' = mem s1" "length (caches s') = 7"
    using i kc(1) cs by (simp_all add: s'_def)
  have "kfree s (slab_obj ?c f k + 4) = Inr s'"
    using kfree_cached [OF assms(3) kc(2,3)] fr(1) by (simp add: cache_free_def s'_def)
  moreover have "cache_inv s' vms' c' js' G" using fr(2) cache_inv_more [of s' s1] by (simp add: s'_def)
  then have "kcache s' l js' G" using kc fr(3,5,6) by (simp add: kcache_def sel)
  moreover have "klive s' l js' = klive s l js - {(f, k)}"
    using fr(8) klive_size [OF fr(5)] feet_cong [OF fr(4)] by (simp add: klive_def sel)
  moreover have "\<forall>g k'. (g, k') \<in> klive s l js \<longrightarrow> (\<forall>a \<in> obj_region ?c g k'. mem s' a = mem s a)"
  proof (intro allI impI ballI)
    fix g k' a assume g: "(g, k') \<in> klive s l js" "a \<in> obj_region ?c g k'"
    note lo = live_obj [OF kc(4) g(1) [unfolded klive_def]]
    have "a \<notin> slab_meta ?c (feet ?vms js) \<union> buddy_storage (vs_allocator ?vms) \<union> pmm_storage s"
      using obj_not_meta [OF kc(4) lo(1,2)] g(2) by blast
    then show "mem s' a = mem s a" unfolding sel by (rule same_outsideD [OF fr(9)])
  qed
  ultimately show ?thesis using that fr(4) sel(2) by simp
qed

text \<open>What a client does to its block, past the header, keeps the header and the cache.\<close>

lemma kcache_client:
  assumes "kcache s l js G" "(f, k) \<in> klive s l js"
    "same_outside (region (slab_obj (kslab s l) f k + 4) (2 ^ l - 4)) (mem s) m"
  shows "kcache (s\<lparr>mem := m\<rparr>) l js G" "klive (s\<lparr>mem := m\<rparr>) l js = klive s l js"
    "load32 m (slab_obj (kslab s l) f k) = load32 (mem s) (slab_obj (kslab s l) f k)"
proof -
  let ?c = "kslab s l" and ?o = "slab_obj (kslab s l) f k"
  have kc: "MIN_CACHESZ_LOG2 \<le> l" "l \<le> MAX_CACHESZ_LOG2" "cache_inv s (kernel_vmspace s) ?c js G" "sc_size ?c = 2 ^ l"
    using assms(1) by (simp_all add: kcache_def)
  note sz = unat_cache_size [OF kc(1,2)]
  note lo = live_obj [OF kc(3) assms(2) [unfolded klive_def]]
  have "(4 :: u32) = of_nat 4" by simp
  then have "region (?o + 4) (2 ^ l - 4) \<subseteq> obj_region ?c f k"
    using sz region_sub [of 4 "2 ^ l - 4" "2 ^ l" ?o] by (simp add: obj_region_def kc(4))
  from cache_inv_obj_write [OF kc(3) lo(1,2) same_outside_mono [OF assms(3) this]]
  show "kcache (s\<lparr>mem := m\<rparr>) l js G" "klive (s\<lparr>mem := m\<rparr>) l js = klive s l js"
    using assms(1) by (simp_all add: kcache_def klive_def)
  have "region ?o 4 \<inter> region (?o + 4) (2 ^ l - 4) = {}"
  proof -
    have "(2 :: nat) ^ l \<le> 2 ^ 9" using kc(2) by (intro power_increasing) (simp_all add: kmalloc_consts)
    then show ?thesis using region_disjoint_offset [of 0 4 4 "2 ^ l - 4" ?o] by simp
  qed
  from load32_frame [OF assms(3) this] show "load32 m ?o = load32 (mem s) ?o" .
qed

section \<open>Blocks of pages\<close>

lemma kmalloc_pages:
  assumes "log2_roundup (sz + 4) = Inr l0" "MAX_CACHESZ_LOG2 < l0" "l0 \<le> 28"
  defines "l \<equiv> max l0 12"
  shows "kmalloc s sz = bind_res (vmspace_alloc s (kernel_vmspace s) (2 ^ l) 1) (\<lambda>(p, vms, s1).
    if p = NOT 0 then Inl (Undefined ''kmalloc: block at ~0'')
    else Inr (p + 4, s1\<lparr>kernel_vmspace := vms, mem := store32 (mem s1) p (kheader l)\<rparr>))"
proof -
  have u: "unat (push_bit l0 1 :: u32) = 2 ^ l0" using assms(3) by (intro unat_exp_u32) simp
  have lt: "(push_bit l0 1 :: u32) < get_page_size \<longleftrightarrow> l0 < 12"
  proof -
    have "(2 :: nat) ^ l0 < 4096 \<longleftrightarrow> (2 :: nat) ^ l0 < 2 ^ 12" by simp
    also have "\<dots> \<longleftrightarrow> l0 < 12" by (rule power_strict_increasing_iff) simp
    finally show ?thesis by (simp only: word_less_nat_alt u get_page_size_def) simp
  qed
  have pg: "log2_roundup get_page_size = Inr 12" "get_page_size = 2 ^ 12"
    using log2_roundup_exp [of 12] by (simp_all add: get_page_size_def)
  have nl: "\<not> l0 < 3" "\<not> l0 \<le> 9" using assms(2) by (simp_all add: kmalloc_consts)
  have "page_block s l0 = bind_res (vmspace_alloc s (kernel_vmspace s) (2 ^ l) 1) (\<lambda>(p, vms, s1).
      if p = NOT 0 then Inl (Undefined ''kmalloc: block at ~0'') else Inr (p, l, s1\<lparr>kernel_vmspace := vms\<rparr>))"
    using assms(3) lt pg by (cases "l0 < 12") (simp_all add: page_block_def Let_def l_def push_bit_of_1 cong: if_cong)
  then show ?thesis
    using assms(1) nl by (cases "vmspace_alloc s (kernel_vmspace s) (2 ^ l) 1")
      (auto simp: kmalloc_def Let_def kmalloc_consts(1,2) kheader_def)
qed

text \<open>
  A block of pages: the pages were free, each is mapped now, and the header is in place. Whatever the
  client then writes behind the header, \<^verbatim>\<open>kfree\<close> gives the addresses and the frames back.
\<close>

lemma block_in_area:
  assumes "vs_slabs s vms" "(j + 1) * 2 ^ i \<le> buddy_pages (vs_allocator vms)"
  shows "region (ucast (page_addr (vs_allocator vms) (j * 2 ^ i))) (2 ^ (12 + i)) \<subseteq> vs_area vms"
    "2 ^ (12 + i) \<le> (4294967296 :: nat)"
proof -
  let ?bd = "vs_allocator vms" and ?v = "ucast (page_addr (vs_allocator vms) (j * 2 ^ i)) :: u32"
  have inv: "vs_inv s vms" using assms(1) by (simp add: vs_slabs_def)
  have fit: "j * 2 ^ i + 2 ^ i \<le> buddy_pages ?bd" using assms(2) by simp
  have top: "unat (buddy_start ?bd) + unat (buddy_size ?bd) \<le> 0xFF800000" using inv by (simp add: vs_inv_def)
  have pages: "buddy_pages ?bd * 4096 \<le> unat (buddy_size ?bd)" by (simp add: buddy_pages_def)
  have "2 ^ (12 + i) \<le> buddy_pages ?bd * 4096" using fit by (simp add: power_add)
  then show "2 ^ (12 + i) \<le> (4294967296 :: nat)" using pages top by linarith
  have "unat (buddy_start ?bd) < 4294967296" using top by simp
  then have b: "unat (ucast (buddy_start ?bd) :: u32) = unat (buddy_start ?bd)" by (intro unat_ucast_small) simp
  have p: "unat (page_addr ?bd (j * 2 ^ i)) = unat (buddy_start ?bd) + j * 2 ^ i * 4096"
    using fit by (intro unat_page_addr [OF vs_invD(4) [OF inv]]) simp
  have jl: "j * 2 ^ i * 4096 \<le> unat (buddy_size ?bd)"
    using mult_le_mono1 [of "j * 2 ^ i" "buddy_pages ?bd" 4096] fit pages by simp
  then have "unat ?v = unat (buddy_start ?bd) + j * 2 ^ i * 4096"
    using p top by (subst unat_ucast_small) simp_all
  then have "?v = ucast (buddy_start ?bd) + of_nat (j * 2 ^ i * 4096)"
    using b jl top by (simp add: word_unat_eq_iff unat_word_ariths del: of_nat_mult)
  moreover have "j * 2 ^ i * 4096 + 2 ^ (12 + i) \<le> buddy_pages ?bd * 4096"
    using mult_le_mono1 [OF fit, of 4096] by (simp add: power_add algebra_simps)
  ultimately show "region ?v (2 ^ (12 + i)) \<subseteq> vs_area vms" unfolding vs_area_def by (simp only:) (rule region_sub)
qed

lemma kmalloc_pages_spec:
  assumes "vs_slabs s (kernel_vmspace s)" "pmm_frames s \<subseteq> {..<1048576}"
    "log2_roundup (sz + 4) = Inr l0" "MAX_CACHESZ_LOG2 < l0" "l0 \<le> 28" "kmalloc s sz = Inr (p, s1)"
  defines "i \<equiv> max l0 12 - 12"
  obtains j where "p = ucast (page_addr (vs_allocator (kernel_vmspace s)) (j * 2 ^ i)) + 4"
    "blk i j \<subseteq> vs_free s (kernel_vmspace s)" "(j + 1) * 2 ^ i \<le> buddy_pages (vs_allocator (kernel_vmspace s))"
    "vs_free s1 (kernel_vmspace s1) = vs_free s (kernel_vmspace s) - blk i j" "vs_slabs s1 (kernel_vmspace s1)"
    "\<forall>q \<in> blk i j. space s1 (vs_base (kernel_vmspace s) + q) \<noteq> None" "load32 (mem s1) (p - 4) = kheader (12 + i)"
    "\<And>m. same_outside (region p (2 ^ (12 + i) - 4)) (mem s1) m \<Longrightarrow>
       \<exists>s'. kfree (s1\<lparr>mem := m\<rparr>) p = Inr s' \<and> vs_slabs s' (kernel_vmspace s') \<and>
         vs_free s' (kernel_vmspace s') = vs_free s (kernel_vmspace s) \<and> space s' = space s \<and>
         pmm_frames s' = pmm_frames s - table_frames s'"
proof -
  let ?vms = "kernel_vmspace s" and ?l = "max l0 12"
  have l: "?l = 12 + i" "i \<le> top_order" using assms(5) by (simp_all add: i_def top_order_def)
  have vi: "vs_inv s ?vms" using assms(1) by (simp add: vs_slabs_def)
  note km = kmalloc_pages [OF assms(3-5), of s, unfolded l(1)]
  obtain v vms2 s2 where al: "vmspace_alloc s ?vms (2 ^ (12 + i)) 1 = Inr (v, vms2, s2)" "v \<noteq> NOT 0" "p = v + 4"
    "s1 = s2\<lparr>kernel_vmspace := vms2, mem := store32 (mem s2) v (kheader (12 + i))\<rparr>"
    using assms(6) unfolding km by (auto simp: bind_res_eq_Inr split: if_splits)
  have i32: "12 + i < 32" using l(2) by (simp add: top_order_def)
  have lr: "log2_roundup (2 ^ (12 + i)) = Inr (12 + i)" using log2_roundup_exp [OF i32] by (simp only: push_bit_of_1)
  have un: "unat (2 ^ (12 + i) :: u32) = 2 ^ (12 + i)" using unat_exp_u32 [OF i32] by (simp only: push_bit_of_1)
  have nz: "(1 :: u32) \<noteq> 0" "unat (2 ^ (12 + i) :: u32) mod 4096 = 0" unfolding un by (simp_all add: power_add)
  obtain j and a :: u64 where
    sp: "v = ucast (page_addr (vs_allocator ?vms) (j * 2 ^ i))" "vs_inv s2 vms2" "vs_allocator vms2 = vs_allocator ?vms"
      "blk i j \<subseteq> vs_free s ?vms" "(j + 1) * 2 ^ i \<le> buddy_pages (vs_allocator ?vms)"
      "vs_free s2 vms2 = vs_free s ?vms - blk i j" "vs_step s ?vms s2"
      "space s2 = (\<lambda>m. if vs_base ?vms + j * 2 ^ i \<le> m \<and> m < vs_base ?vms + j * 2 ^ i + unat (2 ^ (12 + i) :: u32) div 4096
        then Some (map_entry (ucast (ucast a :: u32) + of_nat ((m - (vs_base ?vms + j * 2 ^ i)) * 4096)) 1) else space s m)"
  proof (cases rule: vmspace_alloc_spec [OF vi lr l(2) nz(2,1)])
    case (1 j a s' vms')
    then show ?thesis using that [of j a] al(1) by simp
  qed (use al in simp_all)
  note st = vs_stepD [OF sp(7)]
  note area = block_in_area [OF assms(1) sp(5), folded sp(1)]
  have big: "4 \<le> (2 :: nat) ^ (12 + i)" using power_increasing [of 2 "12 + i" "2 :: nat"] by simp
  have dj: "region v (2 ^ (12 + i)) \<inter> (buddy_storage (vs_allocator ?vms) \<union> pmm_storage s) = {}"
    using area(1) assms(1) unfolding vs_slabs_def by blast
  have w: "same_outside (region v (2 ^ (12 + i))) (mem s2) (mem s1)"
    unfolding al(4) using big by (simp add: same_outside_mono [OF store32_same_outside region_mono])
  have dj2: "region v (2 ^ (12 + i)) \<inter> (buddy_storage (vs_allocator vms2) \<union> pmm_storage s2) = {}"
    using dj sp(3) st(4) by simp
  have f1: "allocators s1 = allocators s2" "pmm_lock s1 = pmm_lock s2" "ptmem s1 = ptmem s2" "cr3 s1 = cr3 s2"
    "current s1 = current s2" "kernel_vmspace s1 = vms2" by (simp_all add: al(4))
  note lk = vs_inv_like [OF sp(2) w dj2 f1(1-5)]
  have vsl: "vs_slabs s1 vms2"
    using assms(1) lk(1) st(4) f1(1) by (simp add: vs_slabs_def vs_area_def sp(3) pmm_storage_def)
  have mapped: "\<forall>q \<in> blk i j. space s1 (vs_base ?vms + q) \<noteq> None"
    unfolding lk(4) sp(8) un by (auto simp: blk_eq power_add)
  have hd: "load32 (mem s1) (p - 4) = kheader (12 + i)" by (simp add: al(3,4))
  have free: "\<exists>s'. kfree (s1\<lparr>mem := m\<rparr>) p = Inr s' \<and> vs_slabs s' (kernel_vmspace s') \<and>
         vs_free s' (kernel_vmspace s') = vs_free s ?vms \<and> space s' = space s \<and> pmm_frames s' = pmm_frames s - table_frames s'"
    if m: "same_outside (region p (2 ^ (12 + i) - 4)) (mem s1) m" for m
  proof -
    let ?t = "s1\<lparr>mem := m\<rparr>"
    have p4: "region p (2 ^ (12 + i) - 4) \<subseteq> region v (2 ^ (12 + i))" "region v 4 \<inter> region p (2 ^ (12 + i) - 4) = {}"
      using region_sub [of 4 "2 ^ (12 + i) - 4" "2 ^ (12 + i)" v] big area(2)
        region_disjoint_offset [of 0 4 4 "2 ^ (12 + i) - 4" v] by (simp_all add: al(3))
    have wt: "same_outside (region v (2 ^ (12 + i))) (mem s2) (mem ?t)"
      using same_outside_trans [OF w same_outside_mono [OF m p4(1)]] by simp
    have ht: "load32 (mem ?t) v = kheader (12 + i)" using load32_frame [OF m p4(2)] hd by (simp add: al(3))
    have g: "MAX_CACHESZ_LOG2 < 12 + i" by (simp add: kmalloc_consts)
    obtain vms' s3 where fr: "vmspace_free ?t vms2 (2 ^ (12 + i)) v 1 = Inr (vms', s3)" "vs_inv s3 vms'"
      "vs_free s3 vms' = vs_free s ?vms" "space s3 = space s" "table_frames s \<subseteq> table_frames s3"
      "pmm_frames s3 = pmm_frames s - table_frames s3" "vs_allocator vms' = vs_allocator ?vms" "pmm_storage s3 = pmm_storage s"
      using vmspace_alloc_free [OF vi l(2) nz(1) nz(1) assms(2) al(1,2) wt dj] f1 by auto
    let ?s' = "s3\<lparr>kernel_vmspace := vms'\<rparr>"
    have "kfree ?t p = Inr ?s'"
      using kfree_pages [OF ht g i32] fr(1) f1(6) unfolding al(3) by (simp add: push_bit_of_1)
    moreover have "vs_slabs ?s' vms'"
      using fr(2,7,8) assms(1) cache_inv_cong(4) [of ?s' s3] by (simp add: vs_slabs_def vs_area_def pmm_storage_def)
    moreover have "space ?s' = space s" "pmm_frames ?s' = pmm_frames s - table_frames ?s'"
      using fr(4,6) vm_core_cong(2) [of ?s' s3] pmm_cong(2) [of ?s' s3] vm_cong(2) [of ?s' s3] by simp_all
    ultimately show ?thesis using fr(3) by (intro exI [of _ ?s']) simp
  qed
  show ?thesis
    by (rule that [of j]) (use sp al(3) lk(2) f1(6) vsl mapped hd free in simp_all)
qed

lemma kmalloc_pages_ok:
  assumes "vs_slabs s (kernel_vmspace s)" "log2_roundup (sz + 4) = Inr l0" "MAX_CACHESZ_LOG2 < l0" "l0 \<le> 28"
  defines "i \<equiv> max l0 12 - 12"
  assumes "blk i j \<subseteq> vs_free s (kernel_vmspace s)" "enough s i (2 ^ i)"
  shows "\<exists>p s'. kmalloc s sz = Inr (p, s')"
proof -
  have l: "max l0 12 = 12 + i" "i \<le> top_order" using assms(4) by (simp_all add: i_def top_order_def)
  have vi: "vs_inv s (kernel_vmspace s)" using assms(1) by (simp add: vs_slabs_def)
  from vmspace_alloc_reached [OF vi l(2) _ assms(6,7), of 1] show ?thesis
    by (auto simp: kmalloc_pages [OF assms(2-4), unfolded l(1)])
qed

section \<open>The layout for the sizes of kmalloc\<close>

lemma slab_sizes:
  assumes "sc_size c = 2 ^ k" "MIN_CACHESZ_LOG2 \<le> k" "k \<le> MAX_CACHESZ_LOG2"
  shows "slab_fits c \<longleftrightarrow> 6 \<le> k"
    "k < 6 \<Longrightarrow> 0x1FFC < obj_num c * unat (sc_size c) + unat (bitmap_sz (sc_size c))"
proof -
  have k: "k \<in> {3, 4, 5, 6, 7, 8, 9}" using assms(2,3) by (auto simp: kmalloc_consts)
  have u: "unat (sc_size c) = 2 ^ k" "sc_size c \<noteq> 0" using assms(1) k by auto
  have n: "obj_num c = 0x1FFC div 2 ^ k" using obj_num_eq [OF u(2)] u(1) by simp
  show "slab_fits c \<longleftrightarrow> 6 \<le> k" using k u by (auto simp: slab_fits_def bitmap_sz_eq n)
  show "0x1FFC < obj_num c * unat (sc_size c) + unat (bitmap_sz (sc_size c))" if "k < 6"
    using k that by (auto simp: bitmap_sz_eq n u(1))
qed

lemma obj_num_pos:
  assumes "sc_size c = 2 ^ k" "MIN_CACHESZ_LOG2 \<le> k" "k \<le> MAX_CACHESZ_LOG2"
  shows "0 < obj_num c"
proof -
  have k: "k \<in> {3, 4, 5, 6, 7, 8, 9}" using assms(2,3) by (auto simp: kmalloc_consts)
  have "unat (sc_size c) = 2 ^ k" "sc_size c \<noteq> 0" using assms(1) k by auto
  then show ?thesis using k obj_num_eq [of c] by auto
qed

lemma offset_split: "d \<le> e \<Longrightarrow> (a :: u32) + of_nat e = a + of_nat d + of_nat (e - d)"
  by (simp add: of_nat_diff)

text \<open>Below 64 bytes the last object of a slab and the bitmap share a byte.\<close>

lemma slab_overlap:
  assumes "sc_size c = 2 ^ k" "MIN_CACHESZ_LOG2 \<le> k" "k < 6" "slab_at f"
  shows "obj_region c f (obj_num c - 1) \<inter> bm_region c f \<noteq> {}"
proof -
  let ?n = "unat (bitmap_sz (sc_size c))" and ?z = "unat (sc_size c)"
  have k: "k \<in> {3, 4, 5}" using assms(2,3) by (auto simp: kmalloc_consts)
  have u: "?z = 2 ^ k" "sc_size c \<noteq> 0" using assms(1) k by auto
  have n: "obj_num c = 0x1FFC div 2 ^ k" using obj_num_eq [OF u(2)] u(1) by simp
  have b: "?n = obj_num c div 8 + 1" by (rule bitmap_sz_eq)
  have le: "?n \<le> 0x1FFC" using k by (auto simp: b n)
  let ?e = "obj_num c * ?z - 1"
  have e: "?z * (obj_num c - 1) \<le> ?e" "?e < ?z * (obj_num c - 1) + ?z" "0x1FFC - ?n \<le> ?e" "?e < 0x1FFC"
    using k by (auto simp: b n u(1))
  let ?a = "START_FOR_FOOTER f + of_nat ?e"
  have "?a \<in> obj_region c f (obj_num c - 1)"
  proof -
    have "?a = START_FOR_FOOTER f + of_nat (?z * (obj_num c - 1)) + of_nat (?e - ?z * (obj_num c - 1))"
      by (rule offset_split [OF e(1)])
    then show ?thesis unfolding obj_region_start using e(1,2) by (simp only:) (intro region_memI, linarith)
  qed
  moreover have "?a \<in> bm_region c f"
  proof -
    have "of_nat (0x1FFC - ?n) = (0x1FFC :: u32) - bitmap_sz (sc_size c)" using le by (simp add: of_nat_diff)
    then have "f - bitmap_sz (sc_size c) = START_FOR_FOOTER f + of_nat (0x1FFC - ?n)"
      using slab_at_start(3) [OF assms(4)] by (simp add: algebra_simps)
    moreover have "?a = START_FOR_FOOTER f + of_nat (0x1FFC - ?n) + of_nat (?e - (0x1FFC - ?n))"
      by (rule offset_split [OF e(3)])
    ultimately show ?thesis unfolding bm_region_eq using e(3,4) le by (simp only:) (intro region_memI, linarith)
  qed
  ultimately show ?thesis by blast
qed

end
