(* ===== verification/Demo.thy ===== *)
theory Demo
  imports Kmalloc_Correct
begin

text \<open>
  Concrete states: a buddy allocator over 16 pages, a physical memory manager with one such
  allocator in every zone (the one above 4GB with nothing free), and a machine whose page directory holds nothing but its own entry.
  They show that the invariants can hold, and instantiate the properties.
\<close>

section \<open>An allocator\<close>

definition demo_range :: range where
  "demo_range = \<lparr>start = 0x100000, extent = 0x10000\<rparr>"

definition demo_init :: "(int \<times> buddy \<times> mem) res" where
  "demo_init = buddy_init (\<lambda>_. 0) 0x2000 demo_range True"

definition demo_bd :: buddy where
  "demo_bd = (case demo_init of Inr (r, bd, m) \<Rightarrow> bd | Inl e \<Rightarrow> \<lparr>buddy_start = 0, buddy_size = 0, orders = []\<rparr>)"

definition demo_mem :: mem where
  "demo_mem = (case demo_init of Inr (r, bd, m) \<Rightarrow> m | Inl e \<Rightarrow> (\<lambda>_. 0))"

lemma demo_range_ok: "range_ok demo_range"
  by (simp add: range_ok_def demo_range_def)

lemma demo_buddy:
  "demo_init = Inr (0, demo_bd, demo_mem)" "buddy_inv demo_bd demo_mem" "buddy_wf demo_bd"
  "buddy_start demo_bd = 0x100000" "buddy_size demo_bd = 0x10000"
  "buddy_free_pages demo_bd demo_mem = {..<16}" "buddy_pages demo_bd = 16"
proof -
  obtain bd m where *: "demo_init = Inr (0, bd, m)" "buddy_start bd = start demo_range"
      "buddy_size bd = extent demo_range" "buddy_inv bd m" "buddy_free_pages bd m = {..<16}"
    using buddy_init_spec [OF demo_range_ok, where m = "\<lambda>_. 0" and storage = "0x2000" and start_freed = True]
    unfolding demo_init_def by (auto simp: demo_range_def)
  have eq: "demo_bd = bd" "demo_mem = m" unfolding demo_bd_def demo_mem_def *(1) by simp_all
  show "demo_init = Inr (0, demo_bd, demo_mem)" "buddy_inv demo_bd demo_mem"
      "buddy_start demo_bd = 0x100000" "buddy_size demo_bd = 0x10000"
      "buddy_free_pages demo_bd demo_mem = {..<16}"
    using * by (simp_all add: eq demo_range_def)
  then show "buddy_wf demo_bd" "buddy_pages demo_bd = 16" by (simp_all add: buddy_inv_def buddy_pages_def)
qed

lemma demo_orders: "log2_roundup 0x1000 = Inr (12 + 0)" "log2_roundup 0x3000 = Inr (12 + 2)"
proof -
  show "log2_roundup 0x1000 = Inr (12 + 0)" using log2_roundup_exp [of 12] by simp
  show "log2_roundup 0x3000 = Inr (12 + 2)" by (rule log2_roundup_eq) simp_all
qed

lemma demo_allocated:
  obtains j m where "buddy_alloc demo_bd demo_mem 0x3000 = Inr (page_addr demo_bd (j * 2 ^ 2), m)"
    "(j + 1) * 2 ^ 2 \<le> buddy_pages demo_bd" "buddy_inv demo_bd m" "blk 2 j \<subseteq> {..<16}"
    "buddy_free_pages demo_bd m = {..<16} - blk 2 j" "page_addr demo_bd (j * 2 ^ 2) \<noteq> NOT 0"
proof -
  have "2 \<le> top_order" by (simp add: top_order_def)
  from buddy_alloc_spec [OF demo_buddy(2) demo_orders(2) this] have
    "\<exists>j m'. buddy_alloc demo_bd demo_mem 0x3000 = Inr (page_addr demo_bd (j * 2 ^ 2), m') \<and>
      (j + 1) * 2 ^ 2 \<le> buddy_pages demo_bd \<and> blk 2 j \<subseteq> {..<16} \<and> buddy_inv demo_bd m' \<and>
      buddy_free_pages demo_bd m' = {..<16} - blk 2 j"
  proof
    assume no: "(\<forall>j. \<not> blk 2 j \<subseteq> buddy_free_pages demo_bd demo_mem) \<and>
      buddy_alloc demo_bd demo_mem 0x3000 = Inr (NOT 0, demo_mem)"
    have "blk 2 0 \<subseteq> buddy_free_pages demo_bd demo_mem" by (auto simp: demo_buddy blk_eq)
    with no show ?thesis by blast
  qed (auto simp: demo_buddy(6))
  then obtain j m' where *: "buddy_alloc demo_bd demo_mem 0x3000 = Inr (page_addr demo_bd (j * 2 ^ 2), m')"
      "(j + 1) * 2 ^ 2 \<le> buddy_pages demo_bd" "blk 2 j \<subseteq> {..<16}" "buddy_inv demo_bd m'"
      "buddy_free_pages demo_bd m' = {..<16} - blk 2 j" by blast
  have "j * 2 ^ 2 < buddy_pages demo_bd" using *(2) by simp
  then have "page_addr demo_bd (j * 2 ^ 2) \<noteq> NOT 0" by (rule place_span [OF demo_buddy(3)])
  with * that show ?thesis by blast
qed

text \<open>The same allocator with no page free.\<close>

lemma demo_empty:
  obtains m bd where "buddy_init (\<lambda>_. 0) 0x2000 demo_range False = Inr (0, bd, m)" "buddy_inv bd m"
    "buddy_free_pages bd m = {}" "buddy_start bd = 0x100000" "buddy_size bd = 0x10000"
  using buddy_init_spec [OF demo_range_ok, where m = "\<lambda>_. 0" and storage = "0x2000" and start_freed = False]
  by (auto simp: demo_range_def)

section \<open>A physical memory manager\<close>

text \<open>Three allocators, their bitmaps at \<open>0x2000\<close>, \<open>0x3000\<close> and \<open>0x4000\<close>.\<close>

definition demo_zone :: "nat \<Rightarrow> range" where
  "demo_zone r = \<lparr>start = (if r = 1 then 0 else if r = 2 then 0x100000 else 0x100000000),
     extent = 0x10000\<rparr>"

definition demo_alloc :: "nat \<Rightarrow> mem \<Rightarrow> buddy \<times> mem" where
  "demo_alloc r m = (case buddy_init m (of_nat (0x2000 + 0x1000 * r)) (demo_zone r) (r \<noteq> 0) of
     Inr (x, bd, m') \<Rightarrow> (bd, m') | Inl e \<Rightarrow> (demo_bd, m))"

lemma demo_zone_overhead: "unat (buddy_calc_overhead (demo_zone r)) \<le> 0x1000"
proof -
  have "overhead_bytes 0x10000 = 20"
    by (simp add: overhead_bytes_def order_bytes_def upt_rec)
  then show ?thesis by (subst buddy_calc_overhead_eq) (simp_all add: demo_zone_def)
qed

lemma demo_alloc_spec:
  assumes "demo_alloc r m = (bd, m')"
  shows "buddy_inv bd m'" "r < 3 \<Longrightarrow> zone_ok r bd" "buddy_free_pages bd m' = (if r = 0 then {} else {..<16})"
    "buddy_storage bd \<subseteq> region (of_nat (0x2000 + 0x1000 * r)) 0x1000"
    "same_outside (region (of_nat (0x2000 + 0x1000 * r)) 0x1000) m m'"
    "buddy_start bd = start (demo_zone r)"
proof -
  have "range_ok (demo_zone r)" by (simp add: range_ok_def demo_zone_def)
  from buddy_init_spec [OF this, of m "of_nat (0x2000 + 0x1000 * r)" "r \<noteq> 0"] obtain bd' m'' where
    *: "buddy_init m (of_nat (0x2000 + 0x1000 * r)) (demo_zone r) (r \<noteq> 0) = Inr (0, bd', m'')"
      "buddy_start bd' = start (demo_zone r)" "buddy_size bd' = extent (demo_zone r)"
      "buddy_inv bd' m''" "buddy_free_pages bd' m'' = (if r \<noteq> 0 then {..<unat (extent (demo_zone r)) div 4096} else {})"
      "buddy_storage bd' \<subseteq> region (of_nat (0x2000 + 0x1000 * r)) (unat (buddy_calc_overhead (demo_zone r)))"
      "same_outside (region (of_nat (0x2000 + 0x1000 * r)) (unat (buddy_calc_overhead (demo_zone r)))) m m''"
    by (auto simp del: of_nat_add of_nat_mult)
  have eq: "bd' = bd" "m'' = m'" using assms *(1) by (simp_all add: demo_alloc_def)
  note reg = region_mono [OF demo_zone_overhead]
  show "buddy_inv bd m'" "buddy_start bd = start (demo_zone r)" "buddy_free_pages bd m' = (if r = 0 then {} else {..<16})"
    using *(2,4,5) by (simp_all add: eq) (simp add: demo_zone_def)
  show "r < 3 \<Longrightarrow> zone_ok r bd"
    using *(2,3) by (auto simp: eq zone_ok_def demo_zone_def page_req_defs)
  show "buddy_storage bd \<subseteq> region (of_nat (0x2000 + 0x1000 * r)) 0x1000"
    using *(6) reg by (auto simp: eq)
  show "same_outside (region (of_nat (0x2000 + 0x1000 * r)) 0x1000) m m'"
    using *(7) reg unfolding eq by (rule same_outside_mono)
qed

definition demo_allocs :: "buddy list \<times> mem" where
  "demo_allocs =
     (let (b0, m0) = demo_alloc 0 (\<lambda>_. 0);
          (b1, m1) = demo_alloc 1 m0;
          (b2, m2) = demo_alloc 2 m1
      in ([b0, b1, b2], m2))"

text \<open>
  The whole machine: the page directory is at physical \<open>0x50000\<close>, paging and write protection
  are on, interrupts are enabled.
\<close>

definition demo_vmm :: vmm where
  "demo_vmm = \<lparr>mem = snd demo_allocs, ptmem = (\<lambda>a. if a = 0x50FFC then 0x50003 else 0),
     cr0 = 0x80010000, cr2 = 0, cr3 = 0x50000, eflags = 0x202,
     port_out = [], port_in = (\<lambda>_ _. 0x20), port_reads = (\<lambda>_. 0),
     term_cursor_y = 0, term_cursor_x = 0, term_color = 7, term_frontbuff = VRAM_START, term_backbuff = 0xC0200000,
     idt = [], idt_at = 0xC0320000, idtp = \<lparr>idt_limit = 0, idt_base = 0\<rparr>, idtr = \<lparr>idt_limit = 0, idt_base = 0\<rparr>,
     isr_routines = no_routines, jiffies = 0,
     pmm_init_stage = PMM_INIT_FULL, early_ranges = [], early_nranges = 0, early_max_extent = 0x200000000,
     pmm_lock = SPINLOCK_RELEASED, allocators = fst demo_allocs,
     current = Some \<lparr>directory = 0x50000, as_lock = SPINLOCK_RELEASED\<rparr>,
     global_vmm_lock = SPINLOCK_RELEASED\<rparr>"

lemma demo_region_disjoint:
  assumes "r < 3" "q < 3" "r \<noteq> q"
  shows "region (of_nat (0x2000 + 0x1000 * r)) 0x1000 \<inter> region (of_nat (0x2000 + 0x1000 * q)) 0x1000 = {}"
proof (cases "r < q")
  case True
  then show ?thesis
    using region_disjoint_offset [of "0x2000 + 0x1000 * r" "0x1000" "0x2000 + 0x1000 * q" "0x1000" 0] assms
    by simp
next
  case False
  then show ?thesis
    using region_disjoint_offset [of "0x2000 + 0x1000 * q" "0x1000" "0x2000 + 0x1000 * r" "0x1000" 0] assms
    by (simp add: Int_commute)
qed

text \<open>An allocator made first is not disturbed by the ones made after it.\<close>

lemma demo_alloc_keeps:
  assumes "demo_alloc q m = (bd, m')" "r < 3" "q < 3" "r \<noteq> q" "buddy_inv b m"
    "buddy_storage b \<subseteq> region (of_nat (0x2000 + 0x1000 * r)) 0x1000"
  shows "buddy_inv b m'" "buddy_free_pages b m' = buddy_free_pages b m"
proof -
  have "region (of_nat (0x2000 + 0x1000 * q)) 0x1000 \<inter> buddy_storage b = {}"
    using demo_region_disjoint [of q r] assms(2-4,6) by auto
  from buddy_frame [OF demo_alloc_spec(5) [OF assms(1)] this] assms(5)
  show "buddy_inv b m'" "buddy_free_pages b m' = buddy_free_pages b m"
    by (simp_all add: buddy_inv_def)
qed

lemma demo_allocs_spec:
  obtains b0 b1 b2 m where "demo_allocs = ([b0, b1, b2], m)"
    "\<forall>r < 3. buddy_inv ([b0, b1, b2] ! r) m \<and> zone_ok r ([b0, b1, b2] ! r) \<and>
      buddy_free_pages ([b0, b1, b2] ! r) m = (if r = 0 then {} else {..<16}) \<and>
      buddy_start ([b0, b1, b2] ! r) = start (demo_zone r) \<and>
      buddy_storage ([b0, b1, b2] ! r) \<subseteq> region (of_nat (0x2000 + 0x1000 * r)) 0x1000"
proof -
  obtain b0 m0 where 0: "demo_alloc 0 (\<lambda>_. 0) = (b0, m0)" by force
  obtain b1 m1 where 1: "demo_alloc 1 m0 = (b1, m1)" by force
  obtain b2 m2 where 2: "demo_alloc 2 m1 = (b2, m2)" by force
  note s0 = demo_alloc_spec [OF 0] and s1 = demo_alloc_spec [OF 1] and s2 = demo_alloc_spec [OF 2]
  note k01 = demo_alloc_keeps [OF 1, of 0 b0, simplified, OF s0(1) s0(4) [simplified]]
  note k02 = demo_alloc_keeps [OF 2, of 0 b0, simplified, OF k01(1) s0(4) [simplified]]
  note k12 = demo_alloc_keeps [OF 2, of 1 b1, simplified, OF s1(1) s1(4) [simplified]]
  have "demo_allocs = ([b0, b1, b2], m2)" unfolding demo_allocs_def 0 Let_def prod.case 1 2 ..
  moreover have "buddy_inv ([b0, b1, b2] ! r) m2 \<and> zone_ok r ([b0, b1, b2] ! r) \<and>
      buddy_free_pages ([b0, b1, b2] ! r) m2 = (if r = 0 then {} else {..<16}) \<and>
      buddy_start ([b0, b1, b2] ! r) = start (demo_zone r) \<and>
      buddy_storage ([b0, b1, b2] ! r) \<subseteq> region (of_nat (0x2000 + 0x1000 * r)) 0x1000" if "r < 3" for r
    using less_3_cases [OF that] s0 s1 s2 k01 k02 k12 by auto
  ultimately show ?thesis using that by blast
qed

lemma demo_frames:
  assumes "r < 3" "buddy_start b = start (demo_zone r)" "buddy_free_pages b m = (if r = 0 then {} else {..<16})"
  shows "free_frames b m =
    (if r = 0 then {} else {unat (start (demo_zone r)) div 4096 ..< unat (start (demo_zone r)) div 4096 + 16})"
  using assms by (simp add: free_frames_def lessThan_atLeast0 add.commute)

lemma demo_pmm:
  "pmm_inv demo_vmm" "pmm_frames demo_vmm = {0..<16} \<union> {256..<272}"
  "free_frames (allocators demo_vmm ! PAGE_REQ_UNDER4GB) (mem demo_vmm) = {256..<272}"
proof -
  obtain b0 b1 b2 m where d: "demo_allocs = ([b0, b1, b2], m)"
    "\<forall>r < 3. buddy_inv ([b0, b1, b2] ! r) m \<and> zone_ok r ([b0, b1, b2] ! r) \<and>
      buddy_free_pages ([b0, b1, b2] ! r) m = (if r = 0 then {} else {..<16}) \<and>
      buddy_start ([b0, b1, b2] ! r) = start (demo_zone r) \<and>
      buddy_storage ([b0, b1, b2] ! r) \<subseteq> region (of_nat (0x2000 + 0x1000 * r)) 0x1000"
    by (rule demo_allocs_spec)
  have sel: "allocators demo_vmm = [b0, b1, b2]" "mem demo_vmm = m" "pmm_lock demo_vmm = SPINLOCK_RELEASED"
    by (simp_all add: demo_vmm_def d(1))
  have "buddy_storage ([b0, b1, b2] ! r) \<inter> buddy_storage ([b0, b1, b2] ! q) = {}"
    if "r < 3" "q < 3" "r \<noteq> q" for r q
    using demo_region_disjoint [OF that] d(2) that by blast
  then show "pmm_inv demo_vmm"
    using d(2) by (simp add: pmm_inv_def sel SPINLOCK_RELEASED_def)
  have fr: "free_frames ([b0, b1, b2] ! r) m =
      (if r = 0 then {} else {unat (start (demo_zone r)) div 4096 ..< unat (start (demo_zone r)) div 4096 + 16})" if "r < 3" for r
    using d(2) that by (intro demo_frames) simp_all
  have "{..<3 :: nat} = {0, 1, 2}" by auto
  then show "pmm_frames demo_vmm = {0..<16} \<union> {256..<272}"
    using fr [of 0] fr [of 1] fr [of 2] by (auto simp: pmm_frames_def sel demo_zone_def)
  show "free_frames (allocators demo_vmm ! PAGE_REQ_UNDER4GB) (mem demo_vmm) = {256..<272}"
    using fr [of 2] by (simp add: sel demo_zone_def page_req_defs)
qed

section \<open>A machine with paging on\<close>

lemma demo_pde: "k < 1024 \<Longrightarrow> pde demo_vmm k = (if k = 1023 then 0x50003 else 0)"
proof -
  assume k: "k < 1024"
  have "entry_addr (cr3 demo_vmm) k = 0x50FFC \<longleftrightarrow> k = 1023"
    using unat_entry_addr [OF k, of "cr3 demo_vmm"] k
    by (auto simp: word_unat_eq_iff demo_vmm_def frame_def)
  then show ?thesis by (simp add: pde_def demo_vmm_def)
qed

lemma demo_vm_inv: "vm_inv demo_vmm"
proof -
  have "tables_ok demo_vmm"
    using demo_pde by (auto simp: tables_ok_def rec_ok_def X86_PRESENT_def X86_WRITE_def frame_def)
      (simp add: demo_vmm_def)
  moreover have "table_frames demo_vmm = {80}"
    using demo_pde by (auto simp: table_frames_def frame_def demo_vmm_def)
  ultimately show ?thesis
    using demo_pmm(1,2) by (simp add: vm_inv_def vm_core_def) (simp add: demo_vmm_def SPINLOCK_RELEASED_def)
qed

lemma demo_space: "space demo_vmm n = None"
  by (cases "n < 1047552") (auto simp: space_def lookup_def demo_pde)

section \<open>A machine before the allocators are up\<close>

definition demo_early :: vmm where
  "demo_early = demo_vmm\<lparr>pmm_init_stage := PMM_INIT_EARLY, early_nranges := 2,
     early_ranges := [\<lparr>start = 0x1000, extent = 0x9E000\<rparr>, \<lparr>start = 0x100000, extent = 0x3000\<rparr>]\<rparr>"

lemma demo_early_inv: "early_inv demo_early"
proof -
  have two: "i < 2 \<Longrightarrow> i = 0 \<or> i = 1" for i :: nat by auto
  have n: "early_nranges demo_early = 2" by (simp add: demo_early_def)
  have "range_fits (early_ranges demo_early ! i)" if "i < 2" for i
    using two [OF that] by (auto simp: demo_early_def range_fits_def)
  moreover have "range_bytes (early_ranges demo_early ! i) \<inter> range_bytes (early_ranges demo_early ! j) = {}"
    if "i < 2" "j < 2" "i \<noteq> j" for i j
    using two [OF that(1)] two [OF that(2)] that(3) by (auto simp: demo_early_def range_bytes_def)
  ultimately show ?thesis unfolding early_inv_def n by (simp add: demo_early_def)
qed

section \<open>A range of virtual addresses\<close>

definition demo_vms_init :: "(int \<times> buddy \<times> mem) res" where
  "demo_vms_init = buddy_init (mem demo_vmm) 0x8000 \<lparr>start = 0xD0000000, extent = 0x10000\<rparr> True"

definition demo_vms :: vmspace where
  "demo_vms = \<lparr>vs_start = 0xD0000000, vs_size = 0x11000,
     vs_allocator = (case demo_vms_init of Inr (r, bd, m) \<Rightarrow> bd | Inl e \<Rightarrow> demo_bd),
     vs_lock = SPINLOCK_RELEASED\<rparr>"

definition demo_vs :: vmm where
  "demo_vs = demo_vmm\<lparr>mem := (case demo_vms_init of Inr (r, bd, m) \<Rightarrow> m | Inl e \<Rightarrow> (\<lambda>_. 0))\<rparr>"

lemma demo_storage: "pmm_storage demo_vmm \<subseteq> region 0x2000 0x3000"
proof -
  obtain b0 b1 b2 m where d: "demo_allocs = ([b0, b1, b2], m)"
    "\<forall>r < 3. buddy_inv ([b0, b1, b2] ! r) m \<and> zone_ok r ([b0, b1, b2] ! r) \<and>
      buddy_free_pages ([b0, b1, b2] ! r) m = (if r = 0 then {} else {..<16}) \<and>
      buddy_start ([b0, b1, b2] ! r) = start (demo_zone r) \<and>
      buddy_storage ([b0, b1, b2] ! r) \<subseteq> region (of_nat (0x2000 + 0x1000 * r)) 0x1000"
    by (rule demo_allocs_spec)
  have "region (of_nat (0x2000 + 0x1000 * r)) 0x1000 \<subseteq> region 0x2000 0x3000" if "r < 3" for r
    using that region_sub [of "0x1000 * r" "0x1000" "0x3000" "0x2000"] by simp
  moreover have "allocators demo_vmm = [b0, b1, b2]" by (simp add: demo_vmm_def d(1))
  ultimately show ?thesis using d(2) by (fastforce simp: pmm_storage_def)
qed

lemma demo_vms_made:
  obtains bd m where "vs_allocator demo_vms = bd" "demo_vs = demo_vmm\<lparr>mem := m\<rparr>" "vs_lock demo_vms = SPINLOCK_RELEASED"
    "buddy_start bd = 0xD0000000" "buddy_size bd = 0x10000" "buddy_inv bd m" "buddy_free_pages bd m = {..<16}"
    "buddy_storage bd \<subseteq> region 0x8000 20" "same_outside (region 0x8000 20) (mem demo_vmm) m"
    "region 0x8000 20 \<inter> pmm_storage demo_vmm = {}"
proof -
  let ?r = "\<lparr>start = 0xD0000000, extent = 0x10000\<rparr>"
  have ok: "range_ok ?r" by (simp add: range_ok_def)
  have "overhead_bytes 0x10000 = 20" by (simp add: overhead_bytes_def order_bytes_def upt_rec)
  then have ov: "unat (buddy_calc_overhead ?r) = 20" by (subst buddy_calc_overhead_eq) simp_all
  obtain bd m where b: "demo_vms_init = Inr (0, bd, m)" "buddy_start bd = 0xD0000000" "buddy_size bd = 0x10000"
      "buddy_inv bd m" "buddy_free_pages bd m = {..<16}" "buddy_storage bd \<subseteq> region 0x8000 20"
      "same_outside (region 0x8000 20) (mem demo_vmm) m"
    using buddy_init_spec [OF ok, where m = "mem demo_vmm" and storage = "0x8000" and start_freed = True] ov
    unfolding demo_vms_init_def by auto
  have eq: "vs_allocator demo_vms = bd" "demo_vs = demo_vmm\<lparr>mem := m\<rparr>" "vs_lock demo_vms = SPINLOCK_RELEASED"
    by (simp_all add: demo_vms_def demo_vs_def b(1))
  have "region 0x8000 20 \<inter> pmm_storage demo_vmm = {}"
    using demo_storage region_disjoint_offset [of "0x2000" "0x3000" "0x8000" 20 0] by auto
  then show ?thesis using that [OF eq b(2-7)] by blast
qed

lemma demo_vs:
  "vs_inv demo_vs demo_vms" "vs_free demo_vs demo_vms = {..<16}" "vs_base demo_vms = 0xD0000"
  "buddy_pages (vs_allocator demo_vms) = 16" "pmm_frames demo_vs = {0..<16} \<union> {256..<272}"
  "space demo_vs n = None"
proof -
  obtain bd m where eq: "vs_allocator demo_vms = bd" "demo_vs = demo_vmm\<lparr>mem := m\<rparr>" "vs_lock demo_vms = SPINLOCK_RELEASED"
    and b: "buddy_start bd = 0xD0000000" "buddy_size bd = 0x10000" "buddy_inv bd m" "buddy_free_pages bd m = {..<16}"
    "buddy_storage bd \<subseteq> region 0x8000 20" "same_outside (region 0x8000 20) (mem demo_vmm) m"
    and dj: "region 0x8000 20 \<inter> pmm_storage demo_vmm = {}" by (rule demo_vms_made)
  have memory: "mem demo_vs = m" by (simp add: eq(2))
  have sp: "space demo_vs n = None" for n
    using demo_space [of n] vm_cong(3) [of demo_vs demo_vmm] by (simp add: eq space_def split: if_splits)
  then show "space demo_vs n = None" .
  show base: "vs_base demo_vms = 0xD0000" "buddy_pages (vs_allocator demo_vms) = 16"
    by (simp_all add: vs_base_def eq b(1,2) buddy_pages_def)
  show "vs_free demo_vs demo_vms = {..<16}" using eq(1) memory b(4) by simp
  show "pmm_frames demo_vs = {0..<16} \<union> {256..<272}"
    using pmm_frame(2) [OF demo_pmm(1) b(6) dj] demo_pmm(2) by (simp add: eq)
  have "vm_inv demo_vs" using vm_inv_data [OF demo_vm_inv b(6) dj] eq by simp
  moreover have "pmm_storage demo_vs = pmm_storage demo_vmm" by (simp add: eq pmm_storage_def)
  then have "buddy_storage bd \<inter> pmm_storage demo_vs = {}" using dj b(5) by auto
  ultimately show "vs_inv demo_vs demo_vms"
    using b sp unfolding vs_inv_def eq(1,3) memory by (simp add: SPINLOCK_RELEASED_def)
qed

lemma demo_enough: "i \<le> 2 \<Longrightarrow> n \<le> 4 \<Longrightarrow> enough demo_vmm i n"
proof -
  assume i: "i \<le> 2" "n \<le> 4"
  obtain b0 b1 b2 m where d: "demo_allocs = ([b0, b1, b2], m)"
    "\<forall>r < 3. buddy_inv ([b0, b1, b2] ! r) m \<and> zone_ok r ([b0, b1, b2] ! r) \<and>
      buddy_free_pages ([b0, b1, b2] ! r) m = (if r = 0 then {} else {..<16}) \<and>
      buddy_start ([b0, b1, b2] ! r) = start (demo_zone r) \<and>
      buddy_storage ([b0, b1, b2] ! r) \<subseteq> region (of_nat (0x2000 + 0x1000 * r)) 0x1000"
    by (rule demo_allocs_spec)
  have "(2 :: nat) ^ i \<le> 2 ^ 2" using i(1) by (intro power_increasing) simp_all
  then have p: "(2 :: nat) ^ i \<le> 4" by simp
  then have "blk i 0 \<subseteq> {..<16}" by (auto simp: blk_eq)
  moreover have "buddy_free_pages (allocators demo_vmm ! PAGE_REQ_UNDER4GB) (mem demo_vmm) = {..<16}"
    using d(2) [rule_format, of 2] by (simp add: demo_vmm_def d(1) page_req_defs)
  moreover have "low_frames demo_vmm = {256..<272}" by (auto simp: low_frames_def demo_pmm(2))
  ultimately show ?thesis
    unfolding enough_def demo_pmm(2) using i(2) p by (auto intro!: exI [of _ 0])
qed

text \<open>The range lies away from the bitmaps.\<close>

lemma demo_vs_slabs: "vs_slabs demo_vs demo_vms" "enough demo_vs i n = enough demo_vmm i n"
proof -
  obtain bd m where eq: "vs_allocator demo_vms = bd" "demo_vs = demo_vmm\<lparr>mem := m\<rparr>" "vs_lock demo_vms = SPINLOCK_RELEASED"
    and b: "buddy_start bd = 0xD0000000" "buddy_size bd = 0x10000" "buddy_inv bd m" "buddy_free_pages bd m = {..<16}"
    "buddy_storage bd \<subseteq> region 0x8000 20" "same_outside (region 0x8000 20) (mem demo_vmm) m"
    and dj: "region 0x8000 20 \<inter> pmm_storage demo_vmm = {}" by (rule demo_vms_made)
  have ps: "pmm_storage demo_vs \<subseteq> region 0x2000 0x3000" using demo_storage by (simp add: eq pmm_storage_def)
  have area: "vs_area demo_vms = region 0xD0000000 0x10000" by (simp add: vs_area_def eq b(1,2) buddy_pages_def)
  have "region 0x8000 20 \<inter> region 0xD0000000 0x10000 = {}" "region 0x2000 0x3000 \<inter> region 0xD0000000 0x10000 = {}"
    using region_disjoint_offset [of "0x8000" 20 "0xD0000000" "0x10000" 0]
      region_disjoint_offset [of "0x2000" "0x3000" "0xD0000000" "0x10000" 0] by simp_all
  then have "vs_area demo_vms \<inter> (buddy_storage bd \<union> pmm_storage demo_vs) = {}" using b(5) ps unfolding area by blast
  then show "vs_slabs demo_vs demo_vms" using demo_vs(1) by (simp add: vs_slabs_def eq(1) b(1))
  from enough_data [OF demo_pmm(1) b(6) dj] show "enough demo_vs i n = enough demo_vmm i n" by (simp add: eq(2))
qed

lemma demo_room: "slab_room demo_vs demo_vms"
proof -
  have "blk 1 0 \<subseteq> {..<16}" by (auto simp: blk_eq)
  then show ?thesis using demo_enough [of 1 2] demo_vs_slabs(2) demo_vs(2) by (auto simp: slab_room_def)
qed

section \<open>A kernel heap\<close>

definition demo_heap :: kheap where
  "demo_heap = vmm.extend demo_vs \<lparr>kernel_vmspace = demo_vms,
     caches = map (\<lambda>i. snd (slab_cache_create (2 ^ (i + 3)) 0)) [0..<7]\<rparr>"

lemma demo_heap_fields:
  "mem demo_heap = mem demo_vs" "allocators demo_heap = allocators demo_vs" "pmm_lock demo_heap = pmm_lock demo_vs"
  "ptmem demo_heap = ptmem demo_vs" "cr3 demo_heap = cr3 demo_vs" "current demo_heap = current demo_vs"
  "kernel_vmspace demo_heap = demo_vms" "length (caches demo_heap) = 7"
  "i < 7 \<Longrightarrow> caches demo_heap ! i = snd (slab_cache_create (2 ^ (i + 3)) 0)"
  by (simp_all add: demo_heap_def vmm.defs)

lemma demo_heap:
  "vs_slabs demo_heap demo_vms" "pmm_frames demo_heap \<subseteq> {..<1048576}" "slab_room demo_heap demo_vms"
  "i \<le> 2 \<Longrightarrow> n \<le> 4 \<Longrightarrow> enough demo_heap i n" "vs_free demo_heap demo_vms = {..<16}"
proof -
  note c = cache_inv_cong [OF demo_heap_fields(1-6)]
  show "vs_slabs demo_heap demo_vms" using c(5) demo_vs_slabs(1) by simp
  show "pmm_frames demo_heap \<subseteq> {..<1048576}" using c(2) demo_vs(5) by auto
  show fr: "vs_free demo_heap demo_vms = {..<16}" using demo_vs(2) demo_heap_fields(1) by simp
  have e: "enough demo_heap i n" if "i \<le> 2" "n \<le> 4" for i n
    using demo_enough [OF that] demo_vs_slabs(2) enough_cong [OF demo_heap_fields(1-3)] by simp
  then show "i \<le> 2 \<Longrightarrow> n \<le> 4 \<Longrightarrow> enough demo_heap i n" .
  have "blk 1 0 \<subseteq> {..<16}" by (auto simp: blk_eq)
  then show "slab_room demo_heap demo_vms" using e [of 1 2] fr by (auto simp: slab_room_def)
qed

text \<open>The cache for 64-byte objects, before its first slab.\<close>

definition demo_cache :: slab_cache where
  "demo_cache = snd (slab_cache_create 64 0)"

lemma demo_cache:
  "vs_slabs s vms \<Longrightarrow> cache_inv s vms demo_cache [] G" "unlocked (sc_lock demo_cache)" "sc_init demo_cache = 0"
  "sc_size demo_cache = 64" "sc_empty demo_cache = 0" "live m demo_cache [] = {}"
proof -
  show f: "unlocked (sc_lock demo_cache)" "sc_init demo_cache = 0" "sc_size demo_cache = 64" "sc_empty demo_cache = 0"
    by (simp_all add: demo_cache_def slab_cache_create_def SPINLOCK_RELEASED_def)
  have "slab_fits demo_cache" using slab_sizes(1) [of demo_cache 6] f(3) by (simp add: kmalloc_consts)
  moreover have "sc_first demo_cache = 0" by (simp add: demo_cache_def slab_cache_create_def)
  ultimately show "vs_slabs s vms \<Longrightarrow> cache_inv s vms demo_cache [] G"
    using f by (simp add: cache_inv_def slab_inv_def backed_def slab_pages_def)
  show "live m demo_cache [] = {}" by (simp add: live_def)
qed

lemma demo_kcache: "kcache demo_heap 6 [] G" "klive demo_heap 6 [] = {}"
proof -
  have c: "caches demo_heap ! (6 - MIN_CACHESZ_LOG2) = demo_cache"
    using demo_heap_fields(9) [of 3] by (simp add: kmalloc_consts demo_cache_def)
  show "kcache demo_heap 6 [] G" unfolding kcache_def c demo_heap_fields(7)
    using demo_cache demo_heap(1) demo_heap_fields(8) by (simp add: kmalloc_consts)
  show "klive demo_heap 6 [] = {}" by (simp add: klive_def live_def)
qed

end
