(* ===== verification/Buddy_Run.thy ===== *)
theory Buddy_Run
  imports Page_Allocator
begin

text \<open>
  Sequences of allocations and releases: whatever a client does with the blocks it holds, no
  page is handed out twice and none is lost.
\<close>

section \<open>Runs of a client\<close>

text \<open>
  A client allocates blocks and gives back, in any order, blocks it holds. \<open>held\<close> records the
  address and size of every block it holds.
\<close>

inductive buddy_run :: "buddy \<Rightarrow> mem \<Rightarrow> mem \<Rightarrow> (u64 \<times> u32) set \<Rightarrow> bool" for bd :: buddy and m0 :: mem where
  start: "buddy_run bd m0 m0 {}"
| alloc: "buddy_run bd m0 m held \<Longrightarrow> log2_roundup sz = Inr (12 + i) \<Longrightarrow> i \<le> top_order \<Longrightarrow>
    buddy_alloc bd m sz = Inr (a, m') \<Longrightarrow> a \<noteq> NOT 0 \<Longrightarrow> buddy_run bd m0 m' (insert (a, sz) held)"
| release: "buddy_run bd m0 m held \<Longrightarrow> (a, sz) \<in> held \<Longrightarrow> buddy_free bd m a sz = Inr m' \<Longrightarrow>
    buddy_run bd m0 m' (held - {(a, sz)})"

definition block_order :: "u32 \<Rightarrow> nat" where
  "block_order sz = (case log2_roundup sz of Inr n \<Rightarrow> n - 12 | Inl e \<Rightarrow> 0)"

definition block_pages :: "buddy \<Rightarrow> u64 \<times> u32 \<Rightarrow> nat set" where
  "block_pages bd b = (let p = unat (fst b - buddy_start bd) div 4096 in {p ..< p + 2 ^ block_order (snd b)})"

definition run_inv :: "buddy \<Rightarrow> mem \<Rightarrow> mem \<Rightarrow> (u64 \<times> u32) set \<Rightarrow> bool" where
  "run_inv bd m0 m held \<longleftrightarrow> buddy_inv bd m \<and>
     (\<forall>b \<in> held. \<exists>i j. i \<le> top_order \<and> log2_roundup (snd b) = Inr (12 + i) \<and>
        fst b = page_addr bd (j * 2 ^ i) \<and> blk i j \<subseteq> managed bd \<and> block_pages bd b = blk i j) \<and>
     (\<forall>b \<in> held. \<forall>c \<in> held. b \<noteq> c \<longrightarrow> block_pages bd b \<inter> block_pages bd c = {}) \<and>
     (\<forall>b \<in> held. block_pages bd b \<inter> buddy_free_pages bd m = {}) \<and>
     buddy_free_pages bd m \<union> (\<Union>b \<in> held. block_pages bd b) = buddy_free_pages bd m0"

lemma block_pages_blk:
  assumes "buddy_wf bd" "log2_roundup sz = Inr (12 + i)" "blk i j \<subseteq> managed bd"
  shows "block_pages bd (page_addr bd (j * 2 ^ i), sz) = blk i j"
proof -
  have "j * 2 ^ i < buddy_pages bd"
    using assms(1,3) blk_nonempty [of j i] by (auto simp: managed_def)
  then have "unat (page_addr bd (j * 2 ^ i) - buddy_start bd) = j * 2 ^ i * 4096"
    using buddy_wfD(2) [OF assms(1)] by (intro page_addr_offset) simp
  then show ?thesis
    using assms(2) by (simp add: block_pages_def block_order_def blk_eq add.commute Let_def)
qed

lemma run_inv_alloc:
  assumes "run_inv bd m0 m held" "log2_roundup sz = Inr (12 + i)" "i \<le> top_order"
    "buddy_alloc bd m sz = Inr (a, m')" "a \<noteq> NOT 0"
  shows "run_inv bd m0 m' (insert (a, sz) held)"
proof -
  have inv: "buddy_inv bd m" "buddy_wf bd" using assms(1) by (simp_all add: run_inv_def buddy_inv_def)
  obtain j where j: "a = page_addr bd (j * 2 ^ i)" "blk i j \<subseteq> buddy_free_pages bd m" "buddy_inv bd m'"
      "buddy_free_pages bd m' = buddy_free_pages bd m - blk i j"
    by (rule ba.alloc_okD [OF inv(1) assms(2-5)])
  have span: "blk i j \<subseteq> managed bd" using j(2) ba.avail_span [OF inv(1)] by blast
  have pages: "block_pages bd (a, sz) = blk i j"
    unfolding j(1) by (rule block_pages_blk [OF inv(2) assms(2) span])
  then show ?thesis
    using assms(1-3) j span unfolding run_inv_def by (auto 4 4)
qed

lemma run_inv_release:
  assumes "run_inv bd m0 m held" "(a, sz) \<in> held"
  shows "\<exists>m'. buddy_free bd m a sz = Inr m' \<and> run_inv bd m0 m' (held - {(a, sz)})"
proof -
  have inv: "buddy_inv bd m" using assms(1) by (simp add: run_inv_def)
  obtain i j where b: "i \<le> top_order" "log2_roundup sz = Inr (12 + i)" "a = page_addr bd (j * 2 ^ i)"
      "blk i j \<subseteq> managed bd" "block_pages bd (a, sz) = blk i j"
    using assms unfolding run_inv_def by fastforce
  have "blk i j \<inter> buddy_free_pages bd m = {}" using assms b(5) unfolding run_inv_def by fastforce
  from ba.release_law [OF inv b(2,1,4) this] obtain m' where m': "buddy_free bd m a sz = Inr m'"
      "buddy_inv bd m'" "buddy_free_pages bd m' = buddy_free_pages bd m \<union> block_pages bd (a, sz)"
    using b(3,5) by auto
  moreover have "run_inv bd m0 m' (held - {(a, sz)})"
    using assms m'(2,3) unfolding run_inv_def by (auto 4 4)
  ultimately show ?thesis by blast
qed

lemma buddy_run_inv: "buddy_run bd m0 m held \<Longrightarrow> buddy_inv bd m0 \<Longrightarrow> run_inv bd m0 m held"
proof (induction rule: buddy_run.induct)
  case start
  then show ?case by (simp add: run_inv_def)
next
  case (alloc m held sz i a m')
  then show ?case by (blast intro: run_inv_alloc)
next
  case (release m held a sz m')
  then show ?case using run_inv_release [of bd m0 m held a sz] by auto
qed
end
