(* ===== verification/Features.thy ===== *)
theory Features
  imports Printk
begin

text \<open>
  Kernel start-up: \<^verbatim>\<open>kmain.c\<close> and the feature structures of \<^verbatim>\<open>include/hal.h\<close>. The linker collects
  the features of the kernel in one section; a pointer to a feature is its index there. Their
  \<^verbatim>\<open>init\<close> functions are part of the section, on the state of the consoles and the machine.
\<close>

section \<open>State\<close>

datatype feature_state = FEATURE_UNINIT | FEATURE_RESOLVED | FEATURE_INIT

text \<open>The code compares states with \<open>\<ge>\<close>, in the order of the enumeration.\<close>

fun state_rank :: "feature_state \<Rightarrow> nat" where
  "state_rank FEATURE_UNINIT = 0"
| "state_rank FEATURE_RESOLVED = 1"
| "state_rank FEATURE_INIT = 2"

instantiation feature_state :: linorder
begin

definition less_eq_feature_state :: "feature_state \<Rightarrow> feature_state \<Rightarrow> bool" where
  "less_eq_feature_state a b \<longleftrightarrow> state_rank a \<le> state_rank b"

definition less_feature_state :: "feature_state \<Rightarrow> feature_state \<Rightarrow> bool" where
  "less_feature_state a b \<longleftrightarrow> state_rank a < state_rank b"

instance
proof
  fix a b :: feature_state
  show "a \<le> b \<Longrightarrow> b \<le> a \<Longrightarrow> a = b"
    by (cases a; cases b) (simp_all add: less_eq_feature_state_def)
qed (auto simp: less_eq_feature_state_def less_feature_state_def)

end

record feature_prereq =
  pr_name :: string
  pr_feature :: "nat option"

record 'a ksys =
  consoles :: "'a machine_scheme console_t list"
  dev :: "'a machine_scheme"

text \<open>A null pointer is \<open>None\<close>; the list behind a pointer ends before its null entry.\<close>

record 'a feature =
  f_name :: string
  required :: "feature_prereq list option"
  load_after :: "feature_prereq list option"
  f_init :: "('a ksys \<Rightarrow> (int \<times> 'a ksys) res) option"
  f_state :: feature_state

section \<open>Console output of kmain.c\<close>

definition kprintk :: "string \<Rightarrow> va list \<Rightarrow> 'a ksys \<Rightarrow> 'a ksys res" where
  "kprintk fmt args k = bind_res (printk (consoles k) fmt args (dev k)) (\<lambda>s. Inr (k\<lparr>dev := s\<rparr>))"

definition kwritestring :: "string \<Rightarrow> 'a ksys \<Rightarrow> 'a ksys res" where
  "kwritestring str k = bind_res (console_writestring (consoles k) str (dev k)) (\<lambda>s. Inr (k\<lparr>dev := s\<rparr>))"

definition ksetcolor :: "u8 \<Rightarrow> 'a ksys \<Rightarrow> 'a ksys" where
  "ksetcolor color k = k\<lparr>dev := console_setcolor (consoles k) color (dev k)\<rparr>"

definition greybox :: "string \<Rightarrow> u8 \<Rightarrow> bool \<Rightarrow> 'a ksys \<Rightarrow> 'a ksys res" where
  "greybox msg color newline k =
     (let oldcol = console_getcolor (consoles k) (dev k);
          k = ksetcolor (make_color COLOR_DARK_GREY COLOR_BLACK) k
      in bind_res (kwritestring ''['' k) (\<lambda>k.
         bind_res (kwritestring msg (ksetcolor color k)) (\<lambda>k.
         bind_res (kwritestring (if newline then '']'' @ [CHR 0x0A] else '']'')
             (ksetcolor (make_color COLOR_DARK_GREY COLOR_BLACK) k)) (\<lambda>k.
         Inr (ksetcolor oldcol k)))))"

definition MINK_VERSION :: string where "MINK_VERSION = ''0.1.1''"

definition minklogo :: "'a ksys \<Rightarrow> 'a ksys res" where
  "minklogo k =
     bind_res (kprintk ''M'' [] (ksetcolor (make_color COLOR_WHITE COLOR_BLACK) k)) (\<lambda>k.
     bind_res (kprintk ''i'' [] (ksetcolor (make_color COLOR_LIGHT_GREY COLOR_BLACK) k)) (\<lambda>k.
     bind_res (kprintk ''NK '' [] (ksetcolor (make_color COLOR_WHITE COLOR_BLACK) k)) (\<lambda>k.
     kprintk (''v'' @ MINK_VERSION @ [CHR 0x0A, CHR 0x0A]) []
       (ksetcolor (make_color COLOR_LIGHT_GREY COLOR_BLACK) k))))"

text \<open>
  The command line, built with \<^verbatim>\<open>KDEBUG_ENABLED\<close> or without. The result is \<^verbatim>\<open>KDEBUG\<close>. The
  second test of the loop has an empty body.
\<close>

fun process_args :: "bool \<Rightarrow> string list \<Rightarrow> bool \<Rightarrow> bool" where
  "process_args enabled [] KDEBUG = KDEBUG"
| "process_args enabled (a # argv) KDEBUG =
     process_args enabled argv (if enabled \<and> strcmp ''debug'' a \<noteq> 0 then True else KDEBUG)"

section \<open>Features\<close>

fun find_feature_from :: "nat \<Rightarrow> 'a feature list \<Rightarrow> string \<Rightarrow> nat option" where
  "find_feature_from i [] name = None"
| "find_feature_from i (f # fs) name =
     (if strcmp name (f_name f) = 0 then Some i else find_feature_from (i + 1) fs name)"

definition find_feature :: "'a feature list \<Rightarrow> string \<Rightarrow> nat option" where
  "find_feature fs name = find_feature_from 0 fs name"

definition resolve_prereqs :: "'a feature list \<Rightarrow> feature_prereq list option \<Rightarrow> feature_prereq list option" where
  "resolve_prereqs fs ps = map_option (map (\<lambda>p. p\<lparr>pr_feature := find_feature fs (pr_name p)\<rparr>)) ps"

definition resolve_feature :: "'a feature list \<Rightarrow> 'a feature \<Rightarrow> 'a feature" where
  "resolve_feature fs m =
     (if FEATURE_RESOLVED \<le> f_state m then m
      else m\<lparr>required := resolve_prereqs fs (required m),
             load_after := resolve_prereqs fs (load_after m),
             f_state := FEATURE_RESOLVED\<rparr>)"

text \<open>The end of \<^verbatim>\<open>init_feature\<close>: the message, the feature's own function and its verdict.\<close>

definition start_feature :: "'a feature \<Rightarrow> 'a ksys \<Rightarrow> 'a ksys res" where
  "start_feature m k =
     bind_res (kprintk ''Starting %s... '' [VStr (f_name m)] k) (\<lambda>k.
       case f_init m of
         None \<Rightarrow> Inr k
       | Some init \<Rightarrow> bind_res (init k) (\<lambda>(r, k).
           if r \<noteq> 0 then greybox ''OK'' (make_color COLOR_LIGHT_GREEN COLOR_BLACK) True k
           else panics (mem (dev k)) ''Feature %s failed to start'' [VStr (f_name m)]))"

text \<open>
  \<^verbatim>\<open>init_feature\<close> and its two loops. The first argument bounds the depth of the recursion;
  section \<open>Fuel\<close> below shows that the number of features is enough of it.
\<close>

fun init_feature :: "nat \<Rightarrow> nat \<Rightarrow> 'a feature list \<times> 'a ksys \<Rightarrow> ('a feature list \<times> 'a ksys) res"
  and init_required ::
    "nat \<Rightarrow> 'a feature \<Rightarrow> feature_prereq list \<Rightarrow> 'a feature list \<times> 'a ksys \<Rightarrow> ('a feature list \<times> 'a ksys) res"
  and init_after ::
    "nat \<Rightarrow> feature_prereq list \<Rightarrow> 'a feature list \<times> 'a ksys \<Rightarrow> ('a feature list \<times> 'a ksys) res"
where
  "init_feature 0 i st = Inl Hang"
| "init_feature (Suc n) i (fs, k) =
     (let m = fs ! i
      in if FEATURE_INIT \<le> f_state m then Inr (fs, k)
         else let m = m\<lparr>f_state := FEATURE_INIT\<rparr>; fs = fs[i := m]
              in bind_res (case required m of None \<Rightarrow> Inr (fs, k)
                           | Some ps \<Rightarrow> init_required n m ps (fs, k)) (\<lambda>st.
                 bind_res (case load_after m of None \<Rightarrow> Inr st | Some ps \<Rightarrow> init_after n ps st) (\<lambda>(fs, k).
                 bind_res (start_feature m k) (\<lambda>k. Inr (fs, k)))))"
| "init_required n m [] st = Inr st"
| "init_required n m (p # ps) st =
     (case pr_feature p of
        None \<Rightarrow> panics (mem (dev (snd st))) ''Feature %s not found (Required by %s) ''
                  [VStr (pr_name p), VStr (f_name m)]
      | Some j \<Rightarrow> bind_res (init_feature n j st) (init_required n m ps))"
| "init_after n [] st = Inr st"
| "init_after n (p # ps) st =
     (case pr_feature p of
        None \<Rightarrow> init_after n ps st
      | Some j \<Rightarrow> bind_res (init_feature n j st) (init_after n ps))"

fun init_each :: "nat \<Rightarrow> nat list \<Rightarrow> 'a feature list \<times> 'a ksys \<Rightarrow> ('a feature list \<times> 'a ksys) res" where
  "init_each n [] st = Inr st"
| "init_each n (i # is) st = bind_res (init_feature n i st) (init_each n is)"

definition init_features :: "'a feature list \<Rightarrow> 'a ksys \<Rightarrow> ('a feature list \<times> 'a ksys) res" where
  "init_features fs k =
     (let fs = map (\<lambda>m. m\<lparr>f_state := FEATURE_UNINIT\<rparr>) fs;
          fs = map (resolve_feature fs) fs
      in init_each (length fs + 1) [0..<length fs] (fs, k))"

definition kmain ::
    "bool \<Rightarrow> string list \<Rightarrow> 'a feature list \<Rightarrow> 'a ksys \<Rightarrow> (bool \<times> 'a feature list \<times> 'a ksys) res" where
  "kmain enabled argv fs k =
     bind_res (minklogo k) (\<lambda>k.
     let KDEBUG = process_args enabled argv False
     in bind_res (kprintk (''Starting platform features... '' @ [CHR 0x0A]) [] k) (\<lambda>k.
     bind_res (init_features fs k) (\<lambda>(fs, k).
     bind_res (kprintk (''Platform is up.'' @ [CHR 0x0A]) [] k) (\<lambda>k.
     bind_res (kprintk ''Reticulating splines... '' [] k) (\<lambda>k.
     bind_res (greybox ''OK'' (make_color COLOR_LIGHT_GREEN COLOR_BLACK) True k) (\<lambda>k.
     bind_res (kprintk ''Enabling interrupts... '' [] k) (\<lambda>k.
     let k = k\<lparr>dev := enable_interrupts (dev k)\<rparr>
     in bind_res (greybox ''OK'' (make_color COLOR_LIGHT_GREEN COLOR_BLACK) True k) (\<lambda>k.
     bind_res (kprintk (''Kernel is up; Going idle.'' @ [CHR 0x0A]) [] k) (\<lambda>k.
     Inr (KDEBUG, fs, k))))))))))"

end
