(* ===== verification/Features_Order.thy ===== *)
theory Features_Order
  imports Features
begin

text \<open>
  What \<^verbatim>\<open>init_features\<close> does, as a depth-first search: a pure function computes the sequence in
  which features are started, and the code runs exactly that sequence. The search visits every
  feature once, and on prerequisites without a cycle it starts each feature after those it
  depends on.
\<close>

section \<open>The search\<close>

datatype act = Start nat | Missing nat feature_prereq | Stuck

definition prereqs :: "feature_prereq list option \<Rightarrow> feature_prereq list" where
  "prereqs ps = (case ps of None \<Rightarrow> [] | Some ps \<Rightarrow> ps)"

definition edges :: "'a feature \<Rightarrow> (bool \<times> feature_prereq) list" where
  "edges m = map (Pair True) (prereqs (required m)) @
     map (Pair False) (prereqs (load_after m))"

fun dfs_feature :: "'a feature list \<Rightarrow> nat \<Rightarrow> nat \<Rightarrow> nat list \<Rightarrow> nat list \<times> act list"
  and dfs_edges ::
    "'a feature list \<Rightarrow> nat \<Rightarrow> nat \<Rightarrow> (bool \<times> feature_prereq) list \<Rightarrow> nat list \<Rightarrow> nat list \<times> act list"
where
  "dfs_feature fs 0 i vis = (vis, [Stuck])"
| "dfs_feature fs (Suc n) i vis =
     (if i \<in> set vis then (vis, [])
      else let (v, a) = dfs_edges fs n i (edges (fs ! i)) (i # vis) in (v, a @ [Start i]))"
| "dfs_edges fs n i [] vis = (vis, [])"
| "dfs_edges fs n i (e # es) vis =
     (case pr_feature (snd e) of
        None \<Rightarrow> let (v, a) = dfs_edges fs n i es vis
                in (v, (if fst e then [Missing i (snd e)] else []) @ a)
      | Some j \<Rightarrow> let (v, a) = dfs_feature fs n j vis; (v', a') = dfs_edges fs n i es v in (v', a @ a'))"

fun dfs_each :: "'a feature list \<Rightarrow> nat \<Rightarrow> nat list \<Rightarrow> nat list \<Rightarrow> nat list \<times> act list" where
  "dfs_each fs n [] vis = (vis, [])"
| "dfs_each fs n (i # is) vis =
     (let (v, a) = dfs_feature fs n i vis; (v', a') = dfs_each fs n is v in (v', a @ a'))"

lemma dfs_edges_append:
  "dfs_edges fs n i (es @ es') vis =
     (let (v, a) = dfs_edges fs n i es vis; (v', a') = dfs_edges fs n i es' v in (v', a @ a'))"
  by (induction es arbitrary: vis) (auto simp: Let_def split: option.splits prod.splits)

section \<open>Running the sequence\<close>

fun run_acts :: "'a feature list \<Rightarrow> act list \<Rightarrow> 'a ksys \<Rightarrow> 'a ksys res" where
  "run_acts fs [] k = Inr k"
| "run_acts fs (Start i # as) k = bind_res (start_feature (fs ! i) k) (run_acts fs as)"
| "run_acts fs (Missing i p # as) k =
     panics (mem (dev k)) ''Feature %s not found (Required by %s) '' [VStr (pr_name p), VStr (f_name (fs ! i))]"
| "run_acts fs (Stuck # as) k = Inl Hang"

lemma panics_not_Inr: "panics m fmt args \<noteq> Inr k"
  by (auto simp: panics_def bind_res_eq_Inr)

lemma bind_panics: "bind_res (panics m fmt args) f = panics m fmt args"
  by (cases "format_1024 m fmt args") (auto simp: panics_def)

lemma run_acts_append: "run_acts fs (a @ b) k = bind_res (run_acts fs a k) (run_acts fs b)"
  by (induction fs a k rule: run_acts.induct)
    (simp_all add: bind_res_assoc bind_panics cong: bind_res_cong)

lemma run_acts_returns:
  "run_acts fs as k = Inr k' \<Longrightarrow> x \<in> set as \<Longrightarrow> \<exists>i. x = Start i"
proof (induction fs as k rule: run_acts.induct)
  case (3 fs i p as k)
  then show ?case by (simp add: panics_not_Inr)
qed (auto simp: bind_res_eq_Inr)

text \<open>The section as it stands when the features of \<open>vis\<close> have been marked.\<close>

definition mark :: "'a feature list \<Rightarrow> nat list \<Rightarrow> 'a feature list" where
  "mark fs vis = map (\<lambda>i. if i \<in> set vis then (fs ! i)\<lparr>f_state := FEATURE_INIT\<rparr> else fs ! i) [0..<length fs]"

definition resolved :: "'a feature list \<Rightarrow> bool" where
  "resolved fs \<longleftrightarrow> (\<forall>m \<in> set fs. f_state m = FEATURE_RESOLVED \<and>
     (\<forall>e \<in> set (edges m). \<forall>j. pr_feature (snd e) = Some j \<longrightarrow> j < length fs))"

lemma length_mark [simp]: "length (mark fs vis) = length fs"
  by (simp add: mark_def)

lemma mark_nth:
  "i < length fs \<Longrightarrow> mark fs vis ! i = (if i \<in> set vis then (fs ! i)\<lparr>f_state := FEATURE_INIT\<rparr> else fs ! i)"
  by (simp add: mark_def)

lemma mark_Cons: "i < length fs \<Longrightarrow> (mark fs vis)[i := (fs ! i)\<lparr>f_state := FEATURE_INIT\<rparr>] = mark fs (i # vis)"
  by (rule nth_equalityI) (auto simp: mark_nth nth_list_update)

lemma start_feature_state: "start_feature (m\<lparr>f_state := x\<rparr>) = start_feature m"
  by (rule ext) (simp add: start_feature_def cong: option.case_cong if_cong)

lemma not_init: "\<not> FEATURE_INIT \<le> FEATURE_RESOLVED"
  by (simp add: less_eq_feature_state_def)

definition edge_ok :: "'a feature list \<Rightarrow> bool \<times> feature_prereq \<Rightarrow> bool" where
  "edge_ok fs e \<longleftrightarrow> (\<forall>j. pr_feature (snd e) = Some j \<longrightarrow> j < length fs)"

text \<open>What a run of the code from a marked section amounts to.\<close>

definition runs_as ::
    "'a feature list \<Rightarrow> nat list \<times> act list \<Rightarrow> 'a ksys \<Rightarrow> ('a feature list \<times> 'a ksys) res" where
  "runs_as fs va k = bind_res (run_acts fs (snd va) k) (\<lambda>k. Inr (mark fs (fst va), k))"

lemma runs_as_bind:
  assumes "\<And>k. f (mark fs v, k) = runs_as fs (v', a') k"
  shows "bind_res (runs_as fs (v, a) k) f = runs_as fs (v', a @ a') k"
  using assms by (simp add: runs_as_def run_acts_append bind_res_assoc)

lemma loops_run_as:
  assumes "\<And>i vis k. i < length fs \<Longrightarrow> init_feature n i (mark fs vis, k) = runs_as fs (dfs_feature fs n i vis) k"
    and "\<forall>p \<in> set ps. \<forall>j. pr_feature p = Some j \<longrightarrow> j < length fs"
  shows "init_required n ((fs ! i)\<lparr>f_state := FEATURE_INIT\<rparr>) ps (mark fs vis, k) = runs_as fs (dfs_edges fs n i (map (Pair True) ps) vis) k"
    and "init_after n ps (mark fs vis, k) = runs_as fs (dfs_edges fs n i (map (Pair False) ps) vis) k"
proof -
  show "init_required n ((fs ! i)\<lparr>f_state := FEATURE_INIT\<rparr>) ps (mark fs vis, k)
      = runs_as fs (dfs_edges fs n i (map (Pair True) ps) vis) k"
    using assms(2)
  proof (induction ps arbitrary: vis k)
    case (Cons p ps)
    show ?case
    proof (cases "pr_feature p")
      case None
      then show ?thesis
        by (simp add: runs_as_def bind_panics split: prod.split)
    next
      case (Some j)
      obtain v a where 1: "dfs_feature fs n j vis = (v, a)" by force
      obtain v' a' where 2: "dfs_edges fs n i (map (Pair True) ps) v = (v', a')" by force
      have "bind_res (runs_as fs (v, a) k) (init_required n ((fs ! i)\<lparr>f_state := FEATURE_INIT\<rparr>) ps) = runs_as fs (v', a @ a') k"
        by (rule runs_as_bind) (use Cons 2 in simp)
      then show ?thesis using Some Cons.prems assms(1) 1 2 by simp
    qed
  qed (simp add: runs_as_def)
  show "init_after n ps (mark fs vis, k) = runs_as fs (dfs_edges fs n i (map (Pair False) ps) vis) k"
    using assms(2)
  proof (induction ps arbitrary: vis k)
    case (Cons p ps)
    show ?case
    proof (cases "pr_feature p")
      case None
      then show ?thesis using Cons by (simp split: prod.split)
    next
      case (Some j)
      obtain v a where 1: "dfs_feature fs n j vis = (v, a)" by force
      obtain v' a' where 2: "dfs_edges fs n i (map (Pair False) ps) v = (v', a')" by force
      have "bind_res (runs_as fs (v, a) k) (init_after n ps) = runs_as fs (v', a @ a') k"
        by (rule runs_as_bind) (use Cons 2 in simp)
      then show ?thesis using Some Cons.prems assms(1) 1 2 by simp
    qed
  qed (simp add: runs_as_def)
qed

lemma init_feature_runs_as:
  assumes "resolved fs" "i < length fs"
  shows "init_feature n i (mark fs vis, k) = runs_as fs (dfs_feature fs n i vis) k"
  using assms(2)
proof (induction n arbitrary: i vis k)
  case 0
  then show ?case by (simp add: runs_as_def)
next
  case (Suc n)
  let ?m = "(fs ! i)\<lparr>f_state := FEATURE_INIT\<rparr>"
  have st: "f_state (fs ! i) = FEATURE_RESOLVED"
    using assms(1) Suc.prems by (auto simp: resolved_def)
  show ?case
  proof (cases "i \<in> set vis")
    case True
    then show ?thesis using Suc.prems by (simp add: mark_nth runs_as_def)
  next
    case False
    define rs where "rs = prereqs (required (fs ! i))"
    define ls where "ls = prereqs (load_after (fs ! i))"
    have e: "\<forall>e \<in> set (edges (fs ! i)). \<forall>j. pr_feature (snd e) = Some j \<longrightarrow> j < length fs"
      using assms(1) nth_mem [OF Suc.prems] unfolding resolved_def by blast
    have ok: "\<forall>p \<in> set rs. \<forall>j. pr_feature p = Some j \<longrightarrow> j < length fs"
      "\<forall>p \<in> set ls. \<forall>j. pr_feature p = Some j \<longrightarrow> j < length fs"
      using e unfolding edges_def rs_def ls_def by force+
    obtain v a where 1: "dfs_edges fs n i (map (Pair True) rs) (i # vis) = (v, a)" by force
    obtain v' a' where 2: "dfs_edges fs n i (map (Pair False) ls) v = (v', a')" by force
    have r: "(case required (fs ! i) of None \<Rightarrow> Inr ((mark fs vis)[i := ?m], k)
        | Some ps \<Rightarrow> init_required n ?m ps ((mark fs vis)[i := ?m], k)) = runs_as fs (v, a) k" for k
      using loops_run_as(1) [OF Suc.IH ok(1), of i "i # vis" k] 1
      unfolding mark_Cons [OF Suc.prems]
      by (cases "required (fs ! i)") (simp_all add: rs_def prereqs_def)
    have l: "(case load_after ?m of None \<Rightarrow> Inr (mark fs v, k)
        | Some ps \<Rightarrow> init_after n ps (mark fs v, k)) = runs_as fs (v', a') k" for k
      using loops_run_as(2) [OF Suc.IH ok(2), of v k i] 2
      by (cases "load_after (fs ! i)") (simp_all add: ls_def prereqs_def)
    have s: "bind_res (start_feature ?m k) (\<lambda>k. Inr (mark fs v', k)) = runs_as fs (v', [Start i]) k" for k
      by (simp add: runs_as_def start_feature_state bind_res_assoc)
    have "init_feature (Suc n) i (mark fs vis, k) = bind_res (runs_as fs (v, a) k) (\<lambda>st.
        bind_res (case load_after ?m of None \<Rightarrow> Inr st | Some ps \<Rightarrow> init_after n ps st) (\<lambda>(fs, k).
        bind_res (start_feature ?m k) (\<lambda>k. Inr (fs, k))))"
      using False Suc.prems st not_init
      by (simp add: mark_nth r Let_def)
    also have "\<dots> = runs_as fs (v', a @ a' @ [Start i]) k"
      by (rule runs_as_bind) (simp only: l, rule runs_as_bind, simp only: prod.case s)
    finally show ?thesis
      using False 1 2 by (simp add: edges_def dfs_edges_append rs_def ls_def)
  qed
qed

lemma init_each_runs_as:
  assumes "resolved fs" "\<forall>i \<in> set is. i < length fs"
  shows "init_each n is (mark fs vis, k) = runs_as fs (dfs_each fs n is vis) k"
  using assms(2)
proof (induction "is" arbitrary: vis k)
  case (Cons i "is")
  obtain v a where 1: "dfs_feature fs n i vis = (v, a)" by force
  obtain v' a' where 2: "dfs_each fs n is v = (v', a')" by force
  have "bind_res (runs_as fs (v, a) k) (init_each n is) = runs_as fs (v', a @ a') k"
    by (rule runs_as_bind) (use Cons 2 in simp)
  then show ?case using 1 2 Cons.prems init_feature_runs_as [OF assms(1)] by simp
qed (simp add: runs_as_def)

section \<open>What the search visits\<close>

fun starts :: "act list \<Rightarrow> nat list" where
  "starts [] = []"
| "starts (Start i # as) = i # starts as"
| "starts (Missing i p # as) = starts as"
| "starts (Stuck # as) = starts as"

lemma starts_append [simp]: "starts (a @ b) = starts a @ starts b"
  by (induction a rule: starts.induct) auto

text \<open>The features that are not marked yet; the search never goes deeper than their number.\<close>

definition unmarked :: "'a feature list \<Rightarrow> nat list \<Rightarrow> nat" where
  "unmarked fs vis = card ({..<length fs} - set vis)"

lemma unmarked_mono: "set vis \<subseteq> set v \<Longrightarrow> unmarked fs v \<le> unmarked fs vis"
  unfolding unmarked_def by (rule card_mono) auto

lemma unmarked_Cons: "i < length fs \<Longrightarrow> i \<notin> set vis \<Longrightarrow> unmarked fs (i # vis) < unmarked fs vis"
  unfolding unmarked_def by (rule psubset_card_mono) auto

text \<open>
  From the features \<open>vis\<close> already marked, the search marks those it starts, starts none twice
  and none that was marked, and reports every hard prerequisite that is missing.
\<close>

definition visits :: "'a feature list \<Rightarrow> nat list \<Rightarrow> nat list \<times> act list \<Rightarrow> bool" where
  "visits fs vis va \<longleftrightarrow> set (fst va) = set vis \<union> set (starts (snd va)) \<and>
     distinct (starts (snd va)) \<and> set (starts (snd va)) \<inter> set vis = {} \<and>
     set (starts (snd va)) \<subseteq> {..<length fs} \<and> Stuck \<notin> set (snd va)"

lemma visits_trans:
  assumes "visits fs vis (v, a)" "visits fs v (v', a')"
  shows "visits fs vis (v', a @ a')"
  using assms by (auto simp: visits_def)

lemma visits_refl: "visits fs vis (vis, [])"
  by (simp add: visits_def)

lemma visits_Missing: "visits fs vis (v, a) \<Longrightarrow> visits fs vis (v, Missing i p # a)"
  by (simp add: visits_def)

lemma visits_unmarked: "visits fs vis (v, a) \<Longrightarrow> unmarked fs v \<le> unmarked fs vis"
  by (rule unmarked_mono) (auto simp: visits_def)

lemma dfs_edges_visits:
  assumes "\<And>i vis. i < length fs \<Longrightarrow> unmarked fs vis < n \<Longrightarrow>
      visits fs vis (dfs_feature fs n i vis) \<and> i \<in> set (fst (dfs_feature fs n i vis))"
    and "\<forall>e \<in> set es. edge_ok fs e" "unmarked fs vis < n"
  shows "visits fs vis (dfs_edges fs n i es vis)"
  using assms(2,3)
proof (induction es arbitrary: vis)
  case (Cons e es)
  show ?case
  proof (cases "pr_feature (snd e)")
    case None
    obtain v a where va: "dfs_edges fs n i es vis = (v, a)" by force
    then have "visits fs vis (v, a)" using Cons.IH [of vis] Cons.prems by simp
    then show ?thesis using None va visits_Missing by auto
  next
    case (Some j)
    then have j: "j < length fs" using Cons.prems by (simp add: edge_ok_def)
    obtain v a where 1: "dfs_feature fs n j vis = (v, a)" by force
    have va: "visits fs vis (v, a)" using assms(1) [OF j Cons.prems(2)] 1 by simp
    then have "visits fs v (dfs_edges fs n i es v)"
      using Cons visits_unmarked [OF va] by simp
    then show ?thesis
      using Some 1 visits_trans [OF va] by (auto split: prod.split)
  qed
qed (simp add: visits_refl)

lemma resolved_edges: "resolved fs \<Longrightarrow> i < length fs \<Longrightarrow> e \<in> set (edges (fs ! i)) \<Longrightarrow> edge_ok fs e"
  unfolding resolved_def edge_ok_def using nth_mem by blast

lemma dfs_visits:
  assumes "resolved fs" "i < length fs" "unmarked fs vis < n"
  shows "visits fs vis (dfs_feature fs n i vis) \<and> i \<in> set (fst (dfs_feature fs n i vis))"
  using assms(2,3)
proof (induction n arbitrary: i vis)
  case (Suc n)
  show ?case
  proof (cases "i \<in> set vis")
    case True
    then show ?thesis by (simp add: visits_refl)
  next
    case False
    obtain v a where va: "dfs_edges fs n i (edges (fs ! i)) (i # vis) = (v, a)" by force
    have "unmarked fs (i # vis) < n"
      using unmarked_Cons [OF Suc.prems(1) False] Suc.prems(2) by simp
    then have "visits fs (i # vis) (v, a)"
      using dfs_edges_visits [OF Suc.IH] resolved_edges [OF assms(1) Suc.prems(1)] va by metis
    then show ?thesis
      using False va Suc.prems(1) by (auto simp: visits_def)
  qed
qed simp

lemma dfs_each_visits:
  assumes "resolved fs" "\<forall>i \<in> set is. i < length fs" "unmarked fs vis < n"
  shows "visits fs vis (dfs_each fs n is vis) \<and> set is \<subseteq> set (fst (dfs_each fs n is vis))"
  using assms(2,3)
proof (induction "is" arbitrary: vis)
  case (Cons i "is")
  obtain v a where va: "dfs_feature fs n i vis = (v, a)" by force
  obtain v' a' where va': "dfs_each fs n is v = (v', a')" by force
  have 1: "visits fs vis (v, a)" "i \<in> set v"
    using dfs_visits [OF assms(1), of i vis n] Cons.prems va by simp_all
  have 2: "visits fs v (v', a')" "set is \<subseteq> set v'"
    using Cons.IH [of v] Cons.prems va' visits_unmarked [OF 1(1)] by auto
  show ?case
    using va va' visits_trans [OF 1(1) 2(1)] 1(2) 2 by (auto simp: visits_def)
qed (simp add: visits_refl)

section \<open>Missing prerequisites\<close>

definition missing :: "'a feature list \<Rightarrow> act list \<Rightarrow> bool" where
  "missing fs as \<longleftrightarrow> (\<forall>i \<in> set (starts as). \<forall>p. (True, p) \<in> set (edges (fs ! i)) \<longrightarrow>
     pr_feature p = None \<longrightarrow> Missing i p \<in> set as)"

lemma missing_append: "missing fs a \<Longrightarrow> missing fs b \<Longrightarrow> missing fs (a @ b)"
  by (auto simp: missing_def)

lemma missing_Missing: "missing fs a \<Longrightarrow> missing fs (Missing i p # a)"
  by (auto simp: missing_def)

lemma dfs_edges_missing:
  assumes "\<And>i vis. missing fs (snd (dfs_feature fs n i vis))"
  shows "missing fs (snd (dfs_edges fs n i es vis)) \<and>
    (\<forall>p. (True, p) \<in> set es \<longrightarrow> pr_feature p = None \<longrightarrow> Missing i p \<in> set (snd (dfs_edges fs n i es vis)))"
proof (induction es arbitrary: vis)
  case Nil
  then show ?case by (simp add: missing_def)
next
  case (Cons e es)
  show ?case
  proof (cases "pr_feature (snd e)")
    case None
    then show ?thesis using Cons [of vis] missing_Missing by (auto split: prod.split)
  next
    case (Some j)
    obtain v a where va: "dfs_feature fs n j vis = (v, a)" by force
    then have "missing fs a" using assms [of j vis] by simp
    then show ?thesis using Some va Cons [of v] missing_append by (auto split: prod.split)
  qed
qed

lemma dfs_missing: "missing fs (snd (dfs_feature fs n i vis))"
proof (induction n arbitrary: i vis)
  case 0
  then show ?case by (simp add: missing_def)
next
  case (Suc n)
  show ?case
    using dfs_edges_missing [OF Suc.IH, of i "edges (fs ! i)" "i # vis"]
    by (auto simp: missing_def split: prod.split)
qed

lemma dfs_each_missing: "missing fs (snd (dfs_each fs n is vis))"
proof (induction "is" arbitrary: vis)
  case (Cons i "is")
  obtain v a where va: "dfs_feature fs n i vis = (v, a)" by force
  then have "missing fs a" using dfs_missing [of fs n i vis] by simp
  then show ?case using va Cons [of v] missing_append by (auto split: prod.split)
qed (simp add: missing_def)

section \<open>The order\<close>

definition deps :: "'a feature \<Rightarrow> nat set" where
  "deps m = {j. \<exists>e \<in> set (edges m). pr_feature (snd e) = Some j}"

text \<open>Every start comes after the starts of the features it depends on, or after \<open>F\<close>.\<close>

fun ordered :: "'a feature list \<Rightarrow> nat set \<Rightarrow> act list \<Rightarrow> bool" where
  "ordered fs F [] = True"
| "ordered fs F (Start i # as) = (deps (fs ! i) \<subseteq> F \<and> ordered fs (insert i F) as)"
| "ordered fs F (Missing i p # as) = ordered fs F as"
| "ordered fs F (Stuck # as) = ordered fs F as"

lemma ordered_append:
  "ordered fs F (a @ b) \<longleftrightarrow> ordered fs F a \<and> ordered fs (F \<union> set (starts a)) b"
  by (induction fs F a rule: ordered.induct) auto

text \<open>
  The features between \<open>F\<close>, which are started, and \<open>vis\<close>, which are marked, are those the search
  is in the middle of. When prerequisites have smaller ranks, no prerequisite is among them.
\<close>

definition acyclic_by :: "(nat \<Rightarrow> nat) \<Rightarrow> 'a feature list \<Rightarrow> bool" where
  "acyclic_by rank fs \<longleftrightarrow> (\<forall>i < length fs. \<forall>j \<in> deps (fs ! i). rank j < rank i)"

definition search_inv :: "(nat \<Rightarrow> nat) \<Rightarrow> nat \<Rightarrow> nat set \<Rightarrow> nat list \<Rightarrow> bool" where
  "search_inv rank r F vis \<longleftrightarrow> F \<subseteq> set vis \<and> (\<forall>u \<in> set vis - F. r \<le> rank u)"

lemma search_inv_visits:
  "search_inv rank r F vis \<Longrightarrow> visits fs vis (v, a) \<Longrightarrow> search_inv rank r (F \<union> set (starts a)) v"
  by (auto simp: search_inv_def visits_def)

lemma dfs_edges_ordered:
  assumes "resolved fs" "\<And>j vis F. j < length fs \<Longrightarrow> unmarked fs vis < n \<Longrightarrow>
      search_inv rank (Suc (rank j)) F vis \<Longrightarrow> ordered fs F (snd (dfs_feature fs n j vis))"
    and "\<forall>e \<in> set es. edge_ok fs e \<and> (\<forall>j. pr_feature (snd e) = Some j \<longrightarrow> rank j < r)"
    and "unmarked fs vis < n" "search_inv rank r F vis"
  shows "ordered fs F (snd (dfs_edges fs n i es vis)) \<and>
    (\<forall>e \<in> set es. \<forall>j. pr_feature (snd e) = Some j \<longrightarrow> j \<in> F \<union> set (starts (snd (dfs_edges fs n i es vis))))"
  using assms(3-5)
proof (induction es arbitrary: vis F)
  case (Cons e es)
  show ?case
  proof (cases "pr_feature (snd e)")
    case None
    obtain v a where va: "dfs_edges fs n i es vis = (v, a)" by force
    then have "ordered fs F a \<and> (\<forall>e \<in> set es. \<forall>j. pr_feature (snd e) = Some j \<longrightarrow> j \<in> F \<union> set (starts a))"
      using Cons.IH [of vis F] Cons.prems by simp
    then show ?thesis using None va by simp
  next
    case (Some j)
    then have j: "j < length fs" "rank j < r" using Cons.prems by (auto simp: edge_ok_def)
    obtain v a where va: "dfs_feature fs n j vis = (v, a)" by force
    obtain v' a' where va': "dfs_edges fs n i es v = (v', a')" by force
    have sj: "search_inv rank (Suc (rank j)) F vis"
      using Cons.prems(3) j(2) unfolding search_inv_def by (meson Suc_leI le_trans)
    have 1: "visits fs vis (v, a)" "j \<in> set v"
      using dfs_visits [OF assms(1) j(1) Cons.prems(2)] va by simp_all
    have o: "ordered fs F a" using assms(2) [OF j(1) Cons.prems(2) sj] va by simp
    have sv: "search_inv rank r (F \<union> set (starts a)) v"
      by (rule search_inv_visits [OF Cons.prems(3) 1(1)])
    have "j \<in> F \<union> set (starts a)"
    proof (rule ccontr)
      assume *: "j \<notin> F \<union> set (starts a)"
      then have "j \<in> set vis - F" using 1 by (auto simp: visits_def)
      then have "Suc (rank j) \<le> rank j" using sj unfolding search_inv_def by blast
      then show False by simp
    qed
    moreover have "ordered fs (F \<union> set (starts a)) a' \<and> (\<forall>e \<in> set es. \<forall>j. pr_feature (snd e) = Some j \<longrightarrow>
        j \<in> F \<union> set (starts a) \<union> set (starts a'))"
      using Cons.IH [of v "F \<union> set (starts a)"] Cons.prems(1,2) sv visits_unmarked [OF 1(1)] va' by simp
    ultimately show ?thesis
      using Some va va' o by (auto simp: ordered_append)
  qed
qed simp

lemma dfs_ordered:
  assumes "resolved fs" "acyclic_by rank fs" "i < length fs" "unmarked fs vis < n"
    and "search_inv rank (Suc (rank i)) F vis"
  shows "ordered fs F (snd (dfs_feature fs n i vis))"
  using assms(3-5)
proof (induction n arbitrary: i vis F)
  case (Suc n)
  show ?case
  proof (cases "i \<in> set vis")
    case False
    obtain v a where va: "dfs_edges fs n i (edges (fs ! i)) (i # vis) = (v, a)" by force
    have lt: "\<forall>e \<in> set (edges (fs ! i)). edge_ok fs e \<and> (\<forall>j. pr_feature (snd e) = Some j \<longrightarrow> rank j < rank i)"
      using assms(2) Suc.prems(1) resolved_edges [OF assms(1) Suc.prems(1)]
      by (auto simp: acyclic_by_def deps_def)
    have un: "unmarked fs (i # vis) < n"
      using unmarked_Cons [OF Suc.prems(1) False] Suc.prems(2) by simp
    have "search_inv rank (rank i) F (i # vis)"
      using Suc.prems(3) by (auto simp: search_inv_def dest: Suc_leD)
    from dfs_edges_ordered [OF assms(1) Suc.IH lt un this, of i, unfolded va snd_conv]
    have "ordered fs F a" "deps (fs ! i) \<subseteq> F \<union> set (starts a)"
      unfolding deps_def by blast+
    then show ?thesis using False va by (simp add: ordered_append)
  qed simp
qed simp

lemma dfs_each_ordered:
  assumes "resolved fs" "acyclic_by rank fs" "\<forall>i \<in> set is. i < length fs" "unmarked fs vis < n"
  shows "ordered fs (set vis) (snd (dfs_each fs n is vis))"
  using assms(3,4)
proof (induction "is" arbitrary: vis)
  case (Cons i "is")
  obtain v a where va: "dfs_feature fs n i vis = (v, a)" by force
  have 1: "visits fs vis (v, a)"
    using dfs_visits [OF assms(1), of i vis n] Cons.prems va by simp
  have "search_inv rank (Suc (rank i)) (set vis) vis" by (simp add: search_inv_def)
  then have "ordered fs (set vis) a"
    using dfs_ordered [OF assms(1,2), of i vis n "set vis"] Cons.prems va by simp
  moreover have "ordered fs (set vis \<union> set (starts a)) (snd (dfs_each fs n is v))"
  proof -
    have "set v = set vis \<union> set (starts a)" using 1 by (simp add: visits_def)
    then show ?thesis using Cons.IH [of v] Cons.prems visits_unmarked [OF 1] by simp
  qed
  ultimately show ?case using va by (cases "dfs_each fs n is v") (simp add: ordered_append)
qed simp

section \<open>init\_features\<close>

definition resolve_all :: "'a feature list \<Rightarrow> 'a feature list" where
  "resolve_all fs = (let fs = map (\<lambda>m. m\<lparr>f_state := FEATURE_UNINIT\<rparr>) fs in map (resolve_feature fs) fs)"

definition start_acts :: "'a feature list \<Rightarrow> act list" where
  "start_acts fs = snd (dfs_each fs (length fs + 1) [0..<length fs] [])"

lemma find_feature_from_bound: "find_feature_from i fs name = Some j \<Longrightarrow> j < i + length fs"
  by (induction i fs name rule: find_feature_from.induct) (auto split: if_splits)

lemma length_resolve_all [simp]: "length (resolve_all fs) = length fs"
  by (simp add: resolve_all_def)

lemma prereqs_resolve:
  "prereqs (resolve_prereqs fs ps) = map (\<lambda>p. p\<lparr>pr_feature := find_feature fs (pr_name p)\<rparr>) (prereqs ps)"
  by (cases ps) (simp_all add: prereqs_def resolve_prereqs_def)

lemma resolved_resolve_all: "resolved (resolve_all fs)"
proof -
  let ?us = "map (\<lambda>m. m\<lparr>f_state := FEATURE_UNINIT\<rparr>) fs"
  have st: "\<not> FEATURE_RESOLVED \<le> FEATURE_UNINIT" by (simp add: less_eq_feature_state_def)
  have "find_feature ?us name = Some j \<Longrightarrow> j < length fs" for name j
    using find_feature_from_bound [of 0 ?us name j] by (simp add: find_feature_def)
  then show ?thesis
    using st by (auto simp: resolved_def resolve_all_def resolve_feature_def edges_def prereqs_resolve)
qed

lemma mark_Nil [simp]: "mark fs [] = fs"
  by (simp add: mark_def map_nth)

lemma init_features_runs:
  "init_features fs k = bind_res (run_acts (resolve_all fs) (start_acts (resolve_all fs)) k)
     (\<lambda>k. Inr (map (\<lambda>m. m\<lparr>f_state := FEATURE_INIT\<rparr>) (resolve_all fs), k))"
proof -
  let ?fs = "resolve_all fs" and ?n = "length fs + 1"
  let ?d = "dfs_each ?fs ?n [0..<length fs] []"
  have "unmarked ?fs [] < ?n" by (simp add: unmarked_def)
  then have v: "set (fst ?d) = {..<length fs}"
    using dfs_each_visits [OF resolved_resolve_all, of "[0..<length fs]" fs "[]" ?n]
    by (auto simp: visits_def)
  have mk: "mark ?fs (fst ?d) = map (\<lambda>m. m\<lparr>f_state := FEATURE_INIT\<rparr>) ?fs"
    by (rule nth_equalityI) (simp_all add: mark_nth v [simplified])
  have "init_features fs k = init_each ?n [0..<length fs] (mark ?fs [], k)"
    by (simp add: init_features_def resolve_all_def Let_def)
  also have "\<dots> = runs_as ?fs ?d k"
    by (rule init_each_runs_as [OF resolved_resolve_all]) simp
  finally show ?thesis
    unfolding runs_as_def mk by (simp add: start_acts_def)
qed

lemma start_acts_visits:
  "distinct (starts (start_acts (resolve_all fs)))"
  "set (starts (start_acts (resolve_all fs))) = {..<length fs}"
  "Stuck \<notin> set (start_acts (resolve_all fs))"
proof -
  let ?d = "dfs_each (resolve_all fs) (length fs + 1) [0..<length fs] []"
  have "unmarked (resolve_all fs) [] < length fs + 1" by (simp add: unmarked_def)
  then have "visits (resolve_all fs) [] ?d \<and> set [0..<length fs] \<subseteq> set (fst ?d)"
    by (intro dfs_each_visits [OF resolved_resolve_all]) simp_all
  then show "distinct (starts (start_acts (resolve_all fs)))"
    "set (starts (start_acts (resolve_all fs))) = {..<length fs}"
    "Stuck \<notin> set (start_acts (resolve_all fs))"
    by (auto simp: visits_def start_acts_def)
qed

lemma start_acts_missing: "missing fs (start_acts fs)"
  unfolding start_acts_def by (rule dfs_each_missing)

lemma start_acts_ordered:
  assumes "acyclic_by rank (resolve_all fs)"
  shows "ordered (resolve_all fs) {} (start_acts (resolve_all fs))"
  using dfs_each_ordered [OF resolved_resolve_all assms, of "[0..<length fs]" "[]" "length fs + 1"]
  by (simp add: start_acts_def unmarked_def)

lemma init_features_missing:
  assumes "i < length fs" "(True, p) \<in> set (edges (resolve_all fs ! i))" "pr_feature p = None"
  shows "\<exists>e. init_features fs k = Inl e"
proof (cases "init_features fs k")
  case (Inr r)
  then obtain k' where "run_acts (resolve_all fs) (start_acts (resolve_all fs)) k = Inr k'"
    by (auto simp: init_features_runs bind_res_eq_Inr)
  moreover have "Missing i p \<in> set (start_acts (resolve_all fs))"
    using start_acts_missing [of "resolve_all fs"] start_acts_visits(2) [of fs] assms
    by (auto simp: missing_def)
  ultimately show ?thesis using run_acts_returns by blast
qed simp

end
