(* ===== verification/Gdt.thy ===== *)
theory Gdt
  imports Machine
begin

text \<open>
  The global descriptor table: \<^verbatim>\<open>arch/x86/gdt.c\<close> and \<^verbatim>\<open>include/x86/gdt.h\<close>. The bit fields of a
  descriptor are words of their width.
\<close>

section \<open>Structures\<close>

record tss_entry =
  prev_tss :: u32
  esp0 :: u32
  ss0 :: u32
  esp1 :: u32
  ss1 :: u32
  esp2 :: u32
  ss2 :: u32
  t_cr3 :: u32
  t_eip :: u32
  t_eflags :: u32
  t_eax :: u32
  t_ecx :: u32
  t_edx :: u32
  t_ebx :: u32
  t_esp :: u32
  t_ebp :: u32
  t_esi :: u32
  t_edi :: u32
  t_es :: u32
  t_cs :: u32
  t_ss :: u32
  t_ds :: u32
  t_fs :: u32
  t_gs :: u32
  t_ldt :: u32
  t_trap :: u16
  t_iomap_base :: u16

record gdt_entry =
  limit_low :: u16
  base_low :: u16
  base_mid :: u8
  g_type :: "4 word"
  g_s :: "1 word"
  g_dpl :: "2 word"
  g_p :: "1 word"
  limit_high :: "4 word"
  g_avail :: "1 word"
  g_l :: "1 word"
  g_d :: "1 word"
  g_g :: "1 word"
  base_high :: u8

record gdt_ptr =
  gdt_limit :: u16
  gdt_base :: u32

definition TY_CODE :: u8 where "TY_CODE = 8"
definition TY_READABLE :: u8 where "TY_READABLE = 2"
definition TY_DATA_WRITABLE :: u8 where "TY_DATA_WRITABLE = 2"
definition TY_ACCESSED :: u8 where "TY_ACCESSED = 1"
definition MAX_CORES :: nat where "MAX_CORES = 256"

text \<open>
  The tables, where they lie, and what the instructions at the end of \<^verbatim>\<open>gdt_init\<close> load: the
  table register, the code and data selectors and the task register.
\<close>

record gdt_state =
  gdt_entries :: "gdt_entry list"
  tss_entries :: "tss_entry list"
  gdt_at :: u32
  tss_at :: u32
  the_gdt_ptr :: gdt_ptr
  num_gdt_entries :: nat
  num_tss_entries :: nat
  gdtr :: gdt_ptr
  cs_sel :: u16
  data_sel :: u16
  task_reg :: u16

section \<open>Operations\<close>

definition set_gdt_entry ::
    "gdt_entry \<Rightarrow> u32 \<Rightarrow> u32 \<Rightarrow> u8 \<Rightarrow> u8 \<Rightarrow> u8 \<Rightarrow> u8 \<Rightarrow> u8 \<Rightarrow> u8 \<Rightarrow> u8 \<Rightarrow> gdt_entry" where
  "set_gdt_entry e base limit type s dpl p l d g =
     e\<lparr>limit_low := ucast (limit AND 0xFFFF),
       base_low := ucast (base AND 0xFFFF),
       base_mid := ucast (drop_bit 16 base AND 0xFF),
       g_type := ucast (type AND 0xF),
       g_s := ucast (s AND 0x1),
       g_dpl := ucast (dpl AND 0x3),
       g_p := ucast (p AND 0x1),
       limit_high := ucast (drop_bit 16 limit AND 0xF),
       g_avail := 0,
       g_l := ucast (l AND 0x1),
       g_d := ucast (d AND 0x1),
       g_g := ucast (g AND 0x1),
       base_high := ucast (drop_bit 24 base AND 0xFF)\<rparr>"

definition zero_tss :: tss_entry where
  "zero_tss = \<lparr>prev_tss = 0, esp0 = 0, ss0 = 0, esp1 = 0, ss1 = 0, esp2 = 0, ss2 = 0, t_cr3 = 0,
     t_eip = 0, t_eflags = 0, t_eax = 0, t_ecx = 0, t_edx = 0, t_ebx = 0, t_esp = 0, t_ebp = 0,
     t_esi = 0, t_edi = 0, t_es = 0, t_cs = 0, t_ss = 0, t_ds = 0, t_fs = 0, t_gs = 0, t_ldt = 0,
     t_trap = 0, t_iomap_base = 0\<rparr>"

definition sizeof_tss :: u32 where "sizeof_tss = 104"

definition init_tss_entry :: tss_entry where
  "init_tss_entry = zero_tss\<lparr>ss0 := 0x10, t_ss := 0x10, t_ds := 0x10, t_es := 0x10, t_fs := 0x10,
     t_gs := 0x10, t_cs := 0x08\<rparr>"

definition update_tss_entry :: "u16 \<Rightarrow> u32 \<Rightarrow> u32 \<Rightarrow> gdt_state \<Rightarrow> gdt_state res" where
  "update_tss_entry cpu_core v esp s =
     (if unat cpu_core < MAX_CORES
      then Inr (s\<lparr>tss_entries := (tss_entries s)[unat cpu_core :=
             (tss_entries s ! unat cpu_core)\<lparr>ss0 := v, esp0 := esp\<rparr>]\<rparr>)
      else Inl (Undefined ''tss_entries out of bounds''))"

definition set_entry ::
    "nat \<Rightarrow> u32 \<Rightarrow> u32 \<Rightarrow> u8 \<Rightarrow> u8 \<Rightarrow> u8 \<Rightarrow> u8 \<Rightarrow> u8 \<Rightarrow> u8 \<Rightarrow> u8 \<Rightarrow> gdt_state \<Rightarrow> gdt_state" where
  "set_entry i base limit ty sys dpl p l d g s =
     s\<lparr>gdt_entries := (gdt_entries s)[i := set_gdt_entry (gdt_entries s ! i) base limit ty sys dpl p l d g]\<rparr>"

definition init_core :: "nat \<Rightarrow> gdt_state \<Rightarrow> gdt_state" where
  "init_core i s =
     (let s = s\<lparr>tss_entries := (tss_entries s)[i := init_tss_entry]\<rparr>
      in set_entry (i + 5) (tss_at s + of_nat i * sizeof_tss) sizeof_tss (TY_CODE OR TY_ACCESSED) 0 3 1 0 0 1 s)"

definition gdt_init :: "gdt_state \<Rightarrow> int \<times> gdt_state" where
  "gdt_init s =
     (let s = set_entry 0 0 0xFFF0 0 0 0 0 0 0 0 s;
          s = set_entry 1 0 (NOT 0) (TY_CODE OR TY_READABLE) 1 0 1 0 1 1 s;
          s = set_entry 2 0 (NOT 0) TY_DATA_WRITABLE 1 0 1 0 1 1 s;
          s = set_entry 3 0 (NOT 0) (TY_CODE OR TY_READABLE) 1 3 1 0 1 1 s;
          s = set_entry 4 0 (NOT 0) TY_DATA_WRITABLE 1 3 1 0 1 1 s;
          num_processors = get_num_cpucores;
          s = fold init_core [0..<num_processors] s;
          s = s\<lparr>num_gdt_entries := num_processors + 5, num_tss_entries := num_processors\<rparr>;
          s = s\<lparr>the_gdt_ptr := \<lparr>gdt_limit = of_nat (8 * num_gdt_entries s - 1), gdt_base = gdt_at s\<rparr>\<rparr>
      in (1, s\<lparr>gdtr := the_gdt_ptr s, data_sel := 0x10, cs_sel := 0x08, task_reg := 0x2B\<rparr>))"

section \<open>What the processor reads\<close>

text \<open>The base and limit of a segment, assembled from the descriptor's pieces.\<close>

definition seg_base :: "gdt_entry \<Rightarrow> u32" where
  "seg_base e = push_bit 24 (ucast (base_high e)) OR push_bit 16 (ucast (base_mid e)) OR ucast (base_low e)"

definition seg_limit :: "gdt_entry \<Rightarrow> u32" where
  "seg_limit e = push_bit 16 (ucast (limit_high e)) OR ucast (limit_low e)"

text \<open>The last byte offset of a segment; the granularity bit counts the limit in pages.\<close>

definition seg_last :: "gdt_entry \<Rightarrow> nat" where
  "seg_last e = (if g_g e = 0 then unat (seg_limit e) else unat (seg_limit e) * 4096 + 4095)"

lemma masks: "(0xFFFF :: u32) = mask 16" "(0xFF :: u32) = mask 8" "(0xF :: u32) = mask 4"
  by (simp_all add: mask_eq_exp_minus_1)

lemma set_gdt_entry_base: "seg_base (set_gdt_entry e base limit type s dpl p l d g) = base"
proof (rule bit_word_eqI)
  fix n assume "n < LENGTH(32)"
  then have "n < 16 \<or> (16 \<le> n \<and> n < 24) \<or> (24 \<le> n \<and> n < 32)" by auto
  then show "bit (seg_base (set_gdt_entry e base limit type s dpl p l d g)) n = bit base n"
    by (auto simp: seg_base_def set_gdt_entry_def masks bit_simps)
qed

lemma set_gdt_entry_limit:
  "seg_limit (set_gdt_entry e base limit type s dpl p l d g) = take_bit 20 limit"
proof (rule bit_word_eqI)
  fix n assume "n < LENGTH(32)"
  then have "n < 16 \<or> (16 \<le> n \<and> n < 20) \<or> (20 \<le> n \<and> n < 32)" by auto
  then show "bit (seg_limit (set_gdt_entry e base limit type s dpl p l d g)) n = bit (take_bit 20 limit) n"
    by (auto simp: seg_limit_def set_gdt_entry_def masks bit_simps)
qed

section \<open>The kernel's segments\<close>

definition flat :: "gdt_entry \<Rightarrow> bool" where
  "flat e \<longleftrightarrow> seg_base e = 0 \<and> seg_last e = 4294967295 \<and> g_p e = 1 \<and> g_s e = 1 \<and> g_d e = 1"

lemma flat_entry:
  "flat (set_gdt_entry e 0 (NOT 0) ty 1 dpl 1 0 1 1)"
proof -
  have "take_bit 20 (NOT 0 :: u32) = 0xFFFFF" by (simp add: take_bit_minus_one_eq_mask mask_eq_exp_minus_1)
  then have "seg_limit (set_gdt_entry e 0 (NOT 0) ty 1 dpl 1 0 1 1) = 0xFFFFF"
    by (simp only: set_gdt_entry_limit)
  moreover have "g_g (set_gdt_entry e 0 (NOT 0) ty 1 dpl 1 0 1 1) = 1"
    "g_p (set_gdt_entry e 0 (NOT 0) ty 1 dpl 1 0 1 1) = 1" "g_s (set_gdt_entry e 0 (NOT 0) ty 1 dpl 1 0 1 1) = 1"
    "g_d (set_gdt_entry e 0 (NOT 0) ty 1 dpl 1 0 1 1) = 1"
    by (simp_all add: set_gdt_entry_def)
  ultimately show ?thesis by (simp add: flat_def seg_last_def set_gdt_entry_base)
qed

lemma flat_entry_max: "flat (set_gdt_entry e 0 (- 1) ty 1 dpl 1 0 1 1)"
  using flat_entry [of e ty dpl] by simp

lemma length_set_entry [simp]:
  "length (gdt_entries (set_entry i base limit ty sys dpl p l d g s)) = length (gdt_entries s)"
  by (simp add: set_entry_def)

lemma set_entry_nth:
  "j < length (gdt_entries s) \<Longrightarrow> gdt_entries (set_entry i base limit ty sys dpl p l d g s) ! j =
    (if j = i then set_gdt_entry (gdt_entries s ! i) base limit ty sys dpl p l d g else gdt_entries s ! j)"
  by (simp add: set_entry_def nth_list_update)

lemma set_entry_fields [simp]:
  "tss_at (set_entry i base limit ty sys dpl p l d g s) = tss_at s"
  "gdt_at (set_entry i base limit ty sys dpl p l d g s) = gdt_at s"
  "tss_entries (set_entry i base limit ty sys dpl p l d g s) = tss_entries s"
  by (simp_all add: set_entry_def)

lemma gdt_init_spec:
  assumes "length (gdt_entries s) = MAX_CORES + 5" "length (tss_entries s) = MAX_CORES"
  defines "t \<equiv> snd (gdt_init s)"
  shows "\<forall>i \<in> {1, 2, 3, 4}. flat (gdt_entries t ! i)"
    and "g_dpl (gdt_entries t ! 1) = 0" "g_dpl (gdt_entries t ! 2) = 0"
      "g_dpl (gdt_entries t ! 3) = 3" "g_dpl (gdt_entries t ! 4) = 3"
    and "seg_base (gdt_entries t ! 5) = tss_at s" "g_s (gdt_entries t ! 5) = 0"
    and "tss_entries t ! 0 = init_tss_entry"
    and "gdtr t = \<lparr>gdt_limit = 47, gdt_base = gdt_at s\<rparr>"
  using assms(1,2)
  by (simp_all add: t_def gdt_init_def get_num_cpucores_def init_core_def Let_def set_entry_nth
      flat_entry_max set_gdt_entry_base MAX_CORES_def)
    (simp_all add: set_gdt_entry_def)

end
