(* ===== verification/Vmm_Init.thy ===== *)
theory Vmm_Init
  imports Vmm_Correct
begin

text \<open>
  Paging is taken over from the first-stage loader: \<^verbatim>\<open>init_virtual_memory\<close> of \<^verbatim>\<open>arch/x86/vmm.c\<close> makes
  the page directory map itself, gives every 4MB of kernel space a page table from the early
  allocator, installs the page fault handler and switches write protection on.
\<close>

section \<open>The operation\<close>

definition MMAP_KERNEL_START :: u32 where "MMAP_KERNEL_START = 0xC0000000"
definition MMAP_KERNEL_END :: u32 where "MMAP_KERNEL_END = 0xFF800000"
definition MMAP_PMM_BITMAP :: u32 where "MMAP_PMM_BITMAP = 0xFE800000"

lemmas mmap_defs = MMAP_KERNEL_START_def MMAP_KERNEL_END_def MMAP_PMM_BITMAP_def

text \<open>
  The loop over the pages of kernel space, from \<open>addr\<close> on: \<open>last_table\<close> is the directory entry of
  the page before, so that each entry is looked at once.
\<close>

function kernel_tables :: "u64 \<Rightarrow> u32 \<Rightarrow> 'a vmm_scheme \<Rightarrow> 'a vmm_scheme res" where
  "kernel_tables addr last_table s =
     (if addr < ucast MMAP_KERNEL_END
      then let pde = PAGE_DIR_ENTRY RPDT_BASE (ucast addr)
           in if pde \<noteq> last_table
              then bind_res (vread s pde) (\<lambda>x.
                   bind_res
                     (if x AND X86_PRESENT = 0
                      then bind_res (early_alloc_page s) (\<lambda>(p, s1).
                           bind_res (vwrite s1 pde (ucast p OR X86_PRESENT OR X86_WRITE)) (\<lambda>s2.
                             vclear s2 (PAGE_TABLE_ENTRY RPDT_BASE (ucast addr)) 1024))
                      else Inr s)
                     (\<lambda>s. kernel_tables (addr + 0x1000) pde s))
              else kernel_tables (addr + 0x1000) last_table s
      else Inr s)"
  by pat_completeness auto
termination
proof (relation "measure (\<lambda>(addr, last_table, s). 0xFF800000 - unat addr)", goal_cases)
  case 1
  then show ?case by simp
next
  case (2 addr last_table s pde x s')
  then have "unat addr < 0xFF800000" by (simp add: MMAP_KERNEL_END_def word_less_nat_alt)
  then show ?case by (simp add: unat_word_ariths)
next
  case (3 addr last_table s pde)
  then have "unat addr < 0xFF800000" by (simp add: MMAP_KERNEL_END_def word_less_nat_alt)
  then show ?case by (simp add: unat_word_ariths)
qed

declare kernel_tables.simps [simp del]

text \<open>\<open>handler\<close> is the address of \<^verbatim>\<open>page_fault\<close>.\<close>

definition init_virtual_memory :: "u32 \<Rightarrow> 'a vmm_scheme \<Rightarrow> (int \<times> 'a vmm_scheme) res" where
  "init_virtual_memory handler s =
     (let d = read_cr3 s;
          a = \<lparr>directory = d AND 0xFFFFF000, as_lock = spinlock_init SPINLOCK_RELEASED\<rparr>;
          s1 = s\<lparr>current := Some a\<rparr>
      in bind_res (vwrite s1 (directory a + 4 * 1023) (directory a OR X86_PRESENT OR X86_WRITE)) (\<lambda>s2.
         bind_res (kernel_tables (ucast MMAP_KERNEL_START) 0 s2) (\<lambda>s3.
         let s4 = install_isr 14 handler s3
         in Inr (0, write_cr0 (read_cr0 s4 OR CR0_WP) s4))))"

section \<open>The early allocator, range by range\<close>

definition early_aligned :: "'a pmm_scheme \<Rightarrow> bool" where
  "early_aligned s \<longleftrightarrow> (\<forall>i < early_nranges s. unat (start (early_ranges s ! i)) mod 4096 = 0)"

text \<open>One range that can serve \<open>n\<close> pages on its own; a range of exactly \<open>n\<close> pages cannot.\<close>

definition early_room :: "'a pmm_scheme \<Rightarrow> nat \<Rightarrow> bool" where
  "early_room s n \<longleftrightarrow> (\<exists>i < early_nranges s. let r = early_ranges s ! i in
     0x100000 \<le> unat (start r) \<and> unat (start r) + unat (extent r) \<le> 0x100000000 \<and>
     n * 4096 < unat (extent r))"

lemma early_roomD: "early_room s n \<Longrightarrow> m \<le> n \<Longrightarrow> early_room s m"
  by (fastforce simp: early_room_def Let_def)

lemma early_alloc_room:
  assumes "early_inv s" "early_aligned s" "early_room s (Suc n)"
  obtains a s' where "early_alloc_page s = Inr (a, s')" "early_inv s'" "early_aligned s'" "early_room s' n"
    "page_bytes a \<subseteq> early_bytes s" "early_bytes s' = early_bytes s - page_bytes a"
    "unat a < 0x100000000" "unat a mod 4096 = 0" "s' = s\<lparr>early_ranges := early_ranges s'\<rparr>"
proof -
  obtain j where j: "j < early_nranges s" "0x100000 \<le> unat (start (early_ranges s ! j))"
    "unat (start (early_ranges s ! j)) + unat (extent (early_ranges s ! j)) \<le> 0x100000000"
    "Suc n * 4096 < unat (extent (early_ranges s ! j))"
    using assms(3) unfolding early_room_def Let_def by blast
  have usable: "early_usable (early_ranges s ! j)"
    using j by (simp add: early_usable_def word_le_nat_alt word_less_nat_alt)
  then obtain i where find: "find (\<lambda>i. early_usable (early_ranges s ! i)) [0..<early_nranges s] = Some i"
    using j(1) by (cases "find (\<lambda>i. early_usable (early_ranges s ! i)) [0..<early_nranges s]")
      (auto simp: find_None_iff)
  let ?r = "early_ranges s ! i"
  let ?r' = "?r\<lparr>start := start ?r + 0x1000, extent := extent ?r - 0x1000\<rparr>"
  have i: "i < early_nranges s" "early_usable ?r" using find_SomeD [OF find] by auto
  have len: "early_nranges s \<le> length (early_ranges s)" and fits: "range_fits ?r"
    using assms(1) i(1) by (simp_all add: early_inv_def)
  note t = early_take [OF fits i(2)]
  show ?thesis
  proof (cases rule: early_alloc_page_spec [OF assms(1)])
    case 2
    then show ?thesis using usable j(1) by blast
  next
    case (1 a s')
    have eq: "a = start ?r" "early_ranges s' = (early_ranges s)[i := ?r']"
      using 1(1) find t(4) assms(1) by (auto simp: early_alloc_page_def early_inv_def Let_def)
    have n: "early_nranges s' = early_nranges s" by (subst 1(7)) simp
    have sz: "unat (start ?r + 0x1000) = unat (start ?r) + 4096"
        "unat (extent ?r - 0x1000) = unat (extent ?r) - 4096" "0x1000 < unat (extent ?r)"
      using i(2) t(6) unat_add_u64 [of "start ?r" "0x1000"] unat_sub_u64 [of "0x1000" "extent ?r"]
      by (simp_all add: early_usable_def word_le_nat_alt word_less_nat_alt)
    have al: "unat (start ?r) mod 4096 = 0" using assms(2) i(1) by (simp add: early_aligned_def)
    have nth: "early_ranges s' ! k = (if k = i then ?r' else early_ranges s ! k)" for k
      using eq(2) i(1) len by simp
    have "early_aligned s'"
      using assms(2) al sz(1) unfolding early_aligned_def n nth by simp
    moreover have "early_room s' n"
      unfolding early_room_def n nth using j sz by (intro exI [of _ j]) (auto simp: Let_def)
    ultimately show ?thesis using that [OF 1(1,2) _ _ 1(3,4,6) _ 1(7)] eq(1) al by simp
  qed
qed

section \<open>The tables of kernel space\<close>

text \<open>No page table lies in memory that the early allocator may hand out.\<close>

definition tables_apart :: "'a pmm_scheme \<Rightarrow> bool" where
  "tables_apart s \<longleftrightarrow> (\<forall>b \<in> early_bytes s. b div 4096 \<notin> table_frames s)"

lemma pd_index_page:
  assumes "n < 1048576"
  shows "pd_index (ucast (of_nat (n * 4096) :: u64)) = n div 1024" "pt_index (ucast (of_nat (n * 4096) :: u64)) = n mod 1024"
proof -
  have "unat (of_nat (n * 4096) :: u64) = n * 4096" using assms by (intro unat_of_nat_u64) simp
  then have "unat (ucast (of_nat (n * 4096) :: u64) :: u32) = n * 4096"
    using assms by (subst unat_ucast_small) simp_all
  then have *: "unat (ucast (of_nat (n * 4096) :: u64) :: u32) div 4096 = n" by simp
  have "n * 4096 div 4194304 = n div 1024" using div_mult2_eq [of "n * 4096" 4096 1024] by simp
  then show "pd_index (ucast (of_nat (n * 4096) :: u64)) = n div 1024"
    using \<open>unat (ucast (of_nat (n * 4096) :: u64) :: u32) = n * 4096\<close> by (simp only: pd_index_def)
  show "pt_index (ucast (of_nat (n * 4096) :: u64)) = n mod 1024" by (simp only: pt_index_def *)
qed

lemma PAGE_DIR_ENTRY_eq: "PAGE_DIR_ENTRY RPDT_BASE v = PAGE_DIR_ENTRY RPDT_BASE w \<longleftrightarrow> pd_index v = pd_index w"
  using unat_PAGE_DIR_ENTRY [of v] unat_PAGE_DIR_ENTRY [of w] by (simp add: word_unat_eq_iff)

lemma kernel_page_less:
  "n < 1048576 \<Longrightarrow> (of_nat (n * 4096) :: u64) < ucast MMAP_KERNEL_END \<longleftrightarrow> n < 1046528"
proof -
  assume "n < 1048576"
  then have "unat (of_nat (n * 4096) :: u64) = n * 4096" by (intro unat_of_nat_u64) simp
  then show ?thesis by (simp add: MMAP_KERNEL_END_def word_less_nat_alt del: of_nat_mult)
qed

text \<open>The rest of the pages under an entry that has been looked at.\<close>

lemma kernel_tables_skip:
  assumes "n < 1046528" "n div 1024 = k" "pd_index v = k"
  shows "kernel_tables (of_nat (n * 4096)) (PAGE_DIR_ENTRY RPDT_BASE v) s =
    kernel_tables (of_nat (Suc k * 1024 * 4096)) (PAGE_DIR_ENTRY RPDT_BASE v) s"
  using assms(1,2)
proof (induction "Suc k * 1024 - n" arbitrary: n)
  case 0
  have "n < Suc (n div 1024) * 1024" using div_mult_mod_eq [of n 1024] mod_less_divisor [of 1024 n] by simp
  then show ?case using 0 by simp
next
  case (Suc d)
  have next_addr: "(of_nat (n * 4096) :: u64) + 0x1000 = of_nat (Suc n * 4096)" by simp
  have "kernel_tables (of_nat (n * 4096)) (PAGE_DIR_ENTRY RPDT_BASE v) s =
      kernel_tables (of_nat (Suc n * 4096)) (PAGE_DIR_ENTRY RPDT_BASE v) s"
    using Suc.prems kernel_page_less [of n] pd_index_page(1) [of n] assms(3) unfolding next_addr [symmetric]
    by (subst kernel_tables.simps) (simp add: PAGE_DIR_ENTRY_eq Let_def del: of_nat_mult)
  also have "\<dots> = kernel_tables (of_nat (Suc k * 1024 * 4096)) (PAGE_DIR_ENTRY RPDT_BASE v) s"
  proof (cases "d = 0")
    case True
    then have "Suc n = Suc k * 1024" using Suc(2) by simp
    then show ?thesis by (simp only:)
  next
    case False
    then have "Suc n < Suc k * 1024" using Suc(2) by simp
    moreover have "k * 1024 \<le> n" using Suc.prems(2) by auto
    ultimately have "Suc n div 1024 = k" by (intro div_nat_eqI) simp_all
    moreover have "k < 1022" using \<open>k * 1024 \<le> n\<close> Suc.prems(1) by simp
    then have "Suc n < 1046528" using \<open>Suc n < Suc k * 1024\<close> by simp
    ultimately show ?thesis using Suc(2) by (intro Suc.hyps(1)) simp_all
  qed
  finally show ?case .
qed

lemma lookup_window:
  assumes "rec_ok s" "j < 1024"
  shows "lookup s (1047552 + j) = (if present (pde s j) then Some (pde s j) else None)"
proof -
  have d: "(1047552 + j) div 1024 = 1023" "(1047552 + j) mod 1024 = j"
    using assms(2) div_mult_self2 [of 1024 j 1023] mod_mult_self2 [of j 1024 1023] by (simp_all add: add.commute)
  have "entry_addr (pde s 1023) j = entry_addr (cr3 s) j"
    using assms(1) by (intro entry_addr_cong) (simp add: rec_ok_def)
  then have "pte s (1047552 + j) = pde s j" unfolding pte_def d by (simp add: pde_def)
  then show ?thesis using assms unfolding lookup_def d by (simp add: rec_ok_def)
qed

definition kinit :: "'a vmm_scheme \<Rightarrow> nat \<Rightarrow> bool" where
  "kinit s n \<longleftrightarrow> tables_ok s \<and> early_inv s \<and> early_aligned s \<and> tables_apart s \<and> early_room s n \<and>
     early_bytes s \<subseteq> {..<unat (early_max_extent s)}"

lemma kernel_entry:
  assumes "unat p < 4294967296"
  defines "x \<equiv> (ucast (p :: u64) OR X86_PRESENT OR X86_WRITE :: u32)"
  shows "frame x = unat p div 4096" "present x" "writable x"
proof -
  have "drop_bit 12 (X86_PRESENT OR X86_WRITE) = 0" by (simp add: X86_PRESENT_def X86_WRITE_def)
  then have "frame x = frame (ucast p)" unfolding x_def by (rule frame_or)
  then show "frame x = unat p div 4096" using assms(1) by (simp add: frame_def unat_ucast_small)
  show "present x" "writable x"
    unfolding present_bit writable_bit by (simp_all add: x_def X86_PRESENT_def X86_WRITE_def bit_simps)
qed

lemma clear_table_start:
  assumes "pt_index v = 0" "unat v mod 4096 = 0"
  shows "push_bit 22 (drop_bit 22 v) = v"
proof -
  have "unat v mod 4194304 = 4096 * (unat v div 4096 mod 1024) + unat v mod 4096"
    using mod_mult2_eq [of "unat v" 4096 1024] by simp
  then have "unat v mod 4194304 = 0" using assms by (simp add: pt_index_def)
  then have "take_bit 22 (unat v) = 0" by (simp add: take_bit_eq_mod)
  then have "unat (take_bit 22 v) = 0" by (simp only: unsigned_take_bit_eq)
  then have "take_bit 22 v = 0" by (simp only: unat_eq_0)
  moreover have "push_bit 22 (drop_bit 22 v) + take_bit 22 v = v" using bits_ident [of 22 v] .
  ultimately show ?thesis by simp
qed

lemma tables_apart_new:
  assumes "tables_apart s" "early_bytes s' = early_bytes s - page_bytes a" "unat a mod 4096 = 0"
    "table_frames s' = insert (unat a div 4096) (table_frames s)"
  shows "tables_apart s'"
  unfolding tables_apart_def assms(2,4)
proof
  fix b assume b: "b \<in> early_bytes s - page_bytes a"
  have "b div 4096 \<noteq> unat a div 4096"
  proof
    assume "b div 4096 = unat a div 4096"
    moreover have "unat a div 4096 * 4096 = unat a" using assms(3) by auto
    ultimately have "unat a \<le> b" "b < unat a + 4096" using div_mult_mod_eq [of b 4096] mod_less_divisor [of 4096 b] by simp_all
    then show False using b by simp
  qed
  then show "b div 4096 \<notin> insert (unat a div 4096) (table_frames s)"
    using assms(1) b by (auto simp: tables_apart_def)
qed

lemma new_kernel_table:
  assumes "kinit s (Suc m)" "pd_index v < 1023" "\<not> present (pde s (pd_index v))"
    "push_bit 22 (drop_bit 22 v) = v"
  obtains s' where "bind_res (early_alloc_page s) (\<lambda>(p, s1).
      bind_res (vwrite s1 (PAGE_DIR_ENTRY RPDT_BASE v) (ucast p OR X86_PRESENT OR X86_WRITE)) (\<lambda>s2.
        vclear s2 (PAGE_TABLE_ENTRY RPDT_BASE v) 1024)) = Inr s'"
    "kinit s' m" "present (pde s' (pd_index v))" "space s' = space s"
    "\<And>j. j < 1023 \<Longrightarrow> present (pde s j) \<Longrightarrow> pde s' j = pde s j"
    "s' = s\<lparr>ptmem := ptmem s', early_ranges := early_ranges s'\<rparr>"
proof -
  have k: "tables_ok s" "early_inv s" "early_aligned s" "tables_apart s" "early_room s (Suc m)"
      "early_bytes s \<subseteq> {..<unat (early_max_extent s)}"
    using assms(1) by (simp_all add: kinit_def)
  obtain a s1 where a: "early_alloc_page s = Inr (a, s1)" "early_inv s1" "early_aligned s1" "early_room s1 m"
    "page_bytes a \<subseteq> early_bytes s" "early_bytes s1 = early_bytes s - page_bytes a"
    "unat a < 0x100000000" "unat a mod 4096 = 0" "s1 = s\<lparr>early_ranges := early_ranges s1\<rparr>"
    by (rule early_alloc_room [OF k(2,3,5)])
  have pt: "ptmem s1 = ptmem s" "cr3 s1 = cr3 s" by (subst a(9), simp)+
  note c = vm_cong [OF pt] pde_cong [OF pt]
  let ?x = "ucast a OR X86_PRESENT OR X86_WRITE :: u32"
  have "unat a < 4294967296" using a(7) by simp
  note x = kernel_entry [OF this]
  have "unat a \<in> early_bytes s" using a(5) by auto
  then have fresh: "frame ?x \<notin> table_frames s1" using k(4) x(1) c(2) by (auto simp: tables_apart_def)
  have t1: "tables_ok s1" "\<not> present (pde s1 (pd_index v))" using k(1) assms(3) c(1,6) by simp_all
  obtain s' where s': "bind_res (vwrite s1 (PAGE_DIR_ENTRY RPDT_BASE v) ?x) (\<lambda>s2.
      vclear s2 (PAGE_TABLE_ENTRY RPDT_BASE (push_bit 22 (drop_bit 22 v))) 1024) = Inr s'"
    "tables_ok s'" "table_frames s' = insert (frame ?x) (table_frames s1)"
    "lookup s' = (lookup s1)(1047552 + pd_index v \<mapsto> ?x)" "pde s' (pd_index v) = ?x"
    "s' = s1\<lparr>ptmem := ptmem s'\<rparr>"
    by (rule install_table [OF t1(1) assms(2) t1(2) fresh x(2,3)])
  have e: "early_ranges s' = early_ranges s1" by (subst s'(6)) simp
  have n: "early_nranges s' = early_nranges s1" by (subst s'(6)) simp
  have st: "pmm_init_stage s' = pmm_init_stage s1" by (subst s'(6)) simp
  have "early_max_extent s' = early_max_extent s" by (subst s'(6), subst a(9)) simp
  have "early_inv s'" "early_aligned s'" "early_room s' m" "early_bytes s' = early_bytes s - page_bytes a"
    using a(2-4,6) e n st by (simp_all add: early_inv_def early_aligned_def early_room_def early_bytes_def)
  moreover have "tables_apart s'"
    using s'(3) by (intro tables_apart_new [OF k(4) \<open>early_bytes s' = _\<close> a(8)]) (simp add: x(1) c(2))
  ultimately have "kinit s' m"
    using s'(2) k(6) \<open>early_max_extent s' = _\<close> by (auto simp: kinit_def)
  moreover have "space s' = space s"
    using assms(2) by (simp add: space_def s'(4) c(3) fun_eq_iff)
  moreover have "pde s' j = pde s j" if "j < 1023" "present (pde s j)" for j
  proof -
    have "lookup s' (1047552 + j) = lookup s (1047552 + j)"
      using that assms(3) s'(4) c(3) by auto
    then show ?thesis
      using that lookup_window [of s j] lookup_window [of s' j] k(1) s'(2) by (simp add: tables_ok_def split: if_splits)
  qed
  moreover have "s' = s\<lparr>ptmem := ptmem s', early_ranges := early_ranges s'\<rparr>"
    by (subst s'(6), subst a(9)) (simp add: e)
  ultimately show ?thesis using that [of s'] a(1) s'(1,5) x(2) assms(4) by simp
qed

lemma space_cong: "ptmem s = ptmem t \<Longrightarrow> cr3 s = cr3 t \<Longrightarrow> space s = space t"
  using vm_cong(3) [of s t] by (simp add: space_def fun_eq_iff)

lemma kinit_mono: "kinit s n \<Longrightarrow> m \<le> n \<Longrightarrow> kinit s m"
  by (auto simp: kinit_def intro: early_roomD)

text \<open>What \<open>k\<close> and the entries above it are like when the loop arrives at entry \<open>k\<close>.\<close>

lemma kernel_tables_step:
  assumes "kinit s (Suc m)" "k < 1022" "\<And>v. pd_index v = k \<Longrightarrow> PAGE_DIR_ENTRY RPDT_BASE v \<noteq> lt"
  obtains v s' where "pd_index v = k"
    "kernel_tables (of_nat (k * 1024 * 4096)) lt s = kernel_tables (of_nat (Suc k * 1024 * 4096)) (PAGE_DIR_ENTRY RPDT_BASE v) s'"
    "kinit s' m" "present (pde s' k)" "space s' = space s"
    "\<And>j. j < 1023 \<Longrightarrow> present (pde s j) \<Longrightarrow> pde s' j = pde s j"
    "s' = s\<lparr>ptmem := ptmem s', early_ranges := early_ranges s'\<rparr>"
proof -
  let ?a = "of_nat (k * 1024 * 4096) :: u64"
  let ?v = "ucast ?a :: u32"
  have n: "k * 1024 < 1048576" "k * 1024 < 1046528" using assms(2) by simp_all
  have v: "pd_index ?v = k" "pt_index ?v = 0" using pd_index_page [OF n(1)] by (simp_all del: of_nat_mult)
  have "unat ?a = k * 1024 * 4096" using assms(2) by (intro unat_of_nat_u64) simp
  then have "unat ?v = k * 1024 * 4096" using assms(2) by (subst unat_ucast_small) simp_all
  then have "unat ?v mod 4096 = 0" by simp
  note whole = clear_table_start [OF v(2) this]
  have rec: "rec_ok s" using assms(1) by (simp add: kinit_def tables_ok_def)
  note rd = vread_pde [OF rec, of ?v, unfolded v(1)]
  have step: "?a + 0x1000 = of_nat (Suc (k * 1024) * 4096)" by simp
  have skip: "kernel_tables (of_nat (Suc (k * 1024) * 4096)) (PAGE_DIR_ENTRY RPDT_BASE ?v) t =
      kernel_tables (of_nat (Suc k * 1024 * 4096)) (PAGE_DIR_ENTRY RPDT_BASE ?v) t" for t :: "'a vmm_scheme"
    using assms(2) v(1) by (intro kernel_tables_skip) simp_all
  have less: "?a < ucast MMAP_KERNEL_END" using kernel_page_less [OF n(1)] n(2) by simp
  show ?thesis
  proof (cases "present (pde s k)")
    case True
    have "kernel_tables ?a lt s = kernel_tables (of_nat (Suc (k * 1024) * 4096)) (PAGE_DIR_ENTRY RPDT_BASE ?v) s"
      unfolding step [symmetric] using less assms(3) [OF v(1)] rd True
      by (subst kernel_tables.simps) (simp add: Let_def del: of_nat_mult)
    with True show ?thesis
      using that [OF v(1), of s] kinit_mono [OF assms(1), of m] unfolding skip by simp
  next
    case False
    have "pd_index ?v < 1023" "\<not> present (pde s (pd_index ?v))" using v(1) assms(2) False by (simp_all del: of_nat_mult)
    from new_kernel_table [OF assms(1) this whole] obtain s' where
      s': "bind_res (early_alloc_page s) (\<lambda>(p, s1).
        bind_res (vwrite s1 (PAGE_DIR_ENTRY RPDT_BASE ?v) (ucast p OR X86_PRESENT OR X86_WRITE)) (\<lambda>s2.
          vclear s2 (PAGE_TABLE_ENTRY RPDT_BASE ?v) 1024)) = Inr s'"
      "kinit s' m" "present (pde s' k)" "space s' = space s"
      "\<And>j. j < 1023 \<Longrightarrow> present (pde s j) \<Longrightarrow> pde s' j = pde s j"
      "s' = s\<lparr>ptmem := ptmem s', early_ranges := early_ranges s'\<rparr>"
      unfolding v(1) by metis
    have "kernel_tables ?a lt s = kernel_tables (of_nat (Suc (k * 1024) * 4096)) (PAGE_DIR_ENTRY RPDT_BASE ?v) s'"
      unfolding step [symmetric] using less assms(3) [OF v(1)] rd False s'(1)
      by (subst kernel_tables.simps) (simp add: Let_def del: of_nat_mult)
    then show ?thesis using that [OF v(1), of s'] s'(2-6) unfolding skip by blast
  qed
qed

lemma kernel_tables_from:
  assumes "kinit s (1022 - k + m)" "k \<le> 1022" "\<And>v. pd_index v = k \<Longrightarrow> PAGE_DIR_ENTRY RPDT_BASE v \<noteq> lt"
  shows "\<exists>s'. kernel_tables (of_nat (k * 1024 * 4096)) lt s = Inr s' \<and> kinit s' m \<and> space s' = space s \<and>
    (\<forall>j < 1023. present (pde s j) \<longrightarrow> pde s' j = pde s j) \<and> (\<forall>j. k \<le> j \<and> j < 1022 \<longrightarrow> present (pde s' j)) \<and>
    s' = s\<lparr>ptmem := ptmem s', early_ranges := early_ranges s'\<rparr>"
  using assms
proof (induction "1022 - k" arbitrary: s k lt)
  case 0
  then have "k = 1022" by simp
  then have "kernel_tables (of_nat (k * 1024 * 4096)) lt s = Inr s"
    by (subst kernel_tables.simps) (simp add: MMAP_KERNEL_END_def)
  with 0 \<open>k = 1022\<close> show ?case by (intro exI [of _ s]) auto
next
  case (Suc d)
  have m: "1022 - k + m = Suc (1022 - Suc k + m)" "k < 1022" using Suc(2) by simp_all
  obtain v s1 where s1: "pd_index v = k"
    "kernel_tables (of_nat (k * 1024 * 4096)) lt s = kernel_tables (of_nat (Suc k * 1024 * 4096)) (PAGE_DIR_ENTRY RPDT_BASE v) s1"
    "kinit s1 (1022 - Suc k + m)" "present (pde s1 k)" "space s1 = space s"
    "\<And>j. j < 1023 \<Longrightarrow> present (pde s j) \<Longrightarrow> pde s1 j = pde s j"
    "s1 = s\<lparr>ptmem := ptmem s1, early_ranges := early_ranges s1\<rparr>"
    using kernel_tables_step [OF Suc.prems(1) [unfolded m(1)] m(2) Suc.prems(3)] by metis
  have "\<exists>s'. kernel_tables (of_nat (Suc k * 1024 * 4096)) (PAGE_DIR_ENTRY RPDT_BASE v) s1 = Inr s' \<and>
      kinit s' m \<and> space s' = space s1 \<and> (\<forall>j < 1023. present (pde s1 j) \<longrightarrow> pde s' j = pde s1 j) \<and>
      (\<forall>j. Suc k \<le> j \<and> j < 1022 \<longrightarrow> present (pde s' j)) \<and>
      s' = s1\<lparr>ptmem := ptmem s', early_ranges := early_ranges s'\<rparr>"
    using Suc(2) s1(1,3) by (intro Suc.hyps(1)) (auto simp: PAGE_DIR_ENTRY_eq)
  then obtain s' where s': "kernel_tables (of_nat (Suc k * 1024 * 4096)) (PAGE_DIR_ENTRY RPDT_BASE v) s1 = Inr s'"
    "kinit s' m" "space s' = space s1" "\<And>j. j < 1023 \<Longrightarrow> present (pde s1 j) \<Longrightarrow> pde s' j = pde s1 j"
    "\<And>j. Suc k \<le> j \<Longrightarrow> j < 1022 \<Longrightarrow> present (pde s' j)"
    "s' = s1\<lparr>ptmem := ptmem s', early_ranges := early_ranges s'\<rparr>"
    by blast
  have "present (pde s' j)" if "k \<le> j" "j < 1022" for j
    using s'(5) [of j] s'(4) [of k] s1(4) that by (cases "j = k") simp_all
  moreover have "s' = s\<lparr>ptmem := ptmem s', early_ranges := early_ranges s'\<rparr>"
    by (subst s'(6), subst s1(7)) simp
  ultimately show ?case
    using s'(1-3) s1(2,5) s'(4) s1(6) by (intro exI [of _ s']) simp
qed

section \<open>From the first-stage loader's tables\<close>

text \<open>
  What \<^verbatim>\<open>loader.s\<close> leaves: a directory and one table in the first 4MB, the table entered for the first
  4MB and for the 4MB from 3GB on, mapping page \<open>e\<close> of both to frame \<open>e\<close>, and nothing else.
\<close>

definition boot_tables :: "'a machine_scheme \<Rightarrow> bool" where
  "boot_tables s \<longleftrightarrow> frame (cr3 s) < 1024 \<and> frame (pde s 0) \<noteq> frame (cr3 s) \<and>
     present (pde s 0) \<and> writable (pde s 0) \<and>
     (\<forall>k < 1024. k \<noteq> 0 \<longrightarrow> pde s k = (if k = 768 then pde s 0 else 0)) \<and>
     (\<forall>e < 1024. ptmem s (entry_addr (pde s 0) e) = of_nat (e * 4096) OR X86_PRESENT OR X86_WRITE)"

lemma page_entry:
  assumes "e < 1048576"
  defines "x \<equiv> (of_nat (e * 4096) OR X86_PRESENT OR X86_WRITE :: u32)"
  shows "frame x = e" "present x" "writable x"
proof -
  have u: "unat (of_nat (e * 4096) :: u64) = e * 4096" using assms(1) by (intro unat_of_nat_u64) simp
  have "ucast (of_nat (e * 4096) :: u64) = (of_nat (e * 4096) :: u32)"
    using u assms(1) by (simp only: word_unat_eq_iff) (simp add: unat_ucast_small del: of_nat_mult)
  then show "frame x = e" "present x" "writable x"
    using kernel_entry [of "of_nat (e * 4096)"] u assms(1) unfolding x_def by (simp_all del: of_nat_mult)
qed

text \<open>The directory is reached through the identity mapping of the first 4MB.\<close>

lemma boot_directory:
  assumes "boot_tables s"
  shows "vwrite s ((cr3 s AND 0xFFFFF000) + 4 * 1023) x = Inr (s\<lparr>ptmem := (ptmem s)(entry_addr (cr3 s) 1023 := x)\<rparr>)"
proof -
  let ?v = "(cr3 s AND 0xFFFFF000) + 4 * 1023"
  have fr: "frame (cr3 s) < 1024" using assms by (simp add: boot_tables_def)
  have u: "unat ?v = frame (cr3 s) * 4096 + 4092"
    using fr by (simp add: unat_word_ariths unat_frame_mask)
  then have v: "pd_index ?v = 0" "pt_index ?v = frame (cr3 s)" "unat (?v AND 0xFFF) = 4 * 1023"
    using fr by (simp_all add: pd_index_def pt_index_def and_fff_mod)
  let ?e = "of_nat (frame (cr3 s) * 4096) OR X86_PRESENT OR X86_WRITE :: u32"
  have e: "frame ?e = frame (cr3 s)" "present ?e" "writable ?e"
    using page_entry [of "frame (cr3 s)"] fr by (simp_all del: of_nat_mult)
  have "(?e AND 0xFFFFF000) + (?v AND 0xFFF) = entry_addr (cr3 s) 1023"
    using add_window_offset [OF v(3)] entry_addr_cong [OF e(1)] by metis
  moreover have "ptmem s (entry_addr (pde s 0) (pt_index ?v)) = ?e" "present (pde s 0)" "writable (pde s 0)"
    using assms fr v(2) unfolding boot_tables_def by (simp_all del: of_nat_mult)
  ultimately have "mmu_translate s True ?v = Some (entry_addr (cr3 s) 1023)"
    using e(2,3) v(1) unfolding mmu_translate_def Let_def pde_def [symmetric] by simp
  then show ?thesis by (simp add: vwrite_def)
qed

lemma boot_window:
  assumes "boot_tables s"
  defines "s' \<equiv> s\<lparr>ptmem := (ptmem s)(entry_addr (cr3 s) 1023 := (cr3 s AND 0xFFFFF000) OR X86_PRESENT OR X86_WRITE)\<rparr>"
  shows "tables_ok s'" "table_frames s' = table_frames s" "space s' = space s"
    "k < 1023 \<Longrightarrow> pde s' k = pde s k"
proof -
  let ?x = "(cr3 s AND 0xFFFFF000) OR X86_PRESENT OR X86_WRITE"
  have b: "frame (cr3 s) < 1024" "frame (pde s 0) \<noteq> frame (cr3 s)" "present (pde s 0)" "writable (pde s 0)"
      "\<And>k. k < 1024 \<Longrightarrow> k \<noteq> 0 \<Longrightarrow> pde s k = (if k = 768 then pde s 0 else 0)"
    using assms(1) unfolding boot_tables_def by blast+
  have cr3: "cr3 s' = cr3 s" by (simp add: s'_def)
  have pde: "pde s' k = (if k = 1023 then ?x else pde s k)" if "k < 1024" for k
    using that by (simp add: s'_def pde_def entry_addr_eq)
  show "k < 1023 \<Longrightarrow> pde s' k = pde s k" for k using pde by simp
  have "of_nat (frame (cr3 s) * 4096) = cr3 s AND 0xFFFFF000"
    by (simp only: unat_frame_mask [symmetric]) simp
  then have x: "frame ?x = frame (cr3 s)" "present ?x" "writable ?x"
    using page_entry [OF frame_less] by metis+
  have only: "(k = 0 \<or> k = 768) \<and> pde s k = pde s 0" if "present (pde s k)" "k < 1023" for k
    using b(5) [of k] that by (cases "k = 0") (auto split: if_splits)
  show "tables_ok s'"
    unfolding tables_ok_def rec_ok_def own_table_def cr3 using x b(2,4) by (auto simp: pde dest: only)
  show "table_frames s' = table_frames s"
    unfolding table_frames_def cr3 by (rule arg_cong [where f = "insert _"]) (auto simp: pde intro!: image_eqI)
  show "space s' = space s"
  proof
    fix n
    have "pte s' n = pte s n" if "n < 1047552" "present (pde s (n div 1024))"
    proof -
      have "n div 1024 < 1023" using that(1) by simp
      then have "frame (pde s (n div 1024)) \<noteq> frame (cr3 s)" using b(2) only [OF that(2)] by simp
      then show ?thesis using \<open>n div 1024 < 1023\<close> by (simp add: pte_def pde) (simp add: s'_def entry_addr_eq)
    qed
    then show "space s' n = space s n" by (auto simp: space_def lookup_def pde)
  qed
qed

lemma init_virtual_memory_spec:
  assumes "boot_tables s" "early_inv s" "early_aligned s" "tables_apart s" "early_room s (254 + m)"
    "early_bytes s \<subseteq> {..<unat (early_max_extent s)}"
  obtains s' where "init_virtual_memory h s = Inr (0, s')" "kinit s' m" "space s' = space s"
    "\<And>k. 768 \<le> k \<Longrightarrow> k < 1022 \<Longrightarrow> present (pde s' k)"
    "current s' = Some \<lparr>directory = cr3 s AND 0xFFFFF000, as_lock = SPINLOCK_RELEASED\<rparr>"
    "s' = s\<lparr>ptmem := ptmem s', early_ranges := early_ranges s', current := current s',
      isr_routines := (isr_routines s)[14 := h], cr0 := cr0 s OR CR0_WP\<rparr>"
proof -
  let ?a = "\<lparr>directory = cr3 s AND 0xFFFFF000, as_lock = SPINLOCK_RELEASED\<rparr>"
  let ?s1 = "s\<lparr>current := Some ?a\<rparr>"
  let ?x = "(cr3 s AND 0xFFFFF000) OR X86_PRESENT OR X86_WRITE"
  let ?s2 = "?s1\<lparr>ptmem := (ptmem s)(entry_addr (cr3 s) 1023 := ?x)\<rparr>"
  have b1: "boot_tables ?s1" using assms(1) pde_cong [of ?s1 s] by (simp add: boot_tables_def)
  note w = boot_window [OF b1, simplified]
  have "spinlock_init SPINLOCK_RELEASED = SPINLOCK_RELEASED"
    by (simp add: spinlock_init_def SPINLOCK_RELEASED_def)
  then have wr: "init_virtual_memory h s = bind_res (kernel_tables (ucast MMAP_KERNEL_START) 0 ?s2) (\<lambda>s3.
      Inr (0, write_cr0 (read_cr0 (install_isr 14 h s3) OR CR0_WP) (install_isr 14 h s3)))"
    using boot_directory [OF b1] by (simp add: init_virtual_memory_def read_cr3_def Let_def)
  have frames: "table_frames ?s2 = table_frames s" using w(2) vm_cong(2) [of ?s1 s] by simp
  have "kinit ?s2 (1022 - 768 + m)"
    using assms(2-6) w(1) frames
    by (simp add: kinit_def early_inv_def early_aligned_def tables_apart_def early_bytes_def early_room_def)
  moreover have "PAGE_DIR_ENTRY RPDT_BASE v \<noteq> 0" for v
    using unat_PAGE_DIR_ENTRY [of v] by (intro notI) simp
  ultimately obtain s3 where s3: "kernel_tables (of_nat (768 * 1024 * 4096)) 0 ?s2 = Inr s3" "kinit s3 m"
    "space s3 = space ?s2" "\<And>j. 768 \<le> j \<Longrightarrow> j < 1022 \<Longrightarrow> present (pde s3 j)"
    "s3 = ?s2\<lparr>ptmem := ptmem s3, early_ranges := early_ranges s3\<rparr>"
    using kernel_tables_from [of ?s2 768 m 0] by auto
  have start: "(ucast MMAP_KERNEL_START :: u64) = of_nat (768 * 1024 * 4096)" by (simp add: MMAP_KERNEL_START_def)
  let ?s' = "s3\<lparr>isr_routines := (isr_routines s)[14 := h], cr0 := cr0 s OR CR0_WP\<rparr>"
  have f: "isr_routines s3 = isr_routines s" "cr0 s3 = cr0 s" "current s3 = Some ?a" by (subst s3(5), simp)+
  have "init_virtual_memory h s = Inr (0, ?s')"
    unfolding wr start s3(1) using f by (simp add: install_isr_def write_cr0_def read_cr0_def)
  moreover have "kinit ?s' m"
    using s3(2) vm_cong [of ?s' s3]
    by (simp add: kinit_def early_inv_def early_aligned_def tables_apart_def early_bytes_def early_room_def)
  moreover have "space ?s' = space s"
    using space_cong [of ?s' s3] space_cong [of ?s1 s] w(3) s3(3) by simp
  moreover have "present (pde ?s' k)" if "768 \<le> k" "k < 1022" for k
    using s3(4) [OF that] pde_cong [of ?s' s3] by simp
  moreover have "?s' = s\<lparr>ptmem := ptmem ?s', early_ranges := early_ranges ?s', current := current ?s',
      isr_routines := (isr_routines s)[14 := h], cr0 := cr0 s OR CR0_WP\<rparr>"
    by (subst s3(5)) (simp add: f(3))
  ultimately show ?thesis using that [of ?s'] f(3) by simp
qed
end
