(* ===== verification/Pmm_Init.thy ===== *)
theory Pmm_Init
  imports Vmm_Init
begin

text \<open>
  The end of the early allocator: \<^verbatim>\<open>init_physical_memory\<close> of \<^verbatim>\<open>pmm.c\<close> puts pages behind the bitmaps of
  the three zones, sets the zones' buddy allocators up in them and releases what is left of the
  early ranges to the zones.
\<close>

section \<open>The operation\<close>

text \<open>
  \<^verbatim>\<open>rs\<close>, indexed by requirement: the rest, below 1MB, below 4GB. The macros \<^verbatim>\<open>MIN\<close> and \<^verbatim>\<open>MAX\<close> compare
  unsigned numbers, so that \<^verbatim>\<open>MAX(x, 0)\<close> is \<open>x\<close> even when \<open>x\<close> has wrapped around.
\<close>

definition zone_ranges :: "u64 \<Rightarrow> range list" where
  "zone_ranges ext =
     [\<lparr>start = 0x100000000, extent = (if ext > 0x100000000 then ext - 0x100000000 else 0)\<rparr>,
      \<lparr>start = 0, extent = max (min ext 0x100000) 0\<rparr>,
      \<lparr>start = 0x100000, extent = max (min ext 0x100000000 - 0x100000) 0\<rparr>]"

text \<open>The loop that maps the bitmaps' pages, from page \<open>i\<close> with \<open>n\<close> to go.\<close>

fun map_bitmaps :: "nat \<Rightarrow> nat \<Rightarrow> 'a vmm_scheme \<Rightarrow> 'a vmm_scheme res" where
  "map_bitmaps i 0 s = Inr s"
| "map_bitmaps i (Suc n) s =
     bind_res (early_alloc_page s) (\<lambda>(p, s1).
     bind_res (map_pages s1 (MMAP_PMM_BITMAP + of_nat i * get_page_size) p 1 PAGE_WRITE) (\<lambda>(r, s2).
     bind_res (assert_res (r = 0) ''Failed to map page'') (\<lambda>_. map_bitmaps (Suc i) n s2)))"

definition release_to :: "'a pmm_scheme \<Rightarrow> nat \<Rightarrow> range \<Rightarrow> 'a pmm_scheme res" where
  "release_to s req r =
     (if 0 < extent r
      then bind_res (allocator s req) (\<lambda>bd. bind_res (buddy_free_range bd (mem s) r) (\<lambda>m. Inr (s\<lparr>mem := m\<rparr>)))
      else Inr s)"

definition set_early :: "nat \<Rightarrow> range \<Rightarrow> 'a pmm_scheme \<Rightarrow> 'a pmm_scheme" where
  "set_early i r s = s\<lparr>early_ranges := (early_ranges s)[i := r]\<rparr>"

text \<open>The loop over the early ranges, from \<open>i\<close> with \<open>n\<close> to go: each is split at 1MB and at 4GB.\<close>

fun release_early :: "nat \<Rightarrow> nat \<Rightarrow> 'a pmm_scheme \<Rightarrow> 'a pmm_scheme res" where
  "release_early i 0 s = Inr s"
| "release_early i (Suc n) s =
     (if extent (early_ranges s ! i) = 0 then release_early (Suc i) n s
      else let (lo, rest) = split_range (early_ranges s ! i) 0x100000
           in bind_res (release_to (set_early i rest s) PAGE_REQ_UNDER1MB lo) (\<lambda>s.
              let (mid, high) = split_range rest 0x100000000
              in bind_res (release_to (set_early i high s) PAGE_REQ_UNDER4GB mid) (\<lambda>s.
                 bind_res (release_to s PAGE_REQ_NONE high) (release_early (Suc i) n))))"

definition init_physical_memory :: "'a vmm_scheme \<Rightarrow> (int \<times> 'a vmm_scheme) res" where
  "init_physical_memory s =
     (if pmm_init_stage s \<noteq> PMM_INIT_EARLY then Inl (Panic ''init_physical_memory_early not called!'')
      else let rs = zone_ranges (early_max_extent s);
               overheads = map buddy_calc_overhead rs;
               bitmap_sz = overheads ! 0 + overheads ! 1 + overheads ! 2;
               bitmap_sz_pages = drop_bit get_page_shift (round_to_page_size bitmap_sz)
           in bind_res (map_bitmaps 0 (unat bitmap_sz_pages) s) (\<lambda>s.
              bind_res (buddy_init (mem s) MMAP_PMM_BITMAP (rs ! PAGE_REQ_UNDER1MB) False) (\<lambda>(ok1, bd1, m1).
              bind_res (buddy_init m1 (MMAP_PMM_BITMAP + overheads ! 0) (rs ! PAGE_REQ_UNDER4GB) False) (\<lambda>(ok2, bd2, m2).
              bind_res (buddy_init m2 (MMAP_PMM_BITMAP + overheads ! 0 + overheads ! 1) (rs ! PAGE_REQ_NONE) False)
                (\<lambda>(ok3, bd3, m3).
              let s = s\<lparr>mem := m3, allocators := (allocators s)[PAGE_REQ_UNDER1MB := bd1,
                     PAGE_REQ_UNDER4GB := bd2, PAGE_REQ_NONE := bd3]\<rparr>
              in if ok1 \<noteq> 0 \<or> ok2 \<noteq> 0 \<or> ok3 \<noteq> 0 then Inr (1, s)
                 else bind_res (release_early 0 (early_nranges s) s) (\<lambda>s.
                      Inr (0, s\<lparr>pmm_init_stage := PMM_INIT_FULL\<rparr>)))))))"

section \<open>Mapping without the physical memory manager\<close>

text \<open>
  \<^verbatim>\<open>map\<close> calls the physical memory manager only for a page table that is missing. This is what it does
  where the table is there, in a state in which the zones need not exist yet.
\<close>

lemma map_one_page_present:
  assumes "tables_ok s" "own_table (pd_index v)" "present (pde s (pd_index v))" "space s (vpn v) = None"
    "current s = Some a" "unlocked (as_lock a)"
  obtains s' where "map_one_page s v p flags = Inr (0, s')" "tables_ok s'" "table_frames s' = table_frames s"
    "space s' = (space s)(vpn v \<mapsto> map_entry p flags)"
    "s' = s\<lparr>ptmem := ptmem s', current := Some (a\<lparr>as_lock := left_lock s (as_lock a)\<rparr>)\<rparr>"
    "\<And>k. k < 1023 \<Longrightarrow> present (pde s k) \<Longrightarrow> present (pde s' k)"
proof -
  let ?a1 = "a\<lparr>as_lock := held_lock s (as_lock a)\<rparr>"
  define s1 where "s1 = s\<lparr>eflags := eflags (held_state s), current := Some ?a1\<rparr>"
  let ?s2 = "s1\<lparr>ptmem := (ptmem s)(entry_addr (pde s (pd_index v)) (pt_index v) := map_entry p flags)\<rparr>"
  have c: "ptmem s1 = ptmem s" "cr3 s1 = cr3 s" by (simp_all add: s1_def)
  note s1 = vm_cong [OF c] pde_cong [OF c] space_cong [OF c]
  have k: "pd_index v < 1023" by (rule own_table_less [OF assms(2)])
  have t: "tables_ok s1" "present (pde s1 (pd_index v))" "rec_ok s1"
    using assms(1,3) s1(1,6) tables_okD(1) [of s1] by simp_all
  have "\<not> present (pte s1 (vpn v))" using assms(3,4) space_vpn [OF k, of s1] s1(6,7) by (auto split: if_splits)
  note rd = vread_pde [OF t(3), of v] vread_pte [OF t(3,2)]
  have wr: "vwrite s1 (PAGE_TABLE_ENTRY RPDT_BASE v) (map_entry p flags) = Inr ?s2"
    using vwrite_pte [OF t(3,2) tables_okD(2) [OF t(1) k t(2)], of "map_entry p flags"] by (simp add: s1(6) c)
  let ?s' = "?s2\<lparr>eflags := eflags s, current := Some (a\<lparr>as_lock := left_lock s (as_lock a)\<rparr>)\<rparr>"
  have rel: "release_current ?s2 = Inr ?s'" by (rule release_current_eq) (simp_all add: s1_def)
  have "map_one_page s v p flags = Inr (0, ?s')"
    using acquire_current_eq [OF assms(5,6)] rd t(2) \<open>\<not> present (pte s1 (vpn v))\<close> wr rel
    by (simp add: map_one_page_def Let_def ensure_page_table_mapped_def map_entry_def s1_def)
  moreover
  note w = write_pte_lookup [OF t(1), of "vpn v" "map_entry p flags", unfolded vpn_div, OF assms(2) t(2)]
  have w': "tables_ok ?s2" "table_frames ?s2 = table_frames s1" "lookup ?s2 = (lookup s1)(vpn v \<mapsto> map_entry p flags)"
    using w present_map_entry [of p flags] by (simp_all add: s1(6) c)
  have c2: "ptmem ?s' = ptmem ?s2" "cr3 ?s' = cr3 ?s2" by simp_all
  have "tables_ok ?s'" "table_frames ?s' = table_frames s" using w'(1,2) s1(2) vm_cong(1,2) [OF c2] by simp_all
  moreover have "vpn v < 1047552" using k vpn_div(1) [of v] by simp
  then have "space ?s' = (space s)(vpn v \<mapsto> map_entry p flags)"
    using w'(3) vm_cong(3) [OF c2] s1(3) by (auto simp: space_def fun_eq_iff)
  moreover have "present (pde ?s' j)" if "j < 1023" "present (pde s j)" for j
  proof -
    have "lookup ?s' (1047552 + j) = lookup s (1047552 + j)"
      using w'(3) vm_cong(3) [OF c2] s1(3) \<open>vpn v < 1047552\<close> by simp
    then show ?thesis
      using that lookup_window [of s j] lookup_window [of ?s' j] tables_okD(1) [OF assms(1)]
        tables_okD(1) [OF \<open>tables_ok ?s'\<close>] by (simp split: if_splits)
  qed
  ultimately show ?thesis using that [of ?s'] by (simp add: s1_def)
qed

lemma kinit_data:
  assumes "kinit s n" "ptmem t = ptmem s" "cr3 t = cr3 s" "early_ranges t = early_ranges s"
    "early_nranges t = early_nranges s" "pmm_init_stage t = pmm_init_stage s" "early_max_extent t = early_max_extent s"
  shows "kinit t n"
  using assms vm_cong(1,2) [of t s]
  by (simp add: kinit_def early_inv_def early_aligned_def tables_apart_def early_bytes_def early_room_def)

text \<open>The state while the bitmaps are mapped: \<open>n\<close> early pages are left, the tables are there.\<close>

definition bitmap_tables :: "'a vmm_scheme \<Rightarrow> nat \<Rightarrow> bool" where
  "bitmap_tables s n \<longleftrightarrow> kinit s n \<and> (\<exists>a. current s = Some a \<and> unlocked (as_lock a)) \<and>
     (\<forall>k. 1018 \<le> k \<and> k < 1022 \<longrightarrow> present (pde s k))"

lemma bitmap_page:
  assumes "i < 4096"
  shows "vpn (MMAP_PMM_BITMAP + of_nat i * get_page_size) = 1042432 + i"
    "own_table (pd_index (MMAP_PMM_BITMAP + of_nat i * get_page_size))"
    "1018 \<le> pd_index (MMAP_PMM_BITMAP + of_nat i * get_page_size)"
    "pd_index (MMAP_PMM_BITMAP + of_nat i * get_page_size) < 1022"
proof -
  let ?v = "MMAP_PMM_BITMAP + of_nat i * get_page_size"
  have "vpn MMAP_PMM_BITMAP = 1042432" by (simp add: vpn_def MMAP_PMM_BITMAP_def)
  moreover have d: "1018 \<le> (1042432 + i) div 1024" "(1042432 + i) div 1024 < 1022" using assms by simp_all
  then have "own_table ((1042432 + i) div 1024)" by (simp only: own_table_def) simp
  ultimately have "vpn (MMAP_PMM_BITMAP + of_nat (i * 4096)) = 1042432 + i"
    using nth_page(1) [of MMAP_PMM_BITMAP i] by simp
  then show v: "vpn ?v = 1042432 + i" by (simp add: get_page_size_def)
  show "1018 \<le> pd_index ?v" "pd_index ?v < 1022" using vpn_div(1) [of ?v] v d by simp_all
  then show "own_table (pd_index ?v)" by (simp add: own_table_def)
qed

lemma map_bitmaps_spec:
  assumes "bitmap_tables s (n + m)" "i + n \<le> 4096" "\<forall>j. i \<le> j \<and> j < i + n \<longrightarrow> space s (1042432 + j) = None"
  shows "\<exists>s'. map_bitmaps i n s = Inr s' \<and> bitmap_tables s' m \<and>
    (\<forall>q. space s' q \<noteq> None \<longleftrightarrow> space s q \<noteq> None \<or> 1042432 + i \<le> q \<and> q < 1042432 + i + n) \<and>
    (\<forall>k < 1023. present (pde s k) \<longrightarrow> present (pde s' k)) \<and>
    s' = s\<lparr>ptmem := ptmem s', early_ranges := early_ranges s', current := current s'\<rparr>"
  using assms
proof (induction n arbitrary: i s)
  case 0
  then show ?case by (intro exI [of _ s]) auto
next
  case (Suc n)
  let ?v = "MMAP_PMM_BITMAP + of_nat i * get_page_size"
  have i: "i < 4096" using Suc.prems(2) by simp
  note v = bitmap_page [OF i]
  obtain a where a: "current s = Some a" "unlocked (as_lock a)" and tabs: "\<And>k. 1018 \<le> k \<Longrightarrow> k < 1022 \<Longrightarrow> present (pde s k)"
    and k: "tables_ok s" "early_inv s" "early_aligned s" "tables_apart s" "early_room s (Suc (n + m))"
      "early_bytes s \<subseteq> {..<unat (early_max_extent s)}"
    using Suc.prems(1) by (auto simp: bitmap_tables_def kinit_def)
  obtain p s1 where s1: "early_alloc_page s = Inr (p, s1)" "early_inv s1" "early_aligned s1" "early_room s1 (n + m)"
    "early_bytes s1 = early_bytes s - page_bytes p" "s1 = s\<lparr>early_ranges := early_ranges s1\<rparr>"
    by (rule early_alloc_room [OF k(2,3,5)])
  have c: "ptmem s1 = ptmem s" "cr3 s1 = cr3 s" "current s1 = current s" by (subst s1(6), simp)+
  note e = vm_cong [OF c(1,2)] pde_cong [OF c(1,2)] space_cong [OF c(1,2)]
  have ext: "early_max_extent s1 = early_max_extent s" by (subst s1(6)) simp
  have "kinit s1 (n + m)" using k(1,4,6) s1(2-5) e(1,2) ext by (auto simp: kinit_def tables_apart_def)
  have "tables_ok s1" "present (pde s1 (pd_index ?v))" "space s1 (vpn ?v) = None"
    using k(1) e(1,6,7) tabs [OF v(3,4)] Suc.prems(3) v(1) by simp_all
  from map_one_page_present [OF this(1) v(2) this(2,3), of a p PAGE_WRITE] c(3) a
  obtain s2 where s2: "map_one_page s1 ?v p PAGE_WRITE = Inr (0, s2)" "tables_ok s2" "table_frames s2 = table_frames s1"
    "space s2 = (space s1)(vpn ?v \<mapsto> map_entry p PAGE_WRITE)"
    "s2 = s1\<lparr>ptmem := ptmem s2, current := Some (a\<lparr>as_lock := left_lock s1 (as_lock a)\<rparr>)\<rparr>"
    "\<And>k. k < 1023 \<Longrightarrow> present (pde s1 k) \<Longrightarrow> present (pde s2 k)"
    by metis
  have f: "early_ranges s2 = early_ranges s1" "early_nranges s2 = early_nranges s1" "early_max_extent s2 = early_max_extent s1"
      "pmm_init_stage s2 = pmm_init_stage s1" "current s2 = Some (a\<lparr>as_lock := left_lock s1 (as_lock a)\<rparr>)"
    by (subst s2(5), simp)+
  have "kinit s2 (n + m)"
    using \<open>kinit s1 (n + m)\<close> s2(2,3) f(1-4)
    by (simp add: kinit_def early_inv_def early_aligned_def tables_apart_def early_bytes_def early_room_def)
  then have bt: "bitmap_tables s2 (n + m)"
    using f(5) s2(6) tabs e(6) by (auto simp: bitmap_tables_def)
  have step: "map_bitmaps i (Suc n) s = map_bitmaps (Suc i) n s2"
    using s1(1) s2(1) by (simp add: map_pages_def)
  have "\<forall>j. Suc i \<le> j \<and> j < Suc i + n \<longrightarrow> space s2 (1042432 + j) = None"
    using Suc.prems(3) s2(4) v(1) e(7) by simp
  with Suc.IH [OF bt, of "Suc i"] Suc.prems(2) obtain s' where s': "map_bitmaps (Suc i) n s2 = Inr s'" "bitmap_tables s' m"
    "\<forall>q. space s' q \<noteq> None \<longleftrightarrow> space s2 q \<noteq> None \<or> 1042432 + Suc i \<le> q \<and> q < 1042432 + Suc i + n"
    "\<forall>k < 1023. present (pde s2 k) \<longrightarrow> present (pde s' k)"
    "s' = s2\<lparr>ptmem := ptmem s', early_ranges := early_ranges s', current := current s'\<rparr>"
    by auto
  have "space s' q \<noteq> None \<longleftrightarrow> space s q \<noteq> None \<or> 1042432 + i \<le> q \<and> q < 1042432 + i + Suc n" for q
    using s'(3) [rule_format, of q] s2(4) e(7) v(1) by auto
  moreover have "s' = s\<lparr>ptmem := ptmem s', early_ranges := early_ranges s', current := current s'\<rparr>"
    by (subst s'(5), subst s2(5), subst s1(6)) simp
  moreover have "\<forall>k < 1023. present (pde s k) \<longrightarrow> present (pde s' k)" using s'(4) s2(6) e(6) by simp
  ultimately show ?case using step s'(1,2) by (intro exI [of _ s']) simp
qed

section \<open>The zones\<close>

text \<open>\<open>zones_ok ext s\<close>: three well-formed allocators for the zones of \<open>ext\<close> bytes of memory.\<close>

definition zones_ok :: "u64 \<Rightarrow> 'a pmm_scheme \<Rightarrow> bool" where
  "zones_ok ext s \<longleftrightarrow> length (allocators s) = 3 \<and> (\<forall>r < 3. buddy_wf (allocators s ! r) \<and>
     buddy_start (allocators s ! r) = start (zone_ranges ext ! r) \<and>
     buddy_size (allocators s ! r) = extent (zone_ranges ext ! r) \<and>
     buddy_storage (allocators s ! r) \<subseteq> region MMAP_PMM_BITMAP 0x1000000)"

text \<open>A range of whole addresses below \<open>ext\<close>, starting on a page boundary.\<close>

definition range_below :: "u64 \<Rightarrow> range \<Rightarrow> bool" where
  "range_below ext r \<longleftrightarrow> range_fits r \<and> unat (start r) mod 4096 = 0 \<and> range_bytes r \<subseteq> {..<unat ext}"

lemma range_inside_zone:
  assumes "range_bytes r \<subseteq> {unat (buddy_start bd) ..< unat (buddy_start bd) + unat (buddy_size bd)}"
    "0 < extent r" "unat (start r) mod 4096 = 0"
  shows "range_inside bd r"
proof -
  have pos: "0 < unat (extent r)" using assms(2) by (simp add: word_less_nat_alt)
  then have "unat (start r) \<in> range_bytes r" "unat (start r) + (unat (extent r) - 1) \<in> range_bytes r"
    by (auto simp: range_bytes_def)
  then have "unat (start r) \<in> {unat (buddy_start bd) ..< unat (buddy_start bd) + unat (buddy_size bd)}"
      "unat (start r) + (unat (extent r) - 1) \<in> {unat (buddy_start bd) ..< unat (buddy_start bd) + unat (buddy_size bd)}"
    using assms(1) by blast+
  with pos assms(3) show ?thesis by (auto simp: range_inside_def word_le_nat_alt)
qed

lemma split_range_starts:
  assumes "split_range r loc = (lo, hi)" "unat (start r) mod 4096 = 0" "unat loc mod 4096 = 0"
  shows "unat (start lo) mod 4096 = 0" "unat (start hi) mod 4096 = 0"
  using assms by (auto simp: split_range_def Let_def split: if_splits)

lemma zone_bytes:
  assumes "0x100000 \<le> ext"
  shows "{unat (start (zone_ranges ext ! PAGE_REQ_UNDER1MB)) ..< unat (start (zone_ranges ext ! PAGE_REQ_UNDER1MB)) +
      unat (extent (zone_ranges ext ! PAGE_REQ_UNDER1MB))} = {..<0x100000}"
    "{unat (start (zone_ranges ext ! PAGE_REQ_UNDER4GB)) ..< unat (start (zone_ranges ext ! PAGE_REQ_UNDER4GB)) +
      unat (extent (zone_ranges ext ! PAGE_REQ_UNDER4GB))} = {0x100000..<min (unat ext) 0x100000000}"
    "{unat (start (zone_ranges ext ! PAGE_REQ_NONE)) ..< unat (start (zone_ranges ext ! PAGE_REQ_NONE)) +
      unat (extent (zone_ranges ext ! PAGE_REQ_NONE))} = {0x100000000..<unat ext}"
proof -
  have ge: "0x100000 \<le> unat ext" using assms by (simp add: word_le_nat_alt)
  have "min ext 0x100000 = 0x100000" using assms by (simp add: min_def)
  then show "{unat (start (zone_ranges ext ! PAGE_REQ_UNDER1MB)) ..< unat (start (zone_ranges ext ! PAGE_REQ_UNDER1MB)) +
      unat (extent (zone_ranges ext ! PAGE_REQ_UNDER1MB))} = {..<0x100000}"
    by (auto simp: zone_ranges_def page_req_defs)
  have "0x100000 \<le> min ext 0x100000000" using assms by (simp add: min_def)
  then have "unat (min ext 0x100000000 - 0x100000) = unat (min ext 0x100000000) - 0x100000"
    by (subst unat_sub_u64) simp_all
  moreover have m: "unat (min ext 0x100000000) = min (unat ext) 0x100000000"
    by (simp add: min_def word_le_nat_alt)
  moreover have "max x 0 = x" for x :: u64 by (simp add: max_def)
  ultimately show "{unat (start (zone_ranges ext ! PAGE_REQ_UNDER4GB)) ..< unat (start (zone_ranges ext ! PAGE_REQ_UNDER4GB)) +
      unat (extent (zone_ranges ext ! PAGE_REQ_UNDER4GB))} = {0x100000..<min (unat ext) 0x100000000}"
    using ge by (simp add: zone_ranges_def page_req_defs)
  show "{unat (start (zone_ranges ext ! PAGE_REQ_NONE)) ..< unat (start (zone_ranges ext ! PAGE_REQ_NONE)) +
      unat (extent (zone_ranges ext ! PAGE_REQ_NONE))} = {0x100000000..<unat ext}"
    using unat_sub_u64 [of "0x100000000" ext] by (auto simp: zone_ranges_def page_req_defs word_less_nat_alt word_le_nat_alt)
qed

lemma release_to_total:
  assumes "zones_ok ext s" "req < 3" "unat (start r) mod 4096 = 0" "range_bytes r \<subseteq>
    {unat (start (zone_ranges ext ! req)) ..< unat (start (zone_ranges ext ! req)) + unat (extent (zone_ranges ext ! req))}"
  shows "\<exists>m'. release_to s req r = Inr (s\<lparr>mem := m'\<rparr>) \<and> same_outside (region MMAP_PMM_BITMAP 0x1000000) (mem s) m'"
proof (cases "0 < extent r")
  case False
  then show ?thesis by (intro exI [of _ "mem s"]) (simp add: release_to_def)
next
  case True
  have bd: "buddy_wf (allocators s ! req)" "buddy_start (allocators s ! req) = start (zone_ranges ext ! req)"
    "buddy_size (allocators s ! req) = extent (zone_ranges ext ! req)"
    "buddy_storage (allocators s ! req) \<subseteq> region MMAP_PMM_BITMAP 0x1000000" "length (allocators s) = 3"
    using assms(1,2) by (simp_all add: zones_ok_def)
  have "range_inside (allocators s ! req) r"
    using assms(3,4) True by (intro range_inside_zone) (simp_all add: bd(2,3))
  from buddy_free_range_total [OF bd(1) this, of "mem s"] obtain m' where
    "buddy_free_range (allocators s ! req) (mem s) r = Inr m'" "same_outside (buddy_storage (allocators s ! req)) (mem s) m'"
    by blast
  then show ?thesis
    using True assms(2) bd(4,5) by (auto simp: release_to_def allocator_def intro: same_outside_mono)
qed

lemma release_early_total:
  assumes "zones_ok ext s" "0x100000 \<le> ext" "i + n \<le> length (early_ranges s)"
    "\<forall>j. i \<le> j \<and> j < i + n \<longrightarrow> range_below ext (early_ranges s ! j)"
  shows "\<exists>s'. release_early i n s = Inr s' \<and> same_outside (region MMAP_PMM_BITMAP 0x1000000) (mem s) (mem s') \<and>
    s' = s\<lparr>mem := mem s', early_ranges := early_ranges s'\<rparr>"
  using assms(1,3,4)
proof (induction n arbitrary: i s)
  case 0
  then show ?case by (intro exI [of _ s]) simp
next
  case (Suc n)
  let ?r = "early_ranges s ! i" and ?B = "region MMAP_PMM_BITMAP 0x1000000"
  have r: "range_fits ?r" "unat (start ?r) mod 4096 = 0" "range_bytes ?r \<subseteq> {..<unat ext}"
    using Suc.prems(3) by (auto simp: range_below_def)
  have IH: "\<exists>s'. release_early (Suc i) n t = Inr s' \<and> same_outside ?B (mem t) (mem s') \<and>
      s' = t\<lparr>mem := mem s', early_ranges := early_ranges s'\<rparr>"
    if "zones_ok ext t" "early_ranges t = (early_ranges s)[i := x]" for t :: "'a pmm_scheme" and x
    using Suc.prems(2,3) that by (intro Suc.IH) simp_all
  show ?case
  proof (cases "extent ?r = 0")
    case True
    have "early_ranges s = (early_ranges s)[i := ?r]" by simp
    from IH [OF Suc.prems(1) this] True show ?thesis by simp
  next
    case False
    obtain lo rest where sp1: "split_range ?r 0x100000 = (lo, rest)" by force
    obtain mid high where sp2: "split_range rest 0x100000000 = (mid, high)" by force
    note b1 = split_range_spec [OF r(1) sp1] and a1 = split_range_starts [OF sp1 r(2)]
    note b2 = split_range_spec [OF b1(4) sp2] and a2 = split_range_starts [OF sp2 a1(2)]
    note z = zone_bytes [OF assms(2)]
    have al: "unat (start lo) mod 4096 = 0" "unat (start mid) mod 4096 = 0" "unat (start high) mod 4096 = 0"
      using a1 a2 by simp_all
    have lo: "range_bytes lo \<subseteq> {..<0x100000}" using b1(1) by auto
    have mid: "range_bytes mid \<subseteq> {0x100000..<min (unat ext) 0x100000000}"
      using b1(2) b2(1) r(3) by (auto simp: subset_iff)
    have high: "range_bytes high \<subseteq> {0x100000000..<unat ext}" using b1(2) b2(2) r(3) by (auto simp: subset_iff)
    let ?s1 = "set_early i rest s"
    have ok: "zones_ok ext t" if "allocators t = allocators s" for t :: "'a pmm_scheme"
      using Suc.prems(1) that by (simp add: zones_ok_def)
    have req: "PAGE_REQ_UNDER1MB < 3" "PAGE_REQ_UNDER4GB < 3" "PAGE_REQ_NONE < 3" by (simp_all add: page_req_defs)
    obtain m1 where m1: "release_to ?s1 PAGE_REQ_UNDER1MB lo = Inr (?s1\<lparr>mem := m1\<rparr>)" "same_outside ?B (mem s) m1"
      using release_to_total [OF ok [of ?s1] req(1) al(1) lo [folded z(1)]] by (auto simp: set_early_def)
    let ?s2 = "set_early i high (?s1\<lparr>mem := m1\<rparr>)"
    obtain m2 where m2: "release_to ?s2 PAGE_REQ_UNDER4GB mid = Inr (?s2\<lparr>mem := m2\<rparr>)" "same_outside ?B m1 m2"
      using release_to_total [OF ok [of ?s2] req(2) al(2) mid [folded z(2)]] by (auto simp: set_early_def)
    let ?s3 = "?s2\<lparr>mem := m2\<rparr>"
    obtain m3 where m3: "release_to ?s3 PAGE_REQ_NONE high = Inr (?s3\<lparr>mem := m3\<rparr>)" "same_outside ?B m2 m3"
      using release_to_total [OF ok [of ?s3] req(3) al(3) high [folded z(3)]] by (auto simp: set_early_def)
    let ?s4 = "?s3\<lparr>mem := m3\<rparr>"
    have "zones_ok ext ?s4" by (rule ok) (simp add: set_early_def)
    then obtain s' where s': "release_early (Suc i) n ?s4 = Inr s'" "same_outside ?B (mem ?s4) (mem s')"
      "s' = ?s4\<lparr>mem := mem s', early_ranges := early_ranges s'\<rparr>"
      using IH [of ?s4 high] by (auto simp: set_early_def)
    have "s' = s\<lparr>mem := mem s', early_ranges := early_ranges s'\<rparr>"
      by (subst s'(3)) (simp add: set_early_def)
    moreover have "same_outside ?B (mem s) (mem s')"
      using m1(2) m2(2) m3(2) s'(2) by (auto intro: same_outside_trans)
    moreover have "release_early i (Suc n) s = Inr s'"
      using False sp1 sp2 m1(1) m2(1) m3(1) s'(1) by simp
    ultimately show ?thesis by blast
  qed
qed

section \<open>Where the bitmaps lie\<close>

lemma buddy_init_first_order:
  assumes "buddy_init m storage r False = Inr (0, bd, m')" "unat (extent r) div 4096 < 4294967296"
  shows "order_storage bd 0 = region storage (unat (extent r) div 4096 div 8 + 1)" "order_storage bd 0 \<subseteq> buddy_storage bd"
proof -
  have "[0..<17] = 0 # [1..<17]" by (simp add: upt_rec)
  then have "data (orders bd ! 0) = storage" "buddy_size bd = extent r"
    using assms(1) by (auto simp: buddy_init_def bitmap_init_def Let_def split_def simp del: upt_rec_numeral)
  then show "order_storage bd 0 = region storage (unat (extent r) div 4096 div 8 + 1)"
    by (simp add: order_storage_def bm_storage_def order_len_def buddy_pages_def)
  show "order_storage bd 0 \<subseteq> buddy_storage bd" by (auto simp: buddy_storage_def)
qed

lemma zone_range_ok:
  assumes "0x100000 \<le> ext" "ext \<le> 0x1000000000" "r < 3"
  shows "range_ok (zone_ranges ext ! r)" "unat (extent (zone_ranges ext ! r)) \<le> unat ext"
proof -
  have e: "unat ext \<le> 0x1000000000" "0x100000 \<le> unat ext" using assms(1,2) by (simp_all add: word_le_nat_alt)
  have "unat (if ext > 0x100000000 then ext - 0x100000000 else 0) \<le> unat ext"
    using unat_sub_u64 [of "0x100000000" ext] by auto
  moreover have "unat (max (min ext 0x100000) 0) \<le> unat ext" using assms(1) e by (simp add: min_def max_def)
  moreover have "unat (max (min ext 0x100000000 - 0x100000) 0) \<le> unat ext"
  proof -
    have "0x100000 \<le> min ext 0x100000000" using assms(1) by (simp add: min_def)
    then have "unat (min ext 0x100000000 - 0x100000) \<le> unat (min ext 0x100000000)" by (subst unat_sub_u64) simp_all
    also have "\<dots> \<le> unat ext" by (simp add: min_def word_le_nat_alt)
    finally show ?thesis by (simp add: max_def)
  qed
  moreover have "r = 0 \<or> r = 1 \<or> r = 2" using assms(3) by auto
  ultimately show le: "unat (extent (zone_ranges ext ! r)) \<le> unat ext" by (auto simp: zone_ranges_def)
  have "unat (start (zone_ranges ext ! r)) mod 4096 = 0" "unat (start (zone_ranges ext ! r)) \<le> 0x100000000"
    using \<open>r = 0 \<or> r = 1 \<or> r = 2\<close> by (auto simp: zone_ranges_def)
  with le e show "range_ok (zone_ranges ext ! r)" by (simp add: range_ok_def div_less_iff_less_mult)
qed

definition zone_bytes_needed :: "u64 \<Rightarrow> nat \<Rightarrow> nat" where
  "zone_bytes_needed ext r = overhead_bytes (extent (zone_ranges ext ! r))"

lemma zone_overhead:
  assumes "0x100000 \<le> ext" "ext \<le> 0x1000000000" "r < 3"
  shows "buddy_calc_overhead (zone_ranges ext ! r) = of_nat (zone_bytes_needed ext r)"
    "unat (buddy_calc_overhead (zone_ranges ext ! r)) = zone_bytes_needed ext r" "zone_bytes_needed ext r \<le> 4194321"
proof -
  have ok: "unat (extent (zone_ranges ext ! r)) div 4096 < 4294967296"
    using zone_range_ok(1) [OF assms] by (simp add: range_ok_def)
  show u: "unat (buddy_calc_overhead (zone_ranges ext ! r)) = zone_bytes_needed ext r"
    unfolding zone_bytes_needed_def by (rule buddy_calc_overhead_eq [OF ok])
  then show "buddy_calc_overhead (zone_ranges ext ! r) = of_nat (zone_bytes_needed ext r)"
    by (metis of_nat_unat ucast_id)
  have "unat (extent (zone_ranges ext ! r)) \<le> 0x1000000000"
    using zone_range_ok(2) [OF assms] assms(2) by (simp add: word_le_nat_alt)
  then have "unat (extent (zone_ranges ext ! r)) div 32768 \<le> 2097152"
    using div_le_mono [of _ "0x1000000000" 32768] by fastforce
  then show "zone_bytes_needed ext r \<le> 4194321"
    unfolding zone_bytes_needed_def using overhead_bytes_le [of "extent (zone_ranges ext ! r)"] by simp
qed

text \<open>
  The bitmaps of the zones are placed by the overheads in the order of the requirements, but set up in
  another order: each zone's bitmaps start inside those of the one before.
\<close>

lemma overhead_values:
  "overhead_bytes 0 = 17" "overhead_bytes 0x100000 = 80"
  by (simp_all add: overhead_bytes_def order_bytes_def upt_rec)

lemma bitmaps_overlap:
  assumes "0x100000 \<le> ext" "ext \<le> 0x1000000000"
    and "buddy_init m MMAP_PMM_BITMAP (zone_ranges ext ! PAGE_REQ_UNDER1MB) False = Inr (0, bd1, m1)"
    and "buddy_init m1 (MMAP_PMM_BITMAP + of_nat (zone_bytes_needed ext 0)) (zone_ranges ext ! PAGE_REQ_UNDER4GB) False = Inr (0, bd2, m2)"
    and "buddy_init m2 (MMAP_PMM_BITMAP + of_nat (zone_bytes_needed ext 0) + of_nat (zone_bytes_needed ext 1))
      (zone_ranges ext ! PAGE_REQ_NONE) False = Inr (0, bd3, m3)"
  shows "buddy_storage bd1 \<inter> buddy_storage bd2 \<noteq> {} \<or> buddy_storage bd2 \<inter> buddy_storage bd3 \<noteq> {}"
proof -
  have ok: "unat (extent (zone_ranges ext ! r)) div 4096 < 4294967296" if "r < 3" for r
    using zone_range_ok(1) [OF assms(1,2) that] by (simp add: range_ok_def)
  have z: "PAGE_REQ_UNDER1MB < 3" "PAGE_REQ_UNDER4GB < 3" "PAGE_REQ_NONE < 3" by (simp_all add: page_req_defs)
  note o1 = buddy_init_first_order [OF assms(3) ok [OF z(1)]]
    and o2 = buddy_init_first_order [OF assms(4) ok [OF z(2)]]
    and o3 = buddy_init_first_order [OF assms(5) ok [OF z(3)]]
  have small: "extent (zone_ranges ext ! PAGE_REQ_UNDER1MB) = 0x100000" "zone_bytes_needed ext 1 = 80"
    using assms(1) overhead_values by (simp_all add: zone_ranges_def page_req_defs min_def zone_bytes_needed_def)
  show ?thesis
  proof (cases "ext \<le> 0x100000000")
    case True
    then have n: "zone_bytes_needed ext 0 = 17" using overhead_values by (auto simp: zone_bytes_needed_def zone_ranges_def dest: leD)
    have "MMAP_PMM_BITMAP + of_nat 17 \<in> order_storage bd1 0" unfolding o1(1) small by (rule region_memI) simp
    moreover have "MMAP_PMM_BITMAP + of_nat 17 + of_nat 0 \<in> order_storage bd2 0" unfolding o2(1) n by (rule region_memI) simp
    ultimately have "MMAP_PMM_BITMAP + of_nat 17 \<in> buddy_storage bd1 \<inter> buddy_storage bd2" using o1(2) o2(2) by auto
    then show ?thesis by blast
  next
    case False
    then have "extent (zone_ranges ext ! PAGE_REQ_UNDER4GB) = 0xFFF00000"
      by (simp add: zone_ranges_def page_req_defs min_def max_def)
    then have "MMAP_PMM_BITMAP + of_nat (zone_bytes_needed ext 0) + of_nat 80 \<in> order_storage bd2 0"
      unfolding o2(1) by (intro region_memI) simp
    moreover have "MMAP_PMM_BITMAP + of_nat (zone_bytes_needed ext 0) + of_nat 80 + of_nat 0 \<in> order_storage bd3 0"
      unfolding o3(1) small(2) by (rule region_memI) simp
    ultimately have "MMAP_PMM_BITMAP + of_nat (zone_bytes_needed ext 0) + of_nat 80 \<in> buddy_storage bd2 \<inter> buddy_storage bd3"
      using o2(2) o3(2) by auto
    then show ?thesis by blast
  qed
qed

definition bitmap_pages :: "u64 \<Rightarrow> nat" where
  "bitmap_pages ext = (zone_bytes_needed ext 0 + zone_bytes_needed ext 1 + zone_bytes_needed ext 2 + 4095) div 4096"

lemma bitmap_pages_eq:
  assumes "0x100000 \<le> ext" "ext \<le> 0x1000000000"
  shows "unat (drop_bit get_page_shift (round_to_page_size (buddy_calc_overhead (zone_ranges ext ! 0) +
      buddy_calc_overhead (zone_ranges ext ! 1) + buddy_calc_overhead (zone_ranges ext ! 2)))) = bitmap_pages ext"
    "bitmap_pages ext \<le> 4096"
proof -
  have b: "zone_bytes_needed ext 0 \<le> 4194321" "zone_bytes_needed ext 1 \<le> 4194321" "zone_bytes_needed ext 2 \<le> 4194321"
    by (rule zone_overhead(3) [OF assms], simp)+
  let ?sz = "buddy_calc_overhead (zone_ranges ext ! 0) +
      buddy_calc_overhead (zone_ranges ext ! 1) + buddy_calc_overhead (zone_ranges ext ! 2)"
  have "?sz = of_nat (zone_bytes_needed ext 0 + zone_bytes_needed ext 1 + zone_bytes_needed ext 2)"
    by (simp add: zone_overhead(1) [OF assms])
  then have sz: "unat ?sz = zone_bytes_needed ext 0 + zone_bytes_needed ext 1 + zone_bytes_needed ext 2"
    using b by (simp only:) (subst unat_of_nat_u32; simp)
  then have "unat (round_to_page_size ?sz) = bitmap_pages ext * 4096"
    using b by (subst round_to_page_size_unat) (simp_all add: bitmap_pages_def)
  then show "unat (drop_bit get_page_shift (round_to_page_size ?sz)) = bitmap_pages ext"
    by (simp only: unat_drop_bit get_page_shift_def) simp
  have "zone_bytes_needed ext 0 + zone_bytes_needed ext 1 + zone_bytes_needed ext 2 + 4095 \<le> 4096 * 4096"
    using b by simp
  then show "bitmap_pages ext \<le> 4096" unfolding bitmap_pages_def using div_le_mono [of _ "4096 * 4096" 4096] by fastforce
qed

lemma all_3: "(\<forall>r < 3. P r) \<longleftrightarrow> P 0 \<and> P 1 \<and> P (2 :: nat)"
proof -
  have "r < 3 \<longleftrightarrow> r = 0 \<or> r = 1 \<or> r = 2" for r :: nat by auto
  then show ?thesis by auto
qed

lemma zone_init:
  assumes "0x100000 \<le> ext" "ext \<le> 0x1000000000" "r < 3" "off + zone_bytes_needed ext r \<le> 0x1000000"
  obtains bd m' where "buddy_init m (MMAP_PMM_BITMAP + of_nat off) (zone_ranges ext ! r) False = Inr (0, bd, m')"
    "buddy_wf bd" "buddy_start bd = start (zone_ranges ext ! r)" "buddy_size bd = extent (zone_ranges ext ! r)"
    "buddy_storage bd \<subseteq> region MMAP_PMM_BITMAP 0x1000000" "same_outside (region MMAP_PMM_BITMAP 0x1000000) m m'"
proof -
  note ok = zone_range_ok(1) [OF assms(1-3)] and n = zone_overhead(2) [OF assms(1-3)]
  have sub: "region (MMAP_PMM_BITMAP + of_nat off) (zone_bytes_needed ext r) \<subseteq> region MMAP_PMM_BITMAP 0x1000000"
    by (rule region_sub [OF assms(4)])
  show ?thesis
    using buddy_init_spec [OF ok, of m "MMAP_PMM_BITMAP + of_nat off" False] that sub same_outside_mono [OF _ sub]
    unfolding n buddy_inv_def by blast
qed

lemma init_zones:
  fixes s :: "'a vmm_scheme"
  assumes "0x100000 \<le> ext" "ext \<le> 0x1000000000" "length (allocators s) = 3"
  obtains bd1 m1 bd2 m2 bd3 m3 s2 where
    "buddy_init (mem s) MMAP_PMM_BITMAP (zone_ranges ext ! PAGE_REQ_UNDER1MB) False = Inr (0, bd1, m1)"
    "buddy_init m1 (MMAP_PMM_BITMAP + of_nat (zone_bytes_needed ext 0)) (zone_ranges ext ! PAGE_REQ_UNDER4GB) False = Inr (0, bd2, m2)"
    "buddy_init m2 (MMAP_PMM_BITMAP + of_nat (zone_bytes_needed ext 0) + of_nat (zone_bytes_needed ext 1)) (zone_ranges ext ! PAGE_REQ_NONE) False
       = Inr (0, bd3, m3)"
    "s2 = s\<lparr>mem := m3, allocators := (allocators s)[PAGE_REQ_UNDER1MB := bd1, PAGE_REQ_UNDER4GB := bd2, PAGE_REQ_NONE := bd3]\<rparr>"
    "zones_ok ext s2"
    "\<exists>r < 3. \<exists>q < 3. r \<noteq> q \<and> buddy_storage (allocators s2 ! r) \<inter> buddy_storage (allocators s2 ! q) \<noteq> {}"
    "same_outside (region MMAP_PMM_BITMAP 0x1000000) (mem s) (mem s2)"
proof -
  let ?B = "region MMAP_PMM_BITMAP 0x1000000"
  have b: "zone_bytes_needed ext 0 \<le> 4194321" "zone_bytes_needed ext 1 \<le> 4194321" "zone_bytes_needed ext 2 \<le> 4194321"
    by (rule zone_overhead(3) [OF assms(1,2)], simp)+
  have req: "PAGE_REQ_UNDER1MB = 1" "PAGE_REQ_UNDER4GB = 2" "PAGE_REQ_NONE = 0" by (simp_all add: page_req_defs)
  obtain bd1 m1 where bd1: "buddy_init (mem s) (MMAP_PMM_BITMAP + of_nat 0) (zone_ranges ext ! 1) False = Inr (0, bd1, m1)"
    "buddy_wf bd1" "buddy_start bd1 = start (zone_ranges ext ! 1)" "buddy_size bd1 = extent (zone_ranges ext ! 1)"
    "buddy_storage bd1 \<subseteq> ?B" "same_outside ?B (mem s) m1"
    by (rule zone_init [OF assms(1,2), of 1 0 "mem s"]) (use b in auto)
  obtain bd2 m2 where bd2: "buddy_init m1 (MMAP_PMM_BITMAP + of_nat (zone_bytes_needed ext 0)) (zone_ranges ext ! 2) False = Inr (0, bd2, m2)"
    "buddy_wf bd2" "buddy_start bd2 = start (zone_ranges ext ! 2)" "buddy_size bd2 = extent (zone_ranges ext ! 2)"
    "buddy_storage bd2 \<subseteq> ?B" "same_outside ?B m1 m2"
    by (rule zone_init [OF assms(1,2), of 2 "zone_bytes_needed ext 0" m1]) (use b in auto)
  obtain bd3 m3 where bd3: "buddy_init m2 (MMAP_PMM_BITMAP + of_nat (zone_bytes_needed ext 0 + zone_bytes_needed ext 1)) (zone_ranges ext ! 0) False = Inr (0, bd3, m3)"
    "buddy_wf bd3" "buddy_start bd3 = start (zone_ranges ext ! 0)" "buddy_size bd3 = extent (zone_ranges ext ! 0)"
    "buddy_storage bd3 \<subseteq> ?B" "same_outside ?B m2 m3"
    by (rule zone_init [OF assms(1,2), of 0 "zone_bytes_needed ext 0 + zone_bytes_needed ext 1" m2]) (use b in auto)
  define s2 where "s2 = s\<lparr>mem := m3, allocators := (allocators s)[PAGE_REQ_UNDER1MB := bd1,
    PAGE_REQ_UNDER4GB := bd2, PAGE_REQ_NONE := bd3]\<rparr>"
  obtain x y z where "allocators s = [x, y, z]" using assms(3) by (auto simp: length_Suc_conv eval_nat_numeral)
  then have al: "allocators s2 = [bd3, bd1, bd2]" by (simp add: s2_def req)
  have "zones_ok ext s2" using bd1(2-5) bd2(2-5) bd3(2-5) unfolding zones_ok_def all_3 al by simp
  moreover have "buddy_storage bd1 \<inter> buddy_storage bd2 \<noteq> {} \<or> buddy_storage bd2 \<inter> buddy_storage bd3 \<noteq> {}"
    by (rule bitmaps_overlap [OF assms(1,2), unfolded req]) (use bd1(1) bd2(1) bd3(1) in \<open>simp_all add: add.assoc\<close>)
  then have "\<exists>r < 3. \<exists>q < 3. r \<noteq> q \<and> buddy_storage (allocators s2 ! r) \<inter> buddy_storage (allocators s2 ! q) \<noteq> {}"
  proof
    assume "buddy_storage bd1 \<inter> buddy_storage bd2 \<noteq> {}"
    then show ?thesis by (intro exI [of _ 1] exI [of _ 2] conjI) (simp_all add: al)
  next
    assume "buddy_storage bd2 \<inter> buddy_storage bd3 \<noteq> {}"
    then show ?thesis by (intro exI [of _ 2] exI [of _ 0] conjI) (simp_all add: al)
  qed
  moreover have "same_outside ?B (mem s) (mem s2)"
    using bd1(6) bd2(6) bd3(6) by (auto simp: s2_def intro: same_outside_trans)
  ultimately show ?thesis using that [of bd1 m1 bd2 m2 bd3 m3 s2] bd1(1) bd2(1) bd3(1) by (simp add: req s2_def add.assoc)
qed

lemma init_physical_memory_spec:
  fixes s :: "'a vmm_scheme"
  defines "ext \<equiv> early_max_extent s"
  assumes "bitmap_tables s (bitmap_pages ext)" "length (allocators s) = 3" "0x100000 \<le> ext" "ext \<le> 0x1000000000"
    "\<forall>j < 4096. space s (1042432 + j) = None"
  obtains s' where "init_physical_memory s = Inr (0, s')" "zones_ok ext s'" "tables_ok s'"
    "\<exists>r < 3. \<exists>q < 3. r \<noteq> q \<and> buddy_storage (allocators s' ! r) \<inter> buddy_storage (allocators s' ! q) \<noteq> {}"
    "same_outside (region MMAP_PMM_BITMAP 0x1000000) (mem s) (mem s')"
    "\<And>q. space s' q \<noteq> None \<longleftrightarrow> space s q \<noteq> None \<or> 1042432 \<le> q \<and> q < 1042432 + bitmap_pages ext"
    "\<And>k. k < 1023 \<Longrightarrow> present (pde s k) \<Longrightarrow> present (pde s' k)"
    "s' = s\<lparr>mem := mem s', ptmem := ptmem s', early_ranges := early_ranges s', current := current s',
      allocators := allocators s', pmm_init_stage := PMM_INIT_FULL\<rparr>"
proof -
  let ?B = "region MMAP_PMM_BITMAP 0x1000000"
  obtain s1 where s1: "map_bitmaps 0 (bitmap_pages ext) s = Inr s1" "bitmap_tables s1 0"
    "\<forall>q. space s1 q \<noteq> None \<longleftrightarrow> space s q \<noteq> None \<or> 1042432 + 0 \<le> q \<and> q < 1042432 + 0 + bitmap_pages ext"
    "\<forall>k < 1023. present (pde s k) \<longrightarrow> present (pde s1 k)"
    "s1 = s\<lparr>ptmem := ptmem s1, early_ranges := early_ranges s1, current := current s1\<rparr>"
    using map_bitmaps_spec [of s "bitmap_pages ext" 0 0] assms(2,6) bitmap_pages_eq(2) [OF assms(4,5)] by auto
  have f1: "mem s1 = mem s" "allocators s1 = allocators s" "early_max_extent s1 = ext" "early_nranges s1 = early_nranges s"
    unfolding ext_def by (subst s1(5), simp)+
  have "length (allocators s1) = 3" using assms(3) f1(2) by simp
  then obtain bd1 m1 bd2 m2 bd3 m3 s2 where
    bd: "buddy_init (mem s1) MMAP_PMM_BITMAP (zone_ranges ext ! PAGE_REQ_UNDER1MB) False = Inr (0, bd1, m1)"
    "buddy_init m1 (MMAP_PMM_BITMAP + of_nat (zone_bytes_needed ext 0)) (zone_ranges ext ! PAGE_REQ_UNDER4GB) False = Inr (0, bd2, m2)"
    "buddy_init m2 (MMAP_PMM_BITMAP + of_nat (zone_bytes_needed ext 0) + of_nat (zone_bytes_needed ext 1)) (zone_ranges ext ! PAGE_REQ_NONE) False
       = Inr (0, bd3, m3)"
    and s2: "s2 = s1\<lparr>mem := m3, allocators := (allocators s1)[PAGE_REQ_UNDER1MB := bd1, PAGE_REQ_UNDER4GB := bd2, PAGE_REQ_NONE := bd3]\<rparr>"
    "zones_ok ext s2"
    "\<exists>r < 3. \<exists>q < 3. r \<noteq> q \<and> buddy_storage (allocators s2 ! r) \<inter> buddy_storage (allocators s2 ! q) \<noteq> {}"
    "same_outside ?B (mem s1) (mem s2)"
    by (rule init_zones [OF assms(4,5)])
  have k1: "early_inv s1" "early_aligned s1" "early_bytes s1 \<subseteq> {..<unat ext}" "tables_ok s1"
    using s1(2) f1(3) by (auto simp: bitmap_tables_def kinit_def early_inv_def)
  have "range_below ext (early_ranges s2 ! j)" if "j < early_nranges s2" for j
    using k1(1-3) that by (auto simp: range_below_def early_inv_def early_aligned_def early_bytes_def s2(1))
  moreover have "0 + early_nranges s2 \<le> length (early_ranges s2)" using k1(1) by (simp add: early_inv_def s2(1))
  ultimately obtain s3 where s3: "release_early 0 (early_nranges s2) s2 = Inr s3" "same_outside ?B (mem s2) (mem s3)"
    "s3 = s2\<lparr>mem := mem s3, early_ranges := early_ranges s3\<rparr>"
    using release_early_total [OF s2(2) assms(4), of 0 "early_nranges s2"] by auto
  let ?s' = "s3\<lparr>pmm_init_stage := PMM_INIT_FULL\<rparr>"
  have kept: "ptmem s3 = ptmem s2" "current s3 = current s2" "allocators s3 = allocators s2" by (subst s3(3), simp)+
  have c: "ptmem ?s' = ptmem s1" "cr3 ?s' = cr3 s1" by (simp, subst s3(3), simp add: s2(1))+
  show ?thesis
  proof (rule that [of ?s'])
    have "pmm_init_stage s = PMM_INIT_EARLY" using assms(2) by (simp add: bitmap_tables_def kinit_def early_inv_def)
    moreover have "length (zone_ranges ext) = 3" by (simp add: zone_ranges_def)
    ultimately show "init_physical_memory s = Inr (0, ?s')"
      using s1(1) bd s3(1) bitmap_pages_eq(1) [OF assms(4,5)] zone_overhead(1) [OF assms(4,5)]
      unfolding init_physical_memory_def ext_def [symmetric] by (simp add: Let_def s2(1))
    show "zones_ok ext ?s'" using s2(2) by (simp add: zones_ok_def kept)
    show "tables_ok ?s'" using k1(4) vm_cong(1) [OF c] by simp
    show "\<exists>r < 3. \<exists>q < 3. r \<noteq> q \<and> buddy_storage (allocators ?s' ! r) \<inter> buddy_storage (allocators ?s' ! q) \<noteq> {}"
      using s2(3) by (simp add: kept)
    show "same_outside ?B (mem s) (mem ?s')" using s2(4) s3(2) f1(1) by (auto intro: same_outside_trans)
    show "space ?s' q \<noteq> None \<longleftrightarrow> space s q \<noteq> None \<or> 1042432 \<le> q \<and> q < 1042432 + bitmap_pages ext" for q
      using s1(3) space_cong [OF c] by simp
    show "present (pde ?s' k)" if "k < 1023" "present (pde s k)" for k
      using s1(4) that pde_cong [OF c] by simp
    have e2: "s2 = s\<lparr>mem := mem s2, ptmem := ptmem s2, early_ranges := early_ranges s2, current := current s2,
        allocators := allocators s2\<rparr>"
      unfolding s2(1) by (subst s1(5)) simp
    show "?s' = s\<lparr>mem := mem ?s', ptmem := ptmem ?s', early_ranges := early_ranges ?s', current := current ?s',
        allocators := allocators ?s', pmm_init_stage := PMM_INIT_FULL\<rparr>"
      using kept by (subst s3(3), subst e2) simp
  qed
qed
end
