(* ===== verification/Multiboot.thy ===== *)
theory Multiboot
  imports Elf Vgaterm
begin

text \<open>
  The information the boot loader hands over, as \<^verbatim>\<open>include/x86/multiboot.h\<close> lays it out: the fields
  of each structure at their offsets in the store.
\<close>

section \<open>Constants\<close>

definition MULTIBOOT_BOOTLOADER_MAGIC :: u32 where "MULTIBOOT_BOOTLOADER_MAGIC = 0x2BADB002"

definition MULTIBOOT_INFO_MEMORY :: u32 where "MULTIBOOT_INFO_MEMORY = 0x00000001"
definition MULTIBOOT_INFO_CMDLINE :: u32 where "MULTIBOOT_INFO_CMDLINE = 0x00000004"
definition MULTIBOOT_INFO_MODS :: u32 where "MULTIBOOT_INFO_MODS = 0x00000008"
definition MULTIBOOT_INFO_ELF_SHDR :: u32 where "MULTIBOOT_INFO_ELF_SHDR = 0x00000020"

definition MULTIBOOT_MEMORY_AVAILABLE :: u32 where "MULTIBOOT_MEMORY_AVAILABLE = 1"

lemmas multiboot_consts = MULTIBOOT_BOOTLOADER_MAGIC_def MULTIBOOT_INFO_MEMORY_def
  MULTIBOOT_INFO_CMDLINE_def MULTIBOOT_INFO_MODS_def MULTIBOOT_INFO_ELF_SHDR_def
  MULTIBOOT_MEMORY_AVAILABLE_def

section \<open>Structures\<close>

definition load64 :: "mem \<Rightarrow> u32 \<Rightarrow> u64" where
  "load64 m a = ucast (load32 m a) OR push_bit 32 (ucast (load32 m (a + 4)))"

record multiboot_elf_section_header_table =
  elf_num :: u32
  elf_size :: u32
  elf_addr :: u32
  elf_shndx :: u32

record multiboot_info =
  mb_flags :: u32
  mem_lower :: u32
  mem_upper :: u32
  boot_device :: u32
  mb_cmdline :: u32
  mods_count :: u32
  mods_addr :: u32
  elf_sec :: multiboot_elf_section_header_table
  mmap_length :: u32
  mmap_addr :: u32
  drives_length :: u32
  drives_addr :: u32
  config_table :: u32
  boot_loader_name :: u32
  apm_table :: u32
  vbe_control_info :: u32
  vbe_mode_info :: u32
  vbe_mode :: u16
  vbe_interface_seg :: u16
  vbe_interface_off :: u16
  vbe_interface_len :: u16

record multiboot_mmap_entry =
  me_size :: u32
  me_addr :: u64
  me_len :: u64
  me_type :: u32

definition read_elf_sec :: "mem \<Rightarrow> u32 \<Rightarrow> multiboot_elf_section_header_table" where
  "read_elf_sec m p = \<lparr>elf_num = load32 m p, elf_size = load32 m (p + 4), elf_addr = load32 m (p + 8),
     elf_shndx = load32 m (p + 12)\<rparr>"

definition read_multiboot_info :: "mem \<Rightarrow> u32 \<Rightarrow> multiboot_info" where
  "read_multiboot_info m p = \<lparr>mb_flags = load32 m p, mem_lower = load32 m (p + 4), mem_upper = load32 m (p + 8),
     boot_device = load32 m (p + 12), mb_cmdline = load32 m (p + 16), mods_count = load32 m (p + 20),
     mods_addr = load32 m (p + 24), elf_sec = read_elf_sec m (p + 28), mmap_length = load32 m (p + 44),
     mmap_addr = load32 m (p + 48), drives_length = load32 m (p + 52), drives_addr = load32 m (p + 56),
     config_table = load32 m (p + 60), boot_loader_name = load32 m (p + 64), apm_table = load32 m (p + 68),
     vbe_control_info = load32 m (p + 72), vbe_mode_info = load32 m (p + 76), vbe_mode = load16 m (p + 80),
     vbe_interface_seg = load16 m (p + 82), vbe_interface_off = load16 m (p + 84),
     vbe_interface_len = load16 m (p + 86)\<rparr>"

text \<open>An entry of the memory map is packed; its \<^verbatim>\<open>size\<close> does not count the size field itself.\<close>

definition read_mmap_entry :: "mem \<Rightarrow> u32 \<Rightarrow> multiboot_mmap_entry" where
  "read_mmap_entry m p = \<lparr>me_size = load32 m p, me_addr = load64 m (p + 4), me_len = load64 m (p + 12),
     me_type = load32 m (p + 20)\<rparr>"

section \<open>Reading what was not written to\<close>

lemma read_mmap_entry_cong:
  assumes "\<And>a. a \<in> region p 24 \<Longrightarrow> m' a = m a"
  shows "read_mmap_entry m' p = read_mmap_entry m p"
proof -
  have "m' (p + of_nat k) = m (p + of_nat k)" if "k < 24" for k using assms region_memI [OF that] by blast
  from this [of 0] this [of 1] this [of 2] this [of 3] this [of 4] this [of 5] this [of 6] this [of 7]
    this [of 8] this [of 9] this [of 10] this [of 11] this [of 12] this [of 13] this [of 14] this [of 15]
    this [of 16] this [of 17] this [of 18] this [of 19] this [of 20] this [of 21] this [of 22] this [of 23]
  show ?thesis by (simp add: read_mmap_entry_def load64_def load32_def add.assoc)
qed

end
