(* ===== verification/Memory_Start.thy ===== *)
theory Memory_Start
  imports Pmm_Init Vmspace Multiboot
begin

text \<open>
  The memory feature of \<^verbatim>\<open>arch/x86/mem.c\<close>: the boot loader's memory map is read, the kernel image
  taken out of it and the physical and virtual memory managers are started on the rest.
\<close>

section \<open>The operations\<close>

text \<open>
  The state of the second-stage loader (theory \<open>Loader\<close>): the boot information it keeps, the kernel's
  symbols, the static buffer of its allocator and how much of it is used; and the two symbols of the
  linker script that delimit the kernel image.
\<close>

record boot = vmm +
  mboot :: multiboot_info
  kernel_elf :: elf_t
  earlyalloc_buf :: u32
  earlyalloc_idx :: u32
  link_start :: u32
  link_end :: u32

definition remove_range :: "u64 \<Rightarrow> u64 \<Rightarrow> range \<Rightarrow> range" where
  "remove_range st ext r =
     (if start r = st then r\<lparr>start := start r + ext, extent := extent r - ext\<rparr> else r)"

text \<open>
  The loop over the map, from address \<open>i\<close>. \<open>ranges\<close> is what has been stored of the array; the array has
  32 elements, whatever the loop's own limit says. An entry whose size wraps the address around
  can make the loop run forever.
\<close>

partial_function (option) memory_map ::
    "mem \<Rightarrow> u32 \<Rightarrow> u32 \<Rightarrow> u64 \<Rightarrow> u64 \<Rightarrow> range list \<Rightarrow> (u64 \<times> u64 \<times> range list) res option" where
  "memory_map m limit i ext total_len ranges =
     (if i < limit
      then if 128 \<le> length ranges then Some (Inr (ext, total_len, ranges))
           else let entry = read_mmap_entry m i
                in if me_type entry = MULTIBOOT_MEMORY_AVAILABLE
                   then if 32 \<le> length ranges then Some (Inl (Undefined ''ranges[n] out of bounds''))
                        else memory_map m limit (i + me_size entry + 4)
                               (if ext < me_addr entry + me_len entry then me_addr entry + me_len entry else ext)
                               (total_len + me_len entry)
                               (ranges @ [\<lparr>start = me_addr entry, extent = me_len entry\<rparr>])
                   else memory_map m limit (i + me_size entry + 4) ext total_len ranges
      else Some (Inr (ext, total_len, ranges)))"

definition kernel_end :: "u32 \<Rightarrow> u32" where
  "kernel_end e = (e AND NOT get_page_mask) + get_page_size"

definition init_memory :: "u32 \<Rightarrow> 'a boot_scheme \<Rightarrow> (int \<times> 'a boot_scheme) res" where
  "init_memory handler s =
     (if mb_flags (mboot s) AND MULTIBOOT_INFO_MEMORY = 0
      then Inl (Panic ''Bootloader did not provide memory map info!'')
      else bind_res (or_hang (memory_map (mem s) (mmap_addr (mboot s) + mmap_length (mboot s))
               (mmap_addr (mboot s)) 0 0 [])) (\<lambda>(ext, total_len, ranges).
           let ranges = map (remove_range (ucast (link_start s)) (ucast (kernel_end (link_end s)))) ranges
           in bind_res (init_physical_memory_early s ranges (length ranges) ext) (\<lambda>(_, s).
              bind_res (init_virtual_memory handler s) (\<lambda>(_, s).
              bind_res (init_physical_memory s) (\<lambda>(_, s). Inr (1, s))))))"

section \<open>Reading the map\<close>

text \<open>\<open>mmap_lists m limit i es\<close>: the map from address \<open>i\<close> up to \<open>limit\<close> has the entries \<open>es\<close>.\<close>

fun mmap_lists :: "mem \<Rightarrow> u32 \<Rightarrow> u32 \<Rightarrow> multiboot_mmap_entry list \<Rightarrow> bool" where
  "mmap_lists m limit i [] \<longleftrightarrow> limit \<le> i"
| "mmap_lists m limit i (e # es) \<longleftrightarrow>
     i < limit \<and> read_mmap_entry m i = e \<and> mmap_lists m limit (i + me_size e + 4) es"

definition available :: "multiboot_mmap_entry list \<Rightarrow> range list" where
  "available es = map (\<lambda>e. \<lparr>start = me_addr e, extent = me_len e\<rparr>)
     (filter (\<lambda>e. me_type e = MULTIBOOT_MEMORY_AVAILABLE) es)"

definition memory_top :: "range list \<Rightarrow> u64" where
  "memory_top rs = fold (\<lambda>r ext. max ext (start r + extent r)) rs 0"

lemma memory_map_lists:
  assumes "mmap_lists m limit i es" "length rs + length (available es) \<le> 32"
  shows "\<exists>tot. memory_map m limit i ext total_len rs = Some (Inr
    (fold (\<lambda>r ext. max ext (start r + extent r)) (available es) ext, tot, rs @ available es))"
  using assms
proof (induction es arbitrary: i ext total_len rs)
  case Nil
  then have "memory_map m limit i ext total_len rs = Some (Inr (ext, total_len, rs))"
    by (subst memory_map.simps) (simp add: leD)
  then show ?case by (simp add: available_def)
next
  case (Cons e es)
  show ?case
  proof (cases "me_type e = MULTIBOOT_MEMORY_AVAILABLE")
    case True
    let ?r = "\<lparr>start = me_addr e, extent = me_len e\<rparr>"
    have av: "available (e # es) = ?r # available es" using True by (simp add: available_def)
    then have len: "length rs < 32" "length (rs @ [?r]) + length (available es) \<le> 32" using Cons.prems(2) by simp_all
    have mx: "(if ext < me_addr e + me_len e then me_addr e + me_len e else ext) = max ext (me_addr e + me_len e)"
      by (auto simp: max_def dest: leD)
    have "memory_map m limit i ext total_len rs = memory_map m limit (i + me_size e + 4)
        (max ext (me_addr e + me_len e)) (total_len + me_len e) (rs @ [?r])"
      using Cons.prems(1) True len(1) mx by (subst memory_map.simps) simp
    with Cons.IH [OF _ len(2)] Cons.prems(1) show ?thesis by (simp add: av)
  next
    case False
    then have av: "available (e # es) = available es" by (simp add: available_def)
    have "memory_map m limit i ext total_len rs = memory_map m limit (i + me_size e + 4) ext total_len rs"
      using Cons.prems False by (subst memory_map.simps) (auto simp: av)
    with Cons show ?thesis by (simp add: av)
  qed
qed

lemma memory_top_bound: "r \<in> set rs \<Longrightarrow> start r + extent r \<le> memory_top rs"
proof -
  have "(r \<in> set rs \<longrightarrow> start r + extent r \<le> fold (\<lambda>r ext. max ext (start r + extent r)) rs ext) \<and>
      ext \<le> fold (\<lambda>r ext. max ext (start r + extent r)) rs ext" for ext
  proof (induction rs arbitrary: ext)
    case (Cons q rs)
    from Cons [of "max ext (start q + extent q)"] show ?case by (auto intro: order_trans)
  qed simp
  then show "r \<in> set rs \<Longrightarrow> start r + extent r \<le> memory_top rs" unfolding memory_top_def by blast
qed

text \<open>The loop reads nothing but the map.\<close>

fun mmap_area :: "u32 \<Rightarrow> multiboot_mmap_entry list \<Rightarrow> u32 set" where
  "mmap_area i [] = {}"
| "mmap_area i (e # es) = region i 24 \<union> mmap_area (i + me_size e + 4) es"

lemma mmap_lists_cong:
  "mmap_lists m limit i es \<Longrightarrow> (\<And>a. a \<in> mmap_area i es \<Longrightarrow> m' a = m a) \<Longrightarrow> mmap_lists m' limit i es"
proof (induction es arbitrary: i)
  case (Cons e es)
  have "read_mmap_entry m' i = read_mmap_entry m i"
    using Cons.prems(2) by (intro read_mmap_entry_cong) simp
  with Cons show ?case by simp
qed simp

section \<open>A boot loader's map\<close>

text \<open>
  Available memory that the kernel can start from: page-aligned ranges that do not overlap, one of
  which starts where the kernel image does and is large enough for the image, the page tables of
  kernel space and the bitmaps.
\<close>

definition boot_map_ok :: "nat \<Rightarrow> nat \<Rightarrow> range list \<Rightarrow> bool" where
  "boot_map_ok st ke rs \<longleftrightarrow> length rs \<le> 32 \<and>
     (\<forall>r \<in> set rs. range_fits r \<and> unat (start r) mod 4096 = 0) \<and>
     (\<forall>i < length rs. \<forall>j < length rs. i \<noteq> j \<longrightarrow>
        start (rs ! i) \<noteq> start (rs ! j) \<and> range_bytes (rs ! i) \<inter> range_bytes (rs ! j) = {}) \<and>
     memory_top rs \<le> 0x1000000000 \<and>
     (\<exists>k < length rs. unat (start (rs ! k)) = st \<and> 0x100000 \<le> st \<and>
        st + unat (extent (rs ! k)) \<le> 0x100000000 \<and>
        ke + (254 + bitmap_pages (memory_top rs)) * 4096 < unat (extent (rs ! k)))"

lemma kernel_end_aligned:
  assumes "unat e \<le> 0xFFFFE000"
  shows "unat (kernel_end e) mod 4096 = 0" "unat e < unat (kernel_end e)" "0 < unat (kernel_end e)"
proof -
  have "e AND NOT get_page_mask = push_bit 12 (drop_bit 12 e)"
  proof (rule bit_word_eqI)
    fix n assume "n < LENGTH(32)"
    have "(0xFFF :: u32) = mask 12" by (simp add: mask_eq_exp_minus_1)
    then have "bit (0xFFF :: u32) n \<longleftrightarrow> n < 12"
      using \<open>n < LENGTH(32)\<close> bit_mask_iff [where 'a = "32 word", of 12 n] by (simp only:) simp
    then show "bit (e AND NOT get_page_mask) n = bit (push_bit 12 (drop_bit 12 e)) n"
      using \<open>n < LENGTH(32)\<close> by (auto simp: get_page_mask_def bit_simps)
  qed
  moreover have d: "unat e div 4096 * 4096 \<le> unat e" "unat e < unat e div 4096 * 4096 + 4096"
    using div_mult_mod_eq [of "unat e" 4096] mod_less_divisor [of 4096 "unat e"] by simp_all
  then have "unat (push_bit 12 (drop_bit 12 e)) = unat e div 4096 * 4096"
    using unat_u32_less [of e] by (subst unat_push_bit) (simp_all add: unat_drop_bit)
  ultimately have u: "unat (e AND NOT get_page_mask) = unat e div 4096 * 4096" by simp
  then have "unat (kernel_end e) = (unat e div 4096 + 1) * 4096"
    using assms d by (simp add: kernel_end_def get_page_size_def unat_word_ariths)
  then show "unat (kernel_end e) mod 4096 = 0" "unat e < unat (kernel_end e)" "0 < unat (kernel_end e)" using d by simp_all
qed

lemma remove_range_spec:
  fixes ls ke :: u32
  assumes "boot_map_ok (unat ls) (unat ke) rs" "unat ke mod 4096 = 0" "i < length rs"
  defines "rs' \<equiv> map (remove_range (ucast ls) (ucast ke)) rs"
  shows "range_fits (rs' ! i)" "unat (start (rs' ! i)) mod 4096 = 0"
    "range_bytes (rs' ! i) \<subseteq> range_bytes (rs ! i) - {unat ls ..< unat ls + unat ke}"
    "unat (start (rs ! i)) = unat ls \<Longrightarrow> unat (start (rs' ! i)) = unat ls + unat ke \<and>
       unat (extent (rs' ! i)) = unat (extent (rs ! i)) - unat ke"
proof -
  obtain k where k: "k < length rs" "unat (start (rs ! k)) = unat ls"
    "unat ls + unat (extent (rs ! k)) \<le> 0x100000000" "unat ke < unat (extent (rs ! k))"
    using assms(1) unfolding boot_map_ok_def by (metis add_lessD1)
  have b: "range_fits (rs ! i)" "unat (start (rs ! i)) mod 4096 = 0"
    using assms(1,3) by (simp_all add: boot_map_ok_def)
  have u: "unat (ucast ls :: u64) = unat ls" "unat (ucast ke :: u64) = unat ke"
    using unat_u32_less [of ls] unat_u32_less [of ke] by (simp_all add: unat_ucast_small)
  have nth: "rs' ! i = remove_range (ucast ls) (ucast ke) (rs ! i)" using assms(3) by (simp add: rs'_def)
  have "range_fits (rs' ! i) \<and> unat (start (rs' ! i)) mod 4096 = 0 \<and>
      range_bytes (rs' ! i) \<subseteq> range_bytes (rs ! i) - {unat ls ..< unat ls + unat ke} \<and>
      (unat (start (rs ! i)) = unat ls \<longrightarrow> unat (start (rs' ! i)) = unat ls + unat ke \<and>
       unat (extent (rs' ! i)) = unat (extent (rs ! i)) - unat ke)"
  proof (cases "i = k")
    case True
    have "start (rs ! i) = ucast ls" using k(2) u True by (simp add: word_unat_eq_iff)
    then have r: "rs' ! i = \<lparr>start = ucast ls + ucast ke, extent = extent (rs ! i) - ucast ke\<rparr>"
      unfolding nth remove_range_def by (cases "rs ! i") simp
    have "unat (ucast ls + ucast ke :: u64) = unat ls + unat ke" "unat (extent (rs ! i) - ucast ke) = unat (extent (rs ! i)) - unat ke"
      using u k(3,4) True unat_u32_less [of ls] unat_u32_less [of ke]
      by (simp_all add: unat_add_u64 unat_sub_u64 word_le_nat_alt)
    then show ?thesis
      using k(2-4) True b assms(2) unfolding r range_fits_def range_bytes_def by auto
  next
    case False
    then have ne: "start (rs ! i) \<noteq> start (rs ! k)" "range_bytes (rs ! i) \<inter> range_bytes (rs ! k) = {}"
      using assms(1,3) k(1) by (auto simp: boot_map_ok_def)
    then have "unat (start (rs ! i)) \<noteq> unat ls" using k(2) by (metis word_unat_eq_iff)
    then have "rs' ! i = rs ! i" using u(1) unfolding nth remove_range_def by auto
    moreover have "{unat ls ..< unat ls + unat ke} \<subseteq> range_bytes (rs ! k)" using k(2,4) by (auto simp: range_bytes_def)
    ultimately show ?thesis using b ne(2) \<open>unat (start (rs ! i)) \<noteq> unat ls\<close> by auto
  qed
  then show "range_fits (rs' ! i)" "unat (start (rs' ! i)) mod 4096 = 0"
    "range_bytes (rs' ! i) \<subseteq> range_bytes (rs ! i) - {unat ls ..< unat ls + unat ke}"
    "unat (start (rs ! i)) = unat ls \<Longrightarrow> unat (start (rs' ! i)) = unat ls + unat ke \<and>
       unat (extent (rs' ! i)) = unat (extent (rs ! i)) - unat ke"
    by blast+
qed

section \<open>Starting memory management\<close>

text \<open>
  What the loaders leave behind: the tables of \<open>loader.s\<close>, inside the kernel image in the first 4MB,
  the boot loader's map where \<open>mboot\<close> says, and managers that have not been started.
\<close>

definition boot_ready :: "'a boot_scheme \<Rightarrow> multiboot_mmap_entry list \<Rightarrow> bool" where
  "boot_ready s es \<longleftrightarrow> boot_tables s \<and> unat (link_end s) < 0x400000 \<and>
     (\<forall>f \<in> {frame (cr3 s), frame (pde s 0)}. unat (link_start s) \<le> f * 4096 \<and> f * 4096 < unat (kernel_end (link_end s))) \<and>
     mb_flags (mboot s) AND MULTIBOOT_INFO_MEMORY \<noteq> 0 \<and> pmm_init_stage s = PMM_INIT_START \<and> length (allocators s) = 3 \<and>
     mmap_lists (mem s) (mmap_addr (mboot s) + mmap_length (mboot s)) (mmap_addr (mboot s)) es \<and>
     boot_map_ok (unat (link_start s)) (unat (kernel_end (link_end s))) (available es)"

lemma boot_entries:
  assumes "boot_tables s"
  shows "k < 1023 \<Longrightarrow> present (pde s k) \<longleftrightarrow> k = 0 \<or> k = 768" "pde s 768 = pde s 0"
proof -
  have b: "present (pde s 0)" "\<And>k. k < 1024 \<Longrightarrow> k \<noteq> 0 \<Longrightarrow> pde s k = (if k = 768 then pde s 0 else 0)"
    using assms unfolding boot_tables_def by blast+
  from b(2) [of 768] show "pde s 768 = pde s 0" by simp
  have "\<not> present 0" by (simp add: present_bit)
  with b show "k < 1023 \<Longrightarrow> present (pde s k) \<longleftrightarrow> k = 0 \<or> k = 768" by (cases "k = 0") simp_all
qed

lemma boot_table_frames:
  assumes "boot_tables s"
  shows "table_frames s = {frame (cr3 s), frame (pde s 0)}"
proof -
  have "k < 1023 \<and> present (pde s k) \<longleftrightarrow> k \<in> {0, 768}" for k
    using boot_entries(1) [OF assms, of k] by (cases "k < 1023") auto
  then have "{k. k < 1023 \<and> present (pde s k)} = {0, 768}" by blast
  then show ?thesis unfolding table_frames_def using boot_entries(2) [OF assms] by simp
qed

lemma boot_space:
  assumes "boot_tables s"
  shows "space s n \<noteq> None \<longleftrightarrow> n < 1024 \<or> 786432 \<le> n \<and> n < 787456"
proof -
  have e: "ptmem s (entry_addr (pde s 0) e) AND X86_PRESENT \<noteq> 0" if "e < 1024" for e
    using assms page_entry(2) [of e] that unfolding boot_tables_def by simp
  have "n div 1024 = 0 \<longleftrightarrow> n < 1024" by (simp add: div_eq_0_iff)
  moreover have "n div 1024 = 768 \<longleftrightarrow> 786432 \<le> n \<and> n < 787456"
  proof -
    have "768 \<le> n div 1024 \<longleftrightarrow> 786432 \<le> n" by (simp add: less_eq_div_iff_mult_less_eq)
    moreover have "n div 1024 < 769 \<longleftrightarrow> n < 787456" by (simp add: div_less_iff_less_mult)
    moreover have "k = 768 \<longleftrightarrow> 768 \<le> k \<and> k < 769" for k :: nat by auto
    ultimately show ?thesis by (simp only:)
  qed
  moreover have "space s n \<noteq> None \<longleftrightarrow> n div 1024 = 0 \<or> n div 1024 = 768"
  proof (cases "n < 1047552")
    case True
    then have k: "n div 1024 < 1023" by simp
    show ?thesis
    proof (cases "n div 1024 = 0 \<or> n div 1024 = 768")
      case True
      then have "pde s (n div 1024) = pde s 0" using boot_entries(2) [OF assms] by auto
      then have "present (pde s (n div 1024))" "pte s n AND X86_PRESENT \<noteq> 0"
        using True boot_entries(1) [OF assms k] e [of "n mod 1024"] by (simp_all add: pte_def)
      then show ?thesis using True \<open>n < 1047552\<close> by (simp add: space_def lookup_def)
    next
      case False
      then have "\<not> present (pde s (n div 1024))" using boot_entries(1) [OF assms k] by (simp only: simp_thms)
      then show ?thesis using False by (simp only: space_def lookup_def) simp
    qed
  next
    case False
    then have "1047552 div 1024 \<le> n div 1024" by (intro div_le_mono) simp
    moreover have "(1047552 :: nat) div 1024 \<le> k \<Longrightarrow> k \<noteq> 0 \<and> k \<noteq> 768" for k :: nat by auto
    ultimately have "n div 1024 \<noteq> 0 \<and> n div 1024 \<noteq> 768" by blast
    then show ?thesis using False by (simp add: space_def)
  qed
  ultimately show ?thesis by (simp only:)
qed

text \<open>The early allocator, as it is handed the rest of the map.\<close>

lemma early_ranges_below:
  assumes "boot_map_ok ls ke rs" "i < length rs" "x \<in> range_bytes (rs ! i)"
  shows "x < unat (memory_top rs)"
proof -
  have "range_fits (rs ! i)" using assms(1,2) by (simp add: boot_map_ok_def)
  then have "x < unat (start (rs ! i) + extent (rs ! i))"
    using assms(3) by (simp add: range_bytes_def range_fits_def unat_add_u64)
  also have "\<dots> \<le> unat (memory_top rs)" using memory_top_bound [OF nth_mem [OF assms(2)]] by (simp add: word_le_nat_alt)
  finally show ?thesis .
qed

lemma frame_within:
  fixes ls ke x :: nat
  assumes "ke mod 4096 = 0" "ls \<le> x div 4096 * 4096" "x div 4096 * 4096 < ke"
  shows "ls \<le> x" "x < ke"
proof -
  obtain q where q: "ke = q * 4096" using assms(1) by (metis mod_0_imp_dvd dvd_def mult.commute)
  have "x div 4096 < q" using assms(3) q by simp
  then show "x < ke" by (simp only: q div_less_iff_less_mult [symmetric])
  show "ls \<le> x" using assms(2) div_times_less_eq_dividend [of x 4096] by linarith
qed

lemma memory_top_above:
  assumes "boot_map_ok ls ke rs"
  shows "0x100000 \<le> memory_top rs"
proof -
  obtain k where k: "k < length rs" "unat (start (rs ! k)) \<ge> 0x100000" "range_fits (rs ! k)"
    using assms nth_mem unfolding boot_map_ok_def by metis
  then have "0x100000 \<le> unat (start (rs ! k) + extent (rs ! k))" by (simp add: range_fits_def unat_add_u64)
  moreover have "start (rs ! k) + extent (rs ! k) \<le> memory_top rs" by (rule memory_top_bound [OF nth_mem [OF k(1)]])
  ultimately show ?thesis by (simp add: word_le_nat_alt)
qed

lemma early_start:
  assumes "boot_ready s es"
  defines "rs \<equiv> available es"
  defines "rs' \<equiv> map (remove_range (ucast (link_start s)) (ucast (kernel_end (link_end s)))) rs"
  obtains s1 where "init_physical_memory_early s rs' (length rs') (memory_top rs) = Inr (0, s1)"
    "early_inv s1" "early_aligned s1" "tables_apart s1" "early_room s1 (254 + bitmap_pages (memory_top rs))"
    "early_bytes s1 \<subseteq> {..<unat (early_max_extent s1)}"
    "s1 = s\<lparr>early_ranges := early_ranges s1, early_nranges := length rs, early_max_extent := memory_top rs,
       pmm_init_stage := PMM_INIT_EARLY\<rparr>"
proof -
  let ?ls = "unat (link_start s)" and ?ke = "unat (kernel_end (link_end s))"
  define s1 where "s1 = s\<lparr>early_ranges := rs' @ drop (length rs') (early_ranges s), early_nranges := length rs',
    early_max_extent := memory_top rs, pmm_init_stage := PMM_INIT_EARLY\<rparr>"
  have b: "boot_tables s" "boot_map_ok ?ls ?ke rs" "unat (link_end s) \<le> 0xFFFFE000" "pmm_init_stage s = PMM_INIT_START"
    and image: "\<And>f. f \<in> table_frames s \<Longrightarrow> ?ls \<le> f * 4096 \<and> f * 4096 < ?ke"
    using assms(1) boot_table_frames [of s] by (auto simp: boot_ready_def rs_def)
  have al: "?ke mod 4096 = 0" by (rule kernel_end_aligned(1) [OF b(3)])
  have len: "length rs' = length rs" "length rs \<le> 32" using b(2) by (simp_all add: rs'_def boot_map_ok_def)
  note rm = remove_range_spec [OF b(2) al, folded rs'_def]
  have nth: "early_ranges s1 ! i = rs' ! i" "early_nranges s1 = length rs" if "i < length rs" for i
    using that len(1) by (simp_all add: s1_def nth_append)
  have n: "early_nranges s1 = length rs" using len by (simp add: s1_def)
  have dis: "range_bytes (rs ! i) \<inter> range_bytes (rs ! j) = {}" if "i < length rs" "j < length rs" "i \<noteq> j" for i j
    using b(2) that by (simp add: boot_map_ok_def)
  have "init_physical_memory_early s rs' (length rs') (memory_top rs) = Inr (0, s1)"
    using b(4) len by (simp add: init_physical_memory_early_def s1_def)
  moreover have "early_inv s1"
  proof -
    have "range_bytes (rs' ! i) \<inter> range_bytes (rs' ! j) = {}" if "i < length rs" "j < length rs" "i \<noteq> j" for i j
      using dis [OF that] rm(3) [OF that(1)] rm(3) [OF that(2)] by blast
    then show ?thesis unfolding early_inv_def n using nth(1) rm(1) len by (simp add: s1_def)
  qed
  moreover have "early_aligned s1" unfolding early_aligned_def n using nth(1) rm(2) by simp
  moreover have eb: "early_bytes s1 = (\<Union>i < length rs. range_bytes (rs' ! i))"
    unfolding early_bytes_def n using nth(1) by auto
  have "early_bytes s1 \<subseteq> {..<unat (early_max_extent s1)}"
  proof
    fix x assume "x \<in> early_bytes s1"
    then obtain i where i: "i < length rs" "x \<in> range_bytes (rs ! i)" using eb rm(3) by blast
    then show "x \<in> {..<unat (early_max_extent s1)}" using early_ranges_below [OF b(2)] by (simp add: s1_def)
  qed
  moreover have "tables_apart s1"
  proof -
    have fr: "table_frames s1 = table_frames s" by (rule vm_cong(2)) (simp_all add: s1_def)
    have "x div 4096 \<notin> table_frames s" if "x \<in> early_bytes s1" for x
    proof
      assume "x div 4096 \<in> table_frames s"
      from frame_within [OF al, of ?ls x] image [OF this] have "x \<in> {?ls ..< ?ls + ?ke}" by simp
      then show False using that eb rm(3) by blast
    qed
    then show ?thesis by (simp add: tables_apart_def fr)
  qed
  moreover have "early_room s1 (254 + bitmap_pages (memory_top rs))"
  proof -
    obtain k where k: "k < length rs" "unat (start (rs ! k)) = ?ls" "0x100000 \<le> ?ls"
      "?ls + unat (extent (rs ! k)) \<le> 0x100000000"
      "?ke + (254 + bitmap_pages (memory_top rs)) * 4096 < unat (extent (rs ! k))"
      using b(2) unfolding boot_map_ok_def by blast
    with rm(4) [OF k(1,2)] show ?thesis
      unfolding early_room_def n by (intro exI [of _ k]) (simp add: nth Let_def)
  qed
  ultimately show ?thesis using that [of s1] len by (simp add: s1_def)
qed

text \<open>What the running kernel's memory managers are like.\<close>

definition memory_up :: "'a boot_scheme \<Rightarrow> bool" where
  "memory_up s \<longleftrightarrow> pmm_init_stage s = PMM_INIT_FULL \<and> tables_ok s \<and> zones_ok (early_max_extent s) s \<and>
     (\<forall>k. 768 \<le> k \<and> k < 1022 \<longrightarrow> present (pde s k)) \<and> cr0 s AND CR0_WP \<noteq> 0"

lemma or_bit_and: "((x :: u32) OR push_bit n 1) AND push_bit n 1 = push_bit n 1"
  by (rule bit_word_eqI) (auto simp: bit_simps)

lemma or_CR0_WP: "(x OR CR0_WP) AND CR0_WP \<noteq> 0"
  using or_bit_and [of x 16] by (simp add: CR0_WP_def)

lemma init_memory_spec:
  assumes "boot_ready s es"
  defines "ext \<equiv> memory_top (available es)"
  obtains s' where "init_memory h s = Inr (1, s')" "memory_up s'" "early_max_extent s' = ext"
    "\<exists>r < 3. \<exists>q < 3. r \<noteq> q \<and> buddy_storage (allocators s' ! r) \<inter> buddy_storage (allocators s' ! q) \<noteq> {}"
    "same_outside (region MMAP_PMM_BITMAP 0x1000000) (mem s) (mem s')"
    "\<forall>n. space s' n \<noteq> None \<longleftrightarrow> n < 1024 \<or> 786432 \<le> n \<and> n < 787456 \<or> 1042432 \<le> n \<and> n < 1042432 + bitmap_pages ext"
    "s' = s\<lparr>mem := mem s', ptmem := ptmem s', early_ranges := early_ranges s', early_nranges := early_nranges s',
      early_max_extent := ext, pmm_init_stage := PMM_INIT_FULL, allocators := allocators s', current := current s',
      isr_routines := (isr_routines s)[14 := h], cr0 := cr0 s OR CR0_WP\<rparr>"
proof -
  let ?rs = "available es"
  let ?rs' = "map (remove_range (ucast (link_start s)) (ucast (kernel_end (link_end s)))) ?rs"
  have b: "boot_tables s" "mb_flags (mboot s) AND MULTIBOOT_INFO_MEMORY \<noteq> 0" "length (allocators s) = 3"
    "mmap_lists (mem s) (mmap_addr (mboot s) + mmap_length (mboot s)) (mmap_addr (mboot s)) es" "length ?rs \<le> 32"
    "ext \<le> 0x1000000000"
    using assms(1) by (auto simp: boot_ready_def boot_map_ok_def ext_def)
  have ext: "0x100000 \<le> ext"
    using assms(1) memory_top_above unfolding boot_ready_def ext_def by blast
  obtain tot where map: "memory_map (mem s) (mmap_addr (mboot s) + mmap_length (mboot s)) (mmap_addr (mboot s)) 0 0 [] =
      Some (Inr (ext, tot, ?rs))"
    using memory_map_lists [OF b(4), of "[]" 0 0] b(5) by (auto simp: ext_def memory_top_def)
  obtain s1 where s1: "init_physical_memory_early s ?rs' (length ?rs') ext = Inr (0, s1)"
    "early_inv s1" "early_aligned s1" "tables_apart s1" "early_room s1 (254 + bitmap_pages ext)"
    "early_bytes s1 \<subseteq> {..<unat (early_max_extent s1)}"
    "s1 = s\<lparr>early_ranges := early_ranges s1, early_nranges := length ?rs, early_max_extent := ext,
       pmm_init_stage := PMM_INIT_EARLY\<rparr>"
    unfolding ext_def by (rule early_start [OF assms(1)])
  have c1: "ptmem s1 = ptmem s" "cr3 s1 = cr3 s" by (subst s1(7), simp)+
  have bt1: "boot_tables s1" using b(1) pde_cong [OF c1] c1 by (simp add: boot_tables_def)
  obtain s2 where s2: "init_virtual_memory h s1 = Inr (0, s2)" "kinit s2 (bitmap_pages ext)" "space s2 = space s1"
    "\<And>k. 768 \<le> k \<Longrightarrow> k < 1022 \<Longrightarrow> present (pde s2 k)"
    "current s2 = Some \<lparr>directory = cr3 s1 AND 0xFFFFF000, as_lock = SPINLOCK_RELEASED\<rparr>"
    "s2 = s1\<lparr>ptmem := ptmem s2, early_ranges := early_ranges s2, current := current s2,
      isr_routines := (isr_routines s1)[14 := h], cr0 := cr0 s1 OR CR0_WP\<rparr>"
    using init_virtual_memory_spec [OF bt1 s1(2-6), of h] by blast
  have f2: "early_max_extent s2 = ext" "length (allocators s2) = 3" "mem s2 = mem s"
    by (subst s2(6), subst s1(7), simp add: b(3))+
  have "bitmap_tables s2 (bitmap_pages (early_max_extent s2))"
    using s2(2,4,5) f2(1) by (auto simp: bitmap_tables_def SPINLOCK_RELEASED_def)
  moreover have "space s2 (1042432 + j) = None" for j
    using boot_space [OF bt1, of "1042432 + j"] s2(3) by auto
  ultimately obtain s3 where s3: "init_physical_memory s2 = Inr (0, s3)" "zones_ok ext s3" "tables_ok s3"
    "\<exists>r < 3. \<exists>q < 3. r \<noteq> q \<and> buddy_storage (allocators s3 ! r) \<inter> buddy_storage (allocators s3 ! q) \<noteq> {}"
    "same_outside (region MMAP_PMM_BITMAP 0x1000000) (mem s2) (mem s3)"
    "\<And>q. space s3 q \<noteq> None \<longleftrightarrow> space s2 q \<noteq> None \<or> 1042432 \<le> q \<and> q < 1042432 + bitmap_pages ext"
    "\<And>k. k < 1023 \<Longrightarrow> present (pde s2 k) \<Longrightarrow> present (pde s3 k)"
    "s3 = s2\<lparr>mem := mem s3, ptmem := ptmem s3, early_ranges := early_ranges s3, current := current s3,
      allocators := allocators s3, pmm_init_stage := PMM_INIT_FULL\<rparr>"
    using init_physical_memory_spec [of s2] f2 ext b(6) by metis
  have "mb_flags (mboot s) AND MULTIBOOT_INFO_MEMORY \<noteq> 0" by (rule b(2))
  then have "init_memory h s = Inr (1, s3)"
    using map s1(1) s2(1) s3(1) by (simp add: init_memory_def or_hang_def)
  moreover have eq: "s3 = s\<lparr>mem := mem s3, ptmem := ptmem s3, early_ranges := early_ranges s3, early_nranges := early_nranges s3,
      early_max_extent := ext, pmm_init_stage := PMM_INIT_FULL, allocators := allocators s3, current := current s3,
      isr_routines := (isr_routines s)[14 := h], cr0 := cr0 s OR CR0_WP\<rparr>"
  proof -
    have f1: "isr_routines s1 = isr_routines s" "cr0 s1 = cr0 s" by (subst s1(7), simp)+
    have e2: "s2 = s\<lparr>ptmem := ptmem s2, early_ranges := early_ranges s2, early_nranges := length ?rs,
        early_max_extent := ext, pmm_init_stage := PMM_INIT_EARLY, current := current s2,
        isr_routines := (isr_routines s)[14 := h], cr0 := cr0 s OR CR0_WP\<rparr>"
      by (subst s2(6), subst s1(7)) (simp add: f1)
    have n3: "early_nranges s3 = length ?rs" by (subst s3(8), subst e2) simp
    show ?thesis unfolding n3 by (subst s3(8), subst e2) simp
  qed
  moreover have f3: "early_max_extent s3 = ext" "pmm_init_stage s3 = PMM_INIT_FULL" "cr0 s3 = cr0 s OR CR0_WP"
    by (subst eq, simp)+
  moreover have "memory_up s3"
    unfolding memory_up_def f3 using s3(2,3,7) s2(4) or_CR0_WP by simp
  moreover have "\<forall>n. space s3 n \<noteq> None \<longleftrightarrow> n < 1024 \<or> 786432 \<le> n \<and> n < 787456 \<or> 1042432 \<le> n \<and> n < 1042432 + bitmap_pages ext"
    using s3(6) s2(3) boot_space [OF bt1] by simp
  ultimately show ?thesis using that [of s3] s3(4,5) f2(3) by simp
qed

end
