(* ===== verification/Platform.thy ===== *)
theory Platform
  imports Features_Order Gdt Memory_Start
begin

text \<open>
  The features of the x86 kernel, as their files declare them: the descriptor tables, the
  exceptions, the hardware interrupts, the timer, the serial console and memory management.
  The linker decides their order in the section; the start order does not depend on it.
\<close>

section \<open>The features\<close>

record platform = boot +
  the_gdt :: gdt_state

definition prereq :: "string \<Rightarrow> feature_prereq" where
  "prereq name = \<lparr>pr_name = name, pr_feature = None\<rparr>"

definition on_dev ::
    "('a machine_scheme \<Rightarrow> (int \<times> 'a machine_scheme) res) \<Rightarrow> 'a ksys \<Rightarrow> (int \<times> 'a ksys) res" where
  "on_dev f k = bind_res (f (dev k)) (\<lambda>(r, s). Inr (r, k\<lparr>dev := s\<rparr>))"

definition gdt_feature where
  "gdt_feature = \<lparr>f_name = ''x86/gdt'', required = None, load_after = Some [prereq ''debugger''],
     f_init = Some (on_dev (\<lambda>s :: platform.
       let (r, g) = gdt_init (the_gdt s) in Inr (r, s\<lparr>the_gdt := g\<rparr>))),
     f_state = FEATURE_UNINIT\<rparr>"

definition idt_feature where
  "idt_feature = \<lparr>f_name = ''x86/idt'', required = None, load_after = None,
     f_init = Some (on_dev (\<lambda>s :: platform. Inr (idt_init s))), f_state = FEATURE_UNINIT\<rparr>"

definition isr_feature where
  "isr_feature isr = \<lparr>f_name = ''x86/isr'', required = Some [prereq ''x86/idt''],
     load_after = Some [prereq ''debugger''],
     f_init = Some (on_dev (\<lambda>s :: platform. Inr (isrs_init isr s))), f_state = FEATURE_UNINIT\<rparr>"

definition irq_feature where
  "irq_feature irq = \<lparr>f_name = ''x86/irq'', required = Some [prereq ''x86/idt'', prereq ''x86/isr''],
     load_after = Some [prereq ''debugger''],
     f_init = Some (on_dev (\<lambda>s :: platform. Inr (irqs_init irq s))), f_state = FEATURE_UNINIT\<rparr>"

definition pit_feature where
  "pit_feature handler = \<lparr>f_name = ''x86/pit'',
     required = Some [prereq ''x86/idt'', prereq ''x86/isr'', prereq ''x86/irq''],
     load_after = Some [prereq ''debugger''],
     f_init = Some (on_dev (\<lambda>s :: platform. timer_init handler s)), f_state = FEATURE_UNINIT\<rparr>"

definition sdc_feature where
  "sdc_feature = \<lparr>f_name = ''x86/sdc'', required = None, load_after = None,
     f_init = Some (\<lambda>k. bind_res (init_serial (consoles k) (dev k :: platform))
       (\<lambda>(r, cons, s). Inr (r, k\<lparr>consoles := cons, dev := s\<rparr>))), f_state = FEATURE_UNINIT\<rparr>"

definition mem_feature where
  "mem_feature handler = \<lparr>f_name = ''x86/mem'', required = None, load_after = None,
     f_init = Some (on_dev (\<lambda>s :: platform. init_memory handler s)), f_state = FEATURE_UNINIT\<rparr>"

definition platform_features where
  "platform_features isr irq handler pf =
     {gdt_feature, idt_feature, isr_feature isr, irq_feature irq, pit_feature handler, sdc_feature,
      mem_feature pf}"

lemmas platform_feature_defs = gdt_feature_def idt_feature_def isr_feature_def irq_feature_def
  pit_feature_def sdc_feature_def mem_feature_def prereq_def

section \<open>Prerequisites by name\<close>

lemma find_feature_from_name:
  "find_feature_from i fs name = Some j \<Longrightarrow> i \<le> j \<and> j < i + length fs \<and> cstr (f_name (fs ! (j - i))) = cstr name"
proof (induction i fs name arbitrary: j rule: find_feature_from.induct)
  case (2 i f fs name)
  show ?case
  proof (cases "strcmp name (f_name f) = 0")
    case True
    then show ?thesis using 2 by (auto simp: strcmp_zero)
  next
    case False
    then have "i + 1 \<le> j \<and> j < i + 1 + length fs \<and> cstr (f_name (fs ! (j - (i + 1)))) = cstr name"
      using 2 by simp
    moreover from this have "i + 1 \<le> j" by blast
    then have "j - i = Suc (j - (i + 1))" by arith
    ultimately show ?thesis by simp
  qed
qed simp

lemma find_feature_name:
  "find_feature fs name = Some j \<Longrightarrow> j < length fs \<and> cstr (f_name (fs ! j)) = cstr name"
  using find_feature_from_name [of 0 fs name j] by (simp add: find_feature_def)

lemma resolve_all_nth:
  assumes "i < length fs"
  shows "f_name (resolve_all fs ! i) = f_name (fs ! i)"
    and "required (resolve_all fs ! i) = resolve_prereqs (map (\<lambda>m. m\<lparr>f_state := FEATURE_UNINIT\<rparr>) fs) (required (fs ! i))"
    and "load_after (resolve_all fs ! i) = resolve_prereqs (map (\<lambda>m. m\<lparr>f_state := FEATURE_UNINIT\<rparr>) fs) (load_after (fs ! i))"
proof -
  have "\<not> FEATURE_RESOLVED \<le> FEATURE_UNINIT" by (simp add: less_eq_feature_state_def)
  then show "f_name (resolve_all fs ! i) = f_name (fs ! i)"
    "required (resolve_all fs ! i) = resolve_prereqs (map (\<lambda>m. m\<lparr>f_state := FEATURE_UNINIT\<rparr>) fs) (required (fs ! i))"
    "load_after (resolve_all fs ! i) = resolve_prereqs (map (\<lambda>m. m\<lparr>f_state := FEATURE_UNINIT\<rparr>) fs) (load_after (fs ! i))"
    using assms by (simp_all add: resolve_all_def resolve_feature_def)
qed

text \<open>A prerequisite that was found carries the name that was asked for.\<close>

lemma deps_names:
  assumes "i < length fs" "j \<in> deps (resolve_all fs ! i)"
  obtains p where "p \<in> set (prereqs (required (fs ! i)) @ prereqs (load_after (fs ! i)))"
    "j < length fs" "cstr (f_name (fs ! j)) = cstr (pr_name p)"
proof -
  let ?us = "map (\<lambda>m. m\<lparr>f_state := FEATURE_UNINIT\<rparr>) fs"
  have "\<exists>p \<in> set (prereqs (required (fs ! i)) @ prereqs (load_after (fs ! i))). find_feature ?us (pr_name p) = Some j"
    using assms by (auto simp: deps_def edges_def resolve_all_nth prereqs_resolve)
  then obtain p where p: "p \<in> set (prereqs (required (fs ! i)) @ prereqs (load_after (fs ! i)))"
    "find_feature ?us (pr_name p) = Some j" by blast
  from find_feature_name [OF p(2)] p(1) show ?thesis by (intro that [of p]) auto
qed

lemma acyclic_by_names:
  assumes "\<And>m p. m \<in> set fs \<Longrightarrow> p \<in> set (prereqs (required m) @ prereqs (load_after m)) \<Longrightarrow>
      rank (cstr (pr_name p)) < rank (cstr (f_name m))"
  shows "acyclic_by (\<lambda>i. rank (cstr (f_name (fs ! i)))) (resolve_all fs)"
  unfolding acyclic_by_def
proof (intro allI impI ballI)
  fix i j assume i: "i < length (resolve_all fs)" and j: "j \<in> deps (resolve_all fs ! i)"
  then have "i < length fs" by simp
  from deps_names [OF this j] obtain p where
    p: "p \<in> set (prereqs (required (fs ! i)) @ prereqs (load_after (fs ! i)))" "cstr (f_name (fs ! j)) = cstr (pr_name p)"
    by blast
  from assms [OF nth_mem p(1)] i p(2) show "rank (cstr (f_name (fs ! j))) < rank (cstr (f_name (fs ! i)))"
    by simp
qed

section \<open>The kernel's features have no cycle\<close>

definition name_rank :: "string \<Rightarrow> nat" where
  "name_rank s = (if s = ''debugger'' then 0 else if s = ''x86/isr'' then 2 else if s = ''x86/irq'' then 3
     else if s = ''x86/pit'' then 4 else 1)"

lemma platform_acyclic:
  assumes "set fs \<subseteq> platform_features isr irq handler pf"
  shows "acyclic_by (\<lambda>i. name_rank (cstr (f_name (fs ! i)))) (resolve_all fs)"
proof (rule acyclic_by_names)
  fix m p assume m: "m \<in> set fs" and p: "p \<in> set (prereqs (required m) @ prereqs (load_after m))"
  then have "m \<in> platform_features isr irq handler pf" using assms by auto
  then show "name_rank (cstr (pr_name p)) < name_rank (cstr (f_name m))"
    unfolding platform_features_def
    using p by (elim insertE emptyE) (auto simp: platform_feature_defs prereqs_def name_rank_def)
qed

text \<open>With the whole set linked in, no required feature is missing.\<close>

lemma find_feature_from_found:
  "f \<in> set fs \<Longrightarrow> cstr (f_name f) = cstr name \<Longrightarrow> \<exists>j. find_feature_from i fs name = Some j"
  by (induction i fs name rule: find_feature_from.induct) (auto simp: strcmp_zero)

lemma find_feature_found:
  assumes "f \<in> set fs" "cstr (f_name f) = cstr name"
  shows "\<exists>j. find_feature (map (\<lambda>m. m\<lparr>f_state := x\<rparr>) fs) name = Some j"
  unfolding find_feature_def
  by (rule find_feature_from_found [of "f\<lparr>f_state := x\<rparr>"]) (use assms in auto)

end
