(* ===== verification/Platform_Run.thy ===== *)
theory Platform_Run
  imports Platform
begin

text \<open>
  The start of the kernel, from \<^verbatim>\<open>kmain\<close> to the idle loop: with working consoles, the features of
  the platform start in an order that respects their prerequisites, whatever the order the
  linker put them in, and leave the interrupts ready to be enabled.
\<close>

section \<open>Memory management before and after its start\<close>

text \<open>
  Until the memory feature starts, the boot information has to survive whatever else the kernel does:
  it lies outside the terminal's buffers. Afterwards the managers are up.
\<close>

definition memory_state where
  "memory_state (s :: platform) \<longleftrightarrow> vga_area s \<inter> region MMAP_PMM_BITMAP 0x1000000 = {} \<and>
     (if pmm_init_stage s = PMM_INIT_START
      then \<exists>es. boot_ready s es \<and> mmap_area (mmap_addr (mboot s)) es \<inter> vga_area s = {}
      else memory_up s)"

definition same_memory where
  "same_memory (s :: platform) s' \<longleftrightarrow> ptmem s' = ptmem s \<and> cr0 s' = cr0 s \<and> cr3 s' = cr3 s \<and>
     pmm_init_stage s' = pmm_init_stage s \<and> early_max_extent s' = early_max_extent s \<and>
     allocators s' = allocators s \<and> mboot s' = mboot s \<and> link_start s' = link_start s \<and>
     link_end s' = link_end s \<and> vga_area s' = vga_area s \<and> same_outside (vga_area s) (mem s) (mem s')"

lemma memory_kept:
  assumes "memory_state s" "same_memory s s'"
  shows "memory_state s'"
proof -
  have c: "ptmem s' = ptmem s" "cr3 s' = cr3 s" using assms(2) by (simp_all add: same_memory_def)
  note e = vm_cong(1) [OF c] pde_cong [OF c]
  have f: "pmm_init_stage s' = pmm_init_stage s" "mboot s' = mboot s" "vga_area s' = vga_area s"
    using assms(2) by (simp_all add: same_memory_def)
  have up: "memory_up s' = memory_up s"
    using assms(2) unfolding memory_up_def same_memory_def zones_ok_def by (simp only: e)
  have ready: "boot_ready s' es" if "boot_ready s es" "mmap_area (mmap_addr (mboot s)) es \<inter> vga_area s = {}" for es
  proof -
    have "mem s' a = mem s a" if "a \<in> mmap_area (mmap_addr (mboot s)) es" for a
      using assms(2) that \<open>mmap_area (mmap_addr (mboot s)) es \<inter> vga_area s = {}\<close>
      by (auto simp: same_memory_def same_outside_def)
    moreover have "mmap_lists (mem s) (mmap_addr (mboot s) + mmap_length (mboot s)) (mmap_addr (mboot s)) es"
      using that(1) unfolding boot_ready_def by blast
    ultimately have l: "mmap_lists (mem s') (mmap_addr (mboot s) + mmap_length (mboot s)) (mmap_addr (mboot s)) es"
      by (rule mmap_lists_cong [rotated])
    have "boot_tables s' = boot_tables s" unfolding boot_tables_def by (simp only: c e)
    then show ?thesis
      using that(1) assms(2) l unfolding boot_ready_def same_memory_def by (simp only: e) blast
  qed
  show ?thesis
    using assms(1) ready up f unfolding memory_state_def f by (metis (no_types, lifting))
qed

section \<open>Consoles leave the tables alone\<close>

definition tables where
  "tables (s :: platform) = (idt s, isr_routines s, the_gdt s, idt_at s, idtr s, eflags s, pmm_init_stage s)"

definition dev_inv where
  "dev_inv T (s :: platform) \<longleftrightarrow> devices_inv s \<and> tables s = T \<and> memory_state s"

lemma dev_inv_step:
  assumes "dev_inv T s" "devices_inv s'" "tables s' = tables s" "same_memory s s'"
  shows "dev_inv T s'"
  using assms memory_kept [of s s'] by (simp add: dev_inv_def)

lemma vga_driver_tables: "console_driver vga_console (dev_inv T)"
proof
  fix s :: platform and str
  assume s: "dev_inv T s"
  then obtain s' where "vgaterm_writestring str s = Inr s'" "vga_inv s'" and step: "vga_step s s'"
    using vgaterm_writestring_spec [of s str] by (auto simp: dev_inv_def devices_inv_def)
  moreover have "tables s' = tables s" "same_memory s s'"
    using step vga_step_area [OF step] by (auto simp: vga_step_def tables_def same_memory_def)
  moreover have "devices_inv s'"
    using s \<open>vga_inv s'\<close> vga_step_fair [OF step] by (auto simp: dev_inv_def devices_inv_def)
  ultimately show "\<exists>s'. writestring vga_console str s = Inr s' \<and> dev_inv T s'"
    using dev_inv_step [OF s] by (auto simp: vga_console_def)
next
  fix s :: platform and c
  assume s: "dev_inv T s"
  then have "devices_inv (setcolor vga_console c s)" using vga_driver.colours [of s c] by (simp add: dev_inv_def)
  then show "dev_inv T (setcolor vga_console c s)"
    by (rule dev_inv_step [OF s]) (simp_all add: vga_console_def vgaterm_setcolor_def tables_def same_memory_def vga_area_def)
qed

lemma serial_driver_tables: "console_driver serial_console (dev_inv T)"
proof
  fix s :: platform and str
  assume s: "dev_inv T s"
  then obtain s' where s': "writestring serial_console str s = Inr s'" "devices_inv s'"
    using serial_driver.writes [of s str] by (auto simp: dev_inv_def)
  moreover have "tables s' = tables s" "same_memory s s'"
    using s' s serial_writestring_spec [of s str]
    by (auto simp: serial_console_def dev_inv_def devices_inv_def tables_def same_memory_def vga_area_def)
  ultimately show "\<exists>s'. writestring serial_console str s = Inr s' \<and> dev_inv T s'"
    using dev_inv_step [OF s] by auto
next
  fix s :: platform and c
  assume "dev_inv T s"
  then show "dev_inv T (setcolor serial_console c s)"
    by (simp add: serial_console_def serial_setcolor_def)
qed

definition kinv where
  "kinv T (k :: _ ksys) \<longleftrightarrow> set (consoles k) \<subseteq> {vga_console, serial_console} \<and> dev_inv T (dev k)"

lemma kinv_drivers: "kinv T k \<Longrightarrow> all_drivers (consoles k) (dev_inv T)"
  using vga_driver_tables [of T] serial_driver_tables [of T] unfolding kinv_def all_drivers_def by blast

lemma kprintk_kinv:
  assumes "kinv T k" "\<And>m. vsprintf m fmt args = Inr (m, buf)" "length buf < 1024"
  shows "\<exists>k'. kprintk fmt args k = Inr k' \<and> kinv T k'"
proof -
  have "dev_inv T (dev k)" using assms(1) by (simp add: kinv_def)
  from printk_returns(2) [OF kinv_drivers [OF assms(1)] this assms(2,3)] obtain s where
    "printk (consoles k) fmt args (dev k) = Inr s" "dev_inv T s" by blast
  then show ?thesis using assms(1) by (auto simp: kprintk_def kinv_def)
qed

lemma kprintk_text:
  assumes "kinv T k" "NUL \<notin> set s" "CHR ''%'' \<notin> set s" "length s < 1024"
  shows "\<exists>k'. kprintk s [] k = Inr k' \<and> kinv T k'"
  by (rule kprintk_kinv [OF assms(1) vsprintf_literal assms(4)]) (use assms in auto)

lemma kwritestring_kinv: "kinv T k \<Longrightarrow> \<exists>k'. kwritestring str k = Inr k' \<and> kinv T k'"
  using console_writestring_returns [OF kinv_drivers, of T k "dev k" str]
  by (auto simp: kinv_def kwritestring_def)

lemma ksetcolor_kinv: "kinv T k \<Longrightarrow> kinv T (ksetcolor c k)"
  using console_setcolor_inv [OF kinv_drivers, of T k "dev k" c] by (auto simp: kinv_def ksetcolor_def)

lemma greybox_kinv:
  assumes "kinv T k"
  shows "\<exists>k'. greybox msg color newline k = Inr k' \<and> kinv T k'"
proof -
  let ?g = "make_color COLOR_DARK_GREY COLOR_BLACK" and ?e = "if newline then '']'' @ [CHR 0x0A] else '']''"
  obtain k1 where 1: "kwritestring ''['' (ksetcolor ?g k) = Inr k1" "kinv T k1"
    using kwritestring_kinv [OF ksetcolor_kinv [OF assms]] by blast
  obtain k2 where 2: "kwritestring msg (ksetcolor color k1) = Inr k2" "kinv T k2"
    using kwritestring_kinv [OF ksetcolor_kinv [OF 1(2)]] by blast
  obtain k3 where 3: "kwritestring ?e (ksetcolor ?g k2) = Inr k3" "kinv T k3"
    using kwritestring_kinv [OF ksetcolor_kinv [OF 2(2)]] by blast
  show ?thesis
    using 1 2 3 ksetcolor_kinv [OF 3(2)] by (simp add: greybox_def Let_def)
qed

lemma start_feature_kinv:
  assumes "kinv T k" "f_init m = Some init" "length (f_name m) < 900"
    and "\<And>k. kinv T k \<Longrightarrow> \<exists>r k'. init k = Inr (r, k') \<and> r \<noteq> 0 \<and> kinv T' k'"
  shows "\<exists>k'. start_feature m k = Inr k' \<and> kinv T' k'"
proof -
  have "vsprintf mm ''Starting %s... '' [VStr (f_name m)] = Inr (mm, ''Starting '' @ cstr (f_name m) @ ''... '')" for mm
    using vsprintf_around [of "''Starting ''" "''... ''" mm "f_name m"] by simp
  moreover have "length (cstr (f_name m)) \<le> length (f_name m)" by (simp add: cstr_def length_takeWhile_le)
  ultimately obtain k1 where 1: "kprintk ''Starting %s... '' [VStr (f_name m)] k = Inr k1" "kinv T k1"
    using kprintk_kinv [OF assms(1), of "''Starting %s... ''" "[VStr (f_name m)]"
        "''Starting '' @ cstr (f_name m) @ ''... ''"] assms(3) by auto
  obtain r k2 where 2: "init k1 = Inr (r, k2)" "r \<noteq> 0" "kinv T' k2" using assms(4) [OF 1(2)] by blast
  show ?thesis
    using 1 2 assms(2) greybox_kinv [OF 2(3)] by (simp add: start_feature_def)
qed

section \<open>Running the starts\<close>

lemma run_acts_inv:
  assumes "ordered fs F as" "distinct (starts as)" "set (starts as) \<inter> F = {}" "set (starts as) \<subseteq> {..<length fs}"
    and "\<forall>x \<in> set as. \<exists>i. x = Start i" "P F k" "\<forall>i \<in> F. deps (fs ! i) \<subseteq> F"
    and step: "\<And>F i k. P F k \<Longrightarrow> i \<notin> F \<Longrightarrow> i < length fs \<Longrightarrow> deps (fs ! i) \<subseteq> F \<Longrightarrow>
      \<forall>j \<in> F. deps (fs ! j) \<subseteq> F \<Longrightarrow> \<exists>k'. start_feature (fs ! i) k = Inr k' \<and> P (insert i F) k'"
  shows "\<exists>k'. run_acts fs as k = Inr k' \<and> P (F \<union> set (starts as)) k'"
  using assms(1-7)
proof (induction as arbitrary: F k)
  case (Cons x as)
  then obtain i where x: "x = Start i" by auto
  have i: "i \<notin> F" "i < length fs" "deps (fs ! i) \<subseteq> F" using Cons.prems x by auto
  obtain k1 where k1: "start_feature (fs ! i) k = Inr k1" "P (insert i F) k1"
    using step [OF Cons.prems(6) i Cons.prems(7)] by blast
  have "\<exists>k'. run_acts fs as k1 = Inr k' \<and> P (insert i F \<union> set (starts as)) k'"
    by (rule Cons.IH) (use Cons.prems x k1 i in auto)
  then show ?case using x k1 by simp
qed simp

section \<open>Each feature\<close>

type_synonym gates = "idt_entry list \<times> u32 list \<times> gdt_state \<times> u32 \<times> idt_ptr \<times> u32 \<times> nat"

definition after_gdt :: "gates \<Rightarrow> gates" where
  "after_gdt T = (case T of (d, rts, g, rest) \<Rightarrow> (d, rts, snd (gdt_init g), rest))"

definition after_idt :: "gates \<Rightarrow> gates" where
  "after_idt T = (case T of (d, rts, g, a, r, rest) \<Rightarrow>
     (replicate 256 null_gate, rts, g, a, \<lparr>idt_limit = 2047, idt_base = a\<rparr>, rest))"

definition gate :: "u32 \<Rightarrow> idt_entry" where
  "gate base = \<lparr>base_lo = ucast (base AND 0xFFFF), sel = 0x08, always0 = 0, idt_flags = 0x8E,
         base_hi = ucast (drop_bit 16 base AND 0xFFFF)\<rparr>"

definition set_run :: "nat \<Rightarrow> nat \<Rightarrow> (nat \<Rightarrow> u32) \<Rightarrow> idt_entry list \<Rightarrow> idt_entry list" where
  "set_run a n stub d = fold (\<lambda>k d. d[a + k := gate (stub k)]) [0..<n] d"

definition after_gates :: "nat \<Rightarrow> nat \<Rightarrow> (nat \<Rightarrow> u32) \<Rightarrow> gates \<Rightarrow> gates" where
  "after_gates a n stub T = (case T of (d, rest) \<Rightarrow> (set_run a n stub d, rest))"

definition after_pit :: "u32 \<Rightarrow> gates \<Rightarrow> gates" where
  "after_pit handler T = (case T of (d, rts, rest) \<Rightarrow> (d, rts[32 := handler], rest))"

definition after_mem :: "u32 \<Rightarrow> gates \<Rightarrow> gates" where
  "after_mem pf T = (case T of (d, rts, g, a, r, e, stage) \<Rightarrow> (d, rts[14 := pf], g, a, r, e, PMM_INIT_FULL))"

lemma set_gates_run:
  assumes "a + n \<le> 256"
  shows "idt (fold (\<lambda>k. idt_set_gate (of_nat (a + k)) (stub k) 0x08 0x8E) [0..<n] s) = set_run a n stub (idt s)"
  using assms
proof (induction n)
  case (Suc n)
  have "unat (of_nat (a + n) :: u8) = a + n" using Suc.prems by (intro unat_of_nat_small) simp
  then show ?case using Suc by (simp add: set_run_def idt_set_gate_def gate_def del: of_nat_add)
qed (simp add: set_run_def)

lemma set_gates_same:
  "\<exists>d. fold (\<lambda>k. idt_set_gate (f k) (g k) x y) ks s = s\<lparr>idt := d\<rparr>"
proof (induction ks arbitrary: s)
  case Nil
  then show ?case by (intro exI [of _ "idt s"]) simp
next
  case (Cons k ks)
  from Cons [of "idt_set_gate (f k) (g k) x y s"] show ?case
    by (auto simp: idt_set_gate_def)
qed

text \<open>A feature that leaves the store, the terminal and the memory managers alone.\<close>

definition unmoved where
  "unmoved (s :: platform) s' \<longleftrightarrow> s' = s\<lparr>port_out := port_out s', idt := idt s', idtp := idtp s', idtr := idtr s',
     isr_routines := isr_routines s', the_gdt := the_gdt s'\<rparr>"

lemma dev_inv_tables:
  assumes "dev_inv T s" "unmoved s s'"
  shows "dev_inv (tables s') s'"
proof -
  obtain p d dp r rts g where s': "s' = s\<lparr>port_out := p, idt := d, idtp := dp, idtr := r, isr_routines := rts, the_gdt := g\<rparr>"
    using assms(2) unfolding unmoved_def by blast
  have "same_memory s s'" by (simp add: s' same_memory_def vga_area_def)
  moreover have "devices_inv s'" using assms(1) by (simp add: s' dev_inv_def devices_inv_def vga_inv_def serial_fair_def)
  ultimately show ?thesis using assms(1) memory_kept [of s s'] by (simp add: dev_inv_def)
qed

lemma gates_dev:
  fixes s :: platform
  assumes "dev_inv T s" "a + n \<le> 256"
  shows "dev_inv (after_gates a n stub T) (fold (\<lambda>k. idt_set_gate (of_nat (a + k)) (stub k) 0x08 0x8E) [0..<n] s)"
    (is "dev_inv _ ?s'")
proof -
  obtain d where d: "?s' = s\<lparr>idt := d\<rparr>"
    using set_gates_same [of "\<lambda>k. of_nat (a + k)" stub "0x08" "0x8E" "[0..<n]" s] by blast
  with set_gates_run [OF assms(2), of stub s] have "d = set_run a n stub (idt s)" by simp
  then have "dev_inv (after_gates a n stub T) (s\<lparr>idt := d\<rparr>)"
    using dev_inv_tables [OF assms(1), of "s\<lparr>idt := d\<rparr>"] assms(1)
    by (auto simp: unmoved_def after_gates_def tables_def dev_inv_def)
  with d show ?thesis by simp
qed

lemma dev_inv_ports: "dev_inv T s \<Longrightarrow> dev_inv T (s\<lparr>port_out := p\<rparr>)"
  using dev_inv_tables [of T s "s\<lparr>port_out := p\<rparr>"] by (simp add: unmoved_def tables_def dev_inv_def)

lemma idt_start: "kinv T k \<Longrightarrow> \<exists>k'. start_feature idt_feature k = Inr k' \<and> kinv (after_idt T) k'"
proof (rule start_feature_kinv [where init = "on_dev (\<lambda>s. Inr (idt_init s))"])
  fix k assume k: "kinv T k"
  have "unmoved (dev k) (snd (idt_init (dev k)))" by (simp add: unmoved_def idt_init_def Let_def)
  moreover have "tables (snd (idt_init (dev k))) = after_idt T"
    using k by (auto simp: kinv_def dev_inv_def tables_def after_idt_def idt_init_def Let_def)
  ultimately show "\<exists>r k'. on_dev (\<lambda>s. Inr (idt_init s)) k = Inr (r, k') \<and> r \<noteq> 0 \<and> kinv (after_idt T) k'"
    using k dev_inv_tables [of T "dev k" "snd (idt_init (dev k))"]
    by (auto simp: kinv_def on_dev_def idt_init_def Let_def)
qed (auto simp: idt_feature_def)

lemma gdt_start: "kinv T k \<Longrightarrow> \<exists>k'. start_feature gdt_feature k = Inr k' \<and> kinv (after_gdt T) k'"
proof (rule start_feature_kinv [where init = "on_dev (\<lambda>s :: platform.
      let (r, g) = gdt_init (the_gdt s) in Inr (r, s\<lparr>the_gdt := g\<rparr>))"])
  fix k assume k: "kinv T k"
  let ?s = "(dev k)\<lparr>the_gdt := snd (gdt_init (the_gdt (dev k)))\<rparr>"
  have "tables ?s = after_gdt T" using k by (auto simp: kinv_def dev_inv_def tables_def after_gdt_def)
  moreover have "unmoved (dev k) ?s" by (simp add: unmoved_def)
  moreover have "fst (gdt_init (the_gdt (dev k))) = 1" by (simp add: gdt_init_def Let_def)
  ultimately show "\<exists>r k'. on_dev (\<lambda>s :: platform. let (r, g) = gdt_init (the_gdt s) in Inr (r, s\<lparr>the_gdt := g\<rparr>)) k =
      Inr (r, k') \<and> r \<noteq> 0 \<and> kinv (after_gdt T) k'"
    using k dev_inv_tables [of T "dev k" ?s] by (auto simp: kinv_def on_dev_def split: prod.split)
qed (auto simp: gdt_feature_def)

lemma isr_start: "kinv T k \<Longrightarrow> \<exists>k'. start_feature (isr_feature isr) k = Inr k' \<and> kinv (after_gates 0 32 isr T) k'"
proof (rule start_feature_kinv [where init = "on_dev (\<lambda>s. Inr (isrs_init isr s))"])
  fix k assume "kinv T k"
  then show "\<exists>r k'. on_dev (\<lambda>s. Inr (isrs_init isr s)) k = Inr (r, k') \<and> r \<noteq> 0 \<and> kinv (after_gates 0 32 isr T) k'"
    using gates_dev [of T "dev k" 0 32 isr]
    by (auto simp: on_dev_def isrs_init_def kinv_def simp del: upt_rec_numeral)
qed (auto simp: isr_feature_def)

lemma irq_start: "kinv T k \<Longrightarrow> \<exists>k'. start_feature (irq_feature irq) k = Inr k' \<and> kinv (after_gates 32 16 irq T) k'"
proof (rule start_feature_kinv [where init = "on_dev (\<lambda>s. Inr (irqs_init irq s))"])
  fix k assume "kinv T k"
  then have "dev_inv T (irq_remap (dev k))" by (simp add: kinv_def irq_remap_def outportbs_eq dev_inv_ports)
  with \<open>kinv T k\<close> show "\<exists>r k'. on_dev (\<lambda>s. Inr (irqs_init irq s)) k = Inr (r, k') \<and> r \<noteq> 0 \<and> kinv (after_gates 32 16 irq T) k'"
    using gates_dev [of T "irq_remap (dev k)" 32 16 irq]
    by (auto simp: on_dev_def irqs_init_def kinv_def simp del: upt_rec_numeral of_nat_add)
qed (auto simp: irq_feature_def)

lemma pit_start: "kinv T k \<Longrightarrow> \<exists>k'. start_feature (pit_feature handler) k = Inr k' \<and> kinv (after_pit handler T) k'"
proof (rule start_feature_kinv [where init = "on_dev (timer_init handler)"])
  fix k assume k: "kinv T k"
  then obtain s' where s': "timer_init handler (dev k) = Inr (1, s')" "unmoved (dev k) s'" "tables s' = after_pit handler T"
    by (auto simp: timer_init_def set_kernel_frequency_def X86_KERNEL_FREQ_def install_isr_def
        IRQ_ISR_def outportbs_eq kinv_def dev_inv_def unmoved_def tables_def after_pit_def)
  with k dev_inv_tables [of T "dev k" s'] show
    "\<exists>r k'. on_dev (timer_init handler) k = Inr (r, k') \<and> r \<noteq> 0 \<and> kinv (after_pit handler T) k'"
    by (auto simp: on_dev_def kinv_def)
qed (auto simp: pit_feature_def)

lemma sdc_start: "kinv T k \<Longrightarrow> \<exists>k'. start_feature sdc_feature k = Inr k' \<and> kinv T k'"
proof (rule start_feature_kinv [where init = "\<lambda>k. bind_res (init_serial (consoles k) (dev k))
      (\<lambda>(r, cons, s). Inr (r, k\<lparr>consoles := cons, dev := s\<rparr>))"])
  fix k assume k: "kinv T k"
  define s1 where "s1 = outportbs [(PORT + 1, 0x00), (PORT + 3, 0x80), (PORT + 0, 0x03), (PORT + 1, 0x00),
                (PORT + 3, 0x03), (PORT + 2, 0xC7), (PORT + 4, 0x0B)] (dev k)"
  have "dev_inv T s1" using k by (simp add: s1_def outportbs_eq kinv_def dev_inv_ports)
  then obtain s2 where "serial_writestring ''Serial debugging console is up '' s1 = Inr s2" "dev_inv T s2"
    using console_driver.writes [OF serial_driver_tables, of T s1 "''Serial debugging console is up ''"]
    by (auto simp: serial_console_def)
  then show "\<exists>r k'. bind_res (init_serial (consoles k) (dev k))
      (\<lambda>(r, cons, s). Inr (r, k\<lparr>consoles := cons, dev := s\<rparr>)) = Inr (r, k') \<and> r \<noteq> 0 \<and> kinv T k'"
    using k unfolding init_serial_def Let_def s1_def [symmetric]
    by (auto simp: kinv_def console_register_def)
qed (auto simp: sdc_feature_def)

lemma init_memory_dev:
  assumes "dev_inv T s" "pmm_init_stage s = PMM_INIT_START"
  shows "\<exists>s'. init_memory pf s = Inr (1, s') \<and> dev_inv (after_mem pf T) s'"
proof -
  have s: "devices_inv s" "tables s = T" "vga_area s \<inter> region MMAP_PMM_BITMAP 0x1000000 = {}"
    using assms(1) by (simp_all add: dev_inv_def memory_state_def)
  obtain es where es: "boot_ready s es" using assms by (auto simp: dev_inv_def memory_state_def)
  obtain s' where s': "init_memory pf s = Inr (1, s')" "memory_up s'" "early_max_extent s' = memory_top (available es)"
      "\<exists>r < 3. \<exists>q < 3. r \<noteq> q \<and> buddy_storage (allocators s' ! r) \<inter> buddy_storage (allocators s' ! q) \<noteq> {}"
    and mem: "same_outside (region MMAP_PMM_BITMAP 0x1000000) (mem s) (mem s')"
    and "\<forall>n. space s' n \<noteq> None \<longleftrightarrow> n < 1024 \<or> 786432 \<le> n \<and> n < 787456 \<or>
      1042432 \<le> n \<and> n < 1042432 + bitmap_pages (memory_top (available es))"
    and eq: "s' = s\<lparr>mem := mem s', ptmem := ptmem s', early_ranges := early_ranges s', early_nranges := early_nranges s',
      early_max_extent := memory_top (available es), pmm_init_stage := PMM_INIT_FULL, allocators := allocators s',
      current := current s', isr_routines := (isr_routines s)[14 := pf], cr0 := cr0 s OR CR0_WP\<rparr>"
    by (rule init_memory_spec [OF es, of pf])
  have f: "term_cursor_x s' = term_cursor_x s" "term_cursor_y s' = term_cursor_y s" "term_backbuff s' = term_backbuff s"
    "term_frontbuff s' = term_frontbuff s" "port_in s' = port_in s" "port_reads s' = port_reads s"
    by (subst eq, simp)+
  have area: "vga_area s' = vga_area s" by (simp add: vga_area_def f)
  have "buffer (mem s') (term_backbuff s) 2000 = buffer (mem s) (term_backbuff s) 2000"
    "buffer (mem s') (term_frontbuff s) 2000 = buffer (mem s) (term_frontbuff s) 2000"
    by (rule buffer_cong [OF mem]; use s(3) in \<open>auto simp: vga_area_def\<close>)+
  then have "devices_inv s'"
    using s(1) f by (simp add: devices_inv_def vga_inv_def serial_fair_def)
  moreover have "pmm_init_stage s' \<noteq> PMM_INIT_START" by (subst eq) (simp add: PMM_INIT_FULL_def PMM_INIT_START_def)
  then have "memory_state s'" using s'(2) s(3) area by (simp add: memory_state_def)
  moreover have "tables s' = after_mem pf T"
  proof -
    have "tables s = (idt s, isr_routines s, the_gdt s, idt_at s, idtr s, eflags s, pmm_init_stage s)" by (simp add: tables_def)
    then show ?thesis unfolding s(2) by (subst eq) (simp add: tables_def after_mem_def)
  qed
  ultimately show ?thesis using s'(1) by (simp add: dev_inv_def)
qed

lemma mem_start:
  assumes "kinv (d, rts, g, a, r, e, PMM_INIT_START) k"
  shows "\<exists>k'. start_feature (mem_feature pf) k = Inr k' \<and> kinv (after_mem pf (d, rts, g, a, r, e, PMM_INIT_START)) k'"
proof (rule start_feature_kinv [where init = "on_dev (init_memory pf)", OF assms])
  fix k assume k: "kinv (d, rts, g, a, r, e, PMM_INIT_START) k"
  then have "pmm_init_stage (dev k) = PMM_INIT_START" by (simp add: kinv_def dev_inv_def tables_def)
  with k init_memory_dev [of "(d, rts, g, a, r, e, PMM_INIT_START)" "dev k" pf] obtain s' where "init_memory pf (dev k) = Inr (1, s')"
    "dev_inv (after_mem pf (d, rts, g, a, r, e, PMM_INIT_START)) s'" by (auto simp: kinv_def)
  with k show "\<exists>r' k'. on_dev (init_memory pf) k = Inr (r', k') \<and> r' \<noteq> 0 \<and>
      kinv (after_mem pf (d, rts, g, a, r, e, PMM_INIT_START)) k'"
    by (auto simp: on_dev_def kinv_def)
qed (auto simp: mem_feature_def)

section \<open>Which features have started\<close>

definition started :: "'a feature list \<Rightarrow> string \<Rightarrow> nat set \<Rightarrow> bool" where
  "started fs name F \<longleftrightarrow> (\<exists>i \<in> F. i < length fs \<and> f_name (fs ! i) = name)"

lemma started_insert: "i < length fs \<Longrightarrow> started fs name (insert i F) \<longleftrightarrow> f_name (fs ! i) = name \<or> started fs name F"
  by (auto simp: started_def)

lemma started_all: "m \<in> set fs \<Longrightarrow> started fs (f_name m) {..<length fs}"
  by (auto simp: started_def in_set_conv_nth)

text \<open>A prerequisite that is in the section has started before its client starts.\<close>

lemma deps_started:
  assumes "i < length fs" "deps (resolve_all fs ! i) \<subseteq> F"
    and "p \<in> set (prereqs (required (fs ! i)))" "m \<in> set fs" "f_name m = pr_name p"
    and names: "\<And>m. m \<in> set fs \<Longrightarrow> NUL \<notin> set (f_name m)"
  shows "started fs (pr_name p) F"
proof -
  let ?us = "map (\<lambda>m. m\<lparr>f_state := FEATURE_UNINIT\<rparr>) fs"
  obtain j where j: "find_feature ?us (pr_name p) = Some j"
    using find_feature_found [OF assms(4), of "pr_name p" FEATURE_UNINIT] assms(5) by auto
  have jn: "j < length fs" "cstr (f_name (fs ! j)) = cstr (pr_name p)"
    using find_feature_name [OF j] by auto
  then have "f_name (fs ! j) = pr_name p"
    using names [OF nth_mem [OF jn(1)]] names [OF assms(4)] assms(5) by (simp add: cstr_ident)
  moreover have "j \<in> deps (resolve_all fs ! i)"
    using assms(1,3) j by (force simp: deps_def edges_def resolve_all_nth prereqs_resolve)
  ultimately show ?thesis using assms(2) jn(1) by (auto simp: started_def)
qed

section \<open>The platform\<close>

lemma set_run_length [simp]: "length (set_run a n stub d) = length d"
  unfolding set_run_def by (induction n) (simp_all)

lemma set_run_nth:
  assumes "a + n \<le> length d" "j < length d"
  shows "set_run a n stub d ! j = (if a \<le> j \<and> j < a + n then gate (stub (j - a)) else d ! j)"
  using assms(1)
proof (induction n)
  case (Suc n)
  have "set_run a (Suc n) stub d = (set_run a n stub d)[a + n := gate (stub n)]"
    by (simp add: set_run_def)
  then show ?case using Suc assms(2) by (auto simp: nth_list_update)
qed (auto simp: set_run_def)

text \<open>What the started features have left in the tables.\<close>

definition tables_after ::
    "(nat \<Rightarrow> u32) \<Rightarrow> (nat \<Rightarrow> u32) \<Rightarrow> u32 \<Rightarrow> u32 \<Rightarrow> gdt_state \<Rightarrow> u32 \<Rightarrow> u32 \<Rightarrow> (string \<Rightarrow> bool) \<Rightarrow> gates \<Rightarrow> bool" where
  "tables_after isr irq handler pf g0 a0 e0 st T \<longleftrightarrow> (case T of (d, rts, g, a, r, e, stage) \<Rightarrow>
     length rts = 256 \<and> e = e0 \<and> a = a0 \<and> g = (if st ''x86/gdt'' then snd (gdt_init g0) else g0) \<and>
     (st ''x86/idt'' \<longrightarrow> length d = 256 \<and> r = \<lparr>idt_limit = 2047, idt_base = a\<rparr>) \<and>
     (st ''x86/isr'' \<longrightarrow> (\<forall>n < 32. d ! n = gate (isr n))) \<and>
     (st ''x86/irq'' \<longrightarrow> (\<forall>n < 16. d ! (32 + n) = gate (irq n))) \<and>
     (st ''x86/pit'' \<longrightarrow> rts ! 32 = handler) \<and> (st ''x86/mem'' \<longrightarrow> rts ! 14 = pf) \<and>
     stage = (if st ''x86/mem'' then PMM_INIT_FULL else PMM_INIT_START))"

lemma after_gdt_ok:
  "tables_after isr irq h pf g0 a0 e0 st T \<Longrightarrow> \<not> st ''x86/gdt'' \<Longrightarrow>
    tables_after isr irq h pf g0 a0 e0 (\<lambda>n. ''x86/gdt'' = n \<or> st n) (after_gdt T)"
  by (cases T) (auto simp: tables_after_def after_gdt_def)

lemma after_idt_ok:
  "tables_after isr irq h pf g0 a0 e0 st T \<Longrightarrow> \<not> st ''x86/isr'' \<Longrightarrow> \<not> st ''x86/irq'' \<Longrightarrow>
    tables_after isr irq h pf g0 a0 e0 (\<lambda>n. ''x86/idt'' = n \<or> st n) (after_idt T)"
  by (cases T) (auto simp: tables_after_def after_idt_def)

lemma after_isr_ok:
  "tables_after isr irq h pf g0 a0 e0 st T \<Longrightarrow> st ''x86/idt'' \<Longrightarrow>
    tables_after isr irq h pf g0 a0 e0 (\<lambda>n. ''x86/isr'' = n \<or> st n) (after_gates 0 32 isr T)"
  by (cases T) (auto simp: tables_after_def after_gates_def set_run_nth)

lemma after_irq_ok:
  "tables_after isr irq h pf g0 a0 e0 st T \<Longrightarrow> st ''x86/idt'' \<Longrightarrow>
    tables_after isr irq h pf g0 a0 e0 (\<lambda>n. ''x86/irq'' = n \<or> st n) (after_gates 32 16 irq T)"
  by (cases T) (auto simp: tables_after_def after_gates_def set_run_nth)

lemma after_pit_ok:
  "tables_after isr irq h pf g0 a0 e0 st T \<Longrightarrow>
    tables_after isr irq h pf g0 a0 e0 (\<lambda>n. ''x86/pit'' = n \<or> st n) (after_pit h T)"
  by (cases T) (auto simp: tables_after_def after_pit_def)

lemma after_other_ok:
  "tables_after isr irq h pf g0 a0 e0 st T \<Longrightarrow> tables_after isr irq h pf g0 a0 e0 (\<lambda>n. ''x86/sdc'' = n \<or> st n) T"
  by (cases T) (auto simp: tables_after_def)

lemma after_mem_ok:
  "tables_after isr irq h pf g0 a0 e0 st T \<Longrightarrow>
    tables_after isr irq h pf g0 a0 e0 (\<lambda>n. ''x86/mem'' = n \<or> st n) (after_mem pf T)"
  by (cases T) (auto simp: tables_after_def after_mem_def)

lemma feature_names [simp]:
  "f_name gdt_feature = ''x86/gdt''" "f_name idt_feature = ''x86/idt''" "f_name (isr_feature isr) = ''x86/isr''"
  "f_name (irq_feature irq) = ''x86/irq''" "f_name (pit_feature h) = ''x86/pit''"
  "f_name sdc_feature = ''x86/sdc''" "f_name (mem_feature pf) = ''x86/mem''"
  by (simp_all add: platform_feature_defs)

lemma platform_names:
  assumes "m \<in> platform_features isr irq h pf"
  shows "m' \<in> platform_features isr irq h pf \<Longrightarrow> f_name m = f_name m' \<Longrightarrow> m = m'"
    and "NUL \<notin> set (f_name m)"
  using assms by (auto simp: platform_features_def)

lemma start_feature_cong:
  "f_name m = f_name m' \<Longrightarrow> f_init m = f_init m' \<Longrightarrow> start_feature m k = start_feature m' k"
  by (simp add: start_feature_def cong: option.case_cong if_cong)

lemma resolve_all_init: "i < length fs \<Longrightarrow> f_init (resolve_all fs ! i) = f_init (fs ! i)"
  by (simp add: resolve_all_def resolve_feature_def)

section \<open>Starting one more feature\<close>

definition platform_inv where
  "platform_inv fs isr irq h pf g0 a0 e0 F k \<longleftrightarrow>
     (\<exists>T. kinv T k \<and> tables_after isr irq h pf g0 a0 e0 (\<lambda>n. started fs n F) T)"

lemma not_started:
  assumes "distinct fs" "set fs = platform_features isr irq h pf" "i < length fs" "i \<notin> F"
  shows "\<not> started fs (f_name (fs ! i)) F"
proof
  assume "started fs (f_name (fs ! i)) F"
  then obtain l where l: "l \<in> F" "l < length fs" "f_name (fs ! l) = f_name (fs ! i)"
    by (auto simp: started_def)
  have "fs ! l = fs ! i"
    using platform_names(1) [of "fs ! l" isr irq h pf "fs ! i"] l assms(2,3) nth_mem [of l fs] nth_mem [of i fs]
    by simp
  then have "l = i" using assms(1,3) l(2) by (simp add: nth_eq_iff_index_eq)
  with l(1) assms(4) show False by simp
qed

text \<open>The clients of the descriptor table are not started before it.\<close>

lemma idt_first:
  assumes "distinct fs" "set fs = platform_features isr irq h pf" "i < length fs" "i \<notin> F"
    and "fs ! i = idt_feature" "\<forall>j \<in> F. deps (resolve_all fs ! j) \<subseteq> F"
    and "name \<in> {''x86/isr'', ''x86/irq''}"
  shows "\<not> started fs name F"
proof
  assume "started fs name F"
  then obtain j where j: "j \<in> F" "j < length fs" "f_name (fs ! j) = name" by (auto simp: started_def)
  have "fs ! j \<in> platform_features isr irq h pf" using j(2) assms(2) nth_mem by blast
  then have "fs ! j = isr_feature isr \<or> fs ! j = irq_feature irq"
    using j(3) assms(7) by (auto simp: platform_features_def)
  then have "prereq ''x86/idt'' \<in> set (prereqs (required (fs ! j)))"
    by (auto simp: platform_feature_defs prereqs_def)
  moreover have "idt_feature \<in> set fs" using assms(2) by (simp add: platform_features_def)
  ultimately have "started fs (pr_name (prereq ''x86/idt'')) F"
    using j assms(2,6) platform_names(2)
    by (intro deps_started [of j fs F "prereq ''x86/idt''" idt_feature]) (auto simp: prereq_def)
  then show False using not_started [OF assms(1-4)] assms(5) by (simp add: prereq_def)
qed

lemma idt_started:
  assumes "set fs = platform_features isr irq h pf" "i < length fs" "deps (resolve_all fs ! i) \<subseteq> F"
    and "prereq ''x86/idt'' \<in> set (prereqs (required (fs ! i)))"
  shows "started fs ''x86/idt'' F"
proof -
  have "started fs (pr_name (prereq ''x86/idt'')) F"
    using assms platform_names(2)
    by (intro deps_started [of i fs F "prereq ''x86/idt''" idt_feature]) (auto simp: platform_features_def prereq_def)
  then show ?thesis by (simp add: prereq_def)
qed

lemma platform_step:
  assumes "distinct fs" "set fs = platform_features isr irq h pf"
    and "platform_inv fs isr irq h pf g0 a0 e0 F k" "i \<notin> F" "i < length fs"
    and "deps (resolve_all fs ! i) \<subseteq> F" "\<forall>j \<in> F. deps (resolve_all fs ! j) \<subseteq> F"
  shows "\<exists>k'. start_feature (resolve_all fs ! i) k = Inr k' \<and> platform_inv fs isr irq h pf g0 a0 e0 (insert i F) k'"
proof -
  obtain T where T: "kinv T k" "tables_after isr irq h pf g0 a0 e0 (\<lambda>n. started fs n F) T"
    using assms(3) by (auto simp: platform_inv_def)
  have sf: "start_feature (resolve_all fs ! i) k = start_feature (fs ! i) k"
    by (rule start_feature_cong) (simp_all add: resolve_all_nth resolve_all_init assms(5))
  have st: "(\<lambda>n. started fs n (insert i F)) = (\<lambda>n. f_name (fs ! i) = n \<or> started fs n F)"
    by (rule ext) (simp add: started_insert assms(5))
  have "fs ! i \<in> platform_features isr irq h pf" using assms(2,5) nth_mem by blast
  then consider (gdt) "fs ! i = gdt_feature" | (idt) "fs ! i = idt_feature" | (isr) "fs ! i = isr_feature isr"
    | (irq) "fs ! i = irq_feature irq" | (pit) "fs ! i = pit_feature h" | (sdc) "fs ! i = sdc_feature"
    | (mem) "fs ! i = mem_feature pf"
    by (auto simp: platform_features_def)
  then have "\<exists>k' T'. start_feature (fs ! i) k = Inr k' \<and> kinv T' k' \<and>
      tables_after isr irq h pf g0 a0 e0 (\<lambda>n. f_name (fs ! i) = n \<or> started fs n F) T'"
  proof cases
    case gdt
    then show ?thesis
      using gdt_start [OF T(1)] after_gdt_ok [OF T(2)] not_started [OF assms(1,2,5,4)]
      by (auto simp del: split_paired_Ex)
  next
    case idt
    then show ?thesis
      using idt_start [OF T(1)] after_idt_ok [OF T(2)] idt_first [OF assms(1,2,5,4) idt assms(7)]
      by (auto simp del: split_paired_Ex)
  next
    case isr
    then have "started fs ''x86/idt'' F"
      by (intro idt_started [OF assms(2,5,6)]) (simp add: platform_feature_defs prereqs_def)
    with isr show ?thesis using isr_start [OF T(1), of isr] after_isr_ok [OF T(2)] by (auto simp del: split_paired_Ex)
  next
    case irq
    then have "started fs ''x86/idt'' F"
      by (intro idt_started [OF assms(2,5,6)]) (simp add: platform_feature_defs prereqs_def)
    with irq show ?thesis using irq_start [OF T(1), of irq] after_irq_ok [OF T(2)] by (auto simp del: split_paired_Ex)
  next
    case pit
    then show ?thesis using pit_start [OF T(1), of h] after_pit_ok [OF T(2)] by (auto simp del: split_paired_Ex)
  next
    case sdc
    then show ?thesis using sdc_start [OF T(1)] after_other_ok [OF T(2)] by (auto simp del: split_paired_Ex)
  next
    case mem
    then have "\<not> started fs ''x86/mem'' F" using not_started [OF assms(1,2,5,4)] by simp
    then obtain d rts g a r e where eq: "T = (d, rts, g, a, r, e, PMM_INIT_START)"
      using T(2) by (cases T) (simp add: tables_after_def)
    show ?thesis
      using mem mem_start [OF T(1) [unfolded eq], of pf] after_mem_ok [OF T(2)] unfolding eq by (auto simp del: split_paired_Ex)
  qed
  then show ?thesis unfolding sf platform_inv_def st by blast
qed

section \<open>No required feature is missing\<close>

lemma dfs_missing_only:
  "x \<in> set (snd (dfs_feature fs n i vis)) \<Longrightarrow> x = Missing l p \<Longrightarrow> i < length fs \<Longrightarrow> resolved fs \<Longrightarrow>
     l < length fs \<and> (True, p) \<in> set (edges (fs ! l)) \<and> pr_feature p = None"
proof (induction n arbitrary: i vis x)
  case (Suc n)
  have e: "x \<in> set (snd (dfs_edges fs n i es v)) \<Longrightarrow> set es \<subseteq> set (edges (fs ! i)) \<Longrightarrow>
      l < length fs \<and> (True, p) \<in> set (edges (fs ! l)) \<and> pr_feature p = None" for es v
  proof (induction es arbitrary: v)
    case (Cons e es)
    have ok: "edge_ok fs e" using resolved_edges [OF Suc.prems(4,3)] Cons.prems by auto
    show ?case
    proof (cases "pr_feature (snd e)")
      case None
      obtain v2 a2 where 2: "dfs_edges fs n i es v = (v2, a2)" by force
      have "x \<in> set a2 \<or> (fst e \<and> x = Missing i (snd e))"
        using Cons.prems(1) None 2 by (auto split: if_splits)
      then show ?thesis
        using Cons.IH [of v] 2 Cons.prems(2) Suc.prems(2,3) None by (cases e) auto
    next
      case (Some j)
      obtain v1 a1 where 1: "dfs_feature fs n j v = (v1, a1)" by force
      obtain v2 a2 where 2: "dfs_edges fs n i es v1 = (v2, a2)" by force
      have j: "j < length fs" using ok Some by (simp add: edge_ok_def)
      have "x \<in> set a1 \<or> x \<in> set a2" using Cons.prems(1) Some 1 2 by auto
      then show ?thesis
      proof
        assume "x \<in> set a1"
        then show ?thesis using Suc.IH [of x j v] 1 j Suc.prems(2,4) by simp
      next
        assume "x \<in> set a2"
        then show ?thesis using Cons.IH [of v1] 2 Cons.prems(2) by simp
      qed
    qed
  qed simp
  show ?case
    using Suc.prems e [of "edges (fs ! i)" "i # vis"]
    by (cases "dfs_edges fs n i (edges (fs ! i)) (i # vis)") (auto split: if_splits)
qed simp

lemma start_acts_only_starts:
  assumes "\<And>i p. i < length fs \<Longrightarrow> (True, p) \<in> set (edges (resolve_all fs ! i)) \<Longrightarrow> pr_feature p \<noteq> None"
  shows "\<forall>x \<in> set (start_acts (resolve_all fs)). \<exists>i. x = Start i"
proof
  fix x assume x: "x \<in> set (start_acts (resolve_all fs))"
  have each: "x \<in> set (snd (dfs_each (resolve_all fs) n is vis)) \<Longrightarrow> \<forall>i \<in> set is. i < length fs \<Longrightarrow> x = Missing l p \<Longrightarrow>
      l < length fs \<and> (True, p) \<in> set (edges (resolve_all fs ! l)) \<and> pr_feature p = None" for n "is" vis l p
  proof (induction "is" arbitrary: vis)
    case (Cons i "is")
    obtain v a where 1: "dfs_feature (resolve_all fs) n i vis = (v, a)" by force
    obtain v' a' where 2: "dfs_each (resolve_all fs) n is v = (v', a')" by force
    have "x \<in> set a \<or> x \<in> set a'" using Cons.prems(1) 1 2 by auto
    then show ?case
    proof
      assume "x \<in> set a"
      then show ?thesis
        using dfs_missing_only [of x "resolve_all fs" n i vis l p] 1 Cons.prems resolved_resolve_all [of fs] by simp
    next
      assume "x \<in> set a'"
      then show ?thesis using Cons.IH [of v] 2 Cons.prems by simp
    qed
  qed simp
  show "\<exists>i. x = Start i"
  proof (cases x)
    case (Missing l p)
    have "l < length fs \<and> (True, p) \<in> set (edges (resolve_all fs ! l)) \<and> pr_feature p = None"
      using x unfolding start_acts_def by (intro each [OF _ _ Missing]) auto
    with assms show ?thesis by blast
  next
    case Stuck
    then show ?thesis using x start_acts_visits(3) [of fs] by simp
  qed simp
qed

lemma platform_complete:
  assumes "set fs = platform_features isr irq h pf" "i < length fs" "(True, p) \<in> set (edges (resolve_all fs ! i))"
  shows "pr_feature p \<noteq> None"
proof -
  let ?us = "map (\<lambda>m. m\<lparr>f_state := FEATURE_UNINIT\<rparr>) fs"
  obtain q where q: "q \<in> set (prereqs (required (fs ! i)))" "p = q\<lparr>pr_feature := find_feature ?us (pr_name q)\<rparr>"
    using assms(2,3) by (auto simp: edges_def resolve_all_nth prereqs_resolve)
  have "fs ! i \<in> platform_features isr irq h pf" using assms(1,2) nth_mem by blast
  then have "pr_name q \<in> {''x86/idt'', ''x86/isr'', ''x86/irq''}"
    using q(1) unfolding platform_features_def
    by (elim insertE emptyE) (auto simp: platform_feature_defs prereqs_def)
  then obtain m where "m \<in> platform_features isr irq h pf" "f_name m = pr_name q"
  proof -
    assume *: "pr_name q \<in> {''x86/idt'', ''x86/isr'', ''x86/irq''}"
      and that: "\<And>m. m \<in> platform_features isr irq h pf \<Longrightarrow> f_name m = pr_name q \<Longrightarrow> thesis"
    show thesis
      using * that [of idt_feature] that [of "isr_feature isr"] that [of "irq_feature irq"]
      by (auto simp: platform_features_def)
  qed
  then have "\<exists>j. find_feature ?us (pr_name q) = Some j"
    using find_feature_found [of m fs "pr_name q" FEATURE_UNINIT] assms(1) by auto
  then show ?thesis using q(2) by auto
qed

section \<open>From kmain to idle\<close>

lemma platform_features_start:
  assumes "distinct fs" "set fs = platform_features isr irq h pf"
    and "platform_inv fs isr irq h pf g0 a0 e0 {} k"
  shows "\<exists>fs' k'. init_features fs k = Inr (fs', k') \<and> platform_inv fs isr irq h pf g0 a0 e0 {..<length fs} k'"
proof -
  let ?rs = "resolve_all fs" and ?as = "start_acts (resolve_all fs)"
  have "\<exists>k'. run_acts ?rs ?as k = Inr k' \<and> platform_inv fs isr irq h pf g0 a0 e0 ({} \<union> set (starts ?as)) k'"
  proof (rule run_acts_inv)
    show "ordered ?rs {} ?as"
      using assms(2) by (intro start_acts_ordered [OF platform_acyclic]) auto
    show "\<forall>x \<in> set ?as. \<exists>i. x = Start i"
      by (rule start_acts_only_starts) (rule platform_complete [OF assms(2)])
    show "\<exists>k'. start_feature (?rs ! i) k = Inr k' \<and> platform_inv fs isr irq h pf g0 a0 e0 (insert i F) k'"
      if "platform_inv fs isr irq h pf g0 a0 e0 F k" "i \<notin> F" "i < length ?rs" "deps (?rs ! i) \<subseteq> F"
        "\<forall>j \<in> F. deps (?rs ! j) \<subseteq> F" for F i k
      using platform_step [OF assms(1,2), of g0 a0 e0 F k i] that by simp
  qed (use assms(3) start_acts_visits [of fs] in auto)
  then show ?thesis
    using start_acts_visits(2) [of fs] by (auto simp: init_features_runs)
qed

lemma enable_kinv:
  assumes "kinv (d, rts, g, a, r, e, st) k"
  shows "kinv (d, rts, g, a, r, e OR 0x200, st) (k\<lparr>dev := enable_interrupts (dev k)\<rparr>)"
proof -
  let ?s = "enable_interrupts (dev k)"
  have "same_memory (dev k) ?s" by (simp add: same_memory_def enable_interrupts_def vga_area_def)
  then have "memory_state ?s" using assms memory_kept [of "dev k" ?s] by (simp add: kinv_def dev_inv_def)
  then show ?thesis
    using assms by (auto simp: kinv_def dev_inv_def tables_def enable_interrupts_def devices_inv_def vga_inv_def serial_fair_def)
qed

lemma minklogo_kinv:
  assumes "kinv T k"
  shows "\<exists>k'. minklogo k = Inr k' \<and> kinv T k'"
proof -
  obtain k1 where 1: "kprintk ''M'' [] (ksetcolor (make_color COLOR_WHITE COLOR_BLACK) k) = Inr k1" "kinv T k1"
    using kprintk_text [OF ksetcolor_kinv [OF assms], of "''M''"] by auto
  obtain k2 where 2: "kprintk ''i'' [] (ksetcolor (make_color COLOR_LIGHT_GREY COLOR_BLACK) k1) = Inr k2" "kinv T k2"
    using kprintk_text [OF ksetcolor_kinv [OF 1(2)], of "''i''"] by auto
  obtain k3 where 3: "kprintk ''NK '' [] (ksetcolor (make_color COLOR_WHITE COLOR_BLACK) k2) = Inr k3" "kinv T k3"
    using kprintk_text [OF ksetcolor_kinv [OF 2(2)], of "''NK ''"] by auto
  have "\<exists>k'. kprintk (''v'' @ MINK_VERSION @ [CHR 0x0A, CHR 0x0A]) []
      (ksetcolor (make_color COLOR_LIGHT_GREY COLOR_BLACK) k3) = Inr k' \<and> kinv T k'"
    by (rule kprintk_text [OF ksetcolor_kinv [OF 3(2)]]) (simp_all add: MINK_VERSION_def)
  then show ?thesis using 1 2 3 by (simp add: minklogo_def)
qed

lemma gate_opens: "opens (gate b) b"
  by (simp add: opens_def gate_def gate_base_def gate_base_split)

lemma kmain_returns:
  fixes fs :: "_ feature list"
  assumes "distinct fs" "set fs = platform_features isr irq h pf"
    and "kinv (d, rts, g, a, r, e, PMM_INIT_START) k" "length rts = 256"
  shows "\<exists>fs' k' d' rts'. kmain enabled argv fs k = Inr (process_args enabled argv False, fs', k') \<and>
    kinv (d', rts', snd (gdt_init g), a, \<lparr>idt_limit = 2047, idt_base = a\<rparr>, e OR 0x200, PMM_INIT_FULL) k' \<and>
    length rts' = 256 \<and> rts' ! 32 = h \<and> rts' ! 14 = pf \<and> (\<forall>n < 32. d' ! n = gate (isr n)) \<and> (\<forall>n < 16. d' ! (32 + n) = gate (irq n))"
proof -
  let ?T = "(d, rts, g, a, r, e, PMM_INIT_START)" and ?K = "process_args enabled argv False"
  obtain k1 where 1: "minklogo k = Inr k1" "kinv ?T k1" using minklogo_kinv [OF assms(3)] by blast
  obtain k2 where 2: "kprintk (''Starting platform features... '' @ [CHR 0x0A]) [] k1 = Inr k2" "kinv ?T k2"
    using kprintk_text [OF 1(2), of "''Starting platform features... '' @ [CHR 0x0A]"] by auto
  have "platform_inv fs isr irq h pf g a e {} k2"
    unfolding platform_inv_def using 2(2) assms(4)
    by (intro exI [of _ ?T]) (simp add: tables_after_def started_def)
  from platform_features_start [OF assms(1,2) this] obtain fs' k3 T3 where
    3: "init_features fs k2 = Inr (fs', k3)" "kinv T3 k3"
      "tables_after isr irq h pf g a e (\<lambda>n. started fs n {..<length fs}) T3"
    unfolding platform_inv_def by blast
  obtain d' rts' g' a' r' e' st' where T3: "T3 = (d', rts', g', a', r', e', st')" by (cases T3)
  have st: "started fs (f_name m) {..<length fs}" if "m \<in> platform_features isr irq h pf" for m
    using started_all that assms(2) by blast
  have sts: "started fs ''x86/gdt'' {..<length fs}" "started fs ''x86/idt'' {..<length fs}"
    "started fs ''x86/isr'' {..<length fs}" "started fs ''x86/irq'' {..<length fs}" "started fs ''x86/pit'' {..<length fs}"
    "started fs ''x86/mem'' {..<length fs}"
    using st [of gdt_feature] st [of idt_feature] st [of "isr_feature isr"] st [of "irq_feature irq"]
      st [of "pit_feature h"] st [of "mem_feature pf"] by (simp_all add: platform_features_def)
  note facts = 3(3) [unfolded T3 tables_after_def, simplified sts, simplified]
  have T3': "T3 = (d', rts', snd (gdt_init g), a, \<lparr>idt_limit = 2047, idt_base = a\<rparr>, e, PMM_INIT_FULL)"
    using facts T3 by simp
  obtain k4 where 4: "kprintk (''Platform is up.'' @ [CHR 0x0A]) [] k3 = Inr k4" "kinv T3 k4"
    using kprintk_text [OF 3(2), of "''Platform is up.'' @ [CHR 0x0A]"] by auto
  obtain k5 where 5: "kprintk ''Reticulating splines... '' [] k4 = Inr k5" "kinv T3 k5"
    using kprintk_text [OF 4(2), of "''Reticulating splines... ''"] by auto
  obtain k6 where 6: "greybox ''OK'' (make_color COLOR_LIGHT_GREEN COLOR_BLACK) True k5 = Inr k6" "kinv T3 k6"
    using greybox_kinv [OF 5(2)] by blast
  obtain k7 where 7: "kprintk ''Enabling interrupts... '' [] k6 = Inr k7" "kinv T3 k7"
    using kprintk_text [OF 6(2), of "''Enabling interrupts... ''"] by auto
  let ?T4 = "(d', rts', snd (gdt_init g), a, \<lparr>idt_limit = 2047, idt_base = a\<rparr>, e OR 0x200, PMM_INIT_FULL)"
  have e: "kinv ?T4 (k7\<lparr>dev := enable_interrupts (dev k7)\<rparr>)"
    using enable_kinv 7(2) T3' by blast
  obtain k8 where 8: "greybox ''OK'' (make_color COLOR_LIGHT_GREEN COLOR_BLACK) True
      (k7\<lparr>dev := enable_interrupts (dev k7)\<rparr>) = Inr k8" "kinv ?T4 k8"
    using greybox_kinv [OF e] by blast
  obtain k9 where 9: "kprintk (''Kernel is up; Going idle.'' @ [CHR 0x0A]) [] k8 = Inr k9" "kinv ?T4 k9"
    using kprintk_text [OF 8(2), of "''Kernel is up; Going idle.'' @ [CHR 0x0A]"] by auto
  have "kmain enabled argv fs k = Inr (?K, fs', k9)"
    using 1 2 3 4 5 6 7 8 9 by (simp add: kmain_def Let_def)
  then show ?thesis using 9(2) facts by auto
qed

lemma kmain_up:
  assumes "distinct fs" "set fs = platform_features isr irq h pf"
    and "set (consoles k) \<subseteq> {vga_console, serial_console}" "devices_inv (dev k)"
    and "length (isr_routines (dev k)) = 256"
    and "boot_ready (dev k) es" "mmap_area (mmap_addr (mboot (dev k))) es \<inter> vga_area (dev k) = {}"
    and "vga_area (dev k) \<inter> region MMAP_PMM_BITMAP 0x1000000 = {}"
  shows "\<exists>fs' k'. kmain enabled argv fs k = Inr (process_args enabled argv False, fs', k') \<and> devices_inv (dev k') \<and>
    (\<forall>n < 32. opens (idt (dev k') ! n) (isr n)) \<and> (\<forall>n < 16. opens (idt (dev k') ! (32 + n)) (irq n)) \<and>
    routine (IRQ_ISR 0) (dev k') = Inr h \<and> routine 14 (dev k') = Inr pf \<and>
    idtr (dev k') = \<lparr>idt_limit = 2047, idt_base = idt_at (dev k)\<rparr> \<and>
    the_gdt (dev k') = snd (gdt_init (the_gdt (dev k))) \<and> memory_up (dev k') \<and> get_interrupt_state (dev k') \<noteq> 0"
proof -
  have start: "pmm_init_stage (dev k) = PMM_INIT_START" using assms(6) by (simp add: boot_ready_def)
  obtain d rts g a r e where T: "tables (dev k) = (d, rts, g, a, r, e, PMM_INIT_START)"
    using start by (cases "tables (dev k)") (simp add: tables_def)
  then have f: "isr_routines (dev k) = rts" "the_gdt (dev k) = g" "idt_at (dev k) = a"
    by (simp_all add: tables_def)
  have "memory_state (dev k)" using assms(6-8) start by (auto simp: memory_state_def)
  then have k: "kinv (d, rts, g, a, r, e, PMM_INIT_START) k" using assms(3,4) T by (simp add: kinv_def dev_inv_def)
  have "length rts = 256" using assms(5) f by simp
  from kmain_returns [where enabled = enabled and argv = argv, OF assms(1,2) k this]
  obtain fs' k' d' rts' where k': "kmain enabled argv fs k = Inr (process_args enabled argv False, fs', k')"
    "kinv (d', rts', snd (gdt_init g), a, \<lparr>idt_limit = 2047, idt_base = a\<rparr>, e OR 0x200, PMM_INIT_FULL) k'"
    "length rts' = 256" "rts' ! 32 = h" "rts' ! 14 = pf"
    "\<forall>n < 32. d' ! n = gate (isr n)" "\<forall>n < 16. d' ! (32 + n) = gate (irq n)"
    by (metis (no_types, lifting))
  have t: "devices_inv (dev k')" "idt (dev k') = d'" "isr_routines (dev k') = rts'" "memory_state (dev k')"
    "the_gdt (dev k') = snd (gdt_init g)" "idtr (dev k') = \<lparr>idt_limit = 2047, idt_base = a\<rparr>" "eflags (dev k') = e OR 0x200"
    "pmm_init_stage (dev k') = PMM_INIT_FULL"
    using k'(2) by (auto simp: kinv_def dev_inv_def tables_def)
  have up: "memory_up (dev k')"
    using t(4,8) by (simp add: memory_state_def PMM_INIT_FULL_def PMM_INIT_START_def)
  have "get_interrupt_state (dev k') \<noteq> 0"
    using or_bit_and [of e 9] by (simp add: get_interrupt_state_def t(7))
  with k' t f up show ?thesis
    by (auto simp: gate_opens routine_def IRQ_ISR_def)
qed

end
