(* ===== verification/Timer_Ticks.thy ===== *)
theory Timer_Ticks
  imports Interrupts
begin

text \<open>
  The clock: once \<^verbatim>\<open>timer_handler\<close> is installed, every timer interrupt advances the tick count
  by one, prints its dot when it is due, and is acknowledged.
\<close>

section \<open>A tick\<close>

definition tick_inv :: "u64 \<Rightarrow> u32 list \<Rightarrow> 'a intr_scheme \<Rightarrow> bool" where
  "tick_inv j rts s \<longleftrightarrow> devices_inv s \<and> jiffies s = j \<and> isr_routines s = rts"

lemma vga_driver_tick: "console_driver vga_console (tick_inv j rts)"
proof
  fix s :: "'a intr_scheme" and str
  assume s: "tick_inv j rts s"
  then obtain s' where "vgaterm_writestring str s = Inr s'" "vga_inv s'" "vga_step s s'"
    using vgaterm_writestring_spec [of s str] by (auto simp: tick_inv_def devices_inv_def)
  moreover from this(3) have "jiffies s' = jiffies s" "isr_routines s' = isr_routines s"
    by (auto simp: vga_step_def)
  ultimately show "\<exists>s'. writestring vga_console str s = Inr s' \<and> tick_inv j rts s'"
    using s vga_step_fair [of s s'] by (auto simp: vga_console_def tick_inv_def devices_inv_def)
next
  fix s :: "'a intr_scheme" and c
  assume "tick_inv j rts s"
  then show "tick_inv j rts (setcolor vga_console c s)"
    using vga_driver.colours [of s c] by (simp add: tick_inv_def vga_console_def vgaterm_setcolor_def)
qed

lemma serial_driver_tick: "console_driver serial_console (tick_inv j rts)"
proof
  fix s :: "'a intr_scheme" and str
  assume s: "tick_inv j rts s"
  then obtain s' where s': "writestring serial_console str s = Inr s'" "devices_inv s'"
    using serial_driver.writes [of s str] by (auto simp: tick_inv_def)
  moreover have "jiffies s' = jiffies s" "isr_routines s' = isr_routines s"
    using s' s serial_writestring_spec [of s str]
    by (auto simp: serial_console_def tick_inv_def devices_inv_def)
  ultimately show "\<exists>s'. writestring serial_console str s = Inr s' \<and> tick_inv j rts s'"
    using s by (auto simp: tick_inv_def)
next
  fix s :: "'a intr_scheme" and c
  assume "tick_inv j rts s"
  then show "tick_inv j rts (setcolor serial_console c s)"
    by (simp add: serial_console_def serial_setcolor_def)
qed

lemma tick_drivers:
  "set cons \<subseteq> {vga_console, serial_console} \<Longrightarrow> all_drivers cons (tick_inv j rts)"
  using vga_driver_tick [of j rts] serial_driver_tick [of j rts] unfolding all_drivers_def by blast

lemma kernel_tick_inv:
  assumes "set cons \<subseteq> {vga_console, serial_console}" "tick_inv j rts s"
  shows "\<exists>s'. kernel_tick cons s = Inr s' \<and> tick_inv (j + 1) rts s'"
proof -
  let ?s = "s\<lparr>jiffies := jiffies s + 1\<rparr>"
  have t: "tick_inv (j + 1) rts ?s"
    using assms(2) by (auto simp: tick_inv_def devices_inv_def vga_inv_def serial_fair_def)
  have "vsprintf (mem ?s) ''.'' [] = Inr (mem ?s, ''.'')" by (rule vsprintf_literal) simp_all
  from printk_returns(2) [OF tick_drivers [OF assms(1)] t this]
  show ?thesis using t by (auto simp: kernel_tick_def Let_def)
qed

section \<open>Interrupts\<close>

lemma tick_inv_ports: "tick_inv j rts s \<Longrightarrow> tick_inv j rts (s\<lparr>port_out := p\<rparr>)"
  by (auto simp: tick_inv_def devices_inv_def vga_inv_def serial_fair_def)

text \<open>The interrupts that arrive, one after the other.\<close>

fun irqs :: "'a intr_scheme console_t list \<Rightarrow> 'a handler_code \<Rightarrow> isr_regs list \<Rightarrow> 'a intr_scheme \<Rightarrow> 'a intr_scheme res" where
  "irqs cons call [] s = Inr s"
| "irqs cons call (r # rs) s = bind_res (irq_handler cons call r s) (\<lambda>(r', s). irqs cons call rs s)"

lemma timer_irq:
  assumes "set cons \<subseteq> {vga_console, serial_console}" "tick_inv j rts s" "length rts = 256"
    "int_no r = 32" "rts ! 32 \<noteq> 0" "\<And>r s. call (rts ! 32) r s = timer_handler cons r s"
  shows "\<exists>s'. irq_handler cons call r s = Inr (r, s') \<and> tick_inv (j + 1) rts s' \<and>
    (\<exists>out. port_out s' = out @ [(0x20, 0x20)])"
proof -
  obtain s1 where s1: "kernel_tick cons s = Inr s1" "tick_inv (j + 1) rts s1"
    using kernel_tick_inv [OF assms(1,2)] by blast
  have "routine (int_no r) s = Inr (rts ! 32)"
    using assms(2-4) by (simp add: routine_def tick_inv_def)
  moreover have "call (rts ! 32) r s = Inr (0, r, s1)"
    using s1(1) by (simp add: assms(6) timer_handler_def)
  ultimately have "irq_handler cons call r s = Inr (r, s1\<lparr>port_out := port_out s1 @ eoi (int_no r)\<rparr>)"
    using assms(5) by (intro irq_handler_called) auto
  then show ?thesis
    using tick_inv_ports [OF s1(2)] assms(4) by (auto simp: eoi_def)
qed

lemma timer_irqs:
  assumes "set cons \<subseteq> {vga_console, serial_console}" "length rts = 256" "rts ! 32 \<noteq> 0"
    "\<And>r s. call (rts ! 32) r s = timer_handler cons r s"
  shows "tick_inv j rts s \<Longrightarrow> \<forall>r \<in> set rs. int_no r = 32 \<Longrightarrow>
    \<exists>s'. irqs cons call rs s = Inr s' \<and> tick_inv (j + of_nat (length rs)) rts s'"
proof (induction rs arbitrary: s j)
  case (Cons r rs)
  have r: "int_no r = 32" using Cons.prems by simp
  obtain s1 where 1: "irq_handler cons call r s = Inr (r, s1)" "tick_inv (j + 1) rts s1"
    using timer_irq [where call = call, OF assms(1) Cons.prems(1) assms(2) r assms(3,4)] by blast
  with Cons.IH [OF 1(2)] Cons.prems(2) show ?case by (simp add: add.assoc)
qed simp

end
