(* ===== verification/Ramfs.thy ===== *)
theory Ramfs
  imports Strings
begin

text \<open>
  The initial RAM file system: \<^verbatim>\<open>ramfs.c\<close> and \<^verbatim>\<open>include/ramfs.h\<close>. A file system is a block of the
  store: a header of 16 bytes, then one header of 32 bytes per file. Pointers are addresses.
\<close>

section \<open>Structures\<close>

record mink_ramfs_header =
  fs_magic :: u32
  fs_version :: u32
  fs_size :: u32
  file_count :: u32

record mink_ramfs_file_header =
  file_start :: u32
  file_length :: u32
  file_name :: string

definition MINK_RAMFS_MAGIC :: u32 where "MINK_RAMFS_MAGIC = 0x0101CA75"
definition MINK_RAMFS_VERSION :: u32 where "MINK_RAMFS_VERSION = 10"

definition ramfs_header :: "mem \<Rightarrow> u32 \<Rightarrow> mink_ramfs_header" where
  "ramfs_header m fs = \<lparr>fs_magic = load32 m fs, fs_version = load32 m (fs + 4),
     fs_size = load32 m (fs + 8), file_count = load32 m (fs + 12)\<rparr>"

text \<open>\<^verbatim>\<open>file_name\<close> is an array of 24 characters.\<close>

definition ramfs_file_header :: "mem \<Rightarrow> u32 \<Rightarrow> mink_ramfs_file_header" where
  "ramfs_file_header m p = \<lparr>file_start = load32 m p, file_length = load32 m (p + 4),
     file_name = map (\<lambda>i. char_of (unat (m (p + 8 + of_nat i)))) [0..<24]\<rparr>"

text \<open>The standard \<^verbatim>\<open>strncmp\<close>: the first difference within \<open>n\<close> characters.\<close>

fun strncmp :: "string \<Rightarrow> string \<Rightarrow> nat \<Rightarrow> int" where
  "strncmp s1 s2 0 = 0"
| "strncmp s1 s2 (Suc n) =
     (if at s1 \<noteq> at s2 then of_char (at s1) - of_char (at s2)
      else if at s1 = NUL then 0 else strncmp (tl s1) (tl s2) n)"

section \<open>Operations\<close>

definition is_valid_ramfs :: "mem \<Rightarrow> u32 \<Rightarrow> bool" where
  "is_valid_ramfs m fs =
     (if fs = 0 then False
      else if load32 m fs \<noteq> MINK_RAMFS_MAGIC then False
      else if load32 m (fs + 4) \<noteq> MINK_RAMFS_VERSION then False
      else True)"

definition ramfs_size :: "mem \<Rightarrow> u32 \<Rightarrow> int" where
  "ramfs_size m fs = (if \<not> is_valid_ramfs m fs then - 1 else sint (fs_size (ramfs_header m fs)))"

definition ramfs_file_count :: "mem \<Rightarrow> u32 \<Rightarrow> int" where
  "ramfs_file_count m fs = (if \<not> is_valid_ramfs m fs then - 1 else sint (file_count (ramfs_header m fs)))"

text \<open>The search from file \<open>i\<close>, whose header is at \<open>current\<close>; \<open>n\<close> files are left.\<close>

fun find_file_from :: "mem \<Rightarrow> string \<Rightarrow> nat \<Rightarrow> u32 \<Rightarrow> u32" where
  "find_file_from m name 0 current = 0"
| "find_file_from m name (Suc n) current =
     (if strncmp name (file_name (ramfs_file_header m current)) 24 = 0 then current
      else find_file_from m name n (current + 32))"

text \<open>A null \<^verbatim>\<open>name\<close> is \<open>None\<close>.\<close>

definition ramfs_find_file :: "mem \<Rightarrow> u32 \<Rightarrow> string option \<Rightarrow> u32" where
  "ramfs_find_file m fs name =
     (if \<not> is_valid_ramfs m fs then 0
      else case name of None \<Rightarrow> 0
      | Some name \<Rightarrow> find_file_from m name (unat (file_count (ramfs_header m fs))) (fs + 16))"

definition ramfs_file_open :: "mem \<Rightarrow> u32 \<Rightarrow> u32" where
  "ramfs_file_open m file =
     (if file = 0 then 0
      else if file_length (ramfs_file_header m file) = 0 then 0
      else if file_start (ramfs_file_header m file) = 0 then 0
      else file + file_start (ramfs_file_header m file))"

section \<open>Names\<close>

lemma strncmp_zero: "strncmp s t n = 0 \<longleftrightarrow> take n (cstr s) = take n (cstr t)"
proof (induction s t n rule: strncmp.induct)
  case (2 s t n)
  then show ?case by (cases s; cases t) auto
qed simp

section \<open>Lookup\<close>

text \<open>The address of file \<open>i\<close>, and the name its header carries.\<close>

definition file_at :: "u32 \<Rightarrow> nat \<Rightarrow> u32" where
  "file_at fs i = fs + 16 + 32 * of_nat i"

definition named :: "mem \<Rightarrow> string \<Rightarrow> u32 \<Rightarrow> bool" where
  "named m name p \<longleftrightarrow> take 24 (cstr name) = cstr (file_name (ramfs_file_header m p))"

lemma length_file_name: "length (file_name (ramfs_file_header m p)) = 24"
  by (simp add: ramfs_file_header_def)

lemma strncmp_named: "strncmp name (file_name (ramfs_file_header m p)) 24 = 0 \<longleftrightarrow> named m name p"
proof -
  have "length (cstr (file_name (ramfs_file_header m p))) \<le> 24"
    using length_takeWhile_le [of _ "file_name (ramfs_file_header m p)"]
    by (simp add: cstr_def length_file_name)
  then show ?thesis by (simp add: strncmp_zero named_def)
qed

lemma find_file_from_find:
  "find_file_from m name n (file_at fs k) =
     (case find (named m name) (map (file_at fs) [k..<k + n]) of None \<Rightarrow> 0 | Some p \<Rightarrow> p)"
proof (induction n arbitrary: k)
  case (Suc n)
  have "file_at fs k + 32 = file_at fs (Suc k)" by (simp add: file_at_def algebra_simps)
  moreover have "[k..<k + Suc n] = k # [Suc k..<Suc k + n]" by (subst upt_conv_Cons) simp_all
  ultimately show ?case using Suc [of "Suc k"] by (simp add: strncmp_named)
qed simp

lemma ramfs_find_file_find:
  "ramfs_find_file m fs name =
    (if is_valid_ramfs m fs
     then case name of None \<Rightarrow> 0 | Some name \<Rightarrow>
       (case find (named m name) (map (file_at fs) [0..<unat (load32 m (fs + 12))]) of
          None \<Rightarrow> 0 | Some p \<Rightarrow> p)
     else 0)"
  using find_file_from_find [of m _ "unat (load32 m (fs + 12))" fs 0]
  by (auto simp: ramfs_find_file_def ramfs_header_def file_at_def split: option.split)

end
