(* ===== verification/Boot_Demo.thy ===== *)
theory Boot_Demo
  imports Platform_Run Timer_Ticks Ramfs
begin

text \<open>
  A machine as the loaders leave it, for the concrete instances of the kernel's properties: 1GB of
  memory in two ranges, the first-stage loader's page tables at 1MB and 4KB, a VGA buffer at its
  usual place, a serial line that is always ready and empty descriptor tables.
\<close>

section \<open>The machine\<close>

definition demo_gdt :: gdt_state where
  "demo_gdt = \<lparr>gdt_entries = replicate 261
       \<lparr>limit_low = 0, base_low = 0, base_mid = 0, g_type = 0, g_s = 0, g_dpl = 0, g_p = 0, limit_high = 0,
        g_avail = 0, g_l = 0, g_d = 0, g_g = 0, base_high = 0\<rparr>,
     tss_entries = replicate 256 zero_tss, gdt_at = 0xC0300000, tss_at = 0xC0310000,
     the_gdt_ptr = \<lparr>gdt_limit = 0, gdt_base = 0\<rparr>, num_gdt_entries = 0, num_tss_entries = 0,
     gdtr = \<lparr>gdt_limit = 0, gdt_base = 0\<rparr>, cs_sel = 0, data_sel = 0, task_reg = 0\<rparr>"

text \<open>The memory map: an entry of 24 bytes at \<open>0xC0009000\<close> and one behind it.\<close>

definition store_entry :: "u32 \<Rightarrow> multiboot_mmap_entry \<Rightarrow> mem \<Rightarrow> mem" where
  "store_entry p e m = store32 (store32 (store32 (store32 (store32 (store32 m
     p (me_size e)) (p + 4) (ucast (me_addr e))) (p + 8) (ucast (drop_bit 32 (me_addr e))))
     (p + 12) (ucast (me_len e))) (p + 16) (ucast (drop_bit 32 (me_len e)))) (p + 20) (me_type e)"

definition demo_map :: "multiboot_mmap_entry list" where
  "demo_map = [\<lparr>me_size = 20, me_addr = 0, me_len = 0x9F000, me_type = 1\<rparr>,
     \<lparr>me_size = 20, me_addr = 0x100000, me_len = 0x3FF00000, me_type = 1\<rparr>]"

definition boot_mem :: mem where
  "boot_mem = store_entry 0xC0009018 (demo_map ! 1) (store_entry 0xC0009000 (demo_map ! 0) (\<lambda>_. 0))"

text \<open>The tables of \<^verbatim>\<open>loader.s\<close>: the directory at \<open>0x101000\<close>, the table at \<open>0x102000\<close>.\<close>

definition boot_ptmem :: "u32 \<Rightarrow> u32" where
  "boot_ptmem a =
     (if a = 0x101000 \<or> a = 0x101C00 then 0x102003
      else if unat a div 4096 = 0x102 then of_nat ((unat a - 0x102000) div 4 * 4096) OR X86_PRESENT OR X86_WRITE
      else 0)"

definition demo_mboot :: multiboot_info where
  "demo_mboot = (read_multiboot_info (\<lambda>_. 0) 0)\<lparr>mb_flags := 1, mmap_addr := 0xC0009000, mmap_length := 48\<rparr>"

definition demo_platform :: platform where
  "demo_platform = \<lparr>mem = boot_mem, ptmem = boot_ptmem, cr0 = 0x80000000, cr2 = 0, cr3 = 0x101003, eflags = 2,
     port_out = [], port_in = (\<lambda>_ _. 0x20), port_reads = (\<lambda>_. 0),
     term_cursor_y = 24, term_cursor_x = 79, term_color = 7, term_frontbuff = VRAM_START, term_backbuff = 0xC0200000,
     idt = [], idt_at = 0xC0320000, idtp = \<lparr>idt_limit = 0, idt_base = 0\<rparr>, idtr = \<lparr>idt_limit = 0, idt_base = 0\<rparr>,
     isr_routines = no_routines, jiffies = 99,
     pmm_init_stage = PMM_INIT_START, early_ranges = replicate 64 \<lparr>start = 0, extent = 0\<rparr>, early_nranges = 0,
     early_max_extent = 0, pmm_lock = SPINLOCK_RELEASED,
     allocators = replicate 3 \<lparr>buddy_start = 0, buddy_size = 0, orders = []\<rparr>,
     current = None, global_vmm_lock = SPINLOCK_RELEASED,
     mboot = demo_mboot, kernel_elf = \<lparr>symtab = 0, symtabsz = 0, strtab = 0, strtabsz = 0\<rparr>,
     earlyalloc_buf = 0xC0130000, earlyalloc_idx = 0, link_start = 0x100000, link_end = 0x120000, the_gdt = demo_gdt\<rparr>"

definition demo_ksys where
  "demo_ksys = \<lparr>consoles = [vga_console], dev = demo_platform\<rparr>"

section \<open>The map\<close>

lemma load64_halves: "load32 m a = ucast x \<Longrightarrow> load32 m (a + 4) = ucast (drop_bit 32 x) \<Longrightarrow> load64 m a = x"
proof (rule bit_word_eqI)
  fix n assume *: "load32 m a = ucast x" "load32 m (a + 4) = ucast (drop_bit 32 x)" "n < LENGTH(64)"
  then have "n < 32 \<or> (32 \<le> n \<and> n < 64)" by auto
  then show "bit (load64 m a) n = bit x n" using * by (auto simp: load64_def bit_simps)
qed

lemma region_4_apart:
  assumes "4 \<le> unat (b - a)" "4 \<le> unat (a - b)"
  shows "region a 4 \<inter> region b 4 = {}"
proof -
  have "False" if "a + of_nat i = b + of_nat j" "i < 4" "j < 4" for i j :: nat
  proof (cases "j \<le> i")
    case True
    then have "b - a = of_nat (i - j)" using that(1) by (simp add: of_nat_diff algebra_simps)
    then have "unat (b - a) = i - j" using that(2) by simp
    then show ?thesis using assms(1) that by simp
  next
    case False
    then have "a - b = of_nat (j - i)" using that(1) by (simp add: of_nat_diff algebra_simps)
    then have "unat (a - b) = j - i" using that(3) by simp
    then show ?thesis using assms(2) that by simp
  qed
  then show ?thesis unfolding region_def by blast
qed

lemma load32_apart: "4 \<le> unat (b - a) \<Longrightarrow> 4 \<le> unat (a - b) \<Longrightarrow> load32 (store32 m b v) a = load32 m a"
  by (rule load32_frame [OF store32_same_outside region_4_apart])

lemma read_store_entry: "read_mmap_entry (store_entry p e m) p = e"
proof -
  have "load64 (store_entry p e m) (p + 4) = me_addr e" "load64 (store_entry p e m) (p + 12) = me_len e"
    by (rule load64_halves; simp add: store_entry_def load32_apart add.assoc)+
  then show ?thesis by (simp add: read_mmap_entry_def) (simp add: store_entry_def load32_apart)
qed

lemma store_entry_outside: "same_outside (region p 24) m (store_entry p e m)"
proof -
  have sub: "region (p + of_nat k) 4 \<subseteq> region p 24" if "k \<le> 20" for k using that by (intro region_sub) simp
  have w: "same_outside (region p 24) m' (store32 m' (p + of_nat k) v)" if "k \<le> 20" for k m' v
    by (rule same_outside_mono [OF store32_same_outside sub [OF that]])
  then have "store32 m' (p + of_nat k) v a = m' a" if "a \<notin> region p 24" "k \<le> 20" for k m' v a
    using that by (auto simp: same_outside_def)
  from this [of _ 0] this [of _ 4] this [of _ 8] this [of _ 12] this [of _ 16] this [of _ 20]
  show ?thesis by (simp add: same_outside_def store_entry_def)
qed

lemma demo_map_lists: "mmap_lists boot_mem 0xC0009030 0xC0009000 demo_map"
proof -
  have "read_mmap_entry boot_mem 0xC0009018 = demo_map ! 1" by (simp only: boot_mem_def read_store_entry)
  moreover have "region (0xC0009000 + of_nat 0) 24 \<inter> region (0xC0009000 + of_nat 24) 24 = {}"
    by (rule region_disjoint_offset) simp_all
  then have "region 0xC0009000 24 \<inter> region 0xC0009018 24 = {}" by simp
  then have "read_mmap_entry boot_mem 0xC0009000 = read_mmap_entry (store_entry 0xC0009000 (demo_map ! 0) (\<lambda>_. 0)) 0xC0009000"
    unfolding boot_mem_def
    using store_entry_outside [of "0xC0009018" "store_entry 0xC0009000 (demo_map ! 0) (\<lambda>_. 0)" "demo_map ! 1"]
    by (intro read_mmap_entry_cong) (auto simp: same_outside_def)
  ultimately show ?thesis by (simp add: read_store_entry) (simp add: demo_map_def)
qed

lemma demo_available:
  "available demo_map = [\<lparr>start = 0, extent = 0x9F000\<rparr>, \<lparr>start = 0x100000, extent = 0x3FF00000\<rparr>]"
  "memory_top (available demo_map) = 0x40000000"
  by (simp_all add: available_def demo_map_def memory_top_def MULTIBOOT_MEMORY_AVAILABLE_def max_def)

lemma demo_map_ok: "boot_map_ok 0x100000 0x121000 (available demo_map)"
proof -
  have top: "memory_top (available demo_map) = 0x40000000" by (rule demo_available)
  have "bitmap_pages 0x40000000 \<le> 4096" by (rule bitmap_pages_eq(2)) simp_all
  then have room: "0x121000 + (254 + bitmap_pages 0x40000000) * 4096 < unat (0x3FF00000 :: u64)" by simp
  have all2: "(\<forall>i < length [a, b]. P i) \<longleftrightarrow> P 0 \<and> P 1" for a b :: range and P by (auto simp: less_Suc_eq)
  have ex2: "P 1 \<Longrightarrow> \<exists>i < length [a, b]. P i" for a b :: range and P by auto
  show ?thesis
    unfolding boot_map_ok_def top unfolding demo_available(1) all2
    by (intro conjI ex2) (use room in \<open>auto simp: range_fits_def range_bytes_def\<close>)
qed

section \<open>The page tables\<close>

lemma boot_ptmem_table:
  assumes "e < 1024"
  shows "boot_ptmem (0x102000 + of_nat (4 * e)) = of_nat (e * 4096) OR X86_PRESENT OR X86_WRITE"
proof -
  have u: "unat (0x102000 + of_nat (4 * e) :: u32) = 0x102000 + 4 * e"
    using assms unat_of_nat_u32 [of "0x102000 + 4 * e"] by (simp del: unat_of_nat_u32)
  have ne: "0x102000 + of_nat (4 * e) \<noteq> (0x101000 :: u32)" "0x102000 + of_nat (4 * e) \<noteq> (0x101C00 :: u32)"
    unfolding word_unat_eq_iff u by simp_all
  have "(0x102000 + 4 * e) div 4096 = 0x102" using assms by (intro div_nat_eqI) simp_all
  then show ?thesis unfolding boot_ptmem_def u using ne by simp
qed

lemma boot_ptmem_dir:
  assumes "k < 1024"
  shows "boot_ptmem (0x101000 + of_nat (4 * k)) = (if k = 0 \<or> k = 768 then 0x102003 else 0)"
proof -
  have u: "unat (0x101000 + of_nat (4 * k) :: u32) = 0x101000 + 4 * k"
    using assms unat_of_nat_u32 [of "0x101000 + 4 * k"] by (simp del: unat_of_nat_u32)
  have eq: "0x101000 + of_nat (4 * k) = (0x101000 :: u32) \<longleftrightarrow> k = 0"
    "0x101000 + of_nat (4 * k) = (0x101C00 :: u32) \<longleftrightarrow> k = 768"
    unfolding word_unat_eq_iff u by auto
  have "(0x101000 + 4 * k) div 4096 = 0x101" using assms by (intro div_nat_eqI) simp_all
  then show ?thesis unfolding boot_ptmem_def u eq by simp
qed

lemma demo_tables: "boot_tables demo_platform" "frame (cr3 demo_platform) = 0x101" "frame (pde demo_platform 0) = 0x102"
proof -
  have c: "cr3 demo_platform = 0x101003" "ptmem demo_platform = boot_ptmem" by (simp_all add: demo_platform_def)
  have m: "entry_addr 0x101003 k = 0x101000 + of_nat (4 * k)" "entry_addr 0x102003 k = 0x102000 + of_nat (4 * k)" for k
    by (simp_all add: entry_addr_def)
  have pde: "pde demo_platform k = (if k = 0 \<or> k = 768 then 0x102003 else 0)" if "k < 1024" for k
    using boot_ptmem_dir [OF that] by (simp only: pde_def c m)
  show "frame (cr3 demo_platform) = 0x101" by (simp add: c frame_def)
  show f: "frame (pde demo_platform 0) = 0x102" by (simp add: pde frame_def)
  have "ptmem demo_platform (entry_addr (pde demo_platform 0) e) = of_nat (e * 4096) OR X86_PRESENT OR X86_WRITE" if "e < 1024" for e
    using boot_ptmem_table [OF that] pde [of 0] by (simp only: c m) (simp only: simp_thms if_True m zero_less_numeral)
  then show "boot_tables demo_platform"
    unfolding boot_tables_def using f pde [of 0] by (auto simp: c frame_def pde X86_PRESENT_def X86_WRITE_def)
qed

section \<open>The state as a whole\<close>

lemma boot_mem_zero: "same_outside (region 0xC0009000 48) (\<lambda>_. 0) boot_mem"
proof -
  have a: "region 0xC0009000 24 \<subseteq> region 0xC0009000 48" by (rule region_mono) simp
  have b: "region 0xC0009018 24 \<subseteq> region 0xC0009000 48" using region_sub [of 24 24 48 "0xC0009000"] by simp
  show ?thesis
    unfolding boot_mem_def
    by (rule same_outside_trans [OF same_outside_mono [OF store_entry_outside a] same_outside_mono [OF store_entry_outside b]])
qed

lemma far_apart:
  assumes "unat (p :: u32) + n \<le> unat q" "unat q + k \<le> 4294967296"
  shows "region p n \<inter> region q k = {}"
proof -
  have "region (0 + of_nat (unat p)) n \<inter> region (0 + of_nat (unat q)) k = {}"
    by (rule region_disjoint_offset [OF assms])
  then show ?thesis by simp
qed

lemma demo_area: "vga_area demo_platform = region 0xC0200000 4000 \<union> region 0xC00B8000 4000"
  by (simp add: vga_area_def demo_platform_def VRAM_START_def)

lemma demo_vga: "vga_inv demo_platform"
proof -
  have z: "buffer boot_mem p 2000 = buffer (\<lambda>_. 0) p 2000" if "unat (p :: u32) + 4000 \<le> 4294967296" "0xC0009030 \<le> unat p" for p
  proof (rule buffer_cong [OF boot_mem_zero])
    show "region p (2 * 2000) \<inter> region 0xC0009000 48 = {}"
      using far_apart [of "0xC0009000" 48 p 4000] that by (simp add: Int_commute)
  qed
  have "buffer (\<lambda>_. 0) p 2000 = replicate 2000 0" for p
    by (rule nth_equalityI) (simp_all add: load16_def)
  then have "buffer boot_mem 0xC0200000 2000 = buffer boot_mem VRAM_START 2000"
    using z [of "0xC0200000"] z [of VRAM_START] by (simp add: VRAM_START_def)
  moreover have "region 0xC0200000 4000 \<inter> region VRAM_START 4000 = {}"
    using far_apart [of VRAM_START 4000 "0xC0200000" 4000] by (simp add: VRAM_START_def Int_commute)
  ultimately show ?thesis by (simp add: vga_inv_def demo_platform_def)
qed

lemma demo_devices: "devices_inv demo_platform"
  using demo_vga by (auto simp: devices_inv_def serial_fair_def demo_platform_def)

lemma demo_ready:
  "boot_ready demo_platform demo_map"
  "mmap_area (mmap_addr (mboot demo_platform)) demo_map \<inter> vga_area demo_platform = {}"
  "vga_area demo_platform \<inter> region MMAP_PMM_BITMAP 0x1000000 = {}"
proof -
  have f: "link_start demo_platform = 0x100000" "link_end demo_platform = 0x120000" "mboot demo_platform = demo_mboot"
    "pmm_init_stage demo_platform = PMM_INIT_START" "length (allocators demo_platform) = 3" "mem demo_platform = boot_mem"
    by (simp_all add: demo_platform_def)
  have m: "mb_flags demo_mboot = 1" "mmap_addr demo_mboot = 0xC0009000" "mmap_length demo_mboot = 48"
    by (simp_all add: demo_mboot_def)
  have ke: "kernel_end 0x120000 = 0x121000" by (simp add: kernel_end_def get_page_mask_def get_page_size_def)
  show "boot_ready demo_platform demo_map"
    unfolding boot_ready_def f m demo_tables(2,3) ke
    using demo_tables(1) demo_map_lists demo_map_ok by (simp add: MULTIBOOT_INFO_MEMORY_def)
  have "mmap_area 0xC0009000 demo_map = region 0xC0009000 24 \<union> region 0xC0009018 24"
    by (simp add: demo_map_def)
  moreover have "region 0xC0009000 24 \<inter> region 0xC0200000 4000 = {}" "region 0xC0009018 24 \<inter> region 0xC0200000 4000 = {}"
    "region 0xC0009000 24 \<inter> region 0xC00B8000 4000 = {}" "region 0xC0009018 24 \<inter> region 0xC00B8000 4000 = {}"
    by (rule far_apart; simp)+
  ultimately show "mmap_area (mmap_addr (mboot demo_platform)) demo_map \<inter> vga_area demo_platform = {}"
    unfolding demo_area f m by auto
  have "region 0xC0200000 4000 \<inter> region 0xFE800000 0x1000000 = {}" "region 0xC00B8000 4000 \<inter> region 0xFE800000 0x1000000 = {}"
    by (rule far_apart; simp)+
  then show "vga_area demo_platform \<inter> region MMAP_PMM_BITMAP 0x1000000 = {}"
    unfolding demo_area MMAP_PMM_BITMAP_def by auto
qed

section \<open>Its features\<close>

definition demo_features where
  "demo_features = [pit_feature 0xC0101000, mem_feature 0xC0100500, irq_feature (\<lambda>n. 0xC0102000 + of_nat n),
     sdc_feature, isr_feature (\<lambda>n. 0xC0103000 + of_nat n), gdt_feature, idt_feature]"

definition demo_regs :: isr_regs where
  "demo_regs = \<lparr>r_gs = 0, r_fs = 0, r_es = 0, r_ds = 0, r_edi = 0, r_esi = 0, r_ebp = 0, r_esp = 0, r_ebx = 0,
     r_edx = 0, r_ecx = 0, r_eax = 0, int_no = 32, err_code = 0, r_eip = 0, r_cs = 0, r_eflags = 0,
     r_useresp = 0, r_ss = 0\<rparr>"

definition demo_fs :: mem where
  "demo_fs = (store32 (store32 (store32 (store32 (store32 (store32 (\<lambda>_. 0)
     0x1000 MINK_RAMFS_MAGIC) 0x1004 MINK_RAMFS_VERSION) 0x1008 0x1000) 0x100C 1) 0x1010 0x20) 0x1014 5)(0x1018 := 0x61)"

lemma demo_features_platform:
  "distinct demo_features"
  "set demo_features = platform_features (\<lambda>n. 0xC0103000 + of_nat n) (\<lambda>n. 0xC0102000 + of_nat n) 0xC0101000 0xC0100500"
proof -
  have "distinct (map f_name demo_features)" by (simp add: demo_features_def)
  then show "distinct demo_features" by (simp add: distinct_map)
  show "set demo_features = platform_features (\<lambda>n. 0xC0103000 + of_nat n) (\<lambda>n. 0xC0102000 + of_nat n) 0xC0101000 0xC0100500"
    by (auto simp: demo_features_def platform_features_def)
qed

lemma demo_features_length: "length demo_features = 7"
  by (simp add: demo_features_def)

end
