(* ===== verification/Kernel_Properties.thy ===== *)
theory Kernel_Properties
  imports Boot_Demo
begin

text \<open>
  The properties of the kernel's start-up, its devices and its text, each with a concrete
  instance on the machine of theory \<open>Boot_Demo\<close>.
\<close>

section \<open>Start-up\<close>



text \<open>
  C30: Starting the features terminates, and starts each of them at most once, whatever their
  prerequisites, cycles included: \<^verbatim>\<open>init_features\<close> amounts to running one sequence of starts, in
  which every feature of the section occurs exactly once.
\<close>

theorem init_features_once:
  "\<exists>as. init_features fs k = bind_res (run_acts (resolve_all fs) as k)
       (\<lambda>k. Inr (map (\<lambda>m. m\<lparr>f_state := FEATURE_INIT\<rparr>) (resolve_all fs), k)) \<and>
     distinct (starts as) \<and> set (starts as) = {..<length fs} \<and> Stuck \<notin> set as"
  using init_features_runs [of fs k] start_acts_visits [of fs] by blast



text \<open>
  C32: A feature that requires one that is not in the section stops the kernel: \<^verbatim>\<open>init_features\<close>
  does not return, whatever else is in the section.
\<close>

theorem init_features_missing_fails:
  assumes "m \<in> set fs" "p \<in> set (prereqs (required m))"
    and "\<And>f. f \<in> set fs \<Longrightarrow> cstr (f_name f) \<noteq> cstr (pr_name p)"
  shows "\<exists>e. init_features fs k = Inl e"
proof -
  let ?us = "map (\<lambda>m. m\<lparr>f_state := FEATURE_UNINIT\<rparr>) fs"
  obtain i where i: "i < length fs" "fs ! i = m" using assms(1) by (auto simp: in_set_conv_nth)
  have "find_feature ?us (pr_name p) = None"
    using find_feature_name [of ?us "pr_name p"] assms(3) by (cases "find_feature ?us (pr_name p)") fastforce+
  moreover have "(True, p\<lparr>pr_feature := find_feature ?us (pr_name p)\<rparr>) \<in> set (edges (resolve_all fs ! i))"
    using i assms(2) by (simp add: edges_def resolve_all_nth prereqs_resolve)
  ultimately show ?thesis using init_features_missing [OF i(1)] by simp
qed

theorem init_features_missing_fails_witness:
  "\<exists>e. init_features [gdt_feature, isr_feature (\<lambda>n. 0)] demo_ksys = Inl e"
proof -
  have "prereq ''x86/idt'' \<in> set (prereqs (required (isr_feature (\<lambda>n. 0))))"
    by (simp add: platform_feature_defs prereqs_def)
  then show ?thesis
    by (rule init_features_missing_fails [rotated]) (auto simp: prereq_def)
qed

section \<open>Devices\<close>

text \<open>
  C33: The VGA terminal implements its screen. Writing a string always succeeds; what the video
  memory shows afterwards is what putting the characters one by one on an abstract 80 by 25
  screen gives, wrapping and scrolling included, with the cursor on the screen; nothing but the
  two buffers changes in the store.
\<close>

theorem vgaterm_writestring_refines:
  assumes "vga_inv s"
  shows "\<exists>s'. vgaterm_writestring str s = Inr s' \<and> vga_inv s' \<and>
    screen_of s' = fold (screen_put (term_color s)) (cstr str) (screen_of s) \<and>
    same_outside (vga_area s) (mem s) (mem s')"
  using vgaterm_writestring_spec [OF assms, of str] by (auto simp: vga_step_def)

theorem vgaterm_writestring_refines_witness:
  "\<exists>s'. vgaterm_writestring ''OK'' demo_platform = Inr s' \<and>
     cells (screen_of s') ! 1919 = make_vgaentry CHR ''O'' 7 \<and> cells (screen_of s') ! 1920 = make_vgaentry CHR ''K'' 7 \<and>
     col (screen_of s') = 1 \<and> row (screen_of s') = 24"
proof -
  obtain s' where s': "vgaterm_writestring ''OK'' demo_platform = Inr s'"
    "screen_of s' = fold (screen_put (term_color demo_platform)) ''OK'' (screen_of demo_platform)"
    using vgaterm_writestring_refines [OF demo_vga, of "''OK''"] by auto
  define b where "b = buffer (mem demo_platform) (term_frontbuff demo_platform) 2000"
  have "screen_of demo_platform = \<lparr>cells = b, col = 79, row = 24\<rparr>"
    by (simp add: screen_of_def b_def demo_platform_def)
  then have "screen_of s' = screen_put 7 CHR ''K'' (screen_put 7 CHR ''O'' \<lparr>cells = b, col = 79, row = 24\<rparr>)"
    using s'(2) by (simp add: demo_platform_def)
  moreover have "length b = 2000" by (simp add: b_def)
  ultimately show ?thesis
    using s'(1) by (simp add: screen_put_def screen_place_def advance_def nth_append)
qed

text \<open>
  C34: The serial console sends what it is given. On a line whose transmitter empties again and
  again, writing a string terminates and sends its bytes, in order, to the data port, and
  nothing else.
\<close>

theorem serial_writestring_sends:
  assumes "serial_fair s"
  shows "\<exists>r. serial_writestring str s =
     Inr (s\<lparr>port_reads := r, port_out := port_out s @ map (\<lambda>c. (PORT, of_char c)) (cstr str)\<rparr>)"
  using assms by (rule serial_writestring_spec)

theorem serial_writestring_sends_witness:
  "\<exists>s'. serial_writestring ''ok'' demo_platform = Inr s' \<and> port_out s' = [(0x3F8, 0x6F), (0x3F8, 0x6B)]"
  using serial_writestring_sends [of demo_platform "''ok''"] demo_devices
  by (auto simp: devices_inv_def demo_platform_def PORT_def)



text \<open>
  C36: The clock counts. With the timer's handler installed, any number of timer interrupts is
  handled, each advancing the tick count by exactly one (modulo \<open>2 ^ 64\<close>), and the consoles keep
  working.
\<close>

theorem timer_counts:
  assumes "set cons \<subseteq> {vga_console, serial_console}" "devices_inv s" "length (isr_routines s) = 256"
    "isr_routines s ! 32 = h" "h \<noteq> 0" "\<And>r t. call h r t = timer_handler cons r t"
    "\<forall>r \<in> set rs. int_no r = 32"
  shows "\<exists>s'. irqs cons call rs s = Inr s' \<and> devices_inv s' \<and>
    uptime_jiffies s' = uptime_jiffies s + of_nat (length rs)"
proof -
  have "tick_inv (jiffies s) (isr_routines s) s" using assms(2) by (simp add: tick_inv_def)
  then have "\<exists>s'. irqs cons call rs s = Inr s' \<and> tick_inv (jiffies s + of_nat (length rs)) (isr_routines s) s'"
    using assms(4-7) by (intro timer_irqs [OF assms(1,3)]) auto
  then show ?thesis by (auto simp: tick_inv_def uptime_jiffies_def)
qed

theorem timer_counts_witness:
  "\<exists>s'. irqs [vga_console] (\<lambda>h. timer_handler [vga_console]) [demo_regs, demo_regs]
      (install_isr (IRQ_ISR 0) 0xC0101000 demo_platform) = Inr s' \<and> uptime_jiffies s' = 101"
proof -
  let ?s = "install_isr (IRQ_ISR 0) 0xC0101000 demo_platform"
  have "devices_inv ?s"
    using demo_devices by (auto simp: devices_inv_def vga_inv_def serial_fair_def install_isr_def)
  from timer_counts [where call = "\<lambda>h. timer_handler [vga_console]", OF _ this _ refl, of "[vga_console]" "[demo_regs, demo_regs]"]
  show ?thesis
    by (auto simp: install_isr_def IRQ_ISR_def demo_platform_def no_routines_def demo_regs_def uptime_jiffies_def)
qed



text \<open>
  C38: \<^verbatim>\<open>set_gdt_entry\<close> loses nothing of the base and keeps the 20 bits of the limit that a
  descriptor has: the processor reassembles both from the scattered fields. So \<^verbatim>\<open>gdt_init\<close>
  gives the kernel and user mode flat segments over the whole of memory, in rings 0 and 3.
\<close>

theorem gdt_descriptors:
  assumes "length (gdt_entries s) = MAX_CORES + 5" "length (tss_entries s) = MAX_CORES"
  shows "seg_base (set_gdt_entry e base limit ty sys dpl p l d g) = base \<and>
    seg_limit (set_gdt_entry e base limit ty sys dpl p l d g) = take_bit 20 limit \<and>
    (\<forall>i \<in> {1, 2, 3, 4}. flat (gdt_entries (snd (gdt_init s)) ! i)) \<and>
    map (\<lambda>i. g_dpl (gdt_entries (snd (gdt_init s)) ! i)) [1, 2, 3, 4] = [0, 0, 3, 3] \<and>
    seg_base (gdt_entries (snd (gdt_init s)) ! 5) = tss_at s"
  using gdt_init_spec [OF assms] by (simp add: set_gdt_entry_base set_gdt_entry_limit)

theorem gdt_descriptors_witness:
  "flat (gdt_entries (snd (gdt_init demo_gdt)) ! 2) \<and> seg_base (gdt_entries (snd (gdt_init demo_gdt)) ! 5) = 0xC0310000"
proof -
  have l: "length (gdt_entries demo_gdt) = MAX_CORES + 5" "length (tss_entries demo_gdt) = MAX_CORES"
    by (simp_all add: demo_gdt_def MAX_CORES_def)
  have "tss_at demo_gdt = 0xC0310000" by (simp add: demo_gdt_def)
  with gdt_descriptors [OF l] show ?thesis by auto
qed

section \<open>Text\<close>



text \<open>
  A number fills its field exactly: \<^verbatim>\<open>number\<close> writes as many characters as the field is wide,
  or as the sign, the base prefix and the digits (at least the precision of them) need if that
  is more.
\<close>

theorem number_fills_field:
  assumes "2 \<le> base" "base \<le> 36" "number_sign type num = Inr (sign, v)"
  shows "\<exists>s. number num base sz p type = Inr (Some s) \<and> int (length s) =
    max sz (int (length sign + length (number_prefix type base)) +
      max p (int (length (number_tmp (digits_of type) base v))))"
  using number_length [OF assms, of sz p] by (simp add: number_body_def)

theorem number_fills_field_witness:
  "\<exists>s. number 0xFFFFFFFF 10 8 4 (SIGN OR ZEROPAD) = Inr (Some s) \<and> length s = 8"
proof -
  have "number_sign (SIGN OR ZEROPAD) 0xFFFFFFFF = Inr (''-'', 1)"
    by (simp add: number_sign_def flag_defs word_sless_alt)
  moreover have "number_tmp (digits_of (SIGN OR ZEROPAD)) 10 1 = ''1''"
    by (simp add: number_tmp_def digits_of_def flag_defs number_digits_step upper_digits_def)
  moreover have "number_prefix (SIGN OR ZEROPAD) 10 = []"
    by (simp add: number_prefix_def special_chars_def flag_defs)
  ultimately show ?thesis
    using number_fills_field [of 10 "SIGN OR ZEROPAD" "0xFFFFFFFF" "''-''" 1 8 4] by auto
qed

text \<open>
  \<^verbatim>\<open>tokenize\<close> splits a string at a separator: the pointers it stores lead to the pieces, in
  order and each ended by a NUL, as many as there is room for.
\<close>

theorem tokenize_splits:
  assumes "tok \<noteq> NUL" "NUL \<notin> set s"
  shows "\<exists>out buf. tokenize tok s maxout = Inr (out, buf) \<and> length buf = length s \<and>
    map (\<lambda>p. cstr (drop p buf)) out = take (nat maxout) (pieces tok s)"
  using tokenize_from_spec [OF assms, of 0 0 maxout] by (auto simp: tokenize_def)

theorem tokenize_splits_witness:
  "\<exists>out buf. tokenize CHR '' '' ''a bc'' 256 = Inr (out, buf) \<and> map (\<lambda>p. cstr (drop p buf)) out = [''a'', ''bc'']"
  using tokenize_splits [of "CHR '' ''" "''a bc''" 256] by auto

section \<open>Tables in the store\<close>

text \<open>
  Symbol lookup finds the first function of the symbol table whose extent contains the
  address, and a null pointer when there is none, for a table of any size.
\<close>

theorem elf_lookup_first:
  "elf_lookup_symbol m addr elf =
    (case find (in_symbol addr) (function_symbols m elf) of
      None \<Rightarrow> 0 | Some y \<Rightarrow> strtab elf + sym_name y)"
  by (rule elf_lookup_symbol_find)





end
