(* ===== verification/Loader.thy ===== *)
theory Loader
  imports Platform
begin

text \<open>
  The second-stage loader, \<^verbatim>\<open>arch/x86/loader2.c\<close>: it copies what it needs of the boot loader's
  information into a static buffer, splits the command line and calls \<^verbatim>\<open>kmain\<close>. Its argument is the
  address \<open>p\<close> of the boot loader's structure, which it also writes to.
\<close>

section \<open>The early allocator\<close>

definition EARLYALLOC_SZ :: u32 where "EARLYALLOC_SZ = 2048"

definition earlyalloc :: "u32 \<Rightarrow> 'a boot_scheme \<Rightarrow> u32 \<times> 'a boot_scheme" where
  "earlyalloc len s =
     (if EARLYALLOC_SZ \<le> earlyalloc_idx s + len then (0, s)
      else (earlyalloc_buf s + earlyalloc_idx s, s\<lparr>earlyalloc_idx := earlyalloc_idx s + len\<rparr>))"

section \<open>Copying the information\<close>

text \<open>
  \<open>elf0\<close> is what the local variable holds before the loop: nothing is assigned to it when a section is
  not found.
\<close>

definition elf_section :: "mem \<Rightarrow> u32 \<Rightarrow> elf_section_header_t \<Rightarrow> elf_t \<Rightarrow> elf_t" where
  "elf_section m shstrtab sh elf =
     (let name = load_string m (shstrtab + sh_name sh);
          elf = (if strcmp name ''.strtab'' = 0 then elf\<lparr>strtab := sh_addr sh, strtabsz := sh_size sh\<rparr> else elf)
      in if strcmp name ''.symtab'' = 0 then elf\<lparr>symtab := sh_addr sh, symtabsz := sh_size sh\<rparr> else elf)"

definition elf_from_multiboot :: "mem \<Rightarrow> multiboot_elf_section_header_table \<Rightarrow> elf_t \<Rightarrow> elf_t" where
  "elf_from_multiboot m mb elf0 =
     (let sh = (\<lambda>i. elf_section_header m (elf_addr mb + 40 * i));
          shstrtab = sh_addr (sh (elf_shndx mb))
      in fold (\<lambda>i. elf_section m shstrtab (sh (of_nat i))) [0..<unat (elf_num mb)] elf0)"

text \<open>A pointer field of the boot loader's structure, moved to the higher half.\<close>

definition to_higher_half :: "u32 \<Rightarrow> 'a machine_scheme \<Rightarrow> 'a machine_scheme" where
  "to_higher_half a s = s\<lparr>mem := store32 (mem s) a (load32 (mem s) a + 0xC0000000)\<rparr>"

definition copy_block :: "u32 \<Rightarrow> u32 \<Rightarrow> u32 \<Rightarrow> 'a machine_scheme \<Rightarrow> 'a machine_scheme" where
  "copy_block dst src len s = (if dst \<noteq> 0 then s\<lparr>mem := memcpy (mem s) dst src (unat len)\<rparr> else s)"

definition load_cmdline :: "u32 \<Rightarrow> 'a boot_scheme \<Rightarrow> 'a boot_scheme" where
  "load_cmdline p s =
     (if mb_flags (mboot s) AND MULTIBOOT_INFO_CMDLINE \<noteq> 0
      then let s = to_higher_half (p + 16) s;
               src = load32 (mem s) (p + 16);
               len = of_nat (length (load_string (mem s) src)) + 1;
               (dst, s) = earlyalloc len s
           in copy_block dst src len (s\<lparr>mboot := (mboot s)\<lparr>mb_cmdline := dst\<rparr>\<rparr>)
      else s)"

definition load_mods :: "u32 \<Rightarrow> 'a boot_scheme \<Rightarrow> 'a boot_scheme" where
  "load_mods p s =
     (if mb_flags (mboot s) AND MULTIBOOT_INFO_MODS \<noteq> 0
      then let s = to_higher_half (p + 24) s;
               len = mods_count (mboot s) * 16;
               (dst, s) = earlyalloc len s
           in copy_block dst (load32 (mem s) (p + 24)) len (s\<lparr>mboot := (mboot s)\<lparr>mods_addr := dst\<rparr>\<rparr>)
      else s)"

definition load_elf :: "elf_t \<Rightarrow> u32 \<Rightarrow> 'a boot_scheme \<Rightarrow> 'a boot_scheme" where
  "load_elf elf0 p s =
     (if mb_flags (mboot s) AND MULTIBOOT_INFO_ELF_SHDR \<noteq> 0
      then let s = to_higher_half (p + 36) s;
               len = elf_num (elf_sec (mboot s)) * elf_size (elf_sec (mboot s));
               (dst, s) = earlyalloc len s;
               s = copy_block dst (load32 (mem s) (p + 36)) len
                     (s\<lparr>mboot := (mboot s)\<lparr>elf_sec := (elf_sec (mboot s))\<lparr>elf_addr := dst\<rparr>\<rparr>\<rparr>)
           in s\<lparr>kernel_elf := elf_from_multiboot (mem s) (elf_sec (mboot s)) elf0\<rparr>
      else s\<lparr>kernel_elf := \<lparr>symtab = 0, symtabsz = 0, strtab = 0, strtabsz = 0\<rparr>\<rparr>)"

text \<open>The copy of the map is made, but \<^verbatim>\<open>mmap_addr\<close> is set back to the original.\<close>

definition load_mmap :: "u32 \<Rightarrow> 'a boot_scheme \<Rightarrow> 'a boot_scheme" where
  "load_mmap p s =
     (if mb_flags (mboot s) AND MULTIBOOT_INFO_MEMORY \<noteq> 0
      then let s = to_higher_half (p + 48) s;
               (dst, s) = earlyalloc (mmap_length (mboot s) + 4) s;
               src = load32 (mem s) (p + 48);
               s = copy_block dst (src - 4) (mmap_length (mboot s) + 4) s
           in if dst \<noteq> 0 then s\<lparr>mboot := (mboot s)\<lparr>mmap_addr := load32 (mem s) (p + 48)\<rparr>\<rparr>
              else s\<lparr>mboot := (mboot s)\<lparr>mmap_addr := dst\<rparr>\<rparr>
      else s)"

section \<open>The loader\<close>

fun store_chars :: "mem \<Rightarrow> u32 \<Rightarrow> string \<Rightarrow> mem" where
  "store_chars m p [] = m"
| "store_chars m p (c # cs) = store_chars (m(p := of_char c)) (p + 1) cs"

text \<open>\<^verbatim>\<open>tokenize(' ', (char*)mboot.cmdline, argv, 256)\<close>: the arguments, and the store with the separators overwritten.\<close>

definition split_cmdline :: "'a boot_scheme \<Rightarrow> (string list \<times> 'a boot_scheme) res" where
  "split_cmdline s =
     bind_res (tokenize CHR '' '' (load_string (mem s) (mb_cmdline (mboot s))) 256) (\<lambda>(out, buf).
       Inr (map (\<lambda>a. cstr (drop a buf)) out, s\<lparr>mem := store_chars (mem s) (mb_cmdline (mboot s)) buf\<rparr>))"

text \<open>
  The result is \<open>None\<close> where the loader returns to \<^verbatim>\<open>loader.s\<close>, which halts the processor, and what \<open>kmain\<close>
  gives otherwise. \<^verbatim>\<open>memcpy\<close> to \<^verbatim>\<open>mboot\<close> is the reading of the whole structure.
\<close>

definition loader ::
    "bool \<Rightarrow> _ feature list \<Rightarrow> elf_t \<Rightarrow> u32 \<Rightarrow> u32 \<Rightarrow> _ ksys \<Rightarrow> (_ ksys \<times> (bool \<times> _ feature list) option) res" where
  "loader enabled fs elf0 magic p k =
     (let (cons, s :: platform) = vgaterm_init (consoles k) (dev k)
      in if magic \<noteq> MULTIBOOT_BOOTLOADER_MAGIC
         then bind_res (vgaterm_writestring ''Failure (BADMAGIC)''
                (vgaterm_setcolor (make_color COLOR_LIGHT_RED COLOR_BLACK) s)) (\<lambda>s.
              Inr (\<lparr>consoles = cons, dev = s\<rparr>, None))
         else let s = s\<lparr>mboot := read_multiboot_info (mem s) p\<rparr>;
                  s = load_mmap p (load_elf elf0 p (load_mods p (load_cmdline p s)))
              in bind_res (split_cmdline s) (\<lambda>(argv, s).
                 bind_res (kmain enabled argv fs \<lparr>consoles = cons, dev = s\<rparr>) (\<lambda>(KDEBUG, fs, k).
                   Inr (k, Some (KDEBUG, fs)))))"

section \<open>The early allocator's blocks\<close>

text \<open>
  A block is handed out exactly when it leaves at least one byte of the buffer unused; it follows the
  blocks before it.
\<close>

lemma earlyalloc_spec:
  assumes "unat (earlyalloc_idx s) < 2048" "unat (earlyalloc_idx s) + unat len < 4294967296"
  shows "earlyalloc len s =
    (if unat (earlyalloc_idx s) + unat len < 2048
     then (earlyalloc_buf s + earlyalloc_idx s, s\<lparr>earlyalloc_idx := earlyalloc_idx s + len\<rparr>) else (0, s))"
    "unat (earlyalloc_idx s) + unat len < 2048 \<Longrightarrow>
      region (earlyalloc_buf s + earlyalloc_idx s) (unat len) \<subseteq> region (earlyalloc_buf s) 2048"
proof -
  have u: "unat (earlyalloc_idx s + len) = unat (earlyalloc_idx s) + unat len"
    using assms(2) by (simp add: unat_word_ariths)
  then show "earlyalloc len s =
    (if unat (earlyalloc_idx s) + unat len < 2048
     then (earlyalloc_buf s + earlyalloc_idx s, s\<lparr>earlyalloc_idx := earlyalloc_idx s + len\<rparr>) else (0, s))"
    by (simp add: earlyalloc_def EARLYALLOC_SZ_def word_le_nat_alt)
  assume "unat (earlyalloc_idx s) + unat len < 2048"
  then show "region (earlyalloc_buf s + earlyalloc_idx s) (unat len) \<subseteq> region (earlyalloc_buf s) 2048"
    using region_sub [of "unat (earlyalloc_idx s)" "unat len" 2048 "earlyalloc_buf s"] by simp
qed

section \<open>Strings in the store\<close>

lemma load_chars_cong:
  assumes "\<And>k. k \<le> length (load_chars n m p) \<Longrightarrow> m' (q + of_nat k) = m (p + of_nat k)"
  shows "load_chars n m' q = load_chars n m p"
  using assms
proof (induction n arbitrary: p q)
  case (Suc n)
  have 0: "m' q = m p" using Suc.prems [of 0] by simp
  show ?case
  proof (cases "m p = 0")
    case False
    have "load_chars n m' (q + 1) = load_chars n m (p + 1)"
    proof (rule Suc.IH)
      fix k assume "k \<le> length (load_chars n m (p + 1))"
      then show "m' (q + 1 + of_nat k) = m (p + 1 + of_nat k)"
        using Suc.prems [of "Suc k"] False by (simp add: algebra_simps)
    qed
    then show ?thesis using 0 False by simp
  qed (use 0 in simp)
qed simp

lemma load_string_cong:
  assumes "\<And>a. a \<in> region p (length (load_string m p) + 1) \<Longrightarrow> m' a = m a"
  shows "load_string m' p = load_string m p"
  unfolding load_string_def
  by (rule load_chars_cong) (use assms region_memI in \<open>simp add: load_string_def\<close>)

lemma load_string_copy:
  assumes "length (load_string m p) + 1 \<le> n" "n \<le> 4294967296" "region q n \<inter> region p n = {}"
  shows "load_string (memcpy m q p n) q = load_string m p"
  unfolding load_string_def
proof (rule load_chars_cong)
  fix k assume "k \<le> length (load_chars (2 ^ 32) m p)"
  then have "k < n" using assms(1) by (simp add: load_string_def)
  then show "memcpy m q p n (q + of_nat k) = m (p + of_nat k)" by (rule memcpy_disjoint [OF _ assms(2,3)])
qed

lemma load_chars_no_NUL: "NUL \<notin> set (load_chars n m p)"
proof (induction n arbitrary: p)
  case (Suc n)
  have "char_of (unat (m p)) \<noteq> NUL" if "m p \<noteq> 0"
  proof -
    have "unat (m p) < 256" using unsigned_less [of "m p"] by simp
    then have "of_char (char_of (unat (m p))) = unat (m p)" by (simp add: of_char_of)
    moreover have "unat (m p) \<noteq> 0" using that by (simp add: unat_eq_0)
    ultimately show ?thesis by (intro notI) simp
  qed
  then show ?case using Suc by auto
qed simp

lemma load_string_no_NUL: "NUL \<notin> set (load_string m p)"
  by (simp add: load_string_def load_chars_no_NUL)

lemma store_chars_other: "a \<notin> region p (length cs) \<Longrightarrow> store_chars m p cs a = m a"
  by (induction m p cs rule: store_chars.induct) (auto simp: region_Suc)

lemma store_chars_outside: "same_outside (region p (length cs)) m (store_chars m p cs)"
  by (simp add: same_outside_def store_chars_other)

section \<open>What the copying leaves alone\<close>

text \<open>
  A block of the loader writes to the pointers \<open>A\<close> of the boot loader's structure and to the part of its
  buffer that was not handed out before.
\<close>

definition free_buf :: "'a boot_scheme \<Rightarrow> u32 set" where
  "free_buf s = region (earlyalloc_buf s + earlyalloc_idx s) (2048 - unat (earlyalloc_idx s))"

definition copies :: "u32 set \<Rightarrow> nat \<Rightarrow> 'a boot_scheme \<Rightarrow> 'a boot_scheme \<Rightarrow> bool" where
  "copies A n s s' \<longleftrightarrow> same_outside (A \<union> free_buf s) (mem s) (mem s') \<and>
     unat (earlyalloc_idx s) \<le> unat (earlyalloc_idx s') \<and> unat (earlyalloc_idx s') \<le> unat (earlyalloc_idx s) + n \<and>
     s' = s\<lparr>mem := mem s', mboot := mboot s', kernel_elf := kernel_elf s', earlyalloc_idx := earlyalloc_idx s'\<rparr>"

lemma free_buf_sub: "unat (earlyalloc_idx s) < 2048 \<Longrightarrow> free_buf s \<subseteq> region (earlyalloc_buf s) 2048"
  using region_sub [of "unat (earlyalloc_idx s)" "2048 - unat (earlyalloc_idx s)" 2048 "earlyalloc_buf s"]
  by (simp add: free_buf_def)

lemma free_buf_mono:
  assumes "earlyalloc_buf s' = earlyalloc_buf s" "unat (earlyalloc_idx s) \<le> unat (earlyalloc_idx s')" "unat (earlyalloc_idx s') < 2048"
  shows "free_buf s' \<subseteq> free_buf s"
proof -
  define d where "d = unat (earlyalloc_idx s') - unat (earlyalloc_idx s)"
  have "earlyalloc_idx s' = of_nat (unat (earlyalloc_idx s) + d)" using assms(2) by (simp add: d_def)
  then have "earlyalloc_idx s' = earlyalloc_idx s + of_nat d" by simp
  then show ?thesis
    using region_sub [of d "2048 - unat (earlyalloc_idx s')" "2048 - unat (earlyalloc_idx s)" "earlyalloc_buf s + earlyalloc_idx s"] assms d_def
    by (simp add: free_buf_def add.assoc)
qed

lemma copies_fields:
  assumes "copies A n s s'"
  shows "earlyalloc_buf s' = earlyalloc_buf s"
proof -
  have eq: "s' = s\<lparr>mem := mem s', mboot := mboot s', kernel_elf := kernel_elf s', earlyalloc_idx := earlyalloc_idx s'\<rparr>"
    using assms by (simp add: copies_def)
  show ?thesis by (subst eq) simp
qed

lemma copies_trans:
  assumes "copies A n s s1" "copies B k s1 s2" "unat (earlyalloc_idx s) + n < 2048"
  shows "copies (A \<union> B) (n + k) s s2"
proof -
  have i: "unat (earlyalloc_idx s) \<le> unat (earlyalloc_idx s1)" "unat (earlyalloc_idx s1) \<le> unat (earlyalloc_idx s) + n"
    "unat (earlyalloc_idx s1) \<le> unat (earlyalloc_idx s2)" "unat (earlyalloc_idx s2) \<le> unat (earlyalloc_idx s1) + k"
    using assms(1,2) by (simp_all add: copies_def)
  have sub: "free_buf s1 \<subseteq> free_buf s" by (rule free_buf_mono [OF copies_fields [OF assms(1)] i(1)]) (use i assms(3) in simp)
  have "same_outside (A \<union> B \<union> free_buf s) (mem s) (mem s2)"
  proof (rule same_outside_trans)
    show "same_outside (A \<union> B \<union> free_buf s) (mem s) (mem s1)" using assms(1) by (auto simp: copies_def same_outside_def)
    show "same_outside (A \<union> B \<union> free_buf s) (mem s1) (mem s2)" using assms(2) sub by (auto simp: copies_def same_outside_def)
  qed
  moreover have "s2 = s\<lparr>mem := mem s2, mboot := mboot s2, kernel_elf := kernel_elf s2, earlyalloc_idx := earlyalloc_idx s2\<rparr>"
  proof -
    have eq: "s1 = s\<lparr>mem := mem s1, mboot := mboot s1, kernel_elf := kernel_elf s1, earlyalloc_idx := earlyalloc_idx s1\<rparr>"
      "s2 = s1\<lparr>mem := mem s2, mboot := mboot s2, kernel_elf := kernel_elf s2, earlyalloc_idx := earlyalloc_idx s2\<rparr>"
      using assms(1,2) by (simp_all add: copies_def)
    show ?thesis by (subst eq(2), subst eq(1)) simp
  qed
  ultimately show ?thesis using i by (simp add: copies_def)
qed

text \<open>The common part of the four blocks.\<close>

lemma alloc_copy:
  assumes "unat (earlyalloc_idx s) + unat len < 2048" "unat (earlyalloc_buf s) + 2048 \<le> 4294967296" "0 < unat (earlyalloc_buf s)"
  defines "dst \<equiv> earlyalloc_buf s + earlyalloc_idx s"
  defines "s1 \<equiv> s\<lparr>earlyalloc_idx := earlyalloc_idx s + len\<rparr>"
  shows "earlyalloc len s = (dst, s1)" "dst \<noteq> 0" "unat (earlyalloc_idx s1) = unat (earlyalloc_idx s) + unat len"
    "mem (copy_block dst src len (s1\<lparr>mboot := mb\<rparr>)) = memcpy (mem s) dst src (unat len)"
    "copies {} (unat len) s (copy_block dst src len (s1\<lparr>mboot := mb\<rparr>))"
proof -
  have i: "unat (earlyalloc_idx s) < 2048" "unat (earlyalloc_idx s) + unat len < 4294967296" using assms(1) by simp_all
  show "earlyalloc len s = (dst, s1)" using earlyalloc_spec(1) [OF i] assms(1) by (simp add: dst_def s1_def)
  have "unat dst = unat (earlyalloc_buf s) + unat (earlyalloc_idx s)"
    unfolding dst_def using assms(2) i(1) by (simp add: unat_word_ariths)
  then show d: "dst \<noteq> 0" using assms(3) by auto
  show u: "unat (earlyalloc_idx s1) = unat (earlyalloc_idx s) + unat len" using i(2) by (simp add: s1_def unat_word_ariths)
  show m: "mem (copy_block dst src len (s1\<lparr>mboot := mb\<rparr>)) = memcpy (mem s) dst src (unat len)"
    using d by (simp add: copy_block_def s1_def)
  have sub: "region dst (unat len) \<subseteq> free_buf s"
    unfolding free_buf_def dst_def by (rule region_mono) (use assms(1) in simp)
  have "same_outside ({} \<union> free_buf s) (mem s) (memcpy (mem s) dst src (unat len))"
    using memcpy_outside [of _ dst "unat len" "mem s" src] sub by (auto simp: same_outside_def)
  then show "copies {} (unat len) s (copy_block dst src len (s1\<lparr>mboot := mb\<rparr>))"
    using u d m by (simp add: copies_def) (simp add: copy_block_def s1_def)
qed

lemma higher_half_copies:
  "copies (region a 4) 0 s (to_higher_half a (s :: 'a boot_scheme))"
  using store32_same_outside [of a "mem s"] by (auto simp: copies_def to_higher_half_def same_outside_def)

definition buf_ok :: "'a boot_scheme \<Rightarrow> bool" where
  "buf_ok s \<longleftrightarrow> unat (earlyalloc_buf s) + 2048 \<le> 4294967296 \<and> 0 < unat (earlyalloc_buf s)"

text \<open>A pointer is moved to the higher half, then a block is copied.\<close>

lemma block_copies:
  fixes s :: "'a boot_scheme" and a :: u32
  assumes "unat (earlyalloc_idx s) + unat len < 2048" "buf_ok s"
  defines "dst \<equiv> earlyalloc_buf s + earlyalloc_idx s"
  defines "s1 \<equiv> to_higher_half a s"
  defines "s2 \<equiv> s1\<lparr>earlyalloc_idx := earlyalloc_idx s + len\<rparr>"
  shows "earlyalloc len s1 = (dst, s2)" "dst \<noteq> 0"
    "copies (region a 4) (unat len) s (copy_block dst src len (s2\<lparr>mboot := mb\<rparr>))"
    "unat (earlyalloc_idx (copy_block dst src len (s2\<lparr>mboot := mb\<rparr>))) = unat (earlyalloc_idx s) + unat len"
    "mem (copy_block dst src len (s2\<lparr>mboot := mb\<rparr>)) = memcpy (mem s1) dst src (unat len)"
proof -
  have f: "earlyalloc_idx s1 = earlyalloc_idx s" "earlyalloc_buf s1 = earlyalloc_buf s" by (simp_all add: s1_def to_higher_half_def)
  have b: "unat (earlyalloc_buf s1) + 2048 \<le> 4294967296" "0 < unat (earlyalloc_buf s1)" "unat (earlyalloc_idx s1) + unat len < 2048"
    using assms(1,2) f by (simp_all add: buf_ok_def)
  note c = alloc_copy [OF b(3,1,2), unfolded f, folded dst_def s2_def]
  show "earlyalloc len s1 = (dst, s2)" "dst \<noteq> 0"
    "mem (copy_block dst src len (s2\<lparr>mboot := mb\<rparr>)) = memcpy (mem s1) dst src (unat len)"
    by (rule c)+
  have "copies (region a 4 \<union> {}) (0 + unat len) s (copy_block dst src len (s2\<lparr>mboot := mb\<rparr>))"
    using higher_half_copies [of a s] c(5) assms(1) unfolding s1_def [symmetric] by (intro copies_trans) simp_all
  then show "copies (region a 4) (unat len) s (copy_block dst src len (s2\<lparr>mboot := mb\<rparr>))" by simp
  show "unat (earlyalloc_idx (copy_block dst src len (s2\<lparr>mboot := mb\<rparr>))) = unat (earlyalloc_idx s) + unat len"
    using c(3) by (simp add: copy_block_def)
qed

lemma copies_mono: "copies A n s s' \<Longrightarrow> A \<subseteq> B \<Longrightarrow> n \<le> k \<Longrightarrow> copies B k s s'"
  by (auto simp: copies_def same_outside_def)

lemma copies_refl: "copies A n s s"
  by (simp add: copies_def)

lemma load_mods_spec:
  assumes "unat (earlyalloc_idx s) + unat (mods_count (mboot s)) * 16 < 2048" "buf_ok s"
  shows "copies (region (p + 24) 4) (unat (mods_count (mboot s)) * 16) s (load_mods p s)"
    "mboot (load_mods p s) = (mboot s)\<lparr>mods_addr := mods_addr (mboot (load_mods p s))\<rparr>"
proof -
  let ?len = "mods_count (mboot s) * 16"
  have l: "unat ?len = unat (mods_count (mboot s)) * 16" using assms(1) by (simp add: unat_word_ariths)
  have "unat (earlyalloc_idx s) + unat ?len < 2048" using assms(1) l by simp
  note b = block_copies [OF this assms(2)]
  have m: "mboot (to_higher_half a s) = mboot s" for a by (simp add: to_higher_half_def)
  show "copies (region (p + 24) 4) (unat (mods_count (mboot s)) * 16) s (load_mods p s)"
    using b(3) l by (auto simp: load_mods_def m b(1) Let_def intro: copies_refl)
  show "mboot (load_mods p s) = (mboot s)\<lparr>mods_addr := mods_addr (mboot (load_mods p s))\<rparr>"
    by (simp add: load_mods_def m b(1) Let_def copy_block_def)
qed

lemma load_elf_spec:
  assumes "unat (earlyalloc_idx s) + unat (elf_num (elf_sec (mboot s))) * unat (elf_size (elf_sec (mboot s))) < 2048" "buf_ok s"
  shows "copies (region (p + 36) 4) (unat (elf_num (elf_sec (mboot s))) * unat (elf_size (elf_sec (mboot s)))) s (load_elf elf0 p s)"
    "mboot (load_elf elf0 p s) = (mboot s)\<lparr>elf_sec := elf_sec (mboot (load_elf elf0 p s))\<rparr>"
proof -
  let ?len = "elf_num (elf_sec (mboot s)) * elf_size (elf_sec (mboot s))"
  have l: "unat ?len = unat (elf_num (elf_sec (mboot s))) * unat (elf_size (elf_sec (mboot s)))"
    using assms(1) by (simp add: unat_word_ariths)
  have "unat (earlyalloc_idx s) + unat ?len < 2048" using assms(1) l by simp
  note b = block_copies [OF this assms(2)]
  have m: "mboot (to_higher_half a s) = mboot s" for a by (simp add: to_higher_half_def)
  have elf: "copies A n s t \<Longrightarrow> copies A n s (t\<lparr>kernel_elf := e\<rparr>)" for A n t e
  proof -
    assume c: "copies A n s t"
    then have eq: "t = s\<lparr>mem := mem t, mboot := mboot t, kernel_elf := kernel_elf t, earlyalloc_idx := earlyalloc_idx t\<rparr>"
      by (simp add: copies_def)
    have "t\<lparr>kernel_elf := e\<rparr> = s\<lparr>mem := mem t, mboot := mboot t, kernel_elf := e, earlyalloc_idx := earlyalloc_idx t\<rparr>"
      by (subst eq) simp
    with c show ?thesis by (simp add: copies_def)
  qed
  show "copies (region (p + 36) 4) (unat (elf_num (elf_sec (mboot s))) * unat (elf_size (elf_sec (mboot s)))) s (load_elf elf0 p s)"
    using b(3) l by (auto simp: load_elf_def m b(1) Let_def intro!: elf copies_refl)
  show "mboot (load_elf elf0 p s) = (mboot s)\<lparr>elf_sec := elf_sec (mboot (load_elf elf0 p s))\<rparr>"
    by (simp add: load_elf_def m b(1) Let_def copy_block_def)
qed

lemma load_cmdline_spec:
  fixes s :: "'a boot_scheme" and p :: u32
  defines "src \<equiv> load32 (mem s) (p + 16) + 0xC0000000"
  defines "cl \<equiv> load_string (mem s) src"
  assumes "mb_flags (mboot s) AND MULTIBOOT_INFO_CMDLINE \<noteq> 0" "unat (earlyalloc_idx s) + (length cl + 1) < 2048" "buf_ok s"
    "region src (length cl + 1) \<inter> region (p + 16) 4 = {}" "region src (length cl + 1) \<inter> free_buf s = {}"
  shows "copies (region (p + 16) 4) (length cl + 1) s (load_cmdline p s)"
    "unat (earlyalloc_idx (load_cmdline p s)) = unat (earlyalloc_idx s) + (length cl + 1)"
    "mboot (load_cmdline p s) = (mboot s)\<lparr>mb_cmdline := earlyalloc_buf s + earlyalloc_idx s\<rparr>"
    "load_string (mem (load_cmdline p s)) (earlyalloc_buf s + earlyalloc_idx s) = cl"
proof -
  let ?s1 = "to_higher_half (p + 16) s" and ?dst = "earlyalloc_buf s + earlyalloc_idx s"
  have src: "load32 (mem ?s1) (p + 16) = src" by (simp add: to_higher_half_def src_def)
  have cl: "load_string (mem ?s1) src = cl"
    unfolding cl_def
  proof (rule load_string_cong)
    fix a assume "a \<in> region src (length (load_string (mem s) src) + 1)"
    then have "a \<notin> region (p + 16) 4" using assms(6) by (auto simp: cl_def)
    then show "mem ?s1 a = mem s a"
      using store32_same_outside [of "p + 16" "mem s"] by (simp add: to_higher_half_def same_outside_def)
  qed
  let ?len = "of_nat (length cl) + 1 :: u32"
  have "?len = of_nat (length cl + 1)" by simp
  then have l: "unat ?len = length cl + 1" using assms(4) by (simp only:) (subst unat_of_nat_u32; simp)
  have room: "unat (earlyalloc_idx s) + unat ?len < 2048" using assms(4) l by simp
  note b = block_copies [OF room assms(5)]
  have m: "mboot (to_higher_half a s) = mboot s" for a by (simp add: to_higher_half_def)
  have eq: "load_cmdline p s = copy_block ?dst src ?len
      (?s1\<lparr>earlyalloc_idx := earlyalloc_idx s + ?len, mboot := (mboot s)\<lparr>mb_cmdline := ?dst\<rparr>\<rparr>)"
    using assms(3) by (simp add: load_cmdline_def m src cl b(1) Let_def)
  show "copies (region (p + 16) 4) (length cl + 1) s (load_cmdline p s)" unfolding eq using b(3) l by simp
  show "unat (earlyalloc_idx (load_cmdline p s)) = unat (earlyalloc_idx s) + (length cl + 1)" unfolding eq using b(4) l by simp
  show "mboot (load_cmdline p s) = (mboot s)\<lparr>mb_cmdline := ?dst\<rparr>" unfolding eq by (simp add: copy_block_def)
  have "region ?dst (unat ?len) \<subseteq> free_buf s" unfolding free_buf_def by (rule region_mono) (use room in simp)
  then have "region ?dst (unat ?len) \<inter> region src (unat ?len) = {}" using assms(7) l by auto
  then show "load_string (mem (load_cmdline p s)) ?dst = cl"
    unfolding eq using b(5) load_string_copy [of "mem ?s1" src "unat ?len" ?dst] cl l assms(4) by simp
qed

lemma load_mmap_spec:
  assumes "mb_flags (mboot s) AND MULTIBOOT_INFO_MEMORY \<noteq> 0"
    "unat (earlyalloc_idx s) + (unat (mmap_length (mboot s)) + 4) < 2048" "buf_ok s" "region (p + 48) 4 \<inter> free_buf s = {}"
  shows "copies (region (p + 48) 4) (unat (mmap_length (mboot s)) + 4) s (load_mmap p s)"
    "mboot (load_mmap p s) = (mboot s)\<lparr>mmap_addr := load32 (mem s) (p + 48) + 0xC0000000\<rparr>"
proof -
  let ?len = "mmap_length (mboot s) + 4" and ?dst = "earlyalloc_buf s + earlyalloc_idx s" and ?s1 = "to_higher_half (p + 48) s"
  have l: "unat ?len = unat (mmap_length (mboot s)) + 4" using assms(2) by (simp add: unat_word_ariths)
  have room: "unat (earlyalloc_idx s) + unat ?len < 2048" using assms(2) l by simp
  note b = block_copies [OF room assms(3)]
  have m: "mboot (to_higher_half a s) = mboot s" for a by (simp add: to_higher_half_def)
  define src where "src = load32 (mem ?s1) (p + 48)"
  have src: "src = load32 (mem s) (p + 48) + 0xC0000000" by (simp add: src_def to_higher_half_def)
  define t where "t = copy_block ?dst (src - 4) ?len (?s1\<lparr>earlyalloc_idx := earlyalloc_idx s + ?len\<rparr>)"
  have self: "?s1\<lparr>earlyalloc_idx := earlyalloc_idx s + ?len, mboot := mboot s\<rparr> = ?s1\<lparr>earlyalloc_idx := earlyalloc_idx s + ?len\<rparr>"
    by (simp add: to_higher_half_def)
  have ct: "copies (region (p + 48) 4) (unat ?len) s t"
    using b(3) [where a = "p + 48" and src = "src - 4" and mb = "mboot s"] unfolding self t_def .
  have mt: "mem t = memcpy (mem ?s1) ?dst (src - 4) (unat ?len)"
    using b(5) [where a = "p + 48" and src = "src - 4" and mb = "mboot s"] unfolding self t_def .
  have "region ?dst (unat ?len) \<subseteq> free_buf s" unfolding free_buf_def by (rule region_mono) (use room in simp)
  then have "load32 (mem t) (p + 48) = src"
    unfolding mt src_def using assms(4) by (intro load32_cong memcpy_outside) auto
  then have eq: "load_mmap p s = t\<lparr>mboot := (mboot s)\<lparr>mmap_addr := src\<rparr>\<rparr>"
    using assms(1) b(1,2) by (simp add: load_mmap_def m Let_def src_def [symmetric] t_def [symmetric]) (simp add: t_def copy_block_def m)
  show "mboot (load_mmap p s) = (mboot s)\<lparr>mmap_addr := load32 (mem s) (p + 48) + 0xC0000000\<rparr>" unfolding eq src by simp
  have teq: "t = s\<lparr>mem := mem t, mboot := mboot t, kernel_elf := kernel_elf t, earlyalloc_idx := earlyalloc_idx t\<rparr>"
    using ct by (simp add: copies_def)
  have "load_mmap p s = s\<lparr>mem := mem t, mboot := (mboot s)\<lparr>mmap_addr := src\<rparr>, kernel_elf := kernel_elf t, earlyalloc_idx := earlyalloc_idx t\<rparr>"
    unfolding eq by (subst teq) simp
  then show "copies (region (p + 48) 4) (unat (mmap_length (mboot s)) + 4) s (load_mmap p s)"
    using ct l by (simp add: copies_def)
qed

section \<open>The four blocks together\<close>

text \<open>
  \<open>info_fits s p\<close>: the structure at \<open>p\<close> has a command line and a memory map, all that is copied fits the
  buffer, and the structure, the command line and the buffer are apart.
\<close>

definition cmdline_at :: "mem \<Rightarrow> u32 \<Rightarrow> u32" where
  "cmdline_at m p = mb_cmdline (read_multiboot_info m p) + 0xC0000000"

definition info_fits :: "'a boot_scheme \<Rightarrow> u32 \<Rightarrow> bool" where
  "info_fits s p \<longleftrightarrow> (let mb = read_multiboot_info (mem s) p; n = length (load_string (mem s) (cmdline_at (mem s) p)) + 1 in
     mb_flags mb AND MULTIBOOT_INFO_CMDLINE \<noteq> 0 \<and> mb_flags mb AND MULTIBOOT_INFO_MEMORY \<noteq> 0 \<and>
     n + unat (mods_count mb) * 16 + unat (elf_num (elf_sec mb)) * unat (elf_size (elf_sec mb)) + unat (mmap_length mb) + 4 < 2048 \<and>
     earlyalloc_idx s = 0 \<and> buf_ok s \<and>
     region p 88 \<inter> region (earlyalloc_buf s) 2048 = {} \<and>
     region (cmdline_at (mem s) p) n \<inter> region p 88 = {} \<and>
     region (cmdline_at (mem s) p) n \<inter> region (earlyalloc_buf s) 2048 = {})"

lemma info_field: "k \<le> 84 \<Longrightarrow> region (p + of_nat k) 4 \<subseteq> region p 88"
  by (rule region_sub) simp

lemma info_fields_apart: "k + 4 \<le> j \<Longrightarrow> j \<le> 84 \<Longrightarrow> region (p + of_nat k) 4 \<inter> region (p + of_nat j) 4 = {}"
  by (rule region_disjoint_offset) simp_all

lemma load_mods_elf:
  fixes s :: "'a boot_scheme" and p :: u32 and elf0 :: elf_t
  defines "n \<equiv> unat (mods_count (mboot s)) * 16 + unat (elf_num (elf_sec (mboot s))) * unat (elf_size (elf_sec (mboot s)))"
  defines "s' \<equiv> load_elf elf0 p (load_mods p s)"
  assumes "unat (earlyalloc_idx s) + n < 2048" "buf_ok s"
  shows "copies (region (p + 24) 4 \<union> region (p + 36) 4) n s s'"
    "mboot s' = (mboot s)\<lparr>mods_addr := mods_addr (mboot s'), elf_sec := elf_sec (mboot s')\<rparr>"
proof -
  let ?s1 = "load_mods p s" and ?lm = "unat (mods_count (mboot s)) * 16"
  have "unat (earlyalloc_idx s) + ?lm < 2048" using assms(3) by (simp add: n_def)
  note mods = load_mods_spec [OF this assms(4), of p]
  have elf1: "elf_sec (mboot ?s1) = elf_sec (mboot s)" by (subst mods(2)) simp
  have "unat (earlyalloc_idx ?s1) \<le> unat (earlyalloc_idx s) + ?lm" using mods(1) by (simp add: copies_def)
  then have "unat (earlyalloc_idx ?s1) + unat (elf_num (elf_sec (mboot ?s1))) * unat (elf_size (elf_sec (mboot ?s1))) < 2048"
    using assms(3) unfolding elf1 n_def by simp
  moreover have "buf_ok ?s1" using assms(4) copies_fields [OF mods(1)] by (simp add: buf_ok_def)
  ultimately have elf: "copies (region (p + 36) 4) (unat (elf_num (elf_sec (mboot s))) * unat (elf_size (elf_sec (mboot s)))) ?s1 s'"
    "mboot s' = (mboot ?s1)\<lparr>elf_sec := elf_sec (mboot s')\<rparr>"
    using load_elf_spec [where s = ?s1] unfolding s'_def elf1 by auto
  show "copies (region (p + 24) 4 \<union> region (p + 36) 4) n s s'"
    unfolding n_def by (rule copies_trans [OF mods(1) elf(1)]) (use assms(3) in \<open>simp add: n_def\<close>)
  have "mods_addr (mboot s') = mods_addr (mboot ?s1)" by (subst elf(2)) simp
  then show "mboot s' = (mboot s)\<lparr>mods_addr := mods_addr (mboot s'), elf_sec := elf_sec (mboot s')\<rparr>"
    by (subst elf(2), subst mods(2)) simp
qed

lemma copied_string_kept:
  fixes s s' :: "'a boot_scheme"
  defines "cl \<equiv> load_string (mem s) (earlyalloc_buf s)"
  assumes "copies A k s s'" "unat (earlyalloc_idx s) = length cl + 1" "length cl + 1 < 2048"
    "A \<inter> region (earlyalloc_buf s) 2048 = {}"
  shows "load_string (mem s') (earlyalloc_buf s) = cl"
  unfolding cl_def
proof (rule load_string_cong)
  let ?n = "length cl + 1"
  fix a assume "a \<in> region (earlyalloc_buf s) (length (load_string (mem s) (earlyalloc_buf s)) + 1)"
  then have a: "a \<in> region (earlyalloc_buf s) ?n" by (simp add: cl_def)
  have "region (earlyalloc_buf s) ?n \<subseteq> region (earlyalloc_buf s) 2048" by (rule region_mono) (use assms(4) in simp)
  moreover have "free_buf s = region (earlyalloc_buf s + of_nat ?n) (2048 - ?n)"
    unfolding free_buf_def assms(3) [symmetric] by simp
  moreover have "region (earlyalloc_buf s + of_nat 0) ?n \<inter> region (earlyalloc_buf s + of_nat ?n) (2048 - ?n) = {}"
    by (rule region_disjoint_offset) (use assms(4) in simp_all)
  ultimately have "a \<notin> A \<union> free_buf s" using a assms(5) by auto
  then show "mem s' a = mem s a" using assms(2) by (simp add: copies_def same_outside_def)
qed

lemma load_info_spec:
  fixes s :: "'a boot_scheme" and p :: u32
  defines "mb \<equiv> read_multiboot_info (mem s) p"
  defines "cl \<equiv> load_string (mem s) (cmdline_at (mem s) p)"
  assumes fits: "info_fits s p" and mbs: "mboot s = mb"
  obtains s' where "load_mmap p (load_elf elf0 p (load_mods p (load_cmdline p s))) = s'"
    "copies (region p 88) 2047 s s'" "mb_flags (mboot s') = mb_flags mb" "mmap_length (mboot s') = mmap_length mb"
    "mmap_addr (mboot s') = mmap_addr mb + 0xC0000000" "mb_cmdline (mboot s') = earlyalloc_buf s"
    "load_string (mem s') (earlyalloc_buf s) = cl"
proof -
  let ?I = "region p 88" and ?E = "region (earlyalloc_buf s) 2048"
  define n where "n = length cl + 1"
  note f = fits [unfolded info_fits_def, folded mb_def cl_def, unfolded Let_def, folded n_def]
  have idx0: "unat (earlyalloc_idx s) = 0" and fb: "free_buf s = ?E" using f by (simp_all add: free_buf_def)
  have I: "region (p + 16) 4 \<subseteq> ?I" "region (p + 24) 4 \<subseteq> ?I" "region (p + 36) 4 \<subseteq> ?I" "region (p + 48) 4 \<subseteq> ?I"
    using info_field [of 16 p] info_field [of 24 p] info_field [of 36 p] info_field [of 48 p] by simp_all
  define s1 where "s1 = load_cmdline p s"
  have c1: "copies (region (p + 16) 4) n s s1" "unat (earlyalloc_idx s1) = n"
    "mboot s1 = mb\<lparr>mb_cmdline := earlyalloc_buf s\<rparr>" "load_string (mem s1) (earlyalloc_buf s) = cl"
  proof -
    have src: "load32 (mem s) (p + 16) + 0xC0000000 = cmdline_at (mem s) p"
      by (simp add: cmdline_at_def read_multiboot_info_def)
    have g: "mb_flags (mboot s) AND MULTIBOOT_INFO_CMDLINE \<noteq> 0" "unat (earlyalloc_idx s) + (length cl + 1) < 2048" "buf_ok s"
      "region (cmdline_at (mem s) p) (length cl + 1) \<inter> region (p + 16) 4 = {}"
      "region (cmdline_at (mem s) p) (length cl + 1) \<inter> free_buf s = {}"
      using f I(1) mbs idx0 fb by (auto simp: n_def)
    note c = load_cmdline_spec [where s = s and p = p, unfolded src, folded cl_def, OF g, folded s1_def n_def]
    show "copies (region (p + 16) 4) n s s1" by (rule c(1))
    show "unat (earlyalloc_idx s1) = n" "mboot s1 = mb\<lparr>mb_cmdline := earlyalloc_buf s\<rparr>" "load_string (mem s1) (earlyalloc_buf s) = cl"
      using c(2-4) idx0 f mbs by simp_all
  qed
  let ?l = "unat (mods_count mb) * 16 + unat (elf_num (elf_sec mb)) * unat (elf_size (elf_sec mb))" and ?lp = "unat (mmap_length mb) + 4"
  have sum: "n + ?l + ?lp < 2048" using f by simp
  have buf1: "earlyalloc_buf s1 = earlyalloc_buf s" by (rule copies_fields [OF c1(1)])
  define s3 where "s3 = load_elf elf0 p (load_mods p s1)"
  have c3: "copies (region (p + 24) 4 \<union> region (p + 36) 4) ?l s1 s3"
    "mboot s3 = (mboot s1)\<lparr>mods_addr := mods_addr (mboot s3), elf_sec := elf_sec (mboot s3)\<rparr>"
    using load_mods_elf [where s = s1] c1(2,3) sum f buf1 by (simp_all add: s3_def buf_ok_def)
  have m3: "mb_flags (mboot s3) = mb_flags mb" "mmap_length (mboot s3) = mmap_length mb" "mb_cmdline (mboot s3) = earlyalloc_buf s"
    by (subst c3(2), simp add: c1(3))+
  have buf3: "earlyalloc_buf s3 = earlyalloc_buf s" using copies_fields [OF c3(1)] buf1 by simp
  have i3: "unat (earlyalloc_idx s3) \<le> n + ?l" using c3(1) c1(2) by (simp add: copies_def)
  define s4 where "s4 = load_mmap p s3"
  have "free_buf s3 \<subseteq> ?E" using free_buf_sub [of s3] i3 sum buf3 by simp
  then have "region (p + 48) 4 \<inter> free_buf s3 = {}" using I(4) f by auto
  then have c4: "copies (region (p + 48) 4) ?lp s3 s4" "mboot s4 = (mboot s3)\<lparr>mmap_addr := load32 (mem s3) (p + 48) + 0xC0000000\<rparr>"
    using load_mmap_spec [of s3 p] m3 i3 sum f buf3 by (simp_all add: s4_def buf_ok_def)
  have "load32 (mem s3) (p + 48) = load32 (mem s) (p + 48)"
  proof (rule load32_frame)
    have "copies (region (p + 16) 4 \<union> (region (p + 24) 4 \<union> region (p + 36) 4)) (n + ?l) s s3"
      by (rule copies_trans [OF c1(1) c3(1)]) (use idx0 sum in simp)
    then show "same_outside (region (p + 16) 4 \<union> (region (p + 24) 4 \<union> region (p + 36) 4) \<union> free_buf s) (mem s) (mem s3)"
      by (simp add: copies_def)
    show "region (p + 48) 4 \<inter> (region (p + 16) 4 \<union> (region (p + 24) 4 \<union> region (p + 36) 4) \<union> free_buf s) = {}"
      using info_fields_apart [of 16 48 p] info_fields_apart [of 24 48 p] info_fields_apart [of 36 48 p] I(4) f fb by auto
  qed
  then have addr: "mmap_addr (mboot s4) = mmap_addr mb + 0xC0000000" using c4(2) by (simp add: mb_def read_multiboot_info_def)
  have "copies (region (p + 24) 4 \<union> region (p + 36) 4 \<union> region (p + 48) 4) (?l + ?lp) s1 s4"
    by (rule copies_trans [OF c3(1) c4(1)]) (use c1(2) sum in simp)
  then have s14: "copies ?I (?l + ?lp) s1 s4" by (rule copies_mono) (use I in auto)
  have "copies (region (p + 16) 4 \<union> ?I) (n + (?l + ?lp)) s s4"
    by (rule copies_trans [OF c1(1) s14]) (use idx0 sum in simp)
  then have all: "copies ?I 2047 s s4" by (rule copies_mono) (use I(1) sum in auto)
  have "load_string (mem s4) (earlyalloc_buf s) = cl"
    using copied_string_kept [OF s14] c1(2,4) buf1 f sum by (simp add: n_def)
  then show ?thesis
    using that [of s4] all addr m3 c4(2) by (simp add: s4_def s3_def s1_def)
qed

lemma split_cmdline_spec:
  assumes "load_string (mem s) (mb_cmdline (mboot s)) = cl"
  obtains m' where "split_cmdline s = Inr (take 256 (pieces CHR '' '' cl), s\<lparr>mem := m'\<rparr>)"
    "same_outside (region (mb_cmdline (mboot s)) (length cl)) (mem s) m'"
proof -
  have "NUL \<notin> set cl" using load_string_no_NUL assms by metis
  then obtain out buf where t: "tokenize CHR '' '' cl 256 = Inr (out, buf)" "length buf = length cl"
    "map (\<lambda>a. cstr (drop a buf)) out = take 256 (pieces CHR '' '' cl)"
    using tokenize_from_spec [of "CHR '' ''" cl 0 0 256] by (auto simp: tokenize_def)
  then show ?thesis
    using that [of "store_chars (mem s) (mb_cmdline (mboot s)) buf"] assms
      store_chars_outside [of "mb_cmdline (mboot s)" buf "mem s"] by (simp add: split_cmdline_def)
qed

end
