(* ===== verification/Loader_Run.thy ===== *)
theory Loader_Run
  imports Loader Platform_Run
begin

text \<open>
  From the second-stage loader to the idle loop: the boot information survives the clearing of the
  screen and the loader's own copying, and the kernel comes up.
\<close>

section \<open>Reading the boot information\<close>

lemma read_multiboot_info_cong:
  assumes "\<And>a. a \<in> region p 88 \<Longrightarrow> m' a = m a"
  shows "read_multiboot_info m' p = read_multiboot_info m p"
proof -
  have w: "load32 m' (p + of_nat k) = load32 m (p + of_nat k)" if "k \<le> 84" for k
    using assms info_field [OF that, of p] by (intro load32_cong) auto
  have h: "load16 m' (p + of_nat k) = load16 m (p + of_nat k)" if "k \<le> 86" for k
    using assms region_sub [of k 2 88 p] that by (intro load16_cong) auto
  show ?thesis
    unfolding read_multiboot_info_def read_elf_sec_def
    using w [of 0] w [of 4] w [of 8] w [of 12] w [of 16] w [of 20] w [of 24] w [of 28] w [of 32] w [of 36] w [of 40]
      w [of 44] w [of 48] w [of 52] w [of 56] w [of 60] w [of 64] w [of 68] w [of 72] w [of 76]
      h [of 80] h [of 82] h [of 84] h [of 86]
    by (simp add: add.assoc)
qed

section \<open>A machine the loader can start on\<close>

definition higher_map :: "mem \<Rightarrow> u32 \<Rightarrow> multiboot_info" where
  "higher_map m p = (let mb = read_multiboot_info m p in mb\<lparr>mmap_addr := mmap_addr mb + 0xC0000000\<rparr>)"

definition screen_area :: "'a vga_scheme \<Rightarrow> u32 set" where
  "screen_area s = region (term_backbuff s) 4000 \<union> region VRAM_START 4000"

definition loader_ready :: "platform \<Rightarrow> u32 \<Rightarrow> multiboot_mmap_entry list \<Rightarrow> bool" where
  "loader_ready s p es \<longleftrightarrow>
     region (term_backbuff s) 4000 \<inter> region VRAM_START 4000 = {} \<and> serial_fair s \<and> length (isr_routines s) = 256 \<and>
     info_fits s p \<and> boot_ready (s\<lparr>mboot := higher_map (mem s) p\<rparr>) es \<and>
     screen_area s \<inter> region p 88 = {} \<and>
     screen_area s \<inter> region (cmdline_at (mem s) p) (length (load_string (mem s) (cmdline_at (mem s) p)) + 1) = {} \<and>
     screen_area s \<inter> region (earlyalloc_buf s) 2048 = {} \<and>
     screen_area s \<inter> mmap_area (mmap_addr (higher_map (mem s) p)) es = {} \<and>
     screen_area s \<inter> region MMAP_PMM_BITMAP 0x1000000 = {} \<and>
     mmap_area (mmap_addr (higher_map (mem s) p)) es \<inter> region p 88 = {} \<and>
     mmap_area (mmap_addr (higher_map (mem s) p)) es \<inter> region (earlyalloc_buf s) 2048 = {}"

lemma vgaterm_init_spec:
  fixes s :: platform
  assumes "region (term_backbuff s) 4000 \<inter> region VRAM_START 4000 = {}"
  obtains m out x y where "snd (vgaterm_init cons s) = s\<lparr>mem := m, port_out := out, term_cursor_y := y, term_cursor_x := x,
      term_color := make_color COLOR_LIGHT_GREY COLOR_BLACK, term_frontbuff := VRAM_START\<rparr>"
    "vga_inv (snd (vgaterm_init cons s))" "vga_area (snd (vgaterm_init cons s)) = screen_area s"
    "same_outside (screen_area s) (mem s) m" "fst (vgaterm_init cons s) = snd (console_register vga_console cons)"
proof -
  let ?t = "s\<lparr>term_cursor_y := 0, term_cursor_x := 0, term_color := make_color COLOR_LIGHT_GREY COLOR_BLACK,
      term_frontbuff := VRAM_START\<rparr>"
  have inv: "vga_inv (vgaterm_cls ?t)" and step: "vga_step ?t (vgaterm_cls ?t)"
    using vgaterm_cls_spec [of ?t] assms by simp_all
  obtain m x y out where eq: "vgaterm_cls ?t = ?t\<lparr>mem := m, term_cursor_x := x, term_cursor_y := y, port_out := out\<rparr>"
    "same_outside (vga_area ?t) (mem ?t) m"
    using step by (auto simp: vga_step_def)
  have area: "vga_area ?t = screen_area s" by (simp add: vga_area_def screen_area_def)
  have cls: "snd (vgaterm_init cons s) = vgaterm_cls ?t" by (simp add: vgaterm_init_def Let_def)
  show ?thesis
  proof (rule that)
    show "snd (vgaterm_init cons s) = s\<lparr>mem := m, port_out := out, term_cursor_y := y, term_cursor_x := x,
      term_color := make_color COLOR_LIGHT_GREY COLOR_BLACK, term_frontbuff := VRAM_START\<rparr>"
      unfolding cls eq(1) by simp
    show "vga_inv (snd (vgaterm_init cons s))" "vga_area (snd (vgaterm_init cons s)) = screen_area s"
      unfolding cls using inv vga_step_area [OF step] area by simp_all
  qed (use eq(2) area in \<open>simp_all add: vgaterm_init_def Let_def\<close>)
qed

text \<open>The copying and the splitting of the command line write to the structure and to the loader's buffer.\<close>

lemma loader_copies:
  fixes s :: platform and p :: u32
  defines "mb \<equiv> read_multiboot_info (mem s) p"
  defines "cl \<equiv> load_string (mem s) (cmdline_at (mem s) p)"
  assumes fits: "info_fits s p" and "mboot s = mb"
  obtains s' where "split_cmdline (load_mmap p (load_elf elf0 p (load_mods p (load_cmdline p s)))) = Inr (take 256 (pieces CHR '' '' cl), s')"
    "same_outside (region p 88 \<union> region (earlyalloc_buf s) 2048) (mem s) (mem s')"
    "mb_flags (mboot s') = mb_flags mb" "mmap_length (mboot s') = mmap_length mb" "mmap_addr (mboot s') = mmap_addr mb + 0xC0000000"
    "s' = s\<lparr>mem := mem s', mboot := mboot s', kernel_elf := kernel_elf s', earlyalloc_idx := earlyalloc_idx s'\<rparr>"
proof -
  obtain s2 where s2: "load_mmap p (load_elf elf0 p (load_mods p (load_cmdline p s))) = s2"
    "copies (region p 88) 2047 s s2" "mb_flags (mboot s2) = mb_flags mb" "mmap_length (mboot s2) = mmap_length mb"
    "mmap_addr (mboot s2) = mmap_addr mb + 0xC0000000" "mb_cmdline (mboot s2) = earlyalloc_buf s"
    "load_string (mem s2) (earlyalloc_buf s) = cl"
    using load_info_spec [OF fits, of elf0] assms(4) unfolding mb_def cl_def by metis
  obtain m3 where m3: "split_cmdline s2 = Inr (take 256 (pieces CHR '' '' cl), s2\<lparr>mem := m3\<rparr>)"
    "same_outside (region (earlyalloc_buf s) (length cl)) (mem s2) m3"
    using split_cmdline_spec [of s2 cl] s2(6,7) by metis
  have "free_buf s \<subseteq> region (earlyalloc_buf s) 2048"
    using free_buf_sub [of s] fits by (simp add: info_fits_def Let_def)
  moreover have "region (earlyalloc_buf s) (length cl) \<subseteq> region (earlyalloc_buf s) 2048"
    by (rule region_mono) (use fits in \<open>simp add: info_fits_def Let_def cl_def\<close>)
  moreover have "same_outside (region p 88 \<union> free_buf s) (mem s) (mem s2)" using s2(2) by (simp add: copies_def)
  ultimately have m: "same_outside (region p 88 \<union> region (earlyalloc_buf s) 2048) (mem s) m3"
    using m3(2) unfolding same_outside_def by (simp add: subset_iff) metis
  have eq2: "s2 = s\<lparr>mem := mem s2, mboot := mboot s2, kernel_elf := kernel_elf s2, earlyalloc_idx := earlyalloc_idx s2\<rparr>"
    using s2(2) by (simp add: copies_def)
  show ?thesis
  proof (rule that [of "s2\<lparr>mem := m3\<rparr>"])
    show "s2\<lparr>mem := m3\<rparr> = s\<lparr>mem := mem (s2\<lparr>mem := m3\<rparr>), mboot := mboot (s2\<lparr>mem := m3\<rparr>), kernel_elf := kernel_elf (s2\<lparr>mem := m3\<rparr>),
        earlyalloc_idx := earlyalloc_idx (s2\<lparr>mem := m3\<rparr>)\<rparr>"
      by (subst eq2) simp
  qed (use s2 m3 m in simp_all)
qed

text \<open>The screen and the memory map are apart from both, so the kernel still finds what it needs.\<close>

lemma loader_keeps_screen:
  fixes s1 s3 :: platform
  assumes "vga_inv s1" "serial_fair s1" "same_outside A (mem s1) (mem s3)" "vga_area s1 \<inter> A = {}"
    and eq: "s3 = s1\<lparr>mem := mem s3, mboot := mboot s3, kernel_elf := kernel_elf s3, earlyalloc_idx := earlyalloc_idx s3\<rparr>"
  shows "devices_inv s3" "vga_area s3 = vga_area s1"
proof -
  have v3: "term_cursor_x s3 = term_cursor_x s1" "term_cursor_y s3 = term_cursor_y s1" "term_backbuff s3 = term_backbuff s1"
    "term_frontbuff s3 = term_frontbuff s1" "port_in s3 = port_in s1" "port_reads s3 = port_reads s1"
    by (subst eq, simp)+
  show "vga_area s3 = vga_area s1" by (simp add: vga_area_def v3)
  have b: "region (term_backbuff s1) 4000 \<inter> A = {}" "region (term_frontbuff s1) 4000 \<inter> A = {}"
    using assms(4) by (auto simp: vga_area_def)
  then have "buffer (mem s3) (term_backbuff s1) 2000 = buffer (mem s1) (term_backbuff s1) 2000"
    "buffer (mem s3) (term_frontbuff s1) 2000 = buffer (mem s1) (term_frontbuff s1) 2000"
    using buffer_cong [OF assms(3), of _ 2000] by simp_all
  then show "devices_inv s3" using assms(1,2) by (simp add: devices_inv_def serial_fair_def vga_inv_def v3)
qed

lemma loader_keeps_map:
  fixes s s1 s3 :: platform and p :: u32
  defines "b \<equiv> s\<lparr>mboot := higher_map (mem s) p\<rparr>"
  assumes ready: "boot_ready b es" and "same_outside A (mem s) (mem s3)" "mmap_area (mmap_addr (mboot b)) es \<inter> A = {}"
    and mb: "mb_flags (mboot s3) = mb_flags (mboot b)" "mmap_length (mboot s3) = mmap_length (mboot b)"
      "mmap_addr (mboot s3) = mmap_addr (mboot b)"
    and f3: "ptmem s3 = ptmem s" "cr3 s3 = cr3 s" "pmm_init_stage s3 = pmm_init_stage s" "allocators s3 = allocators s"
    "link_start s3 = link_start s" "link_end s3 = link_end s"
  shows "boot_ready s3 es"
proof -
  have pde: "pde s3 n = pde s n" "pde b n = pde s n" for n using f3(1,2) by (simp_all add: pde_def b_def)
  have eq: "mem s3 a = mem s a" if "a \<in> mmap_area (mmap_addr (mboot b)) es" for a
    using assms(3,4) that by (auto simp: same_outside_def)
  have "mmap_lists (mem s) (mmap_addr (mboot b) + mmap_length (mboot b)) (mmap_addr (mboot b)) es"
    using ready by (simp add: boot_ready_def b_def)
  then have "mmap_lists (mem s3) (mmap_addr (mboot b) + mmap_length (mboot b)) (mmap_addr (mboot b)) es"
    using eq by (rule mmap_lists_cong)
  then show ?thesis
    using ready unfolding boot_ready_def boot_tables_def pde
    by (simp add: f3 mb) (simp add: b_def)
qed

lemma loader_prepares:
  fixes s :: platform and p :: u32 and cons :: "platform console_t list"
  assumes ready: "loader_ready s p es"
  defines "cl \<equiv> load_string (mem s) (cmdline_at (mem s) p)"
  defines "s0 \<equiv> snd (vgaterm_init cons s)"
  obtains s3 where "split_cmdline (load_mmap p (load_elf elf0 p (load_mods p (load_cmdline p
        (s0\<lparr>mboot := read_multiboot_info (mem s0) p\<rparr>))))) = Inr (take 256 (pieces CHR '' '' cl), s3)"
    "devices_inv s3" "boot_ready s3 es" "mmap_area (mmap_addr (mboot s3)) es \<inter> vga_area s3 = {}"
    "vga_area s3 \<inter> region MMAP_PMM_BITMAP 0x1000000 = {}" "length (isr_routines s3) = 256"
proof -
  note r = ready [unfolded loader_ready_def, folded cl_def]
  have apart: "region (term_backbuff s) 4000 \<inter> region VRAM_START 4000 = {}" using r by blast
  obtain m out x y where s0: "s0 = s\<lparr>mem := m, port_out := out, term_cursor_y := y, term_cursor_x := x,
      term_color := make_color COLOR_LIGHT_GREY COLOR_BLACK, term_frontbuff := VRAM_START\<rparr>"
    "vga_inv s0" "vga_area s0 = screen_area s" "same_outside (screen_area s) (mem s) m"
    unfolding s0_def by (rule vgaterm_init_spec [OF apart, of cons])
  define mb where "mb = read_multiboot_info (mem s) p"
  have mb: "read_multiboot_info m p = mb"
    unfolding mb_def using s0(4) r by (intro read_multiboot_info_cong) (auto simp: same_outside_def)
  have cm: "cmdline_at m p = cmdline_at (mem s) p" using mb by (simp add: cmdline_at_def mb_def)
  have cl: "load_string m (cmdline_at m p) = cl"
    unfolding cm cl_def using s0(4) r by (intro load_string_cong) (auto simp: same_outside_def cl_def)
  define s1 where "s1 = s0\<lparr>mboot := mb\<rparr>"
  have f1: "mem s1 = m" "earlyalloc_idx s1 = earlyalloc_idx s" "earlyalloc_buf s1 = earlyalloc_buf s" "mboot s1 = mb"
    by (simp_all add: s1_def s0(1))
  have "info_fits s p" using r by blast
  then have "info_fits s1 p"
    using cl unfolding info_fits_def buf_ok_def f1 cm mb [unfolded mb_def] cl_def by (simp only:)
  moreover have "mboot s1 = read_multiboot_info (mem s1) p" by (simp add: f1 mb)
  ultimately obtain s3 where s3: "split_cmdline (load_mmap p (load_elf elf0 p (load_mods p (load_cmdline p s1)))) = Inr (take 256 (pieces CHR '' '' cl), s3)"
    "same_outside (region p 88 \<union> region (earlyalloc_buf s) 2048) m (mem s3)"
    "mb_flags (mboot s3) = mb_flags mb" "mmap_length (mboot s3) = mmap_length mb" "mmap_addr (mboot s3) = mmap_addr mb + 0xC0000000"
    "s3 = s1\<lparr>mem := mem s3, mboot := mboot s3, kernel_elf := kernel_elf s3, earlyalloc_idx := earlyalloc_idx s3\<rparr>"
    using loader_copies [of s1 p elf0] f1 mb cl by metis
  have f3: "ptmem s3 = ptmem s" "cr3 s3 = cr3 s" "pmm_init_stage s3 = pmm_init_stage s" "allocators s3 = allocators s"
    "link_start s3 = link_start s" "link_end s3 = link_end s" "isr_routines s3 = isr_routines s"
    by (subst s3(6), simp add: s1_def s0(1))+
  have hm: "mb_flags (higher_map (mem s) p) = mb_flags mb" "mmap_length (higher_map (mem s) p) = mmap_length mb"
    "mmap_addr (higher_map (mem s) p) = mmap_addr mb + 0xC0000000" by (simp_all add: higher_map_def mb_def Let_def)
  have v1: "vga_inv s1" "serial_fair s1" "vga_area s1 = screen_area s"
    using s0(2,3) r by (simp_all add: s1_def vga_inv_def vga_area_def) (simp add: s0(1) serial_fair_def)
  have "vga_area s1 \<inter> (region p 88 \<union> region (earlyalloc_buf s) 2048) = {}" using r v1(3) by (simp add: Int_Un_distrib)
  note screen = loader_keeps_screen [OF v1(1,2) s3(2) [folded f1(1)] this s3(6)]
  have "same_outside (screen_area s \<union> (region p 88 \<union> region (earlyalloc_buf s) 2048)) (mem s) (mem s3)"
    using s0(4) s3(2) by (simp add: same_outside_def)
  then have ready3: "boot_ready s3 es"
    by (rule loader_keeps_map [of s p, rotated]) (use r f3 s3(3-5) hm in \<open>simp_all add: Int_Un_distrib2 Int_commute\<close>)
  show ?thesis
  proof (rule that [OF _ screen(1) ready3])
    show "split_cmdline (load_mmap p (load_elf elf0 p (load_mods p (load_cmdline p
        (s0\<lparr>mboot := read_multiboot_info (mem s0) p\<rparr>))))) = Inr (take 256 (pieces CHR '' '' cl), s3)"
      using s3(1) mb by (simp add: s1_def s0(1))
  qed (use screen(2) v1(3) r s3(5) hm f3(7) in \<open>simp_all add: Int_commute\<close>)
qed

lemma loader_up:
  fixes k :: "_ ksys" and p :: u32
  defines "cl \<equiv> load_string (mem (dev k)) (cmdline_at (mem (dev k)) p)"
  assumes fs: "distinct fs" "set fs = platform_features isr irq h pf" and "set (consoles k) \<subseteq> {vga_console, serial_console}"
    and ready: "loader_ready (dev k) p es"
  shows "\<exists>fs' k'. loader enabled fs elf0 MULTIBOOT_BOOTLOADER_MAGIC p k =
      Inr (k', Some (process_args enabled (take 256 (pieces CHR '' '' cl)) False, fs')) \<and> devices_inv (dev k') \<and>
    (\<forall>n < 32. opens (idt (dev k') ! n) (isr n)) \<and> (\<forall>n < 16. opens (idt (dev k') ! (32 + n)) (irq n)) \<and>
    routine (IRQ_ISR 0) (dev k') = Inr h \<and> routine 14 (dev k') = Inr pf \<and>
    memory_up (dev k') \<and> get_interrupt_state (dev k') \<noteq> 0"
proof -
  obtain cons s0 where i: "vgaterm_init (consoles k) (dev k) = (cons, s0)" by (metis surj_pair)
  then have "cons = snd (console_register vga_console (consoles k))" by (simp add: vgaterm_init_def Let_def)
  then have cons: "set cons \<subseteq> {vga_console, serial_console}" using assms(4) by (auto simp: console_register_def)
  obtain s3 where s3: "split_cmdline (load_mmap p (load_elf elf0 p (load_mods p (load_cmdline p
        (s0\<lparr>mboot := read_multiboot_info (mem s0) p\<rparr>))))) = Inr (take 256 (pieces CHR '' '' cl), s3)"
    and ok: "devices_inv s3" "boot_ready s3 es" "mmap_area (mmap_addr (mboot s3)) es \<inter> vga_area s3 = {}"
    "vga_area s3 \<inter> region MMAP_PMM_BITMAP 0x1000000 = {}" "length (isr_routines s3) = 256"
    using loader_prepares [OF ready, of elf0 "consoles k"] i unfolding cl_def by (metis snd_conv)
  have "loader enabled fs elf0 MULTIBOOT_BOOTLOADER_MAGIC p k =
      bind_res (kmain enabled (take 256 (pieces CHR '' '' cl)) fs \<lparr>consoles = cons, dev = s3\<rparr>) (\<lambda>(KDEBUG, fs, k). Inr (k, Some (KDEBUG, fs)))"
    using s3 i by (simp add: loader_def Let_def)
  then show ?thesis
    using kmain_up [OF fs, of "\<lparr>consoles = cons, dev = s3\<rparr>" es enabled "take 256 (pieces CHR '' '' cl)", simplified ksys.simps,
        OF cons ok(1,5,2,3,4)] by auto
qed

section \<open>A boot loader that does not follow the protocol\<close>

lemma vgaterm_init_screen:
  fixes s :: platform
  assumes "region (term_backbuff s) 4000 \<inter> region VRAM_START 4000 = {}"
  shows "screen_of (snd (vgaterm_init cons s)) =
    \<lparr>cells = replicate 2000 (make_vgaentry CHR '' '' (make_color COLOR_LIGHT_GREY COLOR_BLACK)), col = 0, row = 0\<rparr>"
proof -
  let ?t = "s\<lparr>term_cursor_y := 0, term_cursor_x := 0, term_color := make_color COLOR_LIGHT_GREY COLOR_BLACK,
      term_frontbuff := VRAM_START\<rparr>"
  have "cells (screen_of (vgaterm_cls ?t)) = replicate 2000 (make_vgaentry CHR '' '' (make_color COLOR_LIGHT_GREY COLOR_BLACK))"
    using vgaterm_cls_spec [of ?t] assms by simp
  moreover have "term_cursor_x (vgaterm_cls ?t) = 0" "term_cursor_y (vgaterm_cls ?t) = 0" by (simp_all add: vgaterm_cls_def)
  moreover have "snd (vgaterm_init cons s) = vgaterm_cls ?t" by (simp add: vgaterm_init_def Let_def)
  ultimately show ?thesis by (simp add: screen_of_def)
qed

lemma loader_halts:
  fixes k :: "_ ksys"
  assumes "magic \<noteq> MULTIBOOT_BOOTLOADER_MAGIC" "region (term_backbuff (dev k)) 4000 \<inter> region VRAM_START 4000 = {}"
  shows "\<exists>k'. loader enabled fs elf0 magic p k = Inr (k', None) \<and>
    cells (screen_of (dev k')) =
      map (\<lambda>c. make_vgaentry c (make_color COLOR_LIGHT_RED COLOR_BLACK)) ''Failure (BADMAGIC)'' @
      replicate 1982 (make_vgaentry CHR '' '' (make_color COLOR_LIGHT_GREY COLOR_BLACK)) \<and>
    same_outside (screen_area (dev k)) (mem (dev k)) (mem (dev k'))"
proof -
  obtain cons s0 where i: "vgaterm_init (consoles k) (dev k) = (cons, s0)" by (metis surj_pair)
  obtain m where s0: "vga_inv s0" "vga_area s0 = screen_area (dev k)" "same_outside (screen_area (dev k)) (mem (dev k)) (mem s0)"
    by (rule vgaterm_init_spec [OF assms(2), of "consoles k"]) (simp add: i)
  let ?s = "vgaterm_setcolor (make_color COLOR_LIGHT_RED COLOR_BLACK) s0"
  have c: "vga_inv ?s" "vga_area ?s = vga_area s0" "screen_of ?s = screen_of s0" "mem ?s = mem s0"
    "term_color ?s = make_color COLOR_LIGHT_RED COLOR_BLACK"
    using s0(1) by (simp_all add: vgaterm_setcolor_def vga_inv_def vga_area_def screen_of_def)
  obtain s' where s': "vgaterm_writestring ''Failure (BADMAGIC)'' ?s = Inr s'" "vga_step ?s s'"
    "screen_of s' = fold (screen_put (make_color COLOR_LIGHT_RED COLOR_BLACK)) ''Failure (BADMAGIC)'' (screen_of s0)"
    using vgaterm_writestring_spec [OF c(1), of "''Failure (BADMAGIC)''"] c(3,5) by auto
  have "screen_of s0 = \<lparr>cells = replicate 2000 (make_vgaentry CHR '' '' (make_color COLOR_LIGHT_GREY COLOR_BLACK)), col = 0, row = 0\<rparr>"
    using vgaterm_init_screen [OF assms(2), of "consoles k"] i by simp
  from s'(3) [unfolded this] have "cells (screen_of s') =
      map (\<lambda>c. make_vgaentry c (make_color COLOR_LIGHT_RED COLOR_BLACK)) ''Failure (BADMAGIC)'' @
      replicate 1982 (make_vgaentry CHR '' '' (make_color COLOR_LIGHT_GREY COLOR_BLACK))"
    by (subst (asm) screen_line) simp_all
  moreover have "same_outside (screen_area (dev k)) (mem s0) (mem s')" using s'(2) c s0(2) by (auto simp: vga_step_def)
  ultimately show ?thesis
    using s'(1) i assms(1) same_outside_trans [OF s0(3)] by (simp add: loader_def)
qed

end
