(* ===== verification/Loader_Demo.thy ===== *)
theory Loader_Demo
  imports Boot_Demo Loader_Run
begin

text \<open>
  The machine of \<open>Boot_Demo\<close> as the boot loader hands it over: its information structure at
  \<open>0xC000A000\<close>, with the flags for the memory sizes and the command line, and the command line at
  \<open>0xC0008000\<close>.
\<close>

section \<open>The store\<close>

definition demo_cmdline :: string where
  "demo_cmdline = ''debug quiet''"

lemma demo_cmdline_length: "length demo_cmdline = 11"
  by (simp add: demo_cmdline_def)

definition loader_mem :: mem where
  "loader_mem = store_chars (store32 (store32 (store32 (store32 boot_mem
     0xC000A000 5) 0xC000A010 0x8000) 0xC000A02C 48) 0xC000A030 0x9000) 0xC0008000 demo_cmdline"

definition loader_platform :: platform where
  "loader_platform = demo_platform\<lparr>mem := loader_mem\<rparr>"

definition loader_ksys where
  "loader_ksys = \<lparr>consoles = [], dev = loader_platform\<rparr>"

section \<open>Reading it\<close>

lemma load_chars_stored:
  "(\<And>k. k < length cs \<Longrightarrow> char_of (unat (m (p + of_nat k))) = cs ! k \<and> m (p + of_nat k) \<noteq> 0) \<Longrightarrow>
    m (p + of_nat (length cs)) = 0 \<Longrightarrow> length cs < n \<Longrightarrow> load_chars n m p = cs"
proof (induction cs arbitrary: p n)
  case Nil
  then show ?case by (cases n) simp_all
next
  case (Cons c cs)
  obtain n' where n: "n = Suc n'" "length cs < n'" using Cons.prems(3) by (cases n) simp_all
  have "load_chars n' m (p + 1) = cs"
  proof (rule Cons.IH)
    fix k assume "k < length cs"
    then show "char_of (unat (m (p + 1 + of_nat k))) = cs ! k \<and> m (p + 1 + of_nat k) \<noteq> 0"
      using Cons.prems(1) [of "Suc k"] by (simp add: algebra_simps)
  qed (use Cons.prems(2) n in \<open>simp_all add: algebra_simps\<close>)
  then show ?case using Cons.prems(1) [of 0] n(1) by simp
qed

lemma loader_mem_outside:
  "same_outside (region 0xC000A000 88 \<union> region 0xC0008000 11) boot_mem loader_mem"
proof -
  let ?i = "region 0xC000A000 88"
  have w: "same_outside ?i m (store32 m (0xC000A000 + of_nat k) v)" if "k \<le> 84" for k m v
    by (rule same_outside_mono [OF store32_same_outside info_field [OF that]])
  note w' = w [of 0, simplified] w [of 16, simplified] w [of 44, simplified] w [of 48, simplified]
  have "same_outside ?i boot_mem (store32 (store32 (store32 (store32 boot_mem
     0xC000A000 5) 0xC000A010 0x8000) 0xC000A02C 48) 0xC000A030 0x9000)"
    by (intro same_outside_trans [OF same_outside_trans [OF same_outside_trans [OF w'(1) w'(2)] w'(3)] w'(4)])
  moreover have "same_outside (region 0xC0008000 11) m (store_chars m 0xC0008000 demo_cmdline)" for m
    using store_chars_outside [of "0xC0008000" demo_cmdline m] by (simp add: demo_cmdline_length)
  ultimately show ?thesis
    unfolding loader_mem_def by (simp add: same_outside_def)
qed

lemma demo_regions:
  "region 0xC0008000 12 \<inter> region 0xC000A000 88 = {}" "region 0xC0008000 12 \<inter> region 0xC0130000 2048 = {}"
  "region 0xC000A000 88 \<inter> region 0xC0130000 2048 = {}" "region 0xC0009000 48 \<inter> region 0xC000A000 88 = {}"
  "region 0xC0008000 12 \<inter> region 0xC0009000 48 = {}" "region 0xC0009000 48 \<inter> region 0xC0130000 2048 = {}"
  "region 0xC0130000 2048 \<inter> region 0xC0200000 4000 = {}" "region 0xC00B8000 4000 \<inter> region 0xC0130000 2048 = {}"
  "region 0xC0008000 12 \<inter> region 0xC0200000 4000 = {}" "region 0xC0008000 12 \<inter> region 0xC00B8000 4000 = {}"
  "region 0xC000A000 88 \<inter> region 0xC0200000 4000 = {}" "region 0xC000A000 88 \<inter> region 0xC00B8000 4000 = {}"
  "region 0xC0009000 48 \<inter> region 0xC0200000 4000 = {}" "region 0xC0009000 48 \<inter> region 0xC00B8000 4000 = {}"
  "region 0xC00B8000 4000 \<inter> region 0xC0200000 4000 = {}" "region 0xC0200000 4000 \<inter> region 0xFE800000 0x1000000 = {}"
  "region 0xC00B8000 4000 \<inter> region 0xFE800000 0x1000000 = {}"
  by (rule far_apart; simp)+

lemmas demo_apart = demo_regions demo_regions [THEN trans [OF Int_commute]]

lemma boot_mem_0: "a \<notin> region 0xC0009000 48 \<Longrightarrow> boot_mem a = 0"
  using boot_mem_zero by (simp add: same_outside_def)

lemma loader_info:
  defines "mb \<equiv> read_multiboot_info loader_mem 0xC000A000"
  shows "mb_flags mb = 5" "mb_cmdline mb = 0x8000" "mods_count mb = 0" "elf_num (elf_sec mb) = 0" "mmap_length mb = 48" "mmap_addr mb = 0x9000"
proof -
  have ld: "load32 loader_mem (0xC000A000 + of_nat k) = load32 (store32 (store32 (store32 (store32 boot_mem
     0xC000A000 5) 0xC000A010 0x8000) 0xC000A02C 48) 0xC000A030 0x9000) (0xC000A000 + of_nat k)" if "k \<le> 84" for k
    unfolding loader_mem_def
  proof (rule load32_frame [OF store_chars_outside])
    show "region (0xC000A000 + of_nat k) 4 \<inter> region 0xC0008000 (length demo_cmdline) = {}"
      unfolding demo_cmdline_length using info_field [OF that, of "0xC000A000"] demo_regions(1) region_mono [of 11 12 "0xC0008000"] by auto
  qed
  have z: "load32 boot_mem (0xC000A000 + of_nat k) = 0" if "k \<le> 84" for k
  proof -
    have "load32 boot_mem (0xC000A000 + of_nat k) = load32 (\<lambda>_. 0) (0xC000A000 + of_nat k)"
      by (rule load32_frame [OF boot_mem_zero]) (use info_field [OF that, of "0xC000A000"] demo_regions(4) in auto)
    then show ?thesis by (simp add: load32_def)
  qed
  show "mb_flags mb = 5" "mb_cmdline mb = 0x8000" "mods_count mb = 0" "elf_num (elf_sec mb) = 0" "mmap_length mb = 48" "mmap_addr mb = 0x9000"
    using ld [of 0] ld [of 16] ld [of 20] ld [of 28] ld [of 44] ld [of 48] z [of 20] z [of 28]
    by (simp_all add: mb_def read_multiboot_info_def read_elf_sec_def load32_apart)
qed


lemma store_chars_nth:
  "k < length cs \<Longrightarrow> length cs \<le> 4294967296 \<Longrightarrow> store_chars m p cs (p + of_nat k) = of_char (cs ! k)"
proof (induction m p cs arbitrary: k rule: store_chars.induct)
  case (2 m p c cs)
  show ?case
  proof (cases k)
    case 0
    have "p \<notin> region (p + 1) (length cs)"
    proof
      assume "p \<in> region (p + 1) (length cs)"
      then obtain j where "p = p + 1 + of_nat j" "j < length cs" by (auto simp: region_def)
      then have "(of_nat (Suc j) :: u32) = 0" by (simp add: algebra_simps)
      then have "unat (of_nat (Suc j) :: u32) = 0" by (simp only: unat_0)
      moreover have "Suc j < 4294967296" using 2(3) \<open>j < length cs\<close> by simp
      ultimately show False by (simp only: unat_of_nat_u32)
    qed
    then show ?thesis using 0 by (simp add: store_chars_other)
  next
    case (Suc j)
    have "store_chars (m(p := of_char c)) (p + 1) cs (p + 1 + of_nat j) = of_char (cs ! j)"
      by (rule "2.IH") (use Suc "2.prems" in simp_all)
    then show ?thesis using Suc by (simp add: add.assoc)
  qed
qed simp

lemma loader_cmdline: "load_string loader_mem 0xC0008000 = demo_cmdline"
  unfolding load_string_def
proof (rule load_chars_stored)
  fix k assume k: "k < length demo_cmdline"
  have "loader_mem (0xC0008000 + of_nat k) = of_char (demo_cmdline ! k)"
    unfolding loader_mem_def by (rule store_chars_nth) (use k in \<open>simp_all add: demo_cmdline_length\<close>)
  moreover have "demo_cmdline ! k \<in> set demo_cmdline" using k by simp
  then have "(of_char (demo_cmdline ! k) :: u8) \<noteq> 0" by (auto simp: demo_cmdline_def)
  moreover have "unat (of_char c :: u8) = of_char c" for c :: char
  proof -
    have "(of_char c :: u8) = of_nat (of_char c)" by (cases c) (simp add: of_char_def)
    then show ?thesis by (simp only: unsigned_of_nat take_bit_eq_mod) simp
  qed
  then have "char_of (unat (of_char c :: u8)) = c" for c :: char by simp
  ultimately show "char_of (unat (loader_mem (0xC0008000 + of_nat k))) = demo_cmdline ! k \<and> loader_mem (0xC0008000 + of_nat k) \<noteq> 0"
    by simp
next
  have b: "0xC000800B \<in> region 0xC0008000 12" using region_memI [of 11 12 "0xC0008000"] by simp
  have "0xC000800B \<notin> region 0xC0008000 11"
    using region_disjoint_offset [of 0 11 11 1 "0xC0008000"] region_memI [of 0 1 "0xC000800B"] by auto
  then have "loader_mem 0xC000800B = boot_mem 0xC000800B"
    using loader_mem_outside b demo_regions(1) by (auto simp: same_outside_def)
  also have "\<dots> = 0" using b demo_regions(5) by (intro boot_mem_0) auto
  finally show "loader_mem (0xC0008000 + of_nat (length demo_cmdline)) = 0" by (simp add: demo_cmdline_length)
qed (simp add: demo_cmdline_length)

section \<open>The state as a whole\<close>

lemma loader_demo_ready: "loader_ready loader_platform 0xC000A000 demo_map"
proof -
  have f: "mem loader_platform = loader_mem" "earlyalloc_buf loader_platform = 0xC0130000" "earlyalloc_idx loader_platform = 0"
    "term_backbuff loader_platform = 0xC0200000" "length (isr_routines loader_platform) = 256"
    by (simp_all add: loader_platform_def demo_platform_def no_routines_def)
  have cm: "cmdline_at loader_mem 0xC000A000 = 0xC0008000" by (simp add: cmdline_at_def loader_info)
  have hm: "mb_flags (higher_map loader_mem 0xC000A000) = 5" "mmap_addr (higher_map loader_mem 0xC000A000) = 0xC0009000"
    "mmap_length (higher_map loader_mem 0xC000A000) = 48"
    by (simp_all add: higher_map_def Let_def loader_info)
  have area: "screen_area loader_platform = region 0xC0200000 4000 \<union> region 0xC00B8000 4000"
    by (simp add: screen_area_def f VRAM_START_def)
  have "mmap_area 0xC0009000 demo_map = region 0xC0009000 24 \<union> region 0xC0009018 24" by (simp add: demo_map_def)
  moreover have "region 0xC0009000 24 \<subseteq> region 0xC0009000 48" "region 0xC0009018 24 \<subseteq> region 0xC0009000 48"
    using region_mono [of 24 48 "0xC0009000"] region_sub [of 24 24 48 "0xC0009000"] by simp_all
  ultimately have map: "mmap_area 0xC0009000 demo_map \<subseteq> region 0xC0009000 48" by auto
  then have map_apart: "region 0xC0009000 48 \<inter> A = {} \<Longrightarrow> A \<inter> mmap_area 0xC0009000 demo_map = {} \<and> mmap_area 0xC0009000 demo_map \<inter> A = {}" for A by blast
  have "serial_fair loader_platform" using demo_devices by (simp add: devices_inv_def serial_fair_def loader_platform_def)
  moreover have "info_fits loader_platform 0xC000A000"
    unfolding info_fits_def Let_def f cm loader_cmdline demo_cmdline_length
    using demo_regions by (simp add: loader_info buf_ok_def f MULTIBOOT_INFO_CMDLINE_def MULTIBOOT_INFO_MEMORY_def)
  moreover have "boot_ready (loader_platform\<lparr>mboot := higher_map loader_mem 0xC000A000\<rparr>) demo_map"
  proof -
    have eq: "loader_mem a = boot_mem a" if "a \<in> mmap_area 0xC0009000 demo_map" for a
    proof -
      have "a \<in> region 0xC0009000 48" "region 0xC0008000 11 \<subseteq> region 0xC0008000 12" using map that region_mono by auto
      then have "a \<notin> region 0xC000A000 88 \<union> region 0xC0008000 11" using demo_regions(4,5) by blast
      then show ?thesis using loader_mem_outside by (simp add: same_outside_def)
    qed
    have "mmap_lists loader_mem 0xC0009030 0xC0009000 demo_map" by (rule mmap_lists_cong [OF demo_map_lists eq])
    moreover have pde: "pde (loader_platform\<lparr>mboot := x\<rparr>) = pde demo_platform" for x
      by (rule pde_cong) (simp_all add: loader_platform_def)
    ultimately show ?thesis
      using demo_ready(1) unfolding boot_ready_def boot_tables_def pde
      by (simp add: hm loader_platform_def MULTIBOOT_INFO_MEMORY_def)
  qed
  ultimately show ?thesis
    unfolding loader_ready_def f cm loader_cmdline demo_cmdline_length hm area MMAP_PMM_BITMAP_def VRAM_START_def
    by (intro conjI) (simp_all add: Int_Un_distrib2 demo_apart map_apart)
qed

end
