(* ===== verification/Vmm_Clone.thy ===== *)
theory Vmm_Clone
  imports Vmm_Init
begin

text \<open>
  \<^verbatim>\<open>clone_address_space\<close> of \<^verbatim>\<open>arch/x86/vmm.c\<close>: a new page directory is entered in the second window of the
  current one and filled, table by table, through the two windows.
\<close>

section \<open>The operation\<close>

definition IS_KERNEL_ADDR :: "u32 \<Rightarrow> bool" where
  "IS_KERNEL_ADDR x \<longleftrightarrow> MMAP_KERNEL_START \<le> x"

text \<open>The loop over the entries of a page table, from \<open>j\<close> with \<open>n\<close> to go.\<close>

fun clone_entries :: "bool \<Rightarrow> bool \<Rightarrow> u32 \<Rightarrow> nat \<Rightarrow> nat \<Rightarrow> 'a vmm_scheme \<Rightarrow> 'a vmm_scheme res" where
  "clone_entries make_cow is_user i j 0 s = Inr s"
| "clone_entries make_cow is_user i j (Suc n) s =
     (let d_pte = PAGE_TABLE_ENTRY RPDT_BASE2 (i + of_nat j * PAGE_SIZE);
          s_pte = PAGE_TABLE_ENTRY RPDT_BASE (i + of_nat j * PAGE_SIZE)
      in bind_res (if make_cow \<and> is_user
                   then bind_res (vread s s_pte) (\<lambda>x.
                        if x AND X86_WRITE \<noteq> 0 then vwrite s d_pte ((x AND NOT X86_WRITE) OR X86_COW) else Inr s)
                   else Inr s)
           (clone_entries make_cow is_user i (Suc j) n))"

text \<open>The loop over the directory. The result of \<^verbatim>\<open>alloc_page\<close> is cut to 32 bits and not looked at.\<close>

function clone_tables :: "bool \<Rightarrow> u32 \<Rightarrow> 'a vmm_scheme \<Rightarrow> 'a vmm_scheme res" where
  "clone_tables make_cow i s =
     (if i < MMAP_KERNEL_END
      then bind_res (vread s (PAGE_DIR_ENTRY RPDT_BASE i)) (\<lambda>x.
           bind_res (vwrite s (PAGE_DIR_ENTRY RPDT_BASE2 i) x) (\<lambda>s1.
           let is_user = \<not> IS_KERNEL_ADDR (PAGE_TABLE_SIZE * i)
           in bind_res (vread s1 (PAGE_DIR_ENTRY RPDT_BASE i)) (\<lambda>x.
              bind_res
                (if x AND X86_PRESENT \<noteq> 0 \<and> is_user
                 then bind_res (alloc_page s1 PAGE_REQ_UNDER4GB) (\<lambda>(p2, s2).
                      bind_res (vwrite s2 (PAGE_DIR_ENTRY RPDT_BASE2 i)
                          (ucast p2 OR X86_WRITE OR X86_USER OR X86_PRESENT)) (\<lambda>s3.
                      clone_entries make_cow is_user i 0 1024 s3))
                 else Inr s1)
                (clone_tables make_cow (i + PAGE_TABLE_SIZE)))))
      else Inr s)"
  by pat_completeness auto
termination
proof (relation "measure (\<lambda>(make_cow, i, s). 0xFF800000 - unat i)", goal_cases)
  case (2 make_cow i s x s1 is_user y s')
  then have "unat i < 0xFF800000" by (simp add: MMAP_KERNEL_END_def word_less_nat_alt)
  then show ?case by (simp add: unat_word_ariths PAGE_TABLE_SIZE_def PAGE_SIZE_def)
qed simp

declare clone_tables.simps [simp del]

definition clone_address_space ::
    "'a vmm_scheme \<Rightarrow> address_space \<Rightarrow> bool \<Rightarrow> (int \<times> address_space \<times> 'a vmm_scheme) res" where
  "clone_address_space s dest make_cow =
     bind_res (spinlock_acquire s (global_vmm_lock s)) (\<lambda>(s1, l).
     bind_res (alloc_page (s1\<lparr>global_vmm_lock := l\<rparr>) PAGE_REQ_NONE) (\<lambda>(p64, s2).
     let p = ucast p64 :: u32;
         dest = \<lparr>directory = p, as_lock = spinlock_init (as_lock dest)\<rparr>;
         base_addr = PAGE_TABLE_ENTRY RPDT_BASE2 0;
         base_dir_addr = PAGE_DIR_ENTRY RPDT_BASE2 0
     in bind_res (vwrite s2 (PAGE_DIR_ENTRY RPDT_BASE base_addr) (p OR X86_WRITE OR X86_PRESENT)) (\<lambda>s3.
        bind_res (vwrite s3 (PAGE_TABLE_ENTRY RPDT_BASE base_dir_addr) (p OR X86_WRITE OR X86_PRESENT)) (\<lambda>s4.
        bind_res (clone_tables make_cow 0 s4) (\<lambda>s5.
        bind_res (spinlock_release s5 (global_vmm_lock s5)) (\<lambda>(s6, l).
          Inr (0, dest, s6\<lparr>global_vmm_lock := l\<rparr>)))))))"

section \<open>Every table counts as a user table\<close>

text \<open>
  The product that is meant to be the address of the table wraps around to 0, at every multiple of
  4MB.
\<close>

lemma clone_is_user:
  assumes "unat i mod 4194304 = 0"
  shows "\<not> IS_KERNEL_ADDR (PAGE_TABLE_SIZE * i)"
proof -
  obtain q where "unat i = 4194304 * q" using assms by (auto simp: mod_eq_0_iff_dvd elim: dvdE)
  then have "unat (PAGE_TABLE_SIZE * i) = 0"
    by (simp add: PAGE_TABLE_SIZE_def PAGE_SIZE_def unat_word_ariths)
  then show ?thesis by (simp add: IS_KERNEL_ADDR_def MMAP_KERNEL_START_def word_le_nat_alt)
qed

section \<open>The second window\<close>

lemma unat_PAGE_TABLE_ENTRY2:
  "unat (PAGE_TABLE_ENTRY RPDT_BASE2 v) = 4286578688 + 4096 * pd_index v + 4 * pt_index v"
proof -
  have "PAGE_TABLE_ENTRY RPDT_BASE2 v + 4194304 = PAGE_TABLE_ENTRY RPDT_BASE v"
    by (simp add: PAGE_TABLE_ENTRY_def RPDT_BASE_def RPDT_BASE2_def PAGE_TABLE_SIZE_def PAGE_SIZE_def)
  then have "PAGE_TABLE_ENTRY RPDT_BASE2 v = PAGE_TABLE_ENTRY RPDT_BASE v - 4194304" by (simp add: eq_diff_eq)
  then show ?thesis
    using unat_PAGE_TABLE_ENTRY [of v] by (simp add: unat_sub word_le_nat_alt)
qed

lemma unat_PAGE_DIR_ENTRY2:
  "unat (PAGE_DIR_ENTRY RPDT_BASE2 v) = 4286578688 + 4096 * 1023 + 4 * pd_index v"
proof -
  have "PAGE_DIR_ENTRY RPDT_BASE2 v + 4194304 = PAGE_DIR_ENTRY RPDT_BASE v"
    by (simp add: PAGE_DIR_ENTRY_def RPDT_BASE_def RPDT_BASE2_def PAGE_TABLE_SIZE_def PAGE_SIZE_def)
  then have "PAGE_DIR_ENTRY RPDT_BASE2 v = PAGE_DIR_ENTRY RPDT_BASE v - 4194304" by (simp add: eq_diff_eq)
  then show ?thesis
    using unat_PAGE_DIR_ENTRY [of v] by (simp add: unat_sub word_le_nat_alt)
qed

lemma window2_indices:
  assumes "unat a = 4286578688 + 4096 * k + 4 * e" "k < 1024" "e < 1024"
  shows "pd_index a = 1022" "pt_index a = k" "unat (a AND 0xFFF) = 4 * e"
proof -
  show "pd_index a = 1022" using assms by (simp add: pd_index_def)
  have "unat a div 4096 = 1046528 + k" using assms by simp
  then show "pt_index a = k" using assms(2) by (simp add: pt_index_def mod_add_eq [symmetric])
  have "unat a = 4 * e + 4096 * (1046528 + k)" using assms(1) by simp
  then have "unat a mod 4096 = 4 * e" using assms(3) by (simp only: mod_mult_self2) simp
  then show "unat (a AND 0xFFF) = 4 * e" by (simp add: and_fff_mod)
qed

text \<open>\<open>dir_entry s k\<close> is entry \<open>k\<close> of the directory in the second window.\<close>

definition dir_entry :: "'a machine_scheme \<Rightarrow> nat \<Rightarrow> u32" where
  "dir_entry s k = ptmem s (entry_addr (pde s 1022) k)"

lemma vwrite_window2:
  assumes "present (pde s 1022)" "writable (pde s 1022)" "present (dir_entry s k)" "writable (dir_entry s k)"
    "unat a = 4286578688 + 4096 * k + 4 * e" "k < 1024" "e < 1024"
  shows "vwrite s a x = Inr (s\<lparr>ptmem := (ptmem s)(entry_addr (dir_entry s k) e := x)\<rparr>)"
proof -
  note w = window2_indices [OF assms(5-7)]
  have "mmu_translate s True a = Some (entry_addr (dir_entry s k) e)"
    using assms(1-4) unfolding mmu_translate_def w(1,2) add_window_offset [OF w(3)] Let_def
    by (simp add: pde_def dir_entry_def)
  then show ?thesis by (simp add: vwrite_def)
qed

lemma table_page:
  assumes "i = of_nat (k * 4194304)" "k < 1024" "e < 1024"
  defines "v \<equiv> i + of_nat e * PAGE_SIZE :: u32"
  shows "pd_index v = k" "pt_index v = e" "vpn v = k * 1024 + e"
proof -
  have "v = of_nat (k * 4194304 + e * 4096)" by (simp add: v_def PAGE_SIZE_def assms(1))
  then have u: "unat v = k * 4194304 + e * 4096" using assms(2,3) by (simp only:) (subst unat_of_nat_u32; simp)
  then have "vpn v = (k * 1024 + e) * 4096 div 4096" by (simp only: vpn_def) (simp add: algebra_simps)
  then show vpn: "vpn v = k * 1024 + e" by simp
  show "pd_index v = k" "pt_index v = e"
    using vpn_div [of v] assms(3) by (simp_all only: vpn) simp_all
qed

text \<open>The source table, the destination table and both directories are apart.\<close>

definition clone_ready :: "'a machine_scheme \<Rightarrow> nat \<Rightarrow> bool" where
  "clone_ready s k \<longleftrightarrow> rec_ok s \<and> k < 1022 \<and> present (pde s k) \<and> present (pde s 1022) \<and> writable (pde s 1022) \<and>
     present (dir_entry s k) \<and> writable (dir_entry s k) \<and>
     frame (dir_entry s k) \<notin> {frame (cr3 s), frame (pde s 1022), frame (pde s k)}"

definition cow_entry :: "u32 \<Rightarrow> u32" where
  "cow_entry x = (x AND NOT X86_WRITE) OR X86_COW"

lemma clone_entry_write:
  fixes x :: u32
  assumes "clone_ready s k" "e < 1024"
  defines "s' \<equiv> s\<lparr>ptmem := (ptmem s)(entry_addr (dir_entry s k) e := x)\<rparr>"
  shows "clone_ready s' k" "dir_entry s' k = dir_entry s k" "\<And>j. j < 1024 \<Longrightarrow> pde s' j = pde s j"
    "\<And>j. j < 1024 \<Longrightarrow> ptmem s' (entry_addr (pde s k) j) = ptmem s (entry_addr (pde s k) j)"
proof -
  note c = assms(1) [unfolded clone_ready_def]
  show p: "\<And>j. j < 1024 \<Longrightarrow> pde s' j = pde s j"
    unfolding s'_def using c assms(2) by (intro pde_table_write) auto
  show d: "dir_entry s' k = dir_entry s k"
    using c assms(2) unfolding dir_entry_def by (simp add: p) (simp add: s'_def entry_addr_eq dir_entry_def)
  show "\<And>j. j < 1024 \<Longrightarrow> ptmem s' (entry_addr (pde s k) j) = ptmem s (entry_addr (pde s k) j)"
    using c assms(2) by (simp add: s'_def entry_addr_eq)
  have "cr3 s' = cr3 s" by (simp add: s'_def)
  moreover have "rec_ok s'" unfolding s'_def using c assms(2) by (intro rec_ok_table_write) auto
  ultimately show "clone_ready s' k" using c p d by (simp add: clone_ready_def)
qed

lemma clone_entries_spec:
  assumes "clone_ready s k" "j + n \<le> 1024" "i = of_nat (k * 4194304)"
  shows "\<exists>s'. clone_entries make_cow True i j n s = Inr s' \<and> s' = s\<lparr>ptmem := ptmem s'\<rparr> \<and>
    (\<forall>e. j \<le> e \<and> e < j + n \<longrightarrow> ptmem s' (entry_addr (dir_entry s k) e) =
       (let x = ptmem s (entry_addr (pde s k) e)
        in if make_cow \<and> writable x then cow_entry x else ptmem s (entry_addr (dir_entry s k) e))) \<and>
    (\<forall>a. a \<notin> entry_addr (dir_entry s k) ` {j..<j + n} \<longrightarrow> ptmem s' a = ptmem s a)"
  using assms(1,2)
proof (induction n arbitrary: s j)
  case 0
  then show ?case by (intro exI [of _ s]) auto
next
  case (Suc n)
  note c = Suc.prems(1) [unfolded clone_ready_def]
  let ?v = "i + of_nat j * PAGE_SIZE"
  let ?x = "ptmem s (entry_addr (pde s k) j)" and ?t = "dir_entry s k"
  have kj: "k < 1024" "j < 1024" using c Suc.prems(2) by simp_all
  note v = table_page [OF assms(3) kj]
  define s1 where "s1 = (if make_cow \<and> writable ?x then s\<lparr>ptmem := (ptmem s)(entry_addr ?t j := cow_entry ?x)\<rparr> else s)"
  have rd: "vread s (PAGE_TABLE_ENTRY RPDT_BASE ?v) = Inr ?x"
    using vread_pte [of s ?v] c kj by (simp only: v pte_def) simp
  have wr: "vwrite s (PAGE_TABLE_ENTRY RPDT_BASE2 ?v) y = Inr (s\<lparr>ptmem := (ptmem s)(entry_addr ?t j := y)\<rparr>)" for y
    by (rule vwrite_window2) (use c kj unat_PAGE_TABLE_ENTRY2 [of ?v] in \<open>simp_all add: v\<close>)
  have step: "clone_entries make_cow True i j (Suc n) s =
      clone_entries make_cow True i (Suc j) n s1"
    using rd wr by (simp add: s1_def cow_entry_def Let_def)
  have s1: "clone_ready s1 k" "dir_entry s1 k = ?t" "pde s1 k = pde s k"
    "\<And>e. e < 1024 \<Longrightarrow> ptmem s1 (entry_addr (pde s k) e) = ptmem s (entry_addr (pde s k) e)"
    using clone_entry_write [OF Suc.prems(1) kj(2)] Suc.prems(1) kj by (simp_all add: s1_def)
  have pt1: "ptmem s1 a = (if a = entry_addr ?t j \<and> make_cow \<and> writable ?x then cow_entry ?x else ptmem s a)" for a
    by (simp add: s1_def)
  obtain s' where s': "clone_entries make_cow True i (Suc j) n s1 = Inr s'" "s' = s1\<lparr>ptmem := ptmem s'\<rparr>"
    and new: "\<And>e. Suc j \<le> e \<Longrightarrow> e < Suc j + n \<Longrightarrow> ptmem s' (entry_addr ?t e) =
       (let x = ptmem s1 (entry_addr (pde s k) e)
        in if make_cow \<and> writable x then cow_entry x else ptmem s1 (entry_addr ?t e))"
    and old: "\<And>a. a \<notin> entry_addr ?t ` {Suc j..<Suc j + n} \<Longrightarrow> ptmem s' a = ptmem s1 a"
    using Suc.IH [OF s1(1), of "Suc j"] Suc.prems(2) unfolding s1(2,3) by auto
  have ne: "entry_addr ?t j \<notin> entry_addr ?t ` {Suc j..<Suc j + n}"
    using Suc.prems(2) by (auto simp: entry_addr_eq)
  have "ptmem s' (entry_addr ?t e) = (let x = ptmem s (entry_addr (pde s k) e)
      in if make_cow \<and> writable x then cow_entry x else ptmem s (entry_addr ?t e))" if "j \<le> e" "e < j + Suc n" for e
  proof (cases "e = j")
    case True
    then show ?thesis using old [OF ne] pt1 by (simp add: Let_def)
  next
    case False
    then have "Suc j \<le> e" "e < Suc j + n" "e < 1024" "entry_addr ?t e \<noteq> entry_addr ?t j"
      using that Suc.prems(2) by (auto simp: entry_addr_eq)
    then show ?thesis using new [of e] s1(4) [of e] pt1 [of "entry_addr ?t e"] by (simp add: Let_def)
  qed
  moreover have "ptmem s' a = ptmem s a" if "a \<notin> entry_addr ?t ` {j..<j + Suc n}" for a
  proof -
    have "a \<noteq> entry_addr ?t j" "a \<notin> entry_addr ?t ` {Suc j..<Suc j + n}" using that by auto
    then show ?thesis using old pt1 by simp
  qed
  moreover have "s' = s\<lparr>ptmem := ptmem s'\<rparr>" by (subst s'(2)) (simp add: s1_def)
  ultimately show ?case using step s'(1) by (intro exI [of _ s']) simp
qed

section \<open>One directory entry\<close>

text \<open>A new directory is in the second window and maps itself.\<close>

definition clone_open :: "'a vmm_scheme \<Rightarrow> bool" where
  "clone_open s \<longleftrightarrow> vm_core s \<and> present (pde s 1022) \<and> writable (pde s 1022) \<and> dir_entry s 1023 = pde s 1022"

lemma clone_openD:
  assumes "clone_open s"
  shows "rec_ok s" "pmm_inv s" "tables_ok s" "frame (pde s 1022) \<noteq> frame (cr3 s)"
    "k < 1022 \<Longrightarrow> present (pde s k) \<Longrightarrow> frame (pde s k) \<noteq> frame (pde s 1022) \<and> frame (pde s k) \<notin> pmm_frames s"
    "frame (pde s 1022) \<notin> pmm_frames s" "frame (cr3 s) \<notin> pmm_frames s"
proof -
  have c: "vm_core s" "present (pde s 1022)" using assms by (simp_all add: clone_open_def)
  show t: "rec_ok s" "pmm_inv s" "tables_ok s" using c(1) tables_okD(1) by (auto simp: vm_core_def)
  show "frame (pde s 1022) \<noteq> frame (cr3 s)" using tables_okD(3) [OF t(3), of 1022] c(2) by simp
  have apart: "table_frames s \<inter> pmm_frames s = {}" using c(1) by (simp add: vm_core_def)
  have "frame (pde s 1022) \<in> table_frames s" "frame (cr3 s) \<in> table_frames s"
    using c(2) unfolding table_frames_def by (intro insertI2 image_eqI [of _ _ 1022]) simp_all
  then show "frame (pde s 1022) \<notin> pmm_frames s" "frame (cr3 s) \<notin> pmm_frames s" using apart by auto
  assume k: "k < 1022" "present (pde s k)"
  then have "frame (pde s k) \<in> table_frames s" by (auto simp: table_frames_def)
  moreover have "own_table 1022" by (simp add: own_table_def)
  ultimately show "frame (pde s k) \<noteq> frame (pde s 1022) \<and> frame (pde s k) \<notin> pmm_frames s"
    using apart tables_okD(4) [OF t(3), of k 1022] k c(2) by auto
qed

lemma clone_open_cong:
  assumes "clone_open s" "mem t = mem s" "allocators t = allocators s" "pmm_lock t = pmm_lock s" "cr3 t = cr3 s"
    "\<And>k. k < 1024 \<Longrightarrow> pde t k = pde s k" "dir_entry t 1023 = dir_entry s 1023"
  shows "clone_open t"
proof -
  note p = pmm_cong [OF assms(2-4)]
  have "table_frames t = table_frames s"
    unfolding table_frames_def assms(5) by (rule arg_cong [where f = "insert _"]) (auto simp: assms(6) intro!: image_eqI)
  then show ?thesis
    using assms(1,5-7) p unfolding clone_open_def vm_core_def tables_ok_def rec_ok_def by simp
qed

lemma clone_dir_write:
  fixes y :: u32
  assumes "clone_open s" "k < 1022"
  defines "s' \<equiv> s\<lparr>ptmem := (ptmem s)(entry_addr (pde s 1022) k := y)\<rparr>"
  shows "pd_index v = k \<Longrightarrow> vwrite s (PAGE_DIR_ENTRY RPDT_BASE2 v) y = Inr s'"
    "\<And>j. j < 1024 \<Longrightarrow> pde s' j = pde s j" "\<And>j. j < 1024 \<Longrightarrow> dir_entry s' j = (if j = k then y else dir_entry s j)"
    "clone_open s'"
proof -
  note o = clone_openD [OF assms(1)]
  have d: "dir_entry s 1023 = pde s 1022" "present (pde s 1022)" "writable (pde s 1022)" using assms(1) by (simp_all add: clone_open_def)
  have k: "k < 1024" using assms(2) by simp
  show "vwrite s (PAGE_DIR_ENTRY RPDT_BASE2 v) y = Inr s'" if "pd_index v = k"
    using vwrite_window2 [of s 1023, OF d(2,3) _ _ unat_PAGE_DIR_ENTRY2 [of v]] d that k
    by (simp add: s'_def)
  show p: "\<And>j. j < 1024 \<Longrightarrow> pde s' j = pde s j"
    unfolding s'_def by (rule pde_table_write [OF _ k o(4)])
  show e: "\<And>j. j < 1024 \<Longrightarrow> dir_entry s' j = (if j = k then y else dir_entry s j)"
    unfolding dir_entry_def by (simp add: p) (simp add: s'_def entry_addr_eq k)
  show "clone_open s'"
    by (rule clone_open_cong [OF assms(1)]) (use p e assms(2) in \<open>simp_all add: s'_def [symmetric]\<close>, simp_all add: s'_def)
qed

lemma frame_entry_addr: "e < 1024 \<Longrightarrow> frame (entry_addr b e) = frame b"
  using unat_entry_addr [of e b] by (simp add: frame_def)

text \<open>
  What has become of entry \<open>k\<close> of the directory. A table gets a table of its own in the new directory,
  in which the writable entries are made copy-on-write, when that is asked for, and the others are
  not written at all.
\<close>

definition user_table :: "u32 \<Rightarrow> bool" where
  "user_table t \<longleftrightarrow> t = of_nat (frame t * 4096) OR X86_WRITE OR X86_USER OR X86_PRESENT"

definition cloned :: "bool \<Rightarrow> 'a vmm_scheme \<Rightarrow> 'a vmm_scheme \<Rightarrow> nat \<Rightarrow> bool" where
  "cloned make_cow s s' k \<longleftrightarrow> (let x = pde s k; t = dir_entry s' k
     in if present x
        then frame t \<in> pmm_frames s - pmm_frames s' \<and>
          user_table t \<and>
          (\<forall>e < 1024. ptmem s' (entry_addr t e) = (let y = ptmem s (entry_addr x e)
             in if make_cow \<and> writable y then cow_entry y else ptmem s (entry_addr t e)))
        else t = x)"

text \<open>Nothing but the new directory and pages that were free is written.\<close>

definition clone_step :: "'a vmm_scheme \<Rightarrow> 'a vmm_scheme \<Rightarrow> bool" where
  "clone_step s s' \<longleftrightarrow> clone_open s' \<and> pmm_frames s' \<subseteq> pmm_frames s \<and>
     (\<forall>a. frame a \<notin> insert (frame (pde s 1022)) (pmm_frames s - pmm_frames s') \<longrightarrow> ptmem s' a = ptmem s a) \<and>
     same_outside (pmm_storage s) (mem s) (mem s') \<and> s' = s\<lparr>mem := mem s', ptmem := ptmem s', pmm_lock := pmm_lock s'\<rparr>"

lemma clone_step_pde:
  assumes "clone_open s" "clone_step s s'" "k < 1024"
  shows "pde s' k = pde s k" "cr3 s' = cr3 s"
proof -
  note o = clone_openD [OF assms(1)]
  have eq: "s' = s\<lparr>mem := mem s', ptmem := ptmem s', pmm_lock := pmm_lock s'\<rparr>" using assms(2) by (simp add: clone_step_def)
  show cr3: "cr3 s' = cr3 s" by (subst eq) simp
  have "frame (entry_addr (cr3 s) k) = frame (cr3 s)" by (rule frame_entry_addr [OF assms(3)])
  then have "ptmem s' (entry_addr (cr3 s) k) = ptmem s (entry_addr (cr3 s) k)"
    using assms(2) o(4,7) by (simp add: clone_step_def)
  then show "pde s' k = pde s k" by (simp add: pde_def cr3)
qed

lemma clone_page_entry:
  assumes "unat p < 4294967296" "unat p mod 4096 = 0"
  defines "x \<equiv> (ucast (p :: u64) OR X86_WRITE OR X86_USER OR X86_PRESENT :: u32)"
  shows "frame x = unat p div 4096" "present x" "writable x"
    "user_table x"
proof -
  have "x = ucast p OR X86_PRESENT OR X86_WRITE OR X86_USER" by (simp add: x_def ac_simps)
  then show f: "frame x = unat p div 4096" and "present x" "writable x"
    using table_entry [OF assms(1)] by metis+
  have "unat p div 4096 * 4096 = unat p" using assms(2) by auto
  then have "ucast p = (of_nat (frame x * 4096) :: u32)" using f by (simp only:) (simp add: unsigned_of_nat)
  then show "user_table x" unfolding user_table_def x_def by metis
qed

lemma clone_new_table:
  assumes "clone_open s" "k < 1022" "present (pde s k)" "low_frames s \<noteq> {}" "i = of_nat (k * 4194304)"
  obtains s' where "bind_res (alloc_page s PAGE_REQ_UNDER4GB) (\<lambda>(p2, s2).
      bind_res (vwrite s2 (PAGE_DIR_ENTRY RPDT_BASE2 i) (ucast p2 OR X86_WRITE OR X86_USER OR X86_PRESENT)) (\<lambda>s3.
        clone_entries make_cow True i 0 1024 s3)) = Inr s'"
    "clone_step s s'" "cloned make_cow s s' k" "\<forall>j < 1024. j \<noteq> k \<longrightarrow> dir_entry s' j = dir_entry s j"
    "card (low_frames s) \<le> Suc (card (low_frames s'))"
proof -
  have u4: "PAGE_REQ_UNDER4GB < 3" by (simp add: page_req_defs)
  note o = clone_openD [OF assms(1)]
  show ?thesis
  proof (cases rule: alloc_page_spec [OF o(2) u4])
    case (2 s')
    then show ?thesis using assms(4) low_frames_free [OF o(2)] by blast
  next
    case (1 p s2)
    let ?t = "ucast p OR X86_WRITE OR X86_USER OR X86_PRESENT :: u32"
    note st = pmm_stepD [OF 1(5)]
    have p: "unat p < 4294967296"
      using 1(8) div_mult_mod_eq [of "unat p" 4096] 1(3) by (simp add: req_met_def page_req_defs)
    note t = clone_page_entry [OF p 1(3)]
    have pde2: "pde s2 = pde s" "dir_entry s2 = dir_entry s" "cr3 s2 = cr3 s"
      using pde_cong [OF st(2,3)] st(2,3) by (simp_all add: dir_entry_def fun_eq_iff)
    have "pd_index i = k" using table_page(1) [OF assms(5), of 0] assms(2) by simp
    have core: "vm_core s" using assms(1) by (simp add: clone_open_def)
    have "clone_open s2"
      using assms(1) core 1(4,7) vm_cong(1,2) [OF st(2,3)] by (auto simp: clone_open_def vm_core_def pde2)
    note w0 = clone_dir_write [OF this assms(2), where y = "?t"]
    define s3 where "s3 = s2\<lparr>ptmem := (ptmem s2)(entry_addr (pde s2 1022) k := ?t)\<rparr>"
    note w = w0(1) [folded s3_def, OF \<open>pd_index i = k\<close>] w0(2-4) [folded s3_def]
    have f3: "cr3 s3 = cr3 s" "mem s3 = mem s2" "allocators s3 = allocators s2" "pmm_lock s3 = pmm_lock s2" by (simp_all add: s3_def pde2)
    have fr: "frame ?t \<in> pmm_frames s" using t(1) 1(6) by simp
    have "clone_ready s3 k"
      unfolding clone_ready_def using clone_openD(1) [OF w(4)] assms(1-3) fr o(5-7) t(2,3) w(2,3) pde2 f3(1)
      by (auto simp: clone_open_def)
    moreover have d3: "dir_entry s3 k = ?t" "pde s3 k = pde s k" using w(2,3) assms(2) pde2 by simp_all
    ultimately obtain s' where s': "clone_entries make_cow True i 0 1024 s3 = Inr s'" "s' = s3\<lparr>ptmem := ptmem s'\<rparr>"
      and new: "\<And>e. e < 1024 \<Longrightarrow> ptmem s' (entry_addr ?t e) = (let x = ptmem s3 (entry_addr (pde s k) e)
         in if make_cow \<and> writable x then cow_entry x else ptmem s3 (entry_addr ?t e))"
      and old: "\<And>a. a \<notin> entry_addr ?t ` {0..<1024} \<Longrightarrow> ptmem s' a = ptmem s3 a"
      using clone_entries_spec [of s3 k 0 1024 i make_cow] assms(5) unfolding d3 by (auto simp del: of_nat_mult)
    have pt3: "ptmem s3 a = (if a = entry_addr (pde s 1022) k then ?t else ptmem s a)" for a
      by (simp add: s3_def pde2 st(2))
    have k: "k < 1024" using assms(2) by simp
    note dst = o(6) and src = o(5) [OF assms(2,3)]
    have ne: "a \<noteq> entry_addr (pde s 1022) k" if "frame a \<noteq> frame (pde s 1022)" for a
      using that frame_entry_addr [OF k] by blast
    have keep: "ptmem s' a = ptmem s3 a" if "frame a \<noteq> frame ?t" for a
      using that by (intro old) (auto simp: frame_entry_addr)
    have f': "mem s' = mem s2" "allocators s' = allocators s2" "pmm_lock s' = pmm_lock s2" "cr3 s' = cr3 s"
      by (subst s'(2), simp add: f3)+
    have frames: "pmm_frames s' = pmm_frames s - {frame ?t}" using pmm_cong(2) [OF f'(1-3)] 1(7) t(1) by simp
    have tn: "frame ?t \<noteq> frame (pde s 1022)" "frame ?t \<noteq> frame (cr3 s)" using fr o(6,7) by auto
    have pde': "pde s' j = pde s3 j" if "j < 1024" for j
      using keep [of "entry_addr (cr3 s) j"] tn(2) that by (simp add: pde_def f' f3 frame_entry_addr)
    have dir': "dir_entry s' j = dir_entry s3 j" if "j < 1024" for j
      using keep [of "entry_addr (pde s 1022) j"] tn(1) that w(2) by (simp add: dir_entry_def pde' pde2 frame_entry_addr)
    have "clone_open s'"
      by (rule clone_open_cong [OF w(4)]) (simp_all add: f' f3 pde' dir')
    moreover have "ptmem s' a = ptmem s a" if "frame a \<notin> insert (frame (pde s 1022)) (pmm_frames s - pmm_frames s')" for a
      using that frames fr keep [of a] pt3 [of a] ne [of a] by (cases "frame a = frame ?t") simp_all
    moreover have "same_outside (pmm_storage s) (mem s) (mem s')" using st(1) f'(1) by simp
    moreover have "s' = s\<lparr>mem := mem s', ptmem := ptmem s', pmm_lock := pmm_lock s'\<rparr>"
      by (subst s'(2), unfold s3_def, subst st(5)) (simp add: f')
    ultimately have step: "clone_step s s'" using frames unfolding clone_step_def by blast
    have "ptmem s3 (entry_addr (pde s k) e) = ptmem s (entry_addr (pde s k) e)" "ptmem s3 (entry_addr ?t e) = ptmem s (entry_addr ?t e)"
      if "e < 1024" for e
      using that src tn(1) ne by (simp_all add: pt3 frame_entry_addr)
    then have "cloned make_cow s s' k"
      unfolding cloned_def dir' [OF k] d3(1) using assms(3) fr frames t(4) new by (simp add: Let_def)
    moreover have "dir_entry s' j = dir_entry s j" if "j < 1024" "j \<noteq> k" for j
      using dir' w(3) that pde2 by simp
    moreover have "low_frames s' = low_frames s - {frame ?t}" using frames by (auto simp: low_frames_def)
    then have "card (low_frames s) \<le> Suc (card (low_frames s'))"
      using card_Diff1_le [of "low_frames s" "frame ?t"] card_Diff_singleton_if [of "low_frames s" "frame ?t"] by (simp split: if_splits)
    moreover have "bind_res (alloc_page s PAGE_REQ_UNDER4GB) (\<lambda>(p2, s2).
      bind_res (vwrite s2 (PAGE_DIR_ENTRY RPDT_BASE2 i) (ucast p2 OR X86_WRITE OR X86_USER OR X86_PRESENT)) (\<lambda>s3.
        clone_entries make_cow True i 0 1024 s3)) = Inr s'"
      using 1(1) w(1) s'(1) by simp
    ultimately show ?thesis using that [of s'] step by blast
  qed
qed

lemma clone_dir_step:
  assumes "clone_open s" "k < 1022"
  shows "clone_step s (s\<lparr>ptmem := (ptmem s)(entry_addr (pde s 1022) k := y)\<rparr>)" (is "clone_step s ?s'")
proof -
  have f: "pmm_frames ?s' = pmm_frames s" by (rule pmm_cong(2)) simp_all
  have k: "k < 1024" using assms(2) by simp
  have "ptmem ?s' a = ptmem s a" if "frame a \<noteq> frame (pde s 1022)" for a
    using that frame_entry_addr [OF k] by auto
  then show ?thesis using clone_dir_write(4) [OF assms, of y] f by (simp add: clone_step_def)
qed

lemma clone_step_trans:
  assumes "clone_open s" "clone_step s s1" "clone_step s1 s'"
  shows "clone_step s s'"
proof -
  have eq: "s1 = s\<lparr>mem := mem s1, ptmem := ptmem s1, pmm_lock := pmm_lock s1\<rparr>"
    "s' = s1\<lparr>mem := mem s', ptmem := ptmem s', pmm_lock := pmm_lock s'\<rparr>"
    using assms(2,3) by (simp_all add: clone_step_def)
  have D: "pde s1 1022 = pde s 1022" using clone_step_pde(1) [OF assms(1,2)] by simp
  have "allocators s1 = allocators s" by (subst eq(1)) simp
  then have st: "pmm_storage s1 = pmm_storage s" by (simp add: pmm_storage_def)
  have "ptmem s' a = ptmem s a" if "frame a \<notin> insert (frame (pde s 1022)) (pmm_frames s - pmm_frames s')" for a
  proof -
    have "pmm_frames s1 \<subseteq> pmm_frames s" "pmm_frames s' \<subseteq> pmm_frames s1" using assms(2,3) by (simp_all add: clone_step_def)
    then have n: "frame a \<notin> insert (frame (pde s 1022)) (pmm_frames s - pmm_frames s1)"
      "frame a \<notin> insert (frame (pde s1 1022)) (pmm_frames s1 - pmm_frames s')" using that D by auto
    have "ptmem s1 a = ptmem s a" using assms(2) n(1) unfolding clone_step_def by blast
    moreover have "ptmem s' a = ptmem s1 a" using assms(3) n(2) unfolding clone_step_def by blast
    ultimately show ?thesis by simp
  qed
  moreover have "s' = s\<lparr>mem := mem s', ptmem := ptmem s', pmm_lock := pmm_lock s'\<rparr>" by (subst eq(2), subst eq(1)) simp
  moreover have "same_outside (pmm_storage s) (mem s) (mem s')"
    using assms(2,3) st unfolding clone_step_def by (metis same_outside_trans)
  ultimately show ?thesis using assms(2,3) unfolding clone_step_def by blast
qed

lemma clone_step_untouched:
  assumes "clone_step s s'" "e < 1024" "frame b \<noteq> frame (pde s 1022)" "frame b \<notin> pmm_frames s - pmm_frames s'"
  shows "ptmem s' (entry_addr b e) = ptmem s (entry_addr b e)"
  using assms frame_entry_addr [OF assms(2), of b] by (simp add: clone_step_def)

lemma cloned_before:
  assumes "clone_open s" "clone_step s s1" "cloned make_cow s1 s' k" "k < 1022"
  shows "cloned make_cow s s' k"
proof (cases "present (pde s k)")
  case True
  note o = clone_openD [OF assms(1)]
  let ?t = "dir_entry s' k"
  have x: "pde s1 k = pde s k" using clone_step_pde(1) [OF assms(1,2)] assms(4) by simp
  have c: "frame ?t \<in> pmm_frames s1 - pmm_frames s'" "user_table ?t"
    "\<And>e. e < 1024 \<Longrightarrow> ptmem s' (entry_addr ?t e) = (let y = ptmem s1 (entry_addr (pde s k) e)
        in if make_cow \<and> writable y then cow_entry y else ptmem s1 (entry_addr ?t e))"
    using assms(3) True by (simp_all add: cloned_def x Let_def)
  have sub: "pmm_frames s1 \<subseteq> pmm_frames s" using assms(2) by (simp add: clone_step_def)
  then have "frame ?t \<noteq> frame (pde s 1022)" using c(1) o(6) by auto
  then have "ptmem s1 (entry_addr ?t e) = ptmem s (entry_addr ?t e)" "ptmem s1 (entry_addr (pde s k) e) = ptmem s (entry_addr (pde s k) e)"
    if "e < 1024" for e
    using clone_step_untouched [OF assms(2) that] c(1) o(5) [OF assms(4) True] by simp_all
  then show ?thesis using True c sub unfolding cloned_def Let_def by auto
next
  case False
  then show ?thesis using assms(3) clone_step_pde(1) [OF assms(1,2), of k] assms(4) by (simp add: cloned_def)
qed

lemma cloned_after:
  assumes "clone_open s" "clone_step s s1" "cloned make_cow s s1 k" "clone_step s1 s'" "dir_entry s' k = dir_entry s1 k" "k < 1022"
  shows "cloned make_cow s s' k"
proof (cases "present (pde s k)")
  case True
  let ?t = "dir_entry s1 k"
  have c: "frame ?t \<in> pmm_frames s - pmm_frames s1" using assms(3) True by (simp add: cloned_def Let_def)
  have D: "pde s1 1022 = pde s 1022" using clone_step_pde(1) [OF assms(1,2)] by simp
  have "frame ?t \<noteq> frame (pde s1 1022)" using c clone_openD(6) [OF assms(1)] D by auto
  then have "ptmem s' (entry_addr ?t e) = ptmem s1 (entry_addr ?t e)" if "e < 1024" for e
    using clone_step_untouched [OF assms(4) that] c by simp
  moreover have "pmm_frames s' \<subseteq> pmm_frames s1" using assms(4) by (simp add: clone_step_def)
  ultimately show ?thesis using assms(3,5) True c unfolding cloned_def Let_def by auto
next
  case False
  then show ?thesis using assms(3,5) by (simp add: cloned_def)
qed

section \<open>The whole directory\<close>

lemma clone_tables_step:
  assumes "clone_open s" "k < 1022" "present (pde s k) \<Longrightarrow> low_frames s \<noteq> {}"
  obtains s' where "clone_tables make_cow (of_nat (k * 4194304)) s = clone_tables make_cow (of_nat (Suc k * 4194304)) s'"
    "clone_step s s'" "cloned make_cow s s' k" "\<forall>j < 1024. j \<noteq> k \<longrightarrow> dir_entry s' j = dir_entry s j"
    "card (low_frames s) \<le> card (low_frames s') + (if present (pde s k) then 1 else 0)"
proof -
  define i :: u32 where "i = of_nat (k * 4194304)"
  have u: "unat i = k * 4194304" unfolding i_def using assms(2) by (intro unat_of_nat_u32) simp
  have lt: "i < MMAP_KERNEL_END" using u assms(2) by (simp add: MMAP_KERNEL_END_def word_less_nat_alt)
  have user: "\<not> IS_KERNEL_ADDR (PAGE_TABLE_SIZE * i)" by (rule clone_is_user) (simp add: u)
  have next_i: "i + PAGE_TABLE_SIZE = of_nat (Suc k * 4194304)" by (simp add: i_def PAGE_TABLE_SIZE_def PAGE_SIZE_def)
  have k: "pd_index i = k" using u by (simp add: pd_index_def)
  note o = clone_openD [OF assms(1)]
  let ?s1 = "s\<lparr>ptmem := (ptmem s)(entry_addr (pde s 1022) k := pde s k)\<rparr>"
  note w = clone_dir_write [OF assms(1,2), where y = "pde s k"]
  have rd: "vread s (PAGE_DIR_ENTRY RPDT_BASE i) = Inr (pde s k)" using vread_pde [OF o(1), of i] k by simp
  have rd1: "vread ?s1 (PAGE_DIR_ENTRY RPDT_BASE i) = Inr (pde s k)"
    using vread_pde [OF clone_openD(1) [OF w(4)], of i] w(2) [of k] k assms(2) by simp
  note unf = clone_tables.simps [of make_cow i s, unfolded rd w(1) [OF k] bind_res_Inr Let_def rd1]
  have st1: "clone_step s ?s1" by (rule clone_dir_step [OF assms(1,2)])
  have dir1: "dir_entry ?s1 j = (if j = k then pde s k else dir_entry s j)" if "j < 1024" for j using w(3) that by simp
  have "pmm_frames ?s1 = pmm_frames s" by (rule pmm_cong(2)) simp_all
  then have low1: "low_frames ?s1 = low_frames s" by (simp only: low_frames_def)
  show ?thesis
  proof (cases "present (pde s k)")
    case False
    have "clone_tables make_cow i s = clone_tables make_cow (of_nat (Suc k * 4194304)) ?s1"
      unfolding next_i [symmetric] using lt False user unf by simp
    moreover have "cloned make_cow s ?s1 k" using False dir1 [of k] assms(2) by (simp add: cloned_def)
    ultimately show ?thesis
      using that [of ?s1] st1 dir1 low1 by (simp add: i_def del: of_nat_mult)
  next
    case True
    have p1: "present (pde ?s1 k)" using True w(2) [of k] assms(2) by simp
    have l1: "low_frames ?s1 \<noteq> {}" using low1 assms(3) True by simp
    obtain s' where s': "bind_res (alloc_page ?s1 PAGE_REQ_UNDER4GB) (\<lambda>(p2, s2).
      bind_res (vwrite s2 (PAGE_DIR_ENTRY RPDT_BASE2 i) (ucast p2 OR X86_WRITE OR X86_USER OR X86_PRESENT)) (\<lambda>s3.
        clone_entries make_cow True i 0 1024 s3)) = Inr s'"
      "clone_step ?s1 s'" "cloned make_cow ?s1 s' k" "\<forall>j < 1024. j \<noteq> k \<longrightarrow> dir_entry s' j = dir_entry ?s1 j"
      "card (low_frames ?s1) \<le> Suc (card (low_frames s'))"
      by (rule clone_new_table [OF w(4) assms(2) p1 l1 i_def])
    have "clone_tables make_cow i s = clone_tables make_cow (of_nat (Suc k * 4194304)) s'"
      unfolding next_i [symmetric] using lt True user unf s'(1) by simp
    moreover have "clone_step s s'" by (rule clone_step_trans [OF assms(1) st1 s'(2)])
    moreover have "cloned make_cow s s' k" by (rule cloned_before [OF assms(1) st1 s'(3) assms(2)])
    ultimately show ?thesis using that [of s'] s'(4,5) low1 dir1 True by (simp add: i_def del: of_nat_mult)
  qed
qed

lemma clone_tables_from:
  assumes "clone_open s" "k \<le> 1022" "card {j. k \<le> j \<and> j < 1022 \<and> present (pde s j)} \<le> card (low_frames s)"
  shows "\<exists>s'. clone_tables make_cow (of_nat (k * 4194304)) s = Inr s' \<and> clone_step s s' \<and>
    (\<forall>j. k \<le> j \<and> j < 1022 \<longrightarrow> cloned make_cow s s' j) \<and>
    (\<forall>j < 1024. j < k \<or> 1022 \<le> j \<longrightarrow> dir_entry s' j = dir_entry s j) \<and>
    inj_on (\<lambda>j. frame (dir_entry s' j)) {j. k \<le> j \<and> j < 1022 \<and> present (pde s j)}"
  using assms
proof (induction "1022 - k" arbitrary: s k)
  case 0
  then have k: "k = 1022" by simp
  have "clone_tables make_cow (of_nat (k * 4194304)) s = Inr s"
    by (subst clone_tables.simps) (simp add: k MMAP_KERNEL_END_def)
  moreover have "clone_step s s" using "0.prems"(1) by (simp add: clone_step_def)
  ultimately show ?case using k by (intro exI [of _ s]) (auto simp: inj_on_def)
next
  case (Suc d)
  have k: "k < 1022" "k < 1024" using Suc(2) by simp_all
  have tabs: "{j. k \<le> j \<and> j < 1022 \<and> present (pde s j)} =
      (if present (pde s k) then {k} else {}) \<union> {j. Suc k \<le> j \<and> j < 1022 \<and> present (pde s j)}"
    using k by (auto simp: Suc_le_eq le_less)
  have count: "card {j. k \<le> j \<and> j < 1022 \<and> present (pde s j)} =
      (if present (pde s k) then 1 else 0) + card {j. Suc k \<le> j \<and> j < 1022 \<and> present (pde s j)}"
    unfolding tabs by (subst card_Un_disjoint) auto
  have "present (pde s k) \<Longrightarrow> low_frames s \<noteq> {}" using Suc.prems(3) count by auto
  then obtain s1 where s1: "clone_tables make_cow (of_nat (k * 4194304)) s = clone_tables make_cow (of_nat (Suc k * 4194304)) s1"
    "clone_step s s1" "cloned make_cow s s1 k" "\<forall>j < 1024. j \<noteq> k \<longrightarrow> dir_entry s1 j = dir_entry s j"
    "card (low_frames s) \<le> card (low_frames s1) + (if present (pde s k) then 1 else 0)"
    by (rule clone_tables_step [OF Suc.prems(1) k(1)])
  have o1: "clone_open s1" using s1(2) by (simp add: clone_step_def)
  have pde1: "pde s1 j = pde s j" if "j < 1024" for j by (rule clone_step_pde(1) [OF Suc.prems(1) s1(2) that])
  obtain s' where s': "clone_tables make_cow (of_nat (Suc k * 4194304)) s1 = Inr s'" "clone_step s1 s'"
    "\<And>j. Suc k \<le> j \<Longrightarrow> j < 1022 \<Longrightarrow> cloned make_cow s1 s' j"
    "\<And>j. j < 1024 \<Longrightarrow> j < Suc k \<or> 1022 \<le> j \<Longrightarrow> dir_entry s' j = dir_entry s1 j"
    "inj_on (\<lambda>j. frame (dir_entry s' j)) {j. Suc k \<le> j \<and> j < 1022 \<and> present (pde s1 j)}"
  proof -
    have "{j. Suc k \<le> j \<and> j < 1022 \<and> present (pde s1 j)} = {j. Suc k \<le> j \<and> j < 1022 \<and> present (pde s j)}"
      using pde1 by auto
    then have "d = 1022 - Suc k" "Suc k \<le> 1022" "card {j. Suc k \<le> j \<and> j < 1022 \<and> present (pde s1 j)} \<le> card (low_frames s1)"
      using Suc.hyps(2) Suc.prems(3) s1(5) count by (simp_all split: if_splits)
    from Suc.hyps(1) [OF this(1) o1 this(2,3)] that show thesis by blast
  qed
  have sub: "pmm_frames s' \<subseteq> pmm_frames s1" "pmm_frames s1 \<subseteq> pmm_frames s" using s'(2) s1(2) by (simp_all add: clone_step_def)
  have dk: "dir_entry s' k = dir_entry s1 k" using s'(4) k by simp
  have "cloned make_cow s s' j" if "k \<le> j" "j < 1022" for j
  proof (cases "j = k")
    case True
    then show ?thesis using cloned_after [OF Suc.prems(1) s1(2,3) s'(2) dk k(1)] by simp
  next
    case False
    then show ?thesis using cloned_before [OF Suc.prems(1) s1(2) s'(3) that(2)] that by simp
  qed
  moreover have "clone_step s s'" by (rule clone_step_trans [OF Suc.prems(1) s1(2) s'(2)])
  moreover have "inj_on (\<lambda>j. frame (dir_entry s' j)) {j. k \<le> j \<and> j < 1022 \<and> present (pde s j)}"
  proof -
    have later: "frame (dir_entry s' j) \<in> pmm_frames s1" if "Suc k \<le> j" "j < 1022" "present (pde s j)" for j
      using s'(3) [OF that(1,2)] that(2,3) pde1 [of j] by (simp add: cloned_def Let_def)
    have "frame (dir_entry s' k) \<notin> pmm_frames s1" if "present (pde s k)"
      using s1(3) that dk by (simp add: cloned_def Let_def)
    then have "frame (dir_entry s' k) \<noteq> frame (dir_entry s' j)"
      if "Suc k \<le> j" "j < 1022" "present (pde s j)" "present (pde s k)" for j
      using later [OF that(1-3)] that(4) by auto
    moreover have "a = b" if "Suc k \<le> a" "a < 1022" "present (pde s a)" "Suc k \<le> b" "b < 1022" "present (pde s b)"
      "frame (dir_entry s' a) = frame (dir_entry s' b)" for a b
      using inj_onD [OF s'(5), of a b] that pde1 [of a] pde1 [of b] by simp
    ultimately have "a = b" if "a = k \<or> Suc k \<le> a" "a < 1022" "present (pde s a)" "b = k \<or> Suc k \<le> b" "b < 1022"
      "present (pde s b)" "frame (dir_entry s' a) = frame (dir_entry s' b)" for a b
      using that by metis
    moreover have "k \<le> a \<Longrightarrow> a = k \<or> Suc k \<le> a" for a by auto
    ultimately show ?thesis unfolding inj_on_def mem_Collect_eq by blast
  qed
  moreover have "\<forall>j < 1024. j < k \<or> 1022 \<le> j \<longrightarrow> dir_entry s' j = dir_entry s j"
    using s'(4) s1(4) k by auto
  ultimately show ?case using s1(1) s'(1) by (intro exI [of _ s']) simp
qed

lemma alloc_dir_page:
  assumes "pmm_inv s" "pmm_frames s \<subseteq> {..<1048576}" "low_frames s \<noteq> {}"
  obtains a s' where "alloc_page s PAGE_REQ_NONE = Inr (a, s')" "unat a mod 4096 = 0" "unat a < 4294967296"
    "pmm_inv s'" "pmm_step s s'" "unat a div 4096 \<in> low_frames s" "pmm_frames s' = pmm_frames s - {unat a div 4096}"
proof (cases rule: alloc_pages_spec [OF assms(1) _ log2_roundup_page le0, of PAGE_REQ_NONE])
  case 1
  then show ?case by (simp add: page_req_defs)
next
  case (2 a s')
  have f: "frames_of a 0 = {unat a div 4096}" by (auto simp: frames_of_def)
  have "unat a div 4096 < 1048576" using 2(6) assms(2) f by auto
  then have "unat a < 4294967296" using div_mult_mod_eq [of "unat a" 4096] 2(3) by simp
  moreover have "unat a div 4096 \<in> low_frames s"
    using 2(6,8) f assms(2) by (auto simp: low_frames_def req_met_def)
  ultimately show ?thesis using that [of a s'] 2 f by (simp add: alloc_page_def)
next
  case (3 s')
  obtain g where "g \<in> free_frames (allocators s ! PAGE_REQ_UNDER4GB) (mem s)" using assms(3) low_frames_free [OF assms(1)] by blast
  then show ?thesis using 3(7) by (auto simp: free_frames_def blk_0)
qed

section \<open>The operation as a whole\<close>

text \<open>A new directory enters the second window.\<close>

lemma clone_opens:
  assumes "vm_core s" "frame x \<notin> table_frames s" "frame x \<notin> pmm_frames s" "present x" "writable x"
  defines "s1 \<equiv> s\<lparr>ptmem := (ptmem s)(entry_addr (cr3 s) 1022 := x)\<rparr>"
  defines "s2 \<equiv> s1\<lparr>ptmem := (ptmem s1)(entry_addr x 1023 := x)\<rparr>"
  shows "vwrite s (PAGE_DIR_ENTRY RPDT_BASE (PAGE_TABLE_ENTRY RPDT_BASE2 0)) x = Inr s1"
    "vwrite s1 (PAGE_TABLE_ENTRY RPDT_BASE (PAGE_DIR_ENTRY RPDT_BASE2 0)) x = Inr s2"
    "clone_open s2" "pde s2 1022 = x" "\<And>k. k < 1022 \<Longrightarrow> pde s2 k = pde s k"
    "\<And>a. frame a \<noteq> frame (cr3 s) \<Longrightarrow> a \<noteq> entry_addr x 1023 \<Longrightarrow> ptmem s2 a = ptmem s a"
proof -
  have t: "tables_ok s" "pmm_inv s" "table_frames s \<inter> pmm_frames s = {}" using assms(1) by (simp_all add: vm_core_def)
  note rec = tables_okD(1) [OF t(1)]
  have x: "frame x \<noteq> frame (cr3 s)" using assms(2) by (auto simp: table_frames_def)
  have v1: "pd_index (PAGE_TABLE_ENTRY RPDT_BASE2 0) = 1022"
    by (simp add: pd_index_def PAGE_TABLE_ENTRY_def RPDT_BASE2_def PAGE_TABLE_SIZE_def PAGE_SIZE_def)
  have v2: "pd_index (PAGE_DIR_ENTRY RPDT_BASE2 0) = 1022" "pt_index (PAGE_DIR_ENTRY RPDT_BASE2 0) = 1023"
    by (simp_all add: pd_index_def pt_index_def PAGE_DIR_ENTRY_def RPDT_BASE2_def RPDT_BASE_def PAGE_TABLE_SIZE_def PAGE_SIZE_def)
  show "vwrite s (PAGE_DIR_ENTRY RPDT_BASE (PAGE_TABLE_ENTRY RPDT_BASE2 0)) x = Inr s1"
    unfolding s1_def using vwrite_pde [OF rec] v1 by simp
  have p1: "pde s1 k = (if k = 1022 then x else pde s k)" if "k < 1024" for k
    using that by (simp add: s1_def pde_def entry_addr_eq)
  have rec1: "rec_ok s1" using rec p1 [of 1023] by (simp add: rec_ok_def) (simp add: s1_def)
  show "vwrite s1 (PAGE_TABLE_ENTRY RPDT_BASE (PAGE_DIR_ENTRY RPDT_BASE2 0)) x = Inr s2"
    unfolding s2_def using vwrite_pte [OF rec1, of "PAGE_DIR_ENTRY RPDT_BASE2 0" x] assms(4,5) by (simp add: v2 p1)
  have cr3: "cr3 s2 = cr3 s" "cr3 s1 = cr3 s" by (simp_all add: s2_def s1_def)
  have p2: "pde s2 k = (if k = 1022 then x else pde s k)" if "k < 1024" for k
    using pde_table_write [of k 1023 x s1 x] that x p1 [OF that] cr3 by (simp add: s2_def)
  then show "pde s2 1022 = x" "\<And>k. k < 1022 \<Longrightarrow> pde s2 k = pde s k" by simp_all
  show "\<And>a. frame a \<noteq> frame (cr3 s) \<Longrightarrow> a \<noteq> entry_addr x 1023 \<Longrightarrow> ptmem s2 a = ptmem s a"
    using frame_entry_addr [of 1022 "cr3 s"] by (auto simp: s2_def s1_def)
  have fr: "frame (pde s k) \<noteq> frame x" if "k < 1023" "present (pde s k)" for k
  proof -
    have "frame (pde s k) \<in> table_frames s"
      unfolding table_frames_def using that by (intro insertI2 image_eqI [of _ _ k]) simp_all
    then show ?thesis using assms(2) by auto
  qed
  have "tables_ok s2"
    using t(1) x fr fr [THEN not_sym] assms(4,5) unfolding tables_ok_def rec_ok_def cr3 by (simp add: p2 own_table_def)
  moreover have "table_frames s2 \<subseteq> insert (frame x) (table_frames s)"
    unfolding table_frames_def cr3 by (auto simp: p2 split: if_splits)
  moreover have "pmm_inv s2 = pmm_inv s" "pmm_frames s2 = pmm_frames s" by (rule pmm_cong; simp add: s2_def s1_def)+
  moreover have "dir_entry s2 1023 = x" by (simp add: dir_entry_def p2) (simp add: s2_def)
  ultimately show "clone_open s2" using t(2,3) assms(3-5) by (auto simp: clone_open_def vm_core_def p2)
qed

lemma cloned_shift:
  assumes "cloned make_cow t t' k" "pde t k = pde s k" "dir_entry s' k = dir_entry t' k" "ptmem s' = ptmem t'"
    "pmm_frames t \<subseteq> pmm_frames s" "pmm_frames s' = pmm_frames t'"
    "\<And>e b. e < 1024 \<Longrightarrow> b = pde s k \<and> present b \<or> frame b \<in> pmm_frames t \<Longrightarrow> ptmem t (entry_addr b e) = ptmem s (entry_addr b e)"
  shows "cloned make_cow s s' k"
proof (cases "present (pde s k)")
  case True
  then have "frame (dir_entry t' k) \<in> pmm_frames t" using assms(1,2) by (simp add: cloned_def Let_def)
  then have "ptmem t (entry_addr (dir_entry t' k) e) = ptmem s (entry_addr (dir_entry t' k) e)"
    "ptmem t (entry_addr (pde s k) e) = ptmem s (entry_addr (pde s k) e)" if "e < 1024" for e
    using assms(7) [OF that] True by simp_all
  then show ?thesis using assms(1-6) True unfolding cloned_def Let_def by auto
next
  case False
  then show ?thesis using assms(1-3) by (simp add: cloned_def)
qed

text \<open>The state with the new directory in the second window, before the loop.\<close>

definition clone_opened :: "'a vmm_scheme \<Rightarrow> u32 \<Rightarrow> 'a vmm_scheme \<Rightarrow> bool" where
  "clone_opened s D s' \<longleftrightarrow> frame D \<in> low_frames s \<and> clone_open s' \<and>
     pde s' 1022 = D OR X86_WRITE OR X86_PRESENT \<and> frame (pde s' 1022) = frame D \<and>
     (\<forall>k < 1022. pde s' k = pde s k) \<and> pmm_frames s' = pmm_frames s - {frame D} \<and>
     (\<forall>a. frame a \<noteq> frame (cr3 s) \<and> a \<noteq> entry_addr D 1023 \<longrightarrow> ptmem s' a = ptmem s a) \<and>
     same_outside (pmm_storage s) (mem s) (mem s') \<and> s' = s\<lparr>mem := mem s', ptmem := ptmem s', pmm_lock := pmm_lock s'\<rparr>"

lemma clone_directory:
  fixes s :: "'a vmm_scheme"
  assumes "vm_core s" "pmm_frames s \<subseteq> {..<1048576}" "low_frames s \<noteq> {}"
  obtains a s2 s3 s4 where "alloc_page s PAGE_REQ_NONE = Inr (a, s2)"
    "vwrite s2 (PAGE_DIR_ENTRY RPDT_BASE (PAGE_TABLE_ENTRY RPDT_BASE2 0)) (ucast a OR X86_WRITE OR X86_PRESENT) = Inr s3"
    "vwrite s3 (PAGE_TABLE_ENTRY RPDT_BASE (PAGE_DIR_ENTRY RPDT_BASE2 0)) (ucast a OR X86_WRITE OR X86_PRESENT) = Inr s4"
    "clone_opened s (ucast a) s4"
proof -
  have "pmm_inv s" using assms(1) by (simp add: vm_core_def)
  then obtain a s2 where s2: "alloc_page s PAGE_REQ_NONE = Inr (a, s2)" "unat a mod 4096 = 0" "unat a < 4294967296"
    "pmm_inv s2" "pmm_step s s2" "unat a div 4096 \<in> low_frames s" "pmm_frames s2 = pmm_frames s - {unat a div 4096}"
    using assms(2,3) by (rule alloc_dir_page)
  note st = pmm_stepD [OF s2(5)]
  note v2 = vm_cong [OF st(2,3)] pde_cong [OF st(2,3)]
  let ?D = "ucast a :: u32"
  let ?x = "?D OR X86_WRITE OR X86_PRESENT"
  have fD: "frame ?D = unat a div 4096" using s2(3) by (simp add: frame_def unat_ucast_small)
  have "?x = ucast a OR X86_PRESENT OR X86_WRITE" by (simp add: ac_simps)
  then have x: "frame ?x = frame ?D" "present ?x" "writable ?x" using kernel_entry [OF s2(3)] fD by metis+
  have core2: "vm_core s2" using assms(1) s2(4,7) v2 by (auto simp: vm_core_def)
  have "frame ?x \<notin> table_frames s2" "frame ?x \<notin> pmm_frames s2"
    using assms(1) s2(6,7) x(1) fD v2 by (auto simp: vm_core_def low_frames_def)
  note op = clone_opens [OF core2 this x(2,3)]
  define s3 where "s3 = s2\<lparr>ptmem := (ptmem s2)(entry_addr (cr3 s2) 1022 := ?x)\<rparr>"
  define s4 where "s4 = s3\<lparr>ptmem := (ptmem s3)(entry_addr ?x 1023 := ?x)\<rparr>"
  note op = op [folded s3_def, folded s4_def]
  have "pmm_frames s4 = pmm_frames s2" by (rule pmm_cong(2)) (simp_all add: s4_def s3_def)
  moreover have "s4 = s\<lparr>mem := mem s4, ptmem := ptmem s4, pmm_lock := pmm_lock s4\<rparr>"
    by (simp add: s4_def s3_def, subst st(5), simp)
  moreover have "entry_addr ?x 1023 = entry_addr ?D 1023" by (rule entry_addr_cong [OF x(1)])
  moreover have "mem s4 = mem s2" by (simp add: s4_def s3_def)
  ultimately have "clone_opened s ?D s4"
    unfolding clone_opened_def using op(3-6) s2(6,7) fD x(1) v2(6) st(1-3) by simp
  with s2(1) op(1,2) that show ?thesis by blast
qed

lemma clone_old_table:
  assumes "vm_core s" "k < 1023" "present (pde s k)"
  shows "frame (pde s k) \<noteq> frame (cr3 s) \<and> frame (pde s k) \<notin> pmm_frames s"
proof -
  have "tables_ok s" "table_frames s \<inter> pmm_frames s = {}" using assms(1) by (simp_all add: vm_core_def)
  moreover have "frame (pde s k) \<in> table_frames s"
    unfolding table_frames_def using assms(2,3) by (intro insertI2 image_eqI [of _ _ k]) simp_all
  ultimately show ?thesis using tables_okD(3) [of s k] assms(2,3) by auto
qed

text \<open>What the loop made of the directory, in terms of the state before it was opened.\<close>

lemma clone_opened_filled:
  assumes core: "vm_core s" and op: "clone_opened s D s4" and st: "clone_step s4 s5"
  shows "k < 1023 \<Longrightarrow> pde s5 k = (if k = 1022 then D OR X86_WRITE OR X86_PRESENT else pde s k)"
    "k < 1022 \<Longrightarrow> cloned make_cow s4 s5 k \<Longrightarrow> cloned make_cow s s5 k"
    "ptmem s4 (entry_addr D 1022) = ptmem s (entry_addr D 1022)"
    "n < 1046528 \<Longrightarrow> space s5 n = space s n"
proof -
  note o = op [unfolded clone_opened_def]
  have dirs: "frame (cr3 s) \<notin> pmm_frames s" using core by (auto simp: vm_core_def table_frames_def)
  then have D: "frame D \<noteq> frame (cr3 s)" "frame D \<in> pmm_frames s" using o by (auto simp: low_frames_def)
  have un: "ptmem s4 (entry_addr b e) = ptmem s (entry_addr b e)"
    if "e < 1024" "frame b \<noteq> frame (cr3 s)" "frame b \<noteq> frame D \<or> e \<noteq> 1023" for e b
    using o that frame_entry_addr [OF that(1), of b] entry_addr_eq [of e 1023 b D] by auto
  show "ptmem s4 (entry_addr D 1022) = ptmem s (entry_addr D 1022)" using un [of 1022 D] D by simp
  have pde5: "pde s5 j = pde s4 j" if "j < 1024" for j using clone_step_pde(1) [OF _ st that] o by blast
  have pde: "pde s4 j = pde s j" if "j < 1022" for j using o that by blast
  note old = clone_old_table [OF core]
  show "pde s5 k = (if k = 1022 then D OR X86_WRITE OR X86_PRESENT else pde s k)" if "k < 1023"
    using o pde5 [of k] pde [of k] that by auto
  show "cloned make_cow s s5 k" if k: "k < 1022" and c: "cloned make_cow s4 s5 k"
  proof (rule cloned_shift [OF c pde [OF k]])
    fix e :: nat and b :: u32 assume "e < 1024" and b: "b = pde s k \<and> present b \<or> frame b \<in> pmm_frames s4"
    moreover have "frame b \<noteq> frame (cr3 s) \<and> frame b \<noteq> frame D" using b old [of k] k o dirs D by auto
    ultimately show "ptmem s4 (entry_addr b e) = ptmem s (entry_addr b e)" using un by blast
  qed (use o in auto)
  show "space s5 n = space s n" if "n < 1046528"
  proof -
    have k: "n div 1024 < 1022" "n mod 1024 < 1024" using that by simp_all
    have e: "pde s5 (n div 1024) = pde s (n div 1024)" using pde5 [of "n div 1024"] pde [OF k(1)] k by simp
    have "pte s5 n = pte s n" if "present (pde s (n div 1024))"
    proof -
      have "frame (pde s (n div 1024)) \<noteq> frame D" "frame (pde s (n div 1024)) \<noteq> frame (cr3 s)"
        "frame (pde s (n div 1024)) \<notin> pmm_frames s"
        using old [OF _ that] k(1) D(2) by auto
      moreover have "frame (pde s4 1022) = frame D" "pmm_frames s4 = pmm_frames s - {frame D}" using o by blast+
      ultimately show ?thesis
        unfolding pte_def e using un [OF k(2)] clone_step_untouched [OF st k(2)] by simp
    qed
    then show ?thesis using e by (cases "present (pde s (n div 1024))") (simp_all add: space_def lookup_def)
  qed
qed


lemma clone_address_space_spec:
  assumes "vm_inv s" "unlocked (global_vmm_lock s)" "pmm_frames s \<subseteq> {..<1048576}" "card {k. k < 1022 \<and> present (pde s k)} < card (low_frames s)"
  obtains D s' where "clone_address_space s dest make_cow = Inr (0, \<lparr>directory = D, as_lock = SPINLOCK_RELEASED\<rparr>, s')"
    "vm_inv s'" "frame D \<in> pmm_frames s - pmm_frames s'" "pmm_frames s' \<subseteq> pmm_frames s"
    "\<forall>k < 1023. pde s' k = (if k = 1022 then D OR X86_WRITE OR X86_PRESENT else pde s k)"
    "frame (pde s' 1022) = frame D" "\<forall>k < 1022. cloned make_cow s s' k"
    "inj_on (\<lambda>k. frame (dir_entry s' k)) {k. k < 1022 \<and> present (pde s k)}"
    "dir_entry s' 1023 = D OR X86_WRITE OR X86_PRESENT" "dir_entry s' 1022 = ptmem s (entry_addr D 1022)"
    "\<forall>n < 1046528. space s' n = space s n" "unlocked (global_vmm_lock s')" "same_outside (pmm_storage s) (mem s) (mem s')"
    "allocators s' = allocators s" "cr3 s' = cr3 s"
proof -
  let ?l = "held_lock s (global_vmm_lock s)"
  define s1 where "s1 = (held_state s)\<lparr>global_vmm_lock := ?l\<rparr>"
  have cur: "\<exists>a. current s = Some a \<and> unlocked (as_lock a)" using assms(1) by (simp add: vm_inv_def)
  have c1: "mem s1 = mem s" "allocators s1 = allocators s" "pmm_lock s1 = pmm_lock s" "ptmem s1 = ptmem s" "cr3 s1 = cr3 s"
    by (simp_all add: s1_def disable_interrupts_def)
  note p1 = pmm_cong [OF c1(1-3)] and v1 = vm_cong [OF c1(4,5)] pde_cong [OF c1(4,5)] space_cong [OF c1(4,5)]
  have low1: "low_frames s1 = low_frames s" by (simp only: low_frames_def p1)
  have core1: "vm_core s1" using assms(1) vm_core_cong [OF c1] by (simp add: vm_inv_def)
  have "pmm_frames s1 \<subseteq> {..<1048576}" "low_frames s1 \<noteq> {}" using assms(3,4) p1 low1 by auto
  then obtain a s2 s3 s4 where s4: "alloc_page s1 PAGE_REQ_NONE = Inr (a, s2)"
    "vwrite s2 (PAGE_DIR_ENTRY RPDT_BASE (PAGE_TABLE_ENTRY RPDT_BASE2 0)) (ucast a OR X86_WRITE OR X86_PRESENT) = Inr s3"
    "vwrite s3 (PAGE_TABLE_ENTRY RPDT_BASE (PAGE_DIR_ENTRY RPDT_BASE2 0)) (ucast a OR X86_WRITE OR X86_PRESENT) = Inr s4"
    "clone_opened s1 (ucast a) s4"
    by (rule clone_directory [OF core1])
  define D :: u32 where "D = ucast a"
  note o = s4(4) [folded D_def, unfolded clone_opened_def]
  have op4: "clone_open s4" and frames4: "pmm_frames s4 = pmm_frames s - {frame D}" and inD: "frame D \<in> low_frames s"
    using o p1(2) low1 by auto
  have tabs: "{k. k < 1022 \<and> present (pde s4 k)} = {k. k < 1022 \<and> present (pde s k)}" using o v1(6) by auto
  have "low_frames s4 = low_frames s - {frame D}" using frames4 by (auto simp: low_frames_def)
  then have enough: "card {k. 0 \<le> k \<and> k < 1022 \<and> present (pde s4 k)} \<le> card (low_frames s4)"
    using assms(4) inD tabs by (simp add: card_Diff_singleton)
  obtain s5 where s5: "clone_tables make_cow 0 s4 = Inr s5" "clone_step s4 s5"
    "\<And>j. j < 1022 \<Longrightarrow> cloned make_cow s4 s5 j" "\<And>j. j < 1024 \<Longrightarrow> 1022 \<le> j \<Longrightarrow> dir_entry s5 j = dir_entry s4 j"
    "inj_on (\<lambda>j. frame (dir_entry s5 j)) {j. j < 1022 \<and> present (pde s4 j)}"
  proof -
    from clone_tables_from [OF op4 le0 enough, of make_cow] that show thesis by auto
  qed
  note fill = clone_opened_filled [OF core1 s4(4) [folded D_def] s5(2)]
  have eq5: "s5 = s4\<lparr>mem := mem s5, ptmem := ptmem s5, pmm_lock := pmm_lock s5\<rparr>" and open5: "clone_open s5"
    using s5(2) by (simp_all add: clone_step_def)
  have eq4: "s4 = s1\<lparr>mem := mem s4, ptmem := ptmem s4, pmm_lock := pmm_lock s4\<rparr>" using o by blast
  have f5: "eflags s5 = eflags (held_state s)" "global_vmm_lock s5 = ?l" "current s5 = current s" "cr3 s5 = cr3 s"
    "allocators s5 = allocators s"
    by (subst eq5, simp, subst eq4, simp add: s1_def disable_interrupts_def)+
  have st4: "pmm_storage s4 = pmm_storage s" by (subst eq4) (simp add: pmm_storage_def c1)
  define s' where "s' = s5\<lparr>eflags := eflags s, global_vmm_lock := left_lock s (global_vmm_lock s)\<rparr>"
  have c': "mem s' = mem s5" "allocators s' = allocators s5" "pmm_lock s' = pmm_lock s5" "ptmem s' = ptmem s5" "cr3 s' = cr3 s5"
    by (simp_all add: s'_def)
  note p' = pmm_cong [OF c'(1-3)] and v' = vm_cong [OF c'(4,5)] pde_cong [OF c'(4,5)] space_cong [OF c'(4,5)]
  have dir': "dir_entry s' = dir_entry s5" using v'(6) by (simp add: dir_entry_def c'(4) fun_eq_iff)
  show ?thesis
  proof (rule that [of D s'])
    have "spinlock_init l = SPINLOCK_RELEASED" for l by (cases l) (simp add: spinlock_init_def SPINLOCK_RELEASED_def)
    then show "clone_address_space s dest make_cow = Inr (0, \<lparr>directory = D, as_lock = SPINLOCK_RELEASED\<rparr>, s')"
      using assms(2) s4(1-3) s5(1) spinlock_release_restores [OF f5(1), of "global_vmm_lock s"] f5(2)
      by (simp add: clone_address_space_def s1_def [symmetric] D_def [symmetric] Let_def s'_def)
    show "vm_inv s'" using open5 cur p' v' f5(3) by (simp add: vm_inv_def clone_open_def vm_core_def) (simp add: s'_def)
    show "frame D \<in> pmm_frames s - pmm_frames s'" "pmm_frames s' \<subseteq> pmm_frames s"
      using inD s5(2) frames4 p'(2) by (auto simp: clone_step_def low_frames_def)
    show pde': "\<forall>k < 1023. pde s' k = (if k = 1022 then D OR X86_WRITE OR X86_PRESENT else pde s k)"
      using fill(1) v'(6) v1(6) by simp
    have x4: "frame (pde s4 1022) = frame D" "pde s4 1022 = D OR X86_WRITE OR X86_PRESENT" using o by blast+
    then show "frame (pde s' 1022) = frame D" using pde' by simp
    show "\<forall>k < 1022. cloned make_cow s s' k"
    proof (intro allI impI)
      fix k :: nat assume k: "k < 1022"
      show "cloned make_cow s s' k"
        by (rule cloned_shift [OF fill(2) [OF k s5(3) [OF k]]]) (use v1(6) dir' c' c1 p' p1 in simp_all)
    qed
    show "inj_on (\<lambda>k. frame (dir_entry s' k)) {k. k < 1022 \<and> present (pde s k)}" using s5(5) dir' tabs by simp
    show "dir_entry s' 1023 = D OR X86_WRITE OR X86_PRESENT" using s5(4) [of 1023] op4 x4(2) dir' by (simp add: clone_open_def)
    have "entry_addr (pde s4 1022) 1022 = entry_addr D 1022" by (rule entry_addr_cong [OF x4(1)])
    then show "dir_entry s' 1022 = ptmem s (entry_addr D 1022)"
      using s5(4) [of 1022] fill(3) c1(4) dir' by (simp add: dir_entry_def)
    show "\<forall>n < 1046528. space s' n = space s n" using fill(4) v' v1 by simp
    have "same_outside (pmm_storage s) (mem s) (mem s4)" using o unfolding p1(3) c1(1) by blast
    moreover have "same_outside (pmm_storage s) (mem s4) (mem s')" using s5(2) st4 c'(1) by (simp add: clone_step_def)
    ultimately show "same_outside (pmm_storage s) (mem s) (mem s')" by (rule same_outside_trans)
  qed (use f5 c' in \<open>simp_all add: s'_def\<close>)
qed

end
