(* ===== verification/Vmm_Run.thy ===== *)
theory Vmm_Run
  imports Vmm_Clone Vmspace_Correct
begin

text \<open>
  Sequences of operations on the memory managers: whatever a client maps, unmaps, allocates, gives
  back, clones or writes, the page tables stay well formed and implement the partial map that the
  client would expect.
\<close>

section \<open>The interface of the page tables\<close>

text \<open>
  What a client of \<^verbatim>\<open>map\<close> and \<^verbatim>\<open>unmap\<close> relies on: entering a page that succeeds adds it to the map, a page
  can be removed exactly when it is in the map, and both keep the invariant and do nothing but a \<open>step\<close>.
\<close>

locale page_map =
  fixes holds :: "'s \<Rightarrow> bool"
    and view :: "'s \<Rightarrow> nat \<rightharpoonup> 'e"
    and step :: "'s \<Rightarrow> 's \<Rightarrow> bool"
    and enter :: "'s \<Rightarrow> 'a \<Rightarrow> 'f \<Rightarrow> (int \<times> 's) res"
    and remove :: "'s \<Rightarrow> 'a \<Rightarrow> (int \<times> 's) res"
    and page :: "'a \<Rightarrow> nat"
    and usable :: "'a \<Rightarrow> bool"
    and entry :: "'f \<Rightarrow> 'e"
  assumes enter: "holds s \<Longrightarrow> usable a \<Longrightarrow> enter s a f = Inr (r, s') \<Longrightarrow>
      r = 0 \<and> holds s' \<and> step s s' \<and> view s (page a) = None \<and> view s' = (view s)(page a \<mapsto> entry f)"
    and remove: "holds s \<Longrightarrow> usable a \<Longrightarrow> remove s a = Inr (r, s') \<Longrightarrow>
      r = 0 \<and> holds s' \<and> step s s' \<and> view s' = (view s)(page a := None)"
    and removable: "holds s \<Longrightarrow> usable a \<Longrightarrow> view s (page a) \<noteq> None \<Longrightarrow> \<exists>r s'. remove s a = Inr (r, s')"
    and step_trans: "step s s' \<Longrightarrow> step s' s'' \<Longrightarrow> step s s''"
begin

text \<open>A page that was entered can be removed again, and the map is as it was.\<close>

lemma enter_remove:
  assumes "holds s" "usable a" "enter s a f = Inr (r, s')"
  shows "\<exists>s''. remove s' a = Inr (0, s'') \<and> holds s'' \<and> step s s'' \<and> view s'' = view s"
proof -
  note e = enter [OF assms]
  then obtain r' s'' where s'': "remove s' a = Inr (r', s'')" using removable [of s' a] assms(2) by auto
  note d = remove [OF _ assms(2) this]
  have "view s'' = view s" using d e by (auto simp: fun_upd_idem_iff)
  then show ?thesis using s'' d e step_trans by blast
qed

text \<open>The order in which two different pages are entered does not matter to the map.\<close>

lemma enter_commute:
  assumes "holds s" "usable a" "usable b" "page a \<noteq> page b"
    and "enter s a f = Inr (r1, s1)" "enter s1 b g = Inr (r2, s2)"
    and "enter s b g = Inr (r3, t1)" "enter t1 a f = Inr (r4, t2)"
  shows "view s2 = view t2"
proof -
  note s1 = enter [OF assms(1,2,5)] and t1 = enter [OF assms(1,3,7)]
  have "view s2 = (view s1)(page b \<mapsto> entry g)" using enter [OF _ assms(3,6)] s1 by blast
  moreover have "view t2 = (view t1)(page a \<mapsto> entry f)" using enter [OF _ assms(2,8)] t1 by blast
  ultimately show ?thesis using s1 t1 assms(4) by (simp add: fun_upd_twist)
qed

end

text \<open>The virtual memory manager provides it, on the frames and locks of \<open>vm_step\<close>.\<close>

lemma tables_from_refl: "vm_inv s \<Longrightarrow> table_frames s' = table_frames s \<Longrightarrow> pmm_frames s' = pmm_frames s \<Longrightarrow> tables_from s s'"
  by (auto simp: tables_from_def vm_inv_def vm_core_def)

interpretation vm: page_map vm_inv space "\<lambda>s s'. vm_step s s' \<and> tables_from s s'"
  "\<lambda>s v (p, flags). map_one_page s v p flags" unmap_one_page vpn "\<lambda>v. own_table (pd_index v)"
  "\<lambda>(p, flags). map_entry p flags"
proof (unfold_locales, goal_cases)
  case (1 s a f r s')
  obtain p flags where f: "f = (p, flags)" by (cases f)
  show ?case
    by (cases rule: map_one_page_spec [OF 1(1,2), of p flags]) (use 1(3) f in auto)
next
  case (2 s a r s')
  show ?case
    by (cases rule: unmap_one_page_spec [OF 2(1,2)]) (use 2(3) tables_from_refl [OF 2(1)] in auto)
next
  case (3 s a)
  show ?case by (cases rule: unmap_one_page_spec [OF 3(1,2)]) (use 3(3) in auto)
next
  case (4 s s' s'')
  then show ?case using vm_step_trans tables_from_trans by blast
qed

lemma map_unmap_restores:
  assumes "vm_inv s" "own_table (pd_index v)" "map_one_page s v p flags = Inr (r, s')"
  shows "\<exists>s''. unmap_one_page s' v = Inr (0, s'') \<and> vm_inv s'' \<and> tables_from s s'' \<and> space s'' = space s"
  using vm.enter_remove [of s v "(p, flags)"] assms by auto

section \<open>Runs\<close>

text \<open>
  \<open>M\<close> is the map of pages the client has asked for and \<open>H\<close> the addresses of the pages it holds. A client
  maps and unmaps below the two windows, outside the shared tables of the first 4MB and of the kernel
  image, gives back only what it holds, and writes outside the allocators' bitmaps.
\<close>

inductive vm_run :: "'a vmm_scheme \<Rightarrow> 'a vmm_scheme \<Rightarrow> (nat \<rightharpoonup> u32) \<Rightarrow> u64 set \<Rightarrow> bool" for s0 where
  start: "vm_run s0 s0 (space s0) {}"
| map: "vm_run s0 s M H \<Longrightarrow> own_table (pd_index v) \<Longrightarrow> pd_index v < 1022 \<Longrightarrow>
    map_one_page s v p flags = Inr (r, s') \<Longrightarrow> vm_run s0 s' (M(vpn v \<mapsto> map_entry p flags)) H"
| unmap: "vm_run s0 s M H \<Longrightarrow> own_table (pd_index v) \<Longrightarrow> pd_index v < 1022 \<Longrightarrow>
    unmap_one_page s v = Inr (r, s') \<Longrightarrow> vm_run s0 s' (M(vpn v := None)) H"
| alloc: "vm_run s0 s M H \<Longrightarrow> req < 3 \<Longrightarrow> alloc_page s req = Inr (a, s') \<Longrightarrow> a \<noteq> NOT 0 \<Longrightarrow>
    vm_run s0 s' M (insert a H)"
| release: "vm_run s0 s M H \<Longrightarrow> a \<in> H \<Longrightarrow> free_page s a = Inr (r, s') \<Longrightarrow> vm_run s0 s' M (H - {a})"
| clone: "vm_run s0 s M H \<Longrightarrow> pmm_frames s \<subseteq> {..<1048576} \<Longrightarrow>
    card {k. k < 1022 \<and> present (pde s k)} < card (low_frames s) \<Longrightarrow>
    clone_address_space s dest make_cow = Inr (r, dest', s') \<Longrightarrow> vm_run s0 s' M H"
| data: "vm_run s0 s M H \<Longrightarrow> same_outside A (mem s) m \<Longrightarrow> A \<inter> pmm_storage s = {} \<Longrightarrow>
    vm_run s0 (s\<lparr>mem := m\<rparr>) M H"

inductive_cases vm_run_E: "vm_run s0 s M H"

text \<open>What holds of every state of a run.\<close>

definition vm_run_inv :: "'a vmm_scheme \<Rightarrow> 'a vmm_scheme \<Rightarrow> (nat \<rightharpoonup> u32) \<Rightarrow> u64 set \<Rightarrow> bool" where
  "vm_run_inv s0 s M H \<longleftrightarrow> vm_inv s \<and> unlocked (global_vmm_lock s) \<and> allocators s = allocators s0 \<and>
     (\<forall>n < 1046528. space s n = M n) \<and>
     (\<forall>a \<in> H. unat a mod 4096 = 0 \<and> unat a div 4096 \<in> pmm_managed s0 - pmm_frames s - table_frames s)"

lemma vpn_below: "pd_index v < 1022 \<Longrightarrow> vpn v < 1046528"
  using vpn_div [of v] by (simp add: div_less_iff_less_mult)

lemma run_step:
  assumes "vm_run_inv s0 s M H" "vm_inv s'" "vm_step s s' \<and> tables_from s s'" "\<forall>n < 1046528. space s' n = M' n"
  shows "vm_run_inv s0 s' M' H"
proof -
  have "allocators s' = allocators s" "global_vmm_lock s' = global_vmm_lock s" using assms(3) vm_stepD(2,7) by blast+
  with assms show ?thesis by (auto simp: vm_run_inv_def tables_from_def)
qed

lemma run_map:
  assumes "vm_run_inv s0 s M H" "own_table (pd_index v)" "map_one_page s v p flags = Inr (r, s')"
  shows "vm_run_inv s0 s' (M(vpn v \<mapsto> map_entry p flags)) H"
proof -
  have "vm_inv s" "\<forall>n < 1046528. space s n = M n" using assms(1) by (simp_all add: vm_run_inv_def)
  with vm.enter [of s v "(p, flags)"] assms show ?thesis by (intro run_step [OF assms(1)]) auto
qed

lemma run_unmap:
  assumes "vm_run_inv s0 s M H" "own_table (pd_index v)" "unmap_one_page s v = Inr (r, s')"
  shows "vm_run_inv s0 s' (M(vpn v := None)) H"
proof -
  have "vm_inv s" "\<forall>n < 1046528. space s n = M n" using assms(1) by (simp_all add: vm_run_inv_def)
  with vm.remove [of s v] assms show ?thesis by (intro run_step [OF assms(1)]) auto
qed

text \<open>A step of the physical memory manager that leaves the page tables' frames alone.\<close>

lemma run_pmm_step:
  assumes "vm_run_inv s0 s M H" "pmm_step s s'" "pmm_inv s'" "table_frames s \<inter> pmm_frames s' = {}"
    "\<forall>a \<in> H'. unat a mod 4096 = 0 \<and> unat a div 4096 \<in> pmm_managed s0 - pmm_frames s' - table_frames s"
  shows "vm_run_inv s0 s' M H'"
proof -
  have i: "vm_inv s" using assms(1) by (simp add: vm_run_inv_def)
  note st = vm_inv_pmm_step [OF i assms(2-4)]
  show ?thesis using assms(1,5) st vm_stepD(2,7) [OF st(3)] by (simp add: vm_run_inv_def)
qed

lemma run_alloc:
  assumes "vm_run_inv s0 s M H" "req < 3" "alloc_page s req = Inr (a, s')" "a \<noteq> NOT 0"
  shows "vm_run_inv s0 s' M (insert a H)"
proof -
  note i = assms(1) [unfolded vm_run_inv_def]
  have inv: "pmm_inv s" "table_frames s \<inter> pmm_frames s = {}" using i by (simp_all add: vm_inv_def vm_core_def)
  show ?thesis
  proof (cases rule: alloc_page_spec [OF inv(1) assms(2)])
    case (1 b t)
    then have eq: "b = a" "t = s'" using assms(3) by simp_all
    have "pmm_frames s \<subseteq> pmm_managed s" by (rule pmm_frames_managed [OF inv(1)])
    moreover have "pmm_managed s = pmm_managed s0" using i by (intro pmm_managed_cong) simp
    ultimately have "\<forall>c \<in> insert a H. unat c mod 4096 = 0 \<and> unat c div 4096 \<in> pmm_managed s0 - pmm_frames s' - table_frames s"
      using i 1(3,6,7) inv(2) unfolding eq by auto
    then show ?thesis using run_pmm_step [OF assms(1)] 1(4,5,7) inv(2) unfolding eq by blast
  qed (use assms(3,4) in simp)
qed

lemma run_release:
  assumes "vm_run_inv s0 s M H" "inj_on (\<lambda>a. unat a div 4096) H" "a \<in> H"
  shows "\<exists>s'. free_page s a = Inr (0, s') \<and> vm_run_inv s0 s' M (H - {a})"
proof -
  note i = assms(1) [unfolded vm_run_inv_def]
  have inv: "pmm_inv s" "table_frames s \<inter> pmm_frames s = {}" using i by (simp_all add: vm_inv_def vm_core_def)
  have "pmm_managed s = pmm_managed s0" using i by (intro pmm_managed_cong) simp
  then have a: "unat a mod 4096 = 0" "unat a div 4096 \<in> pmm_managed s" "unat a div 4096 \<notin> pmm_frames s"
    "unat a div 4096 \<notin> table_frames s" using i assms(3) by auto
  obtain s' where s': "free_page s a = Inr (0, s')" "pmm_inv s'" "pmm_step s s'"
    "pmm_frames s' = insert (unat a div 4096) (pmm_frames s)"
    by (rule free_page_spec [OF inv(1) a(1-3)])
  have "unat c div 4096 \<noteq> unat a div 4096" if "c \<in> H - {a}" for c using assms(2,3) that by (auto simp: inj_on_def)
  then have "\<forall>c \<in> H - {a}. unat c mod 4096 = 0 \<and> unat c div 4096 \<in> pmm_managed s0 - pmm_frames s' - table_frames s"
    using i s'(4) by auto
  with run_pmm_step [OF assms(1) s'(3,2)] s'(1,4) inv(2) a(4) show ?thesis by auto
qed

lemma run_clone:
  assumes "vm_run_inv s0 s M H" "pmm_frames s \<subseteq> {..<1048576}"
    "card {k. k < 1022 \<and> present (pde s k)} < card (low_frames s)"
    "clone_address_space s dest make_cow = Inr (r, dest', s')"
  shows "vm_run_inv s0 s' M H"
proof -
  note i = assms(1) [unfolded vm_run_inv_def]
  have "vm_inv s" "unlocked (global_vmm_lock s)" using i by blast+
  then obtain D t where t: "clone_address_space s dest make_cow = Inr (0, \<lparr>directory = D, as_lock = SPINLOCK_RELEASED\<rparr>, t)"
    "vm_inv t" "frame D \<in> pmm_frames s - pmm_frames t" "pmm_frames t \<subseteq> pmm_frames s"
    "\<forall>k < 1023. pde t k = (if k = 1022 then D OR X86_WRITE OR X86_PRESENT else pde s k)"
    "frame (pde t 1022) = frame D" "\<forall>n < 1046528. space t n = space s n" "unlocked (global_vmm_lock t)"
    "allocators t = allocators s" "cr3 t = cr3 s"
    by (rule clone_address_space_spec [OF _ _ assms(2,3), of dest make_cow])
  have "t = s'" using t(1) assms(4) by simp
  have sub: "table_frames t \<subseteq> insert (frame D) (table_frames s)"
  proof
    fix f assume "f \<in> table_frames t"
    then consider "f = frame (cr3 s)" | k where "k < 1023" "present (pde t k)" "f = frame (pde t k)"
      unfolding table_frames_def t(10) by auto
    then show "f \<in> insert (frame D) (table_frames s)"
      by cases (use t(5,6) in \<open>auto simp: table_frames_def split: if_splits\<close>)
  qed
  have out: "unat a div 4096 \<notin> table_frames t \<and> unat a div 4096 \<notin> pmm_frames t" if "a \<in> H" for a
  proof -
    define f where "f = unat a div 4096"
    have "f \<notin> table_frames s" "f \<notin> pmm_frames s" using i that f_def by blast+
    then have "f \<notin> table_frames t" "f \<notin> pmm_frames t"
      using sub t(3,4) by auto
    then show ?thesis by (simp add: f_def)
  qed
  show ?thesis using i t(2,7-9) out unfolding \<open>t = s'\<close> vm_run_inv_def by auto
qed

lemma run_write:
  assumes "vm_run_inv s0 s M H" "same_outside A (mem s) m" "A \<inter> pmm_storage s = {}"
  shows "vm_run_inv s0 (s\<lparr>mem := m\<rparr>) M H"
proof -
  note i = assms(1) [unfolded vm_run_inv_def]
  have "pmm_frames (s\<lparr>mem := m\<rparr>) = pmm_frames s"
    using i pmm_frame(2) [OF _ assms(2,3)] by (simp add: vm_inv_def vm_core_def)
  moreover have "vm_inv (s\<lparr>mem := m\<rparr>)" using i vm_inv_data [OF _ assms(2,3)] by blast
  ultimately show ?thesis
    using i vm_cong(2) [of "s\<lparr>mem := m\<rparr>" s] space_cong [of "s\<lparr>mem := m\<rparr>" s] by (simp add: vm_run_inv_def)
qed

text \<open>The frames of the pages held are different, since a page is only given out while it is free.\<close>

lemma vm_run_holds:
  assumes "vm_run s0 s M H" "vm_inv s0" "unlocked (global_vmm_lock s0)"
  shows "vm_run_inv s0 s M H \<and> inj_on (\<lambda>a. unat a div 4096) H"
  using assms(1)
proof (induction rule: vm_run.induct)
  case start
  then show ?case using assms(2,3) by (simp add: vm_run_inv_def)
next
  case (alloc s M H req a s')
  have "pmm_inv s" using alloc.IH by (simp add: vm_run_inv_def vm_inv_def vm_core_def)
  then have "unat a div 4096 \<in> pmm_frames s" using alloc.hyps(2-4) by (cases rule: alloc_page_spec) auto
  then have "unat a div 4096 \<notin> (\<lambda>a. unat a div 4096) ` H" using alloc.IH by (auto simp: vm_run_inv_def)
  then show ?case using alloc run_alloc by auto
next
  case (release s M H a r s')
  then show ?case using run_release [of s0 s M H a] by (auto intro: inj_on_subset)
next
  case (map s M H v p flags r s')
  then show ?case using run_map by blast
next
  case (unmap s M H v r s')
  then show ?case using run_unmap by blast
qed (auto intro: run_clone run_write)


text \<open>\<open>get_mapping\<close> reads the map.\<close>

lemma vm_run_get_mapping:
  assumes "vm_run_inv s0 s M H" "pd_index v < 1022"
  shows "get_mapping s v = Inr (case M (vpn v) of None \<Rightarrow> (NOT 0, None)
    | Some e \<Rightarrow> (ucast (e AND 0xFFFFF000), Some (from_x86_flags (e AND 0xFFF))))"
proof -
  have "rec_ok s" using assms(1) by (simp add: vm_run_inv_def vm_inv_def vm_core_def tables_ok_def)
  moreover have "lookup s (vpn v) = M (vpn v)"
    using assms(1) vpn_below [OF assms(2)] by (simp add: vm_run_inv_def space_def)
  ultimately show ?thesis by (simp add: get_mapping_eq)
qed

end
