(* ===== verification/Boot_Properties.thy ===== *)
theory Boot_Properties
  imports Loader_Demo Vmm_Run Demo
begin

text \<open>
  The properties of the way up, from the boot loader's information to the memory managers, and of
  the address spaces the virtual memory manager makes.
\<close>

section \<open>The second-stage loader\<close>





section \<open>Starting memory management\<close>

text \<open>
  The kernel's image is taken out of the map: from a map with a range that starts where the image
  does, \<^verbatim>\<open>remove_range\<close> takes exactly the bytes from the start of the image on, as many as its end
  address says, and what is left is page aligned. None of it is handed to the early allocator.
\<close>

theorem kernel_image_reserved:
  assumes "boot_map_ok (unat ls) (unat ke) rs" "unat ke mod 4096 = 0" "i < length rs"
  shows "range_bytes (map (remove_range (ucast (ls :: u32)) (ucast (ke :: u32))) rs ! i) =
      range_bytes (rs ! i) - {unat ls ..< unat ls + unat ke} \<and>
    unat (start (map (remove_range (ucast ls) (ucast ke)) rs ! i)) mod 4096 = 0"
proof (cases "start (rs ! i) = ucast ls")
  case True
  then have "unat (start (rs ! i)) = unat ls" using unat_u32_less [of ls] by (simp add: unat_ucast_small)
  note r = remove_range_spec [OF assms] and m = remove_range_spec(4) [OF assms this]
  have "range_bytes (rs ! i) - {unat ls ..< unat ls + unat ke} \<subseteq>
      range_bytes (map (remove_range (ucast ls) (ucast ke)) rs ! i)"
    using m \<open>unat (start (rs ! i)) = unat ls\<close> unfolding range_bytes_def by auto
  with r(2,3) show ?thesis by blast
next
  case False
  then have "map (remove_range (ucast ls) (ucast ke)) rs ! i = rs ! i" using assms(3) by (simp add: remove_range_def)
  with remove_range_spec(2,3) [OF assms] show ?thesis by auto
qed

theorem kernel_image_reserved_witness:
  "range_bytes (map (remove_range (ucast (0x100000 :: u32)) (ucast (0x121000 :: u32))) (available demo_map) ! 1) = {0x221000..<0x40000000}"
proof -
  have "boot_map_ok (unat (0x100000 :: u32)) (unat (0x121000 :: u32)) (available demo_map)" using demo_map_ok by simp
  moreover have "1 < length (available demo_map)" "range_bytes (available demo_map ! 1) = {0x100000..<0x40000000}"
    unfolding demo_available(1) by (simp_all add: range_bytes_def)
  ultimately show ?thesis using kernel_image_reserved [of "0x100000" "0x121000" "available demo_map" 1] by auto
qed

text \<open>
  C18: The virtual memory manager starts: on the first-stage loader's tables and with room for the page
  tables in one range of the early allocator, \<^verbatim>\<open>init_virtual_memory\<close> returns 0, the recursive window
  works and every table has a frame of its own but for the shared one of the first 4MB and the kernel's
  image; every table of kernel space is present, no page has been mapped or unmapped, the page
  fault handler is installed and write protection is on.
\<close>

theorem init_virtual_memory_correct:
  assumes "boot_tables s" "early_inv s" "early_aligned s" "tables_apart s" "early_room s 254"
    "early_bytes s \<subseteq> {..<unat (early_max_extent s)}"
  shows "\<exists>s'. init_virtual_memory h s = Inr (0, s') \<and> tables_ok s' \<and> space s' = space s \<and>
    (\<forall>k. 768 \<le> k \<and> k < 1022 \<longrightarrow> present (pde s' k)) \<and> early_inv s' \<and> tables_apart s' \<and>
    current s' = Some \<lparr>directory = cr3 s AND 0xFFFFF000, as_lock = SPINLOCK_RELEASED\<rparr> \<and>
    isr_routines s' = (isr_routines s)[14 := h] \<and> cr0 s' = cr0 s OR CR0_WP \<and> mem s' = mem s"
proof -
  have room: "early_room s (254 + 0)" using assms(5) by simp
  obtain s' where s': "init_virtual_memory h s = Inr (0, s')" "kinit s' 0" "space s' = space s"
    "\<And>k. 768 \<le> k \<Longrightarrow> k < 1022 \<Longrightarrow> present (pde s' k)"
    "current s' = Some \<lparr>directory = cr3 s AND 0xFFFFF000, as_lock = SPINLOCK_RELEASED\<rparr>"
    and eq: "s' = s\<lparr>ptmem := ptmem s', early_ranges := early_ranges s', current := current s',
      isr_routines := (isr_routines s)[14 := h], cr0 := cr0 s OR CR0_WP\<rparr>"
    using init_virtual_memory_spec [OF assms(1-4) room assms(6)] by blast
  have "isr_routines s' = (isr_routines s)[14 := h]" "cr0 s' = cr0 s OR CR0_WP" "mem s' = mem s" by (subst eq, simp)+
  with s' show ?thesis by (auto simp: kinit_def)
qed


theorem init_virtual_memory_correct_witness:
  "\<exists>rs s s'. init_physical_memory_early demo_platform rs 2 0x40000000 = Inr (0, s) \<and>
     init_virtual_memory 0xC0100500 s = Inr (0, s') \<and> tables_ok s' \<and> present (pde s' 1000) \<and> cr0 s' AND CR0_WP \<noteq> 0"
proof -
  define rs where "rs = map (remove_range (ucast (link_start demo_platform)) (ucast (kernel_end (link_end demo_platform)))) (available demo_map)"
  have len: "length rs = 2" unfolding rs_def demo_available(1) by simp
  obtain s where s: "init_physical_memory_early demo_platform rs 2 0x40000000 = Inr (0, s)"
    "early_inv s" "early_aligned s" "tables_apart s" "early_room s (254 + bitmap_pages (memory_top (available demo_map)))"
    "early_bytes s \<subseteq> {..<unat (early_max_extent s)}"
    "s = demo_platform\<lparr>early_ranges := early_ranges s, early_nranges := length (available demo_map),
       early_max_extent := memory_top (available demo_map), pmm_init_stage := PMM_INIT_EARLY\<rparr>"
    using early_start [OF demo_ready(1)] len unfolding rs_def [symmetric] demo_available(2) by metis
  have c: "ptmem s = ptmem demo_platform" "cr3 s = cr3 demo_platform" by (subst s(7), simp)+
  have "boot_tables s" using demo_tables(1) pde_cong [OF c] c by (simp add: boot_tables_def)
  moreover have "early_room s 254" by (rule early_roomD [OF s(5)]) simp
  ultimately obtain s' where s': "init_virtual_memory 0xC0100500 s = Inr (0, s')" "tables_ok s'"
    "\<forall>k. 768 \<le> k \<and> k < 1022 \<longrightarrow> present (pde s' k)" "cr0 s' = cr0 s OR CR0_WP"
    using init_virtual_memory_correct [OF _ s(2-4) _ s(6), of "0xC0100500"] by blast
  then have "present (pde s' 1000)" by simp
  moreover have "cr0 s' AND CR0_WP \<noteq> 0" unfolding s'(4) by (rule or_CR0_WP)
  ultimately show ?thesis using s(1) s'(1,2) by blast
qed

text \<open>
  C16: Memory management starts: on a machine as the loaders leave it, \<^verbatim>\<open>init_memory\<close> returns 1. All of
  kernel space has page tables, the only pages mapped are the first 4MB, twice, and the bitmaps of the
  physical memory manager, nothing but the bitmaps is written in the data store, and the allocators
  cover their zones up to the highest address of the map.
\<close>

theorem init_memory_starts:
  assumes "boot_ready s es"
  shows "\<exists>s'. init_memory h s = Inr (1, s') \<and> pmm_init_stage s' = PMM_INIT_FULL \<and> tables_ok s' \<and>
    zones_ok (memory_top (available es)) s' \<and> (\<forall>k. 768 \<le> k \<and> k < 1022 \<longrightarrow> present (pde s' k)) \<and>
    (\<forall>n. space s' n \<noteq> None \<longleftrightarrow> n < 1024 \<or> 786432 \<le> n \<and> n < 787456 \<or>
       1042432 \<le> n \<and> n < 1042432 + bitmap_pages (memory_top (available es))) \<and>
    same_outside (region MMAP_PMM_BITMAP 0x1000000) (mem s) (mem s') \<and>
    isr_routines s' = (isr_routines s)[14 := h] \<and> cr0 s' AND CR0_WP \<noteq> 0"
proof -
  obtain s' where s': "init_memory h s = Inr (1, s')" "memory_up s'" "early_max_extent s' = memory_top (available es)"
    "same_outside (region MMAP_PMM_BITMAP 0x1000000) (mem s) (mem s')"
    "\<forall>n. space s' n \<noteq> None \<longleftrightarrow> n < 1024 \<or> 786432 \<le> n \<and> n < 787456 \<or>
       1042432 \<le> n \<and> n < 1042432 + bitmap_pages (memory_top (available es))"
    and eq: "s' = s\<lparr>mem := mem s', ptmem := ptmem s', early_ranges := early_ranges s', early_nranges := early_nranges s',
      early_max_extent := memory_top (available es), pmm_init_stage := PMM_INIT_FULL, allocators := allocators s', current := current s',
      isr_routines := (isr_routines s)[14 := h], cr0 := cr0 s OR CR0_WP\<rparr>"
    by (rule init_memory_spec [OF assms, of h])
  have "isr_routines s' = (isr_routines s)[14 := h]" by (subst eq) simp
  with s' show ?thesis unfolding memory_up_def by (intro exI [of _ s']) simp
qed

theorem init_memory_starts_witness:
  "\<exists>s'. init_memory 0xC0100500 demo_platform = Inr (1, s') \<and> tables_ok s' \<and> present (pde s' 1000) \<and> space s' 2000 = None"
proof -
  obtain s' where s': "init_memory 0xC0100500 demo_platform = Inr (1, s')" "tables_ok s'"
    "\<forall>k. 768 \<le> k \<and> k < 1022 \<longrightarrow> present (pde s' k)"
    "\<forall>n. space s' n \<noteq> None \<longleftrightarrow> n < 1024 \<or> 786432 \<le> n \<and> n < 787456 \<or>
       1042432 \<le> n \<and> n < 1042432 + bitmap_pages (memory_top (available demo_map))"
    using init_memory_starts [OF demo_ready(1), of "0xC0100500"] by blast
  have "space s' 2000 = None" using s'(4) [THEN spec, of 2000] by simp
  with s'(1-3) show ?thesis by simp
qed

text \<open>
  C17: The managers are started on overlapping bitmaps: \<^verbatim>\<open>init_physical_memory\<close> lays the bitmaps of the
  zones out in the order below 1MB, below 4GB, above, but moves on by the sizes of the zones with the
  indices 0 and 1, which are the zone above 4GB and the one below 1MB. After every successful
  \<^verbatim>\<open>init_memory\<close> two zones share a byte of their bitmaps, and the invariant that the page allocator
  relies on does not hold.
\<close>

theorem init_memory_bitmaps_overlap:
  assumes "boot_ready s es"
  shows "\<exists>s'. init_memory h s = Inr (1, s') \<and> \<not> pmm_inv s' \<and>
    (\<exists>r < 3. \<exists>q < 3. r \<noteq> q \<and> buddy_storage (allocators s' ! r) \<inter> buddy_storage (allocators s' ! q) \<noteq> {})"
proof -
  obtain s' where s': "init_memory h s = Inr (1, s')"
    "\<exists>r < 3. \<exists>q < 3. r \<noteq> q \<and> buddy_storage (allocators s' ! r) \<inter> buddy_storage (allocators s' ! q) \<noteq> {}"
    by (rule init_memory_spec [OF assms, of h])
  moreover have "\<not> pmm_inv s'" using s'(2) pmm_invD(6) [of s'] by blast
  ultimately show ?thesis by blast
qed

theorem init_memory_bitmaps_overlap_witness:
  "\<exists>s'. init_memory 0xC0100500 demo_platform = Inr (1, s') \<and> \<not> pmm_inv s'"
  using init_memory_bitmaps_overlap [OF demo_ready(1), of "0xC0100500"] by blast

section \<open>Address spaces\<close>









end
