(* ===== verification/Spec2Isabelle.thy ===== *)
theory Spec2Isabelle
  imports Demo Buddy_Run Kernel_Properties Boot_Properties
begin

text \<open>
  A verification development for the Mink kernel, a small kernel for 32-bit x86 machines written in C.

  \<^bold>\<open>The program.\<close> The assembler entry point turns paging on with one page table and calls the
  second-stage loader (\<^verbatim>\<open>arch/x86/loader2.c\<close>), which copies the boot loader's information and calls
  \<^verbatim>\<open>kmain\<close> (\<^verbatim>\<open>kmain.c\<close>). The kernel then starts its \<^emph>\<open>features\<close>, which the linker collects in a section,
  in an order given by their prerequisites: segment and interrupt descriptors, exceptions and hardware
  interrupts, the timer, the serial console and memory management. Memory management is a tower: bitmaps,
  a buddy allocator on them, a physical memory manager with one buddy allocator per zone, a virtual
  memory manager that edits page tables through a recursive window, ranges of kernel addresses backed by
  pages, slab caches in such a range, and \<^verbatim>\<open>kmalloc\<close> on top. Beside it are strings, the formatter
  \<^verbatim>\<open>vsprintf\<close>, consoles, symbol lookup for stack traces, spinlocks and a read-only RAM file system.

  \<^bold>\<open>The state.\<close> Each component that keeps state has a record that extends the one below it, along one chain:
  \<open>machine\<close> (the byte store \<open>mem\<close> behind ordinary addresses, \<open>ptmem\<close>, the physical memory that holds page
  tables, the control registers and \<^verbatim>\<open>EFLAGS\<close>), \<open>io_machine\<close>, \<open>vga\<close>, \<open>intr\<close>, \<open>pmm\<close>, \<open>vmm\<close>, and then either \<open>kheap\<close> for the
  heap or \<open>boot\<close> and \<open>platform\<close> for the whole machine. C data that other C code reaches through pointers
  (bitmaps, slabs, screen buffers, strings, boot information, file systems) lives in \<open>mem\<close> at its address.
  Integers are words of their C width. An operation returns \<open>error + result\<close>: a panic, an access the C
  language leaves undefined, a page fault or a loop that never ends are values of \<open>error\<close>.

  \<^bold>\<open>Theories and sources.\<close>
  \<^item> \<open>Prelude\<close>, \<open>Hal\<close>, \<open>Machine\<close>, \<open>Ports\<close>: shared lemmas and automation; \<^verbatim>\<open>include/hal.h\<close>,
    \<^verbatim>\<open>include/x86/hal.h\<close>, \<^verbatim>\<open>arch/x86/hal.c\<close>.
  \<^item> \<open>Sys\<close>, \<open>Strings\<close>, \<open>Utils\<close>, \<open>Printk\<close>: \<^verbatim>\<open>sys.c\<close>, \<^verbatim>\<open>utils.c\<close> (memory primitives, strings, \<^verbatim>\<open>printk\<close>, \<^verbatim>\<open>panic\<close>, the stack trace).
  \<^item> \<open>Bitmap\<close>; \<open>Buddy\<close> with \<open>Buddy_Spec\<close>, \<open>Buddy_Correct\<close>, \<open>Buddy_Range\<close>, \<open>Page_Allocator\<close>, \<open>Buddy_Run\<close>: \<^verbatim>\<open>bitmap.c\<close>, \<^verbatim>\<open>buddy.c\<close>.
  \<^item> \<open>Locking\<close>: \<^verbatim>\<open>locking.c\<close>, sequentially on one core and as a step relation on several.
  \<^item> \<open>Pmm\<close>, \<open>Pmm_Init\<close>: \<^verbatim>\<open>pmm.c\<close>.
  \<^item> \<open>Vmm\<close>, \<open>Vmm_Correct\<close>, \<open>Vmm_Init\<close>, \<open>Vmm_Clone\<close>, \<open>Vmm_Run\<close>: \<^verbatim>\<open>arch/x86/vmm.c\<close>.
  \<^item> \<open>Vmspace\<close>, \<open>Vmspace_Correct\<close>: \<^verbatim>\<open>vmspace.c\<close>.
  \<^item> \<open>Slab\<close>, \<open>Slab_Layout\<close>, \<open>Slab_Correct\<close>, \<open>Slab_Alloc\<close>, \<open>Slab_Free\<close>: \<^verbatim>\<open>slab.c\<close>.
  \<^item> \<open>Kmalloc\<close>, \<open>Kmalloc_Correct\<close>: \<^verbatim>\<open>kmalloc.c\<close>.
  \<^item> \<open>Vsprintf\<close>: \<^verbatim>\<open>vsprintf.c\<close>; \<open>Elf\<close>: \<^verbatim>\<open>elf.c\<close>; \<open>Ramfs\<close>: \<^verbatim>\<open>ramfs.c\<close>.
  \<^item> \<open>Vgaterm\<close>, \<open>Console\<close>: \<^verbatim>\<open>arch/x86/vgaterm.c\<close>, \<^verbatim>\<open>console.c\<close>, \<^verbatim>\<open>arch/x86/serialterm.c\<close>.
  \<^item> \<open>Interrupts\<close>, \<open>Timer_Ticks\<close>, \<open>Gdt\<close>: \<^verbatim>\<open>arch/x86/idt.c\<close>, \<^verbatim>\<open>isrs.c\<close>, \<^verbatim>\<open>irqs.c\<close>, \<^verbatim>\<open>timer.c\<close>, \<^verbatim>\<open>gdt.c\<close>, \<^verbatim>\<open>tick.c\<close>.
  \<^item> \<open>Features\<close>, \<open>Features_Order\<close>, \<open>Platform\<close>, \<open>Platform_Run\<close>: \<^verbatim>\<open>kmain.c\<close> and the feature of every driver.
  \<^item> \<open>Multiboot\<close>, \<open>Memory_Start\<close>, \<open>Loader\<close>, \<open>Loader_Run\<close>: \<^verbatim>\<open>include/x86/multiboot.h\<close>, \<^verbatim>\<open>arch/x86/mem.c\<close>,
    \<^verbatim>\<open>arch/x86/loader2.c\<close>.
  \<^item> \<open>Demo\<close>, \<open>Boot_Demo\<close>, \<open>Loader_Demo\<close>: concrete machines on which the properties are instantiated.
  \<^item> \<open>Kernel_Properties\<close>, \<open>Boot_Properties\<close> and this theory: the properties, numbered C1 to C40.

  \<^bold>\<open>What the lemmas show.\<close> The bitmaps of the buddy allocator represent a set of free pages (\<open>buddy_free_pages\<close>)
  under an invariant that says blocks are disjoint and fully coalesced; every operation is proved by what it
  does to that set. The physical and the virtual memory manager are proved on the frames of that set and on
  the partial map \<open>space\<close> from pages to entries that the processor's two-level walk reads; \<open>vm_run\<close> closes the
  operations under sequences. Address ranges, slabs and the heap are proved on top of these contracts down to
  round trips that hold after whatever the client writes to its block. The console drivers, the terminal's
  screen, the formatter, \<open>tokenize\<close> and symbol lookup are proved against reference definitions. The feature
  loader is proved to terminate, to start features once and in order, and to report what is missing;
  \<open>Platform_Run\<close>, \<open>Memory_Start\<close> and \<open>Loader_Run\<close> compose all of it into the start of the machine: from the state a
  boot loader leaves to interrupts enabled in the idle loop.

  \<^bold>\<open>Interfaces.\<close> \<open>bit_vector\<close> (what the buddy allocator needs of bitmaps), \<open>page_allocator\<close> (what the memory
  managers need of the buddy allocator), \<open>page_map\<close> (what clients need of the virtual memory manager) and
  \<open>console_driver\<close> (what \<^verbatim>\<open>printk\<close> needs of a console) are locales, interpreted on the definitions of the model.

  \<^bold>\<open>Where the code falls short of its contracts.\<close> The properties of the page allocators and of everything above
  them assume \<open>pmm_inv\<close>, that the zones' bitmaps are apart. The kernel's own \<^verbatim>\<open>init_physical_memory\<close> lays them out
  so that two of them overlap (property \<open>init_memory_bitmaps_overlap\<close>); with the offsets in the order of the
  zones the invariant can hold, as \<open>Demo\<close> shows. The start-up properties do not depend on it. Other
  deviations are stated where they show: \<open>slab_layout_sizes\<close>, \<open>lock_flag_race\<close>, \<open>timer_divisor\<close>,
  \<open>buddy_free_range_unaligned\<close>, \<open>clone_is_user\<close>, \<open>kernel_image_reserved\<close>.

  \<^bold>\<open>Bounds and fuel.\<close> Loops over arrays and bit ranges recurse structurally or have termination proofs. The
  recursion of \<^verbatim>\<open>init_feature\<close> has fuel \<open>length fs + 1\<close>; every level marks a feature that was not started, so it
  is never used up (\<open>init_features_once\<close>). A string is read for at most \<open>2 ^ 32\<close> characters, the whole address
  space. Loops that follow data and may run forever (the memory map, the serial line, the chain of stack
  frames, the lists of slabs, the lowest set bit of a byte) are \<open>partial_function (option)\<close>; that they
  return is part of the properties of the operations that use them, for maps that are listed, lists
  that the cache's invariant describes and lines that
  empty again and again. The buddy allocator's properties hold up to 64GB, what its seventeen orders and
  the 16MB of addresses for bitmaps allow. What a port answers is a function of the port and of the
  number of reads so far.

  \<^bold>\<open>Not modelled.\<close> The assembler files and the linker script: the addresses of the stubs and of the kernel
  image are arguments or part of the state, and what \<^verbatim>\<open>loader.s\<close> leaves behind is \<open>boot_tables\<close>. Translation of
  ordinary data accesses: \<open>mem\<close> is addressed by virtual addresses, so the double mapping of the first 4MB is
  not visible in it, and neither are the translation caches, whose invalidation the code leaves out. The
  copy-on-write functions that \<^verbatim>\<open>hal.h\<close> declares have no definition in the sources. Debug output
  (\<^verbatim>\<open>KDEBUG\<close> builds), the word and long port accesses that nothing calls, \<^verbatim>\<open>include/pmm.h\<close>, which declares
  functions that no longer exist, tests and build files are left out.
\<close>

section \<open>The buddy allocator\<close>

text \<open>
  C1: \<^verbatim>\<open>buddy_alloc\<close> either returns the address of an aligned block of free pages of the order
  asked for and takes exactly that block out of the free pages, keeping the invariant and
  writing only to the allocator's bitmaps; or it returns \<open>~0\<close>, changes nothing, and no
  aligned free block of that order exists.
\<close>

theorem buddy_alloc_correct:
  assumes "buddy_inv bd m" "log2_roundup sz = Inr (12 + i)" "i \<le> top_order"
  shows "(\<exists>j m'. buddy_alloc bd m sz = Inr (page_addr bd (j * 2 ^ i), m') \<and>
        (j + 1) * 2 ^ i \<le> buddy_pages bd \<and> blk i j \<subseteq> buddy_free_pages bd m \<and>
        buddy_inv bd m' \<and> buddy_free_pages bd m' = buddy_free_pages bd m - blk i j \<and>
        same_outside (buddy_storage bd) m m') \<or>
     (\<forall>j. \<not> blk i j \<subseteq> buddy_free_pages bd m) \<and> buddy_alloc bd m sz = Inr (NOT 0, m)"
  using assms by (rule buddy_alloc_spec)

theorem buddy_alloc_correct_witness:
  "\<exists>j m'. buddy_alloc demo_bd demo_mem 0x3000 = Inr (page_addr demo_bd (j * 4), m') \<and> j < 4 \<and>
     buddy_free_pages demo_bd m' = {..<16} - blk 2 j"
proof -
  have "blk 2 0 \<subseteq> buddy_free_pages demo_bd demo_mem" by (auto simp: demo_buddy blk_eq)
  moreover have "2 \<le> top_order" by (simp add: top_order_def)
  ultimately obtain j m' where "buddy_alloc demo_bd demo_mem 0x3000 = Inr (page_addr demo_bd (j * 2 ^ 2), m')"
      "(j + 1) * 2 ^ 2 \<le> buddy_pages demo_bd" "buddy_free_pages demo_bd m' = {..<16} - blk 2 j"
    using buddy_alloc_correct [OF demo_buddy(2) demo_orders(2)] unfolding demo_buddy(6) by blast
  then show ?thesis by (intro exI [of _ j] exI [of _ m']) (simp add: demo_buddy(7))
qed

text \<open>
  C2: \<^verbatim>\<open>buddy_free\<close> of a block that is not free returns, adds exactly that block's pages to the
  free pages, keeps the invariant (blocks stay disjoint and fully coalesced, and coalescing
  never leaves the managed region) and writes only to the allocator's bitmaps.
\<close>

theorem buddy_free_correct:
  assumes "buddy_inv bd m" "log2_roundup sz = Inr (12 + i)" "i \<le> top_order"
    "(j + 1) * 2 ^ i \<le> buddy_pages bd" "blk i j \<inter> buddy_free_pages bd m = {}"
  shows "\<exists>m'. buddy_free bd m (page_addr bd (j * 2 ^ i)) sz = Inr m' \<and> buddy_inv bd m' \<and>
    buddy_free_pages bd m' = buddy_free_pages bd m \<union> blk i j \<and>
    same_outside (buddy_storage bd) m m'"
  using assms by (rule buddy_free_block)

theorem buddy_free_correct_witness:
  "\<exists>m'. bind_res (buddy_alloc demo_bd demo_mem 0x3000) (\<lambda>(a, m). buddy_free demo_bd m a 0x3000) = Inr m' \<and>
     buddy_free_pages demo_bd m' = {..<16}"
proof -
  obtain j m where a: "buddy_alloc demo_bd demo_mem 0x3000 = Inr (page_addr demo_bd (j * 2 ^ 2), m)"
      "(j + 1) * 2 ^ 2 \<le> buddy_pages demo_bd" "buddy_inv demo_bd m" "blk 2 j \<subseteq> {..<16}"
      "buddy_free_pages demo_bd m = {..<16} - blk 2 j" by (rule demo_allocated)
  have "2 \<le> top_order" by (simp add: top_order_def)
  from buddy_free_correct [OF a(3) demo_orders(2) this a(2)] a show ?thesis by auto
qed

text \<open>
  C3: Whatever sequence of allocations and releases a client makes, the blocks it holds never
  overlap one another or a free page, the free pages and the held blocks always make up the
  pages that were free at the start, and releasing a held block always succeeds.
\<close>

theorem buddy_run_safe:
  assumes "buddy_run bd m0 m held" "buddy_inv bd m0"
  shows "(\<forall>b \<in> held. \<forall>c \<in> held. b \<noteq> c \<longrightarrow> block_pages bd b \<inter> block_pages bd c = {}) \<and>
     (\<forall>b \<in> held. block_pages bd b \<inter> buddy_free_pages bd m = {}) \<and>
     buddy_free_pages bd m \<union> (\<Union>b \<in> held. block_pages bd b) = buddy_free_pages bd m0 \<and>
     (\<forall>(a, sz) \<in> held. \<exists>m'. buddy_free bd m a sz = Inr m')"
proof -
  have inv: "run_inv bd m0 m held" using assms by (rule buddy_run_inv)
  have "\<exists>m'. buddy_free bd m a sz = Inr m'" if "(a, sz) \<in> held" for a sz
    using run_inv_release [OF inv that] by blast
  then have "\<forall>(a, sz) \<in> held. \<exists>m'. buddy_free bd m a sz = Inr m'" by auto
  with inv show ?thesis unfolding run_inv_def by simp
qed

theorem buddy_run_safe_witness:
  "\<exists>a m. buddy_run demo_bd demo_mem m {(a, 0x3000)} \<and>
     buddy_free_pages demo_bd m \<union> block_pages demo_bd (a, 0x3000) = {..<16} \<and>
     (\<exists>m'. buddy_free demo_bd m a 0x3000 = Inr m')"
proof -
  obtain j m where a: "buddy_alloc demo_bd demo_mem 0x3000 = Inr (page_addr demo_bd (j * 2 ^ 2), m)"
      "page_addr demo_bd (j * 2 ^ 2) \<noteq> NOT 0" by (rule demo_allocated)
  have "2 \<le> top_order" by (simp add: top_order_def)
  then have run: "buddy_run demo_bd demo_mem m {(page_addr demo_bd (j * 2 ^ 2), 0x3000)}"
    using buddy_run.alloc [OF buddy_run.start demo_orders(2) _ a] by simp
  from buddy_run_safe [OF this demo_buddy(2)] run show ?thesis by (auto simp: demo_buddy)
qed

text \<open>
  C4: \<^verbatim>\<open>buddy_init\<close> lays the seventeen bitmaps out inside \<^verbatim>\<open>buddy_calc_overhead\<close> bytes of storage,
  establishes the invariant, and makes all of the region's pages free or none of them.
\<close>

theorem buddy_init_correct:
  assumes "range_ok r"
  shows "\<exists>bd m'. buddy_init m storage r start_freed = Inr (0, bd, m') \<and>
    buddy_start bd = start r \<and> buddy_size bd = extent r \<and> buddy_inv bd m' \<and>
    buddy_free_pages bd m' = (if start_freed then {..<unat (extent r) div 4096} else {}) \<and>
    buddy_storage bd \<subseteq> region storage (unat (buddy_calc_overhead r)) \<and>
    same_outside (region storage (unat (buddy_calc_overhead r))) m m'"
  using assms by (rule buddy_init_spec)

theorem buddy_init_correct_witness:
  "\<exists>bd m'. buddy_init (\<lambda>_. 0) 0x2000 demo_range True = Inr (0, bd, m') \<and>
     buddy_free_pages bd m' = {..<16}"
  using buddy_init_correct [OF demo_range_ok, where m = "\<lambda>_. 0" and storage = "0x2000" and start_freed = True]
  by (auto simp: demo_range_def)

text \<open>
  C5: \<^verbatim>\<open>buddy_free_range\<close> of a page-aligned range inside the managed region, none of whose pages is
  free, terminates and frees exactly the whole pages of the range.
\<close>

theorem buddy_free_range_correct:
  assumes "buddy_inv bd m" "range_inside bd r" "range_pages bd r \<inter> buddy_free_pages bd m = {}"
  shows "\<exists>m'. buddy_free_range bd m r = Inr m' \<and> buddy_inv bd m' \<and>
    buddy_free_pages bd m' = buddy_free_pages bd m \<union> range_pages bd r \<and>
    same_outside (buddy_storage bd) m m'"
  using assms by (rule buddy_free_range_spec)

theorem buddy_free_range_correct_witness:
  "\<exists>m'. bind_res (buddy_init (\<lambda>_. 0) 0x2000 demo_range False)
     (\<lambda>(r, bd, m). bind_res (buddy_free_range bd m \<lparr>start = 0x103000, extent = 0x5800\<rparr>)
       (\<lambda>m'. Inr (buddy_free_pages bd m'))) = Inr {3..<8}"
proof -
  obtain m bd where e: "buddy_init (\<lambda>_. 0) 0x2000 demo_range False = Inr (0, bd, m)" "buddy_inv bd m"
    "buddy_free_pages bd m = {}" "buddy_start bd = 0x100000" "buddy_size bd = 0x10000"
    by (rule demo_empty)
  have "range_inside bd \<lparr>start = 0x103000, extent = 0x5800\<rparr>" using e by (simp add: range_inside_def)
  from buddy_free_range_correct [OF e(2) this] e show ?thesis
    by (auto simp: range_pages_def Let_def)
qed

text \<open>
  On a machine whose allocator range starts off a page boundary, \<^verbatim>\<open>buddy_free_range\<close> moves the
  start up to the next page without shortening the range, so that it frees a page that lies
  beyond the end of the range it was given: here the range \<open>[0x100800, 0x102800)\<close> contains one
  whole page, and two pages are freed, the second of which ends at \<open>0x103000\<close>.
\<close>

theorem buddy_free_range_unaligned:
  "\<exists>bd m m'. buddy_init (\<lambda>_. 0) 0x2000 demo_range False = Inr (0, bd, m) \<and>
     buddy_free_pages bd m = {} \<and>
     buddy_free_range bd m \<lparr>start = 0x100800, extent = 0x2000\<rparr> = Inr m' \<and>
     buddy_free_pages bd m' = {1, 2}"
proof -
  obtain m bd where e: "buddy_init (\<lambda>_. 0) 0x2000 demo_range False = Inr (0, bd, m)" "buddy_inv bd m"
    "buddy_free_pages bd m = {}" "buddy_start bd = 0x100000" "buddy_size bd = 0x10000"
    by (rule demo_empty)
  have "range_inside bd \<lparr>start = 0x101000, extent = 0x2000\<rparr>" using e by (simp add: range_inside_def)
  moreover have pages: "range_pages bd \<lparr>start = 0x101000, extent = 0x2000\<rparr> = {1, 2}"
    using e(4) by (auto simp: range_pages_def)
  ultimately obtain m' where
    m': "buddy_free_range bd m \<lparr>start = 0x101000, extent = 0x2000\<rparr> = Inr m'"
      "buddy_free_pages bd m' = {1, 2}"
    using buddy_free_range_spec [OF e(2), of "\<lparr>start = 0x101000, extent = 0x2000\<rparr>"]
    unfolding pages e(3) by auto
  have "buddy_free_range bd m \<lparr>start = 0x100800, extent = 0x2000\<rparr> =
      buddy_free_range bd m \<lparr>start = 0x101000, extent = 0x2000\<rparr>"
    by (simp add: buddy_free_range_def aligned_for_iff mask_eq_exp_minus_1)
  then show ?thesis using e(1,3) m' by auto
qed

section \<open>Physical memory\<close>

text \<open>
  C14: \<^verbatim>\<open>alloc_pages\<close> returns \<open>2 ^ i\<close> consecutive free frames in the zone the caller asked for and takes
  exactly those out of the free frames; or \<open>~0\<close> with the free frames unchanged, when the
  zone has no free block of that order. The lock is free again afterwards and only the
  allocators' bitmaps and the lock have changed.
\<close>

theorem alloc_pages_correct:
  assumes "pmm_inv s" "req < 3" "log2_roundup (num * get_page_size) = Inr (12 + i)" "i \<le> top_order"
  shows "\<exists>a s'. alloc_pages s req num = Inr (a, s') \<and> pmm_inv s' \<and> pmm_step s s' \<and>
    (a \<noteq> NOT 0 \<and> unat a mod 4096 = 0 \<and> frames_of a i \<subseteq> pmm_frames s \<and>
       pmm_frames s' = pmm_frames s - frames_of a i \<and> req_met req (frames_of a i) \<or>
     a = NOT 0 \<and> pmm_frames s' = pmm_frames s \<and>
       (\<forall>j. \<not> blk i j \<subseteq> buddy_free_pages (allocators s ! req) (mem s)))"
proof (cases rule: alloc_pages_spec [OF assms])
  case (1 a s')
  then show ?thesis by (intro exI [of _ a] exI [of _ s']) simp
next
  case (2 s')
  then show ?thesis by (intro exI [of _ "NOT 0"] exI [of _ s']) simp
qed

theorem alloc_pages_correct_witness:
  "\<exists>a s'. alloc_pages demo_vmm PAGE_REQ_UNDER4GB 3 = Inr (a, s') \<and> pmm_inv s'"
proof -
  have "log2_roundup (3 * get_page_size) = Inr (12 + 2)" "2 \<le> top_order" "PAGE_REQ_UNDER4GB < 3"
    using demo_orders(2) by (simp_all add: get_page_size_def top_order_def page_req_defs)
  from alloc_pages_correct [OF demo_pmm(1) this(3,1,2)] show ?thesis by blast
qed

text \<open>
  C15: Frames handed out by \<^verbatim>\<open>alloc_pages\<close> and given back with \<^verbatim>\<open>free_pages\<close> and the same count are all
  free again: the zone that \<^verbatim>\<open>free_pages\<close> picks from the address is the one they came from.
\<close>

theorem alloc_free_pages_roundtrip:
  assumes "pmm_inv s" "req < 3" "log2_roundup (num * get_page_size) = Inr (12 + i)" "i \<le> top_order"
    "alloc_pages s req num = Inr (a, s')" "a \<noteq> NOT 0"
  shows "\<exists>s''. pmm_free_pages s' a num = Inr (0, s'') \<and> pmm_inv s'' \<and> pmm_frames s'' = pmm_frames s"
  using assms by (rule alloc_free_pages)

theorem alloc_free_pages_roundtrip_witness:
  "\<exists>a s' s''. alloc_page demo_vmm PAGE_REQ_UNDER4GB = Inr (a, s') \<and> pmm_free_pages s' a 1 = Inr (0, s'') \<and>
     pmm_frames s'' = pmm_frames demo_vmm"
proof -
  have u: "PAGE_REQ_UNDER4GB < 3" by (simp add: page_req_defs)
  show ?thesis
  proof (cases rule: alloc_page_spec [OF demo_pmm(1) u])
    case (1 a s')
    from alloc_free_pages_roundtrip [OF demo_pmm(1) u log2_roundup_page le0 1(1) [unfolded alloc_page_def] 1(2)]
    show ?thesis using 1(1) by blast
  next
    case (2 s')
    then show ?thesis using demo_pmm(3) by simp
  qed
qed

text \<open>
  The early allocator hands out whole pages of the ranges it was given, between 1MB and 4GB,
  and removes each from the ranges, so that two calls never return the same page; it panics
  only when no usable range is left.
\<close>

theorem early_alloc_page_correct:
  assumes "early_inv s"
  shows "(\<exists>a s'. early_alloc_page s = Inr (a, s') \<and> early_inv s' \<and> page_bytes a \<subseteq> early_bytes s \<and>
      early_bytes s' = early_bytes s - page_bytes a \<and> 0x100000 \<le> unat a \<and> unat a < 0x100000000) \<or>
    (early_alloc_page s = Inl (Panic ''early_alloc_page couldn't find any pages to use!'') \<and>
      (\<forall>i < early_nranges s. \<not> early_usable (early_ranges s ! i)))"
  by (rule early_alloc_page_spec [OF assms]) blast+

theorem early_alloc_page_correct_witness:
  "\<exists>a s'. early_alloc_page demo_early = Inr (a, s') \<and> early_inv s' \<and> page_bytes a \<subseteq> early_bytes demo_early"
proof -
  have "early_usable (early_ranges demo_early ! 1)" "1 < early_nranges demo_early"
    by (simp_all add: early_usable_def demo_early_def)
  then show ?thesis using early_alloc_page_correct [OF demo_early_inv] by blast
qed

section \<open>Virtual memory\<close>







text \<open>
  C9: \<^verbatim>\<open>get_mapping\<close> and \<^verbatim>\<open>is_mapped\<close> agree with the processor: the page returned for \<open>v\<close> is the page
  the two-level walk translates \<open>v\<close> to, and \<open>~0\<close> is returned exactly when the walk faults.
\<close>

theorem get_mapping_is_translation:
  assumes "rec_ok s"
  shows "(case mmu_translate s False v of
      None \<Rightarrow> get_mapping s v = Inr (NOT 0, None) \<and> is_mapped s v = Inr False
    | Some a \<Rightarrow> is_mapped s v = Inr True \<and>
        (\<exists>p flags. get_mapping s v = Inr (p, Some flags) \<and> p \<noteq> NOT 0 \<and>
           unat a = unat p + unat v mod 4096))"
proof (cases "lookup s (vpn v)")
  case None
  then show ?thesis by (simp add: mmu_translate_lookup get_mapping_eq [OF assms] is_mapped_eq [OF assms])
next
  case (Some e)
  have "frame e * 4096 + unat v mod 4096 < 4294967296" using frame_less [of e] by simp
  then have "unat ((e AND 0xFFFFF000) + (v AND 0xFFF)) = frame e * 4096 + unat v mod 4096"
    by (simp only: unat_word_ariths unat_frame_mask and_fff_mod) simp
  moreover have "unat (ucast (e AND 0xFFFFF000) :: u64) = frame e * 4096"
    using unat_u32_less [of "e AND 0xFFFFF000"] unat_frame_mask [of e] by (subst unat_ucast_small) simp_all
  ultimately show ?thesis
    using Some ucast_not_minus_1 [of "e AND 0xFFFFF000"]
    by (simp add: mmu_translate_lookup get_mapping_eq [OF assms] is_mapped_eq [OF assms])
qed

theorem get_mapping_is_translation_witness:
  "get_mapping demo_vmm 0xD0000000 = Inr (NOT 0, None) \<and> mmu_translate demo_vmm False 0xD0000000 = None"
proof -
  have "rec_ok demo_vmm" using demo_vm_inv by (simp add: vm_inv_def vm_core_def tables_ok_def)
  moreover have "mmu_translate demo_vmm False 0xD0000000 = None"
    using demo_pde by (simp add: mmu_translate_lookup lookup_def vpn_def)
  ultimately show ?thesis using get_mapping_is_translation [of demo_vmm "0xD0000000"] by simp
qed

text \<open>
  After \<^verbatim>\<open>map_one_page\<close>, \<^verbatim>\<open>get_mapping\<close> returns the page that was mapped, cut to 32 bits and page
  aligned, with the flags that were given, except that a copy-on-write page is not writable.
\<close>

theorem map_get_roundtrip:
  assumes "vm_inv s" "own_table (pd_index v)" "map_one_page s v p flags = Inr (r, s')"
  shows "r = 0 \<and> get_mapping s' v = Inr (ucast (ucast (p AND 0xFFFFF000) :: u32), Some (map_flags flags))"
proof (cases rule: map_one_page_spec [OF assms(1,2), of p flags])
  case (1 t)
  then have eq: "r = 0" "t = s'" using assms(3) by simp_all
  have rec: "rec_ok s'" using 1(2) eq by (simp add: vm_inv_def vm_core_def tables_ok_def)
  have "space s' (vpn v) = Some (map_entry p flags)" using 1(5) eq by simp
  then have "lookup s' (vpn v) = Some (map_entry p flags)" by (simp add: space_def split: if_splits)
  then show ?thesis
    using eq by (simp add: get_mapping_eq [OF rec] frame_map_entry from_x86_flags_map_entry)
qed (use assms(3) in simp_all)

theorem map_get_roundtrip_witness:
  "\<exists>s'. map_one_page demo_vmm 0xD0000000 0x300000 PAGE_WRITE = Inr (0, s') \<and>
     get_mapping s' 0xD0000000 = Inr (0x300000, Some PAGE_WRITE)"
proof -
  have v: "own_table (pd_index 0xD0000000)" "vpn 0xD0000000 = 0xD0000" by (simp_all add: own_table_def pd_index_def vpn_def)
  have e: "space demo_vmm = Map.empty" by (simp add: demo_space fun_eq_iff)
  obtain s1 where s1: "map_one_page demo_vmm 0xD0000000 0x300000 PAGE_WRITE = Inr (0, s1)"
    by (cases rule: map_one_page_spec [OF demo_vm_inv v(1), of "0x300000" PAGE_WRITE])
      (use e v(2) demo_pmm(3) in auto)
  from map_get_roundtrip [OF demo_vm_inv v(1) this] s1 show ?thesis
    by (simp add: map_flags_def PAGE_WRITE_def PAGE_COW_def)
qed



section \<open>Spinlocks\<close>

text \<open>
  C25: Mutual exclusion on any number of cores: two cores are never between the successful
  compare-and-swap of \<^verbatim>\<open>spinlock_acquire\<close> and that of \<^verbatim>\<open>spinlock_release\<close> at the same time, and the
  compare-and-swap of a release never has to retry.
\<close>

theorem lock_mutual_exclusion:
  assumes "lock_reach cores e s" "holds_lock (core_pc s c)"
  shows "(\<forall>d. holds_lock (core_pc s d) \<longrightarrow> d = c) \<and> (core_pc s c = Leaving \<longrightarrow> lock_val (the_lock s) = 1)"
  using lock_reach_mutex [OF assms(1)] lock_reach_release [OF assms(1)] assms(2) by blast

theorem lock_mutual_exclusion_witness:
  "\<exists>s. lock_reach {0, 1} (\<lambda>_. 0x200) s \<and> core_pc s 0 = Won 0x200 \<and>
     (\<forall>d. holds_lock (core_pc s d) \<longrightarrow> d = 0)"
proof -
  let ?s = "fold lock_next [0, 0, 0] (lock_start (\<lambda>_. 0x200))"
  have r: "lock_reach {0, 1} (\<lambda>_. 0x200) ?s" by (rule lock_reach_fold [OF lock_reach.start]) simp
  have pc: "core_pc ?s 0 = Won 0x200"
    by (simp add: lock_next_def lock_start_def SPINLOCK_RELEASED_def at_pc_def)
  then have "holds_lock (core_pc ?s 0)" by simp
  from lock_mutual_exclusion [OF r this] r pc show ?thesis by blast
qed

text \<open>
  On one core, whenever the core is outside the lock its \<^verbatim>\<open>EFLAGS\<close> are what they were at the
  start, and inside the lock its interrupts are disabled.
\<close>

theorem lock_restores_flags:
  assumes "lock_reach {0} e s"
  shows "(core_pc s 0 = Idle \<longrightarrow> core_eflags s 0 = e 0) \<and>
    (core_pc s 0 = Critical \<longrightarrow> core_eflags s 0 = e 0 AND NOT 0x200)"
  using lock_reach_flag [OF assms] by (auto simp: flag_inv_def)

theorem lock_restores_flags_witness:
  "\<exists>s. lock_reach {0} (\<lambda>_. 0x202) s \<and> core_pc s 0 = Critical \<and> core_eflags s 0 = 0x2"
proof -
  let ?s = "fold lock_next [0, 0, 0, 0] (lock_start (\<lambda>_. 0x202))"
  have r: "lock_reach {0} (\<lambda>_. 0x202) ?s" by (rule lock_reach_fold [OF lock_reach.start]) simp
  have "core_pc ?s 0 = Critical"
    by (simp add: lock_next_def lock_start_def SPINLOCK_RELEASED_def at_pc_def)
  with lock_restores_flags [OF r] r show ?thesis by auto
qed

text \<open>
  C26: With two cores the flag can be lost: \<^verbatim>\<open>spinlock_release\<close> reads \<^verbatim>\<open>lock->interrupts\<close> after it has
  given the lock up, and another core may have stored its own flag there. Core 0 starts with
  interrupts enabled, acquires and releases, and ends outside the lock with interrupts disabled.
\<close>

theorem lock_flag_race:
  "\<exists>s. lock_reach {0, 1} (\<lambda>c. if c = 0 then 0x200 else 0) s \<and> core_pc s 0 = Idle \<and>
     core_eflags s 0 AND 0x200 = 0"
proof -
  let ?e = "\<lambda>c. if c = (0 :: nat) then 0x200 else 0 :: u32"
  let ?s = "fold lock_next [0, 0, 0, 0, 0, 0, 1, 1, 1, 1, 0] (lock_start ?e)"
  have r: "lock_reach {0, 1} ?e ?s" by (rule lock_reach_fold [OF lock_reach.start]) simp
  have "core_pc ?s 0 = Idle" "core_eflags ?s 0 = 0"
    by (simp_all add: lock_next_def lock_start_def SPINLOCK_RELEASED_def at_pc_def)
  with r show ?thesis by (intro exI [of _ ?s]) simp
qed

section \<open>Virtual address ranges\<close>

text \<open>
  When a block of the order is free in the range and there is enough physical memory,
  \<^verbatim>\<open>vmspace_alloc\<close> succeeds: it returns the address of an aligned free block, takes it out of the free
  addresses, and maps each of its pages, with the flags asked for, to a frame that was free and no
  longer is. Nothing else of the address space changes and the invariant is kept.
\<close>

theorem vmspace_alloc_succeeds:
  assumes "vs_inv s vms" "i \<le> top_order" "flags \<noteq> 0" "blk i k \<subseteq> vs_free s vms" "enough s i (2 ^ i)"
  shows "\<exists>j a vms' s'. vmspace_alloc s vms (2 ^ (12 + i)) flags =
      Inr (ucast (page_addr (vs_allocator vms) (j * 2 ^ i)), vms', s') \<and>
    vs_inv s' vms' \<and> blk i j \<subseteq> vs_free s vms \<and> vs_free s' vms' = vs_free s vms - blk i j \<and>
    frames_of a i \<subseteq> pmm_frames s \<and> pmm_frames s' = pmm_frames s - frames_of a i - table_frames s' \<and>
    space s' = (\<lambda>m. if vs_base vms + j * 2 ^ i \<le> m \<and> m < vs_base vms + j * 2 ^ i + 2 ^ i
      then Some (map_entry (a + of_nat ((m - (vs_base vms + j * 2 ^ i)) * 4096)) flags) else space s m)"
  using vmspace_alloc_reached [OF assms] by blast

theorem vmspace_alloc_succeeds_witness:
  "\<exists>v vms' s'. vmspace_alloc demo_vs demo_vms 0x4000 PAGE_WRITE = Inr (v, vms', s') \<and> vs_inv s' vms'"
proof -
  have "2 \<le> top_order" "PAGE_WRITE \<noteq> 0" by (simp_all add: top_order_def PAGE_WRITE_def)
  moreover have "blk 2 0 \<subseteq> vs_free demo_vs demo_vms" unfolding demo_vs(2) by (auto simp: blk_eq)
  moreover have "enough demo_vs 2 (2 ^ 2)" using demo_vs_slabs(2) demo_enough by simp
  ultimately show ?thesis using vmspace_alloc_succeeds [OF demo_vs(1), of 2 PAGE_WRITE 0] by fastforce
qed



section \<open>Slab caches\<close>





text \<open>
  C22: Of the object sizes of the kernel heap, 8 to 512, exactly those from 64 up leave the slab's bitmap
  alone: below that the last object of every slab overlaps the bitmap, which the computation of the
  number of objects does not take off.
\<close>

theorem slab_layout_sizes:
  assumes "sc_size c = 2 ^ k" "MIN_CACHESZ_LOG2 \<le> k" "k \<le> MAX_CACHESZ_LOG2" "slab_at f"
  shows "(\<forall>n < obj_num c. obj_region c f n \<inter> bm_region c f = {}) \<longleftrightarrow> 6 \<le> k"
proof
  assume all: "\<forall>n < obj_num c. obj_region c f n \<inter> bm_region c f = {}"
  show "6 \<le> k"
  proof (rule ccontr)
    assume "\<not> 6 \<le> k"
    then have "obj_region c f (obj_num c - 1) \<inter> bm_region c f \<noteq> {}"
      using slab_overlap [OF assms(1,2) _ assms(4)] by simp
    moreover have "0 < obj_num c" by (rule obj_num_pos [OF assms(1-3)])
    ultimately show False using all by simp
  qed
next
  assume "6 \<le> k"
  then show "\<forall>n < obj_num c. obj_region c f n \<inter> bm_region c f = {}"
    using obj_parts(2) [OF assms(4)] slab_sizes(1) [OF assms(1-3)] by blast
qed

theorem slab_layout_sizes_witness:
  "slab_at 0x3FFC \<and> \<not> (\<forall>n < obj_num (snd (slab_cache_create 32 0)).
     obj_region (snd (slab_cache_create 32 0)) 0x3FFC n \<inter> bm_region (snd (slab_cache_create 32 0)) 0x3FFC = {})"
proof -
  have "sc_size (snd (slab_cache_create 32 0)) = 2 ^ 5" by (simp add: slab_cache_create_def)
  moreover have "slab_at 0x3FFC" by (simp add: slab_at_def)
  ultimately show ?thesis using slab_layout_sizes [of "snd (slab_cache_create 32 0)" 5 "0x3FFC"] by (simp add: kmalloc_consts)
qed

section \<open>The kernel heap\<close>





end
